(* ===== verification/Prelude.thy ===== *)
theory Prelude
  imports Main "HOL-Library.Word" "HOL-Library.AList"
begin

text \<open>
  Shared vocabulary of the development: the machine types of the Rust sources, byte strings,
  little-endian words, checked and saturating arithmetic, the association lists that stand for
  \<open>HashMap\<close>s in some iteration order, and the three contracts (codec, keyed store, machine
  with an invariant) that the component theories interpret.
\<close>

section \<open>Types and collections of facts\<close>

type_synonym u8 = "8 word"
type_synonym u16 = "16 word"
type_synonym u32 = "32 word"
type_synonym u64 = "64 word"
type_synonym bytes = "u8 list"

text \<open>A \<open>Uuid\<close> is its 128-bit value; \<open>Uuid::nil()\<close> is zero, \<open>as_u128\<close> its order.\<close>
type_synonym uuid = "128 word"

named_theorems state_simps \<open>unfolding equations of small state predicates\<close>
named_theorems frame_simps \<open>fields an operation leaves alone\<close>

text \<open>The bytes of an ASCII literal.\<close>
definition byte_of_char :: "char \<Rightarrow> u8" where
  "byte_of_char c = of_nat (of_char c)"

definition bytes_of :: "string \<Rightarrow> bytes" where
  "bytes_of s = map byte_of_char s"

lemma length_bytes_of [simp]: "length (bytes_of s) = length s"
  by (simp add: bytes_of_def)

section \<open>Words\<close>

text \<open>\<open>checked_add(1)\<close> and \<open>saturating_add(1)\<close> of an unsigned machine integer.\<close>

definition checked_inc :: "'a::len word \<Rightarrow> 'a word option" where
  "checked_inc w = (if w = - 1 then None else Some (w + 1))"

definition saturating_inc :: "'a::len word \<Rightarrow> 'a word" where
  "saturating_inc w = (if w = - 1 then w else w + 1)"

lemma checked_inc_Some_iff: "checked_inc w = Some v \<longleftrightarrow> w \<noteq> - 1 \<and> v = w + 1"
  by (auto simp: checked_inc_def)

lemma unat_inc: "w \<noteq> - 1 \<Longrightarrow> unat (w + 1 :: 'a::len word) = unat w + 1"
  by (simp add: add.commute unatSuc eq_neg_iff_add_eq_0)

lemma checked_inc_unat: "checked_inc w = Some v \<Longrightarrow> unat v = unat w + 1"
  by (simp add: checked_inc_Some_iff unat_inc)

lemma saturating_inc_le: "w \<le> saturating_inc w"
  by (simp add: saturating_inc_def word_le_nat_alt unat_inc)

section \<open>Results\<close>

text \<open>
  A Rust \<open>Result<T, E>\<close> is a sum with the error on the left. \<open>and_then\<close> is the \<open>?\<close>
  operator followed by the rest of the function, \<open>ok_or\<close> and \<open>reject_if\<close> are the usual ways
  to produce an error.
\<close>

fun and_then :: "'e + 'a \<Rightarrow> ('a \<Rightarrow> 'e + 'b) \<Rightarrow> 'e + 'b" where
  "and_then (Inl e) f = Inl e"
| "and_then (Inr x) f = f x"

definition ok_or :: "'e \<Rightarrow> 'a option \<Rightarrow> 'e + 'a" where
  "ok_or e x = (case x of None \<Rightarrow> Inl e | Some v \<Rightarrow> Inr v)"

definition reject_if :: "bool \<Rightarrow> 'e \<Rightarrow> 'e + unit" where
  "reject_if b e = (if b then Inl e else Inr ())"

definition map_err :: "('e \<Rightarrow> 'f) \<Rightarrow> 'e + 'a \<Rightarrow> 'f + 'a" where
  "map_err h r = (case r of Inl e \<Rightarrow> Inl (h e) | Inr x \<Rightarrow> Inr x)"

named_theorems result_simps \<open>when a sequence of fallible steps succeeds or fails\<close>

lemma and_then_Inr [result_simps]: "and_then r f = Inr y \<longleftrightarrow> (\<exists>x. r = Inr x \<and> f x = Inr y)"
  by (cases r) auto

lemma and_then_Inl [result_simps]:
  "and_then r f = Inl e \<longleftrightarrow> r = Inl e \<or> (\<exists>x. r = Inr x \<and> f x = Inl e)"
  by (cases r) auto

lemma ok_or_Inr [result_simps]: "ok_or e x = Inr v \<longleftrightarrow> x = Some v"
  by (simp add: ok_or_def split: option.split)

lemma ok_or_Inl [result_simps]: "ok_or e x = Inl e' \<longleftrightarrow> x = None \<and> e' = e"
  by (auto simp: ok_or_def split: option.split)

lemma reject_if_Inr [result_simps]: "reject_if b e = Inr u \<longleftrightarrow> \<not> b"
  by (simp add: reject_if_def)

lemma reject_if_Inl [result_simps]: "reject_if b e = Inl e' \<longleftrightarrow> b \<and> e' = e"
  by (auto simp: reject_if_def)

lemma map_err_Inr [result_simps]: "map_err h r = Inr x \<longleftrightarrow> r = Inr x"
  by (simp add: map_err_def split: sum.split)

lemma map_err_Inl [result_simps]: "map_err h r = Inl f \<longleftrightarrow> (\<exists>e. r = Inl e \<and> f = h e)"
  by (auto simp: map_err_def split: sum.split)

lemma ok_or_simps [simp]: "ok_or e None = Inl e" "ok_or e (Some v) = Inr v"
  by (simp_all add: ok_or_def)

lemma reject_if_simps [simp]: "reject_if True e = Inl e" "reject_if False e = Inr ()"
  by (simp_all add: reject_if_def)

section \<open>Little-endian integers\<close>

fun le_bytes :: "nat \<Rightarrow> nat \<Rightarrow> bytes" where
  "le_bytes 0 n = []"
| "le_bytes (Suc k) n = of_nat (n mod 256) # le_bytes k (n div 256)"

fun le_val :: "bytes \<Rightarrow> nat" where
  "le_val [] = 0"
| "le_val (b # bs) = unat b + 256 * le_val bs"

lemma length_le_bytes [simp]: "length (le_bytes k n) = k"
  by (induction k arbitrary: n) auto

lemma le_val_le_bytes: "le_val (le_bytes k n) = n mod 256 ^ k"
proof (induction k arbitrary: n)
  case 0
  then show ?case by simp
next
  case (Suc k)
  have "unat (of_nat (n mod 256) :: u8) = n mod 256"
    by (simp add: unat_of_nat)
  with Suc show ?case
    by (simp add: mod_mult2_eq)
qed

lemma le_bytes_le_val: "le_bytes (length bs) (le_val bs) = bs"
proof (induction bs)
  case Nil
  then show ?case by simp
next
  case (Cons b bs)
  have b: "unat b < 256" using unsigned_less [of b] by simp
  have "(unat b + 256 * le_val bs) mod 256 = unat b"
    and "(unat b + 256 * le_val bs) div 256 = le_val bs"
    using b by auto
  with Cons show ?case by simp
qed

lemma le_val_bound: "le_val bs < 256 ^ length bs"
  by (metis le_bytes_le_val le_val_le_bytes mod_less_divisor zero_less_numeral zero_less_power)

text \<open>A codec of fixed width: what the readers of binary records rely on.\<close>

locale fixed_codec =
  fixes enc :: "'a \<Rightarrow> bytes" and dec :: "bytes \<Rightarrow> 'a" and width :: nat
  assumes enc_width: "length (enc x) = width"
    and dec_of_enc: "dec (enc x) = x"
    and enc_of_dec: "length bs = width \<Longrightarrow> enc (dec bs) = bs"
begin

lemma dec_prefix: "dec (take width (enc x @ rest)) = x"
  by (simp add: enc_width dec_of_enc)

lemma drop_prefix: "drop width (enc x @ rest) = rest"
  by (simp add: enc_width)

lemma split_prefix: "width \<le> length bs \<Longrightarrow> enc (dec (take width bs)) @ drop width bs = bs"
  by (simp add: enc_of_dec)

lemma enc_eq_iff: "enc x = enc y \<longleftrightarrow> x = y"
  by (metis dec_of_enc)

end

definition u16_le :: "u16 \<Rightarrow> bytes" where
  "u16_le w = le_bytes 2 (unat w)"

definition u32_le :: "u32 \<Rightarrow> bytes" where
  "u32_le w = le_bytes 4 (unat w)"

definition u64_le :: "u64 \<Rightarrow> bytes" where
  "u64_le w = le_bytes 8 (unat w)"

definition of_le :: "bytes \<Rightarrow> 'a::len word" where
  "of_le bs = of_nat (le_val bs)"

lemma le_word_roundtrip:
  assumes "256 ^ k = (2::nat) ^ LENGTH('a::len)"
  shows "(of_le (le_bytes k (unat w)) :: 'a word) = w"
proof -
  have "unat w < 256 ^ k" using unsigned_less [of w] assms by simp
  then show ?thesis by (simp add: of_le_def le_val_le_bytes)
qed

lemma le_bytes_roundtrip:
  assumes "256 ^ length bs = (2::nat) ^ LENGTH('a::len)"
  shows "le_bytes (length bs) (unat (of_le bs :: 'a word)) = bs"
proof -
  have "unat (of_le bs :: 'a word) = le_val bs"
    using le_val_bound [of bs] assms by (simp add: of_le_def unat_of_nat)
  then show ?thesis by (simp add: le_bytes_le_val)
qed

interpretation u16c: fixed_codec u16_le of_le 2
proof unfold_locales
  show "length bs = 2 \<Longrightarrow> u16_le (of_le bs) = bs" for bs
    using le_bytes_roundtrip [of bs, where 'a = 16] by (simp add: u16_le_def)
qed (simp_all add: u16_le_def le_word_roundtrip)

interpretation u32c: fixed_codec u32_le of_le 4
proof unfold_locales
  show "length bs = 4 \<Longrightarrow> u32_le (of_le bs) = bs" for bs
    using le_bytes_roundtrip [of bs, where 'a = 32] by (simp add: u32_le_def)
qed (simp_all add: u32_le_def le_word_roundtrip)

interpretation u64c: fixed_codec u64_le of_le 8
proof unfold_locales
  show "length bs = 8 \<Longrightarrow> u64_le (of_le bs) = bs" for bs
    using le_bytes_roundtrip [of bs, where 'a = 64] by (simp add: u64_le_def)
qed (simp_all add: u64_le_def le_word_roundtrip)

section \<open>Keyed stores\<close>

text \<open>
  A \<open>HashMap\<close> is an association list whose keys are distinct; the order of the list is the
  (unspecified) order in which the map is iterated. \<open>map_of\<close> is \<open>get\<close>,
  \<open>AList.update\<close> is \<open>insert\<close>, \<open>AList.delete\<close> is \<open>remove\<close>.
\<close>

locale keyed_store =
  fixes look :: "'m \<Rightarrow> 'k \<Rightarrow> 'v option"
    and put :: "'k \<Rightarrow> 'v \<Rightarrow> 'm \<Rightarrow> 'm"
    and del :: "'k \<Rightarrow> 'm \<Rightarrow> 'm"
    and wf :: "'m \<Rightarrow> bool"
  assumes look_put: "look (put k v m) = (look m)(k \<mapsto> v)"
    and look_del: "look (del k m) = (look m)(k := None)"
    and wf_put: "wf m \<Longrightarrow> wf (put k v m)"
    and wf_del: "wf m \<Longrightarrow> wf (del k m)"
begin

lemma look_put_same: "look (put k v m) k = Some v"
  by (simp add: look_put)

lemma look_put_other: "k' \<noteq> k \<Longrightarrow> look (put k v m) k' = look m k'"
  by (simp add: look_put)

lemma look_del_same: "look (del k m) k = None"
  by (simp add: look_del)

lemma look_del_other: "k' \<noteq> k \<Longrightarrow> look (del k m) k' = look m k'"
  by (simp add: look_del)

lemma look_put_if: "look (put k v m) k' = (if k' = k then Some v else look m k')"
  by (simp add: look_put)

lemma look_del_if: "look (del k m) k' = (if k' = k then None else look m k')"
  by (simp add: look_del)

end

definition distinct_keys :: "('k \<times> 'v) list \<Rightarrow> bool" where
  "distinct_keys m \<longleftrightarrow> distinct (map fst m)"

interpretation al: keyed_store map_of AList.update AList.delete distinct_keys
proof unfold_locales
  show "map_of (AList.update k v m) = (map_of m)(k \<mapsto> v)" for k :: 'a and v :: 'b and m
    by (rule update_conv')
  show "map_of (AList.delete k m) = (map_of m)(k := None)" for k :: 'a and m :: "('a \<times> 'b) list"
    by (rule delete_conv')
  show "distinct_keys m \<Longrightarrow> distinct_keys (AList.update k v m)" for k :: 'a and v :: 'b and m
    by (simp add: distinct_keys_def distinct_update)
  show "distinct_keys m \<Longrightarrow> distinct_keys (AList.delete k m)" for k :: 'a and m :: "('a \<times> 'b) list"
    by (simp add: distinct_keys_def distinct_delete)
qed

text \<open>\<open>get_mut\<close> followed by a change of the value; nothing happens at an absent key.\<close>

definition al_modify :: "'k \<Rightarrow> ('v \<Rightarrow> 'v) \<Rightarrow> ('k \<times> 'v) list \<Rightarrow> ('k \<times> 'v) list" where
  "al_modify k f m = map (\<lambda>(k', v). if k' = k then (k', f v) else (k', v)) m"

text \<open>\<open>retain\<close> on a map.\<close>

definition al_retain :: "('k \<Rightarrow> 'v \<Rightarrow> bool) \<Rightarrow> ('k \<times> 'v) list \<Rightarrow> ('k \<times> 'v) list" where
  "al_retain P m = filter (\<lambda>(k, v). P k v) m"

lemma map_of_al_modify:
  "map_of (al_modify k f m) k' = (if k' = k then map_option f (map_of m k) else map_of m k')"
  by (induction m) (auto simp: al_modify_def)

lemma keys_al_modify [simp]: "map fst (al_modify k f m) = map fst m"
  by (induction m) (auto simp: al_modify_def)

lemma length_al_modify [simp]: "length (al_modify k f m) = length m"
  by (simp add: al_modify_def)

lemma distinct_al_modify [simp]: "distinct_keys (al_modify k f m) = distinct_keys m"
  by (simp add: distinct_keys_def)

lemma keys_al_retain: "set (map fst (al_retain P m)) \<subseteq> set (map fst m)"
  by (auto simp: al_retain_def)

lemma distinct_al_retain: "distinct_keys m \<Longrightarrow> distinct_keys (al_retain P m)"
  unfolding distinct_keys_def al_retain_def by (rule distinct_map_filter)

lemma map_of_al_retain:
  assumes "distinct_keys m"
  shows "map_of (al_retain P m) k
    = (case map_of m k of None \<Rightarrow> None | Some v \<Rightarrow> if P k v then Some v else None)"
  using assms
proof (induction m)
  case Nil
  then show ?case by (simp add: al_retain_def)
next
  case (Cons e m)
  obtain a b where e: "e = (a, b)" by (cases e)
  have d: "distinct_keys m" and a: "a \<notin> fst ` set m"
    using Cons.prems by (auto simp: distinct_keys_def e)
  have "map_of (filter (\<lambda>(k, v). P k v) m) a = None"
    using a by (auto simp: map_of_eq_None_iff)
  moreover have "map_of m a = None"
    using a by (simp add: map_of_eq_None_iff)
  ultimately show ?case
    using Cons.IH [OF d] by (auto simp: al_retain_def e)
qed

lemma al_in_set:
  "distinct_keys m \<Longrightarrow> (k, v) \<in> set m \<longleftrightarrow> map_of m k = Some v"
  by (simp add: distinct_keys_def)

lemma map_of_Some_key: "map_of m k = Some v \<Longrightarrow> k \<in> set (map fst m)"
  by (metis map_of_eq_None_iff option.distinct(1) set_map)

lemma delete_absent: "k \<notin> fst ` set m \<Longrightarrow> AList.delete k m = m"
  by (induction m) auto

lemma length_al_delete:
  assumes "distinct_keys m" and "map_of m k \<noteq> None"
  shows "length (AList.delete k m) + 1 = length m"
  using assms by (induction m) (auto simp: distinct_keys_def delete_absent split: if_splits)

lemma length_al_update: "length (AList.update k v m) \<le> length m + 1"
  by (induction m) auto

lemma length_al_update_old: "map_of m k \<noteq> None \<Longrightarrow> length (AList.update k v m) = length m"
  by (induction m) (auto split: if_splits)

section \<open>Machines with an invariant\<close>

text \<open>
  A component whose operations are the events of a deterministic machine. The component proves
  that its start satisfies the invariant and that each event keeps it; every run keeps it.
\<close>

locale guarded_machine =
  fixes start :: 's and act :: "'s \<Rightarrow> 'e \<Rightarrow> 's" and inv :: "'s \<Rightarrow> bool"
  assumes start_inv: "inv start"
    and act_inv: "inv s \<Longrightarrow> inv (act s e)"
begin

lemma run_from_inv: "inv s \<Longrightarrow> inv (foldl act s es)"
  by (induction es arbitrary: s) (auto intro: act_inv)

lemma run_inv: "inv (foldl act start es)"
  by (rule run_from_inv) (rule start_inv)

lemma run_snoc_inv: "inv (act (foldl act start es) e)"
  by (rule act_inv) (rule run_inv)

end

text \<open>The same for a step relation, where the environment chooses the step.\<close>

locale guarded_relation =
  fixes initial :: "'s \<Rightarrow> bool" and step :: "'s \<Rightarrow> 's \<Rightarrow> bool" and inv :: "'s \<Rightarrow> bool"
  assumes initial_inv: "initial s \<Longrightarrow> inv s"
    and step_inv: "inv s \<Longrightarrow> step s t \<Longrightarrow> inv t"
begin

lemma steps_inv: "step\<^sup>*\<^sup>* s t \<Longrightarrow> inv s \<Longrightarrow> inv t"
  by (induction rule: rtranclp_induct) (auto intro: step_inv)

lemma reachable_inv: "initial s \<Longrightarrow> step\<^sup>*\<^sup>* s t \<Longrightarrow> inv t"
  by (blast intro: steps_inv initial_inv)

end

end
