(* ===== verification/ScrollbackLog.thy ===== *)
theory ScrollbackLog
  imports Prelude
begin

text \<open>
  \<open>src/state/scrollback_log.rs\<close>: the incremental scrollback log of a panel. A log is a header
  (magic, version, generation) followed by frames with consecutive sequence numbers. The reader
  accepts every log the writer produces, drops a torn tail and refuses a sequence gap; the
  appender repairs a torn tail, refuses a batch that does not continue the durable sequence and
  rolls back a failed write.
\<close>

section \<open>Frames and their encoding\<close>

definition MAGIC :: bytes where
  "MAGIC = bytes_of ''MTLG''"

definition VERSION :: u8 where
  "VERSION = 2"

definition MAX_LOG_BYTES :: nat where
  "MAX_LOG_BYTES = 1024 * 1024"

datatype frame_kind = Output | Resize | Clear

fun frame_kind_byte :: "frame_kind \<Rightarrow> u8" where
  "frame_kind_byte Output = 1"
| "frame_kind_byte Resize = 2"
| "frame_kind_byte Clear = 3"

definition frame_kind_from_u8 :: "u8 \<Rightarrow> frame_kind option" where
  "frame_kind_from_u8 value =
     (if value = 1 then Some Output
      else if value = 2 then Some Resize
      else if value = 3 then Some Clear
      else None)"

record frame =
  frame_seq :: u64
  frame_kind :: frame_kind
  frame_payload :: bytes

definition encode_header :: "u32 \<Rightarrow> bytes" where
  "encode_header generation = MAGIC @ [VERSION] @ u32_le generation"

text \<open>The length field is \<open>payload.len() as u32\<close>: it wraps at \<open>2 ^ 32\<close>.\<close>

definition encode_frame :: "u64 \<Rightarrow> frame_kind \<Rightarrow> bytes \<Rightarrow> bytes" where
  "encode_frame seq kind payload =
     u64_le seq @ [frame_kind_byte kind] @ u32_le (of_nat (length payload)) @ payload"

definition resize_payload :: "u16 \<Rightarrow> u16 \<Rightarrow> bytes" where
  "resize_payload cols rows = u16_le cols @ u16_le rows"

definition parse_resize :: "bytes \<Rightarrow> (u16 \<times> u16) option" where
  "parse_resize payload =
     (if length payload < 4 then None
      else Some (of_le (take 2 payload), of_le (take 2 (drop 2 payload))))"

section \<open>The reader\<close>

text \<open>
  The loop of \<open>read_frames_with_valid_len\<close>: \<open>None\<close> is the sequence gap, \<open>Some\<close> the frames
  read and the cursor at which reading stopped.
\<close>

function read_loop ::
  "bytes \<Rightarrow> nat \<Rightarrow> u64 option \<Rightarrow> frame list \<Rightarrow> (frame list \<times> nat) option" where
  "read_loop bs cursor previous_seq frames =
     (if cursor + 13 \<le> length bs then
        (let seq = of_le (take 8 (drop cursor bs)) in
         if (case previous_seq of None \<Rightarrow> False | Some previous \<Rightarrow> checked_inc previous \<noteq> Some seq)
         then None
         else
           (case frame_kind_from_u8 (bs ! (cursor + 8)) of
              None \<Rightarrow> Some (frames, cursor)
            | Some kind \<Rightarrow>
                (let len = unat (of_le (take 4 (drop (cursor + 9) bs)) :: u32);
                     end_at = cursor + 13 + len in
                 if end_at > length bs then Some (frames, cursor)
                 else read_loop bs end_at (Some seq)
                        (frames @ [\<lparr>frame_seq = seq, frame_kind = kind,
                                    frame_payload = take len (drop (cursor + 13) bs)\<rparr>]))))
      else Some (frames, cursor))"
  by pat_completeness auto
termination
  by (relation "measure (\<lambda>(bs, cursor, _, _). length bs - cursor)") auto

declare read_loop.simps [simp del]

definition read_frames_with_valid_len :: "bytes \<Rightarrow> (u32 \<times> frame list \<times> nat) option" where
  "read_frames_with_valid_len bs =
     (if length bs < 9 \<or> take 4 bs \<noteq> MAGIC \<or> bs ! 4 \<noteq> VERSION then None
      else
        (case read_loop bs 9 None [] of
           None \<Rightarrow> None
         | Some (frames, cursor) \<Rightarrow> Some (of_le (take 4 (drop 5 bs)), frames, cursor)))"

definition read_frames :: "bytes \<Rightarrow> (u32 \<times> frame list) option" where
  "read_frames bs = map_option (\<lambda>(generation, frames, _). (generation, frames))
     (read_frames_with_valid_len bs)"

fun renumber_loop :: "frame list \<Rightarrow> u64 \<Rightarrow> bytes \<Rightarrow> (bytes \<times> u64) option" where
  "renumber_loop [] next_seq out = Some (out, next_seq)"
| "renumber_loop (f # fs) next_seq out =
     (case checked_inc next_seq of
        None \<Rightarrow> None
      | Some next_seq' \<Rightarrow>
          renumber_loop fs next_seq'
            (out @ encode_frame next_seq (frame_kind f) (frame_payload f)))"

definition renumber_frames :: "bytes \<Rightarrow> u64 \<Rightarrow> (bytes \<times> u64) option" where
  "renumber_frames bs first_seq =
     (case read_frames (encode_header 0 @ bs) of
        None \<Rightarrow> None
      | Some (_, frames) \<Rightarrow> renumber_loop frames first_seq [])"

section \<open>The appender\<close>

text \<open>
  One log file and the outcomes the operating system may give the calls of
  \<open>append_frames_with\<close>. A failed \<open>append\<close> may have left any prefix of the batch in the file
  (\<open>written\<close> bytes); rolling back is \<open>set_len\<close> followed by \<open>sync_data\<close>.
\<close>

datatype log_error = InvalidBatch | InvalidLog | SequenceGap | OsError | AppendFailed | RollbackFailed

record log_io =
  create_ok :: bool
  read_ok :: bool
  open_ok :: bool
  truncate_ok :: bool
  seek_ok :: bool
  append_ok :: bool
  written :: nat
  rollback_len_ok :: bool
  rollback_sync_ok :: bool

definition continues :: "frame list \<Rightarrow> frame list \<Rightarrow> bool" where
  "continues existing incoming =
     (if existing = [] \<or> incoming = [] then True
      else checked_inc (frame_seq (last existing)) = Some (frame_seq (hd incoming)))"

text \<open>From \<open>set_len(valid_len)\<close> on: the file's bytes after the write and its outcome.\<close>

definition write_batch ::
  "log_io \<Rightarrow> bytes \<Rightarrow> nat \<Rightarrow> bytes \<Rightarrow> (log_error + unit) \<times> bytes" where
  "write_batch io content valid_len frames_bytes =
     (if valid_len < length content \<and> \<not> truncate_ok io then (Inl OsError, content)
      else
        (let repaired = take valid_len content in
         if \<not> seek_ok io then (Inl OsError, repaired)
         else if append_ok io then (Inr (), repaired @ frames_bytes)
         else
           (let dirty = repaired @ take (written io) frames_bytes in
            if \<not> rollback_len_ok io then (Inl RollbackFailed, dirty)
            else if \<not> rollback_sync_ok io then (Inl RollbackFailed, take valid_len dirty)
            else (Inl AppendFailed, take valid_len dirty))))"

definition append_frames ::
  "log_io \<Rightarrow> bytes option \<Rightarrow> bytes \<Rightarrow> (log_error + unit) \<times> bytes option" where
  "append_frames io file frames_bytes =
     (let incoming = encode_header 0 @ frames_bytes in
      case read_frames_with_valid_len incoming of
        None \<Rightarrow> (Inl InvalidBatch, file)
      | Some (_, incoming_frames, incoming_len) \<Rightarrow>
          if incoming_len \<noteq> length incoming then (Inl InvalidBatch, file)
          else if file = None \<and> \<not> create_ok io then (Inl OsError, file)
          else
            (let content = (case file of None \<Rightarrow> encode_header 0 | Some bs \<Rightarrow> bs) in
             if \<not> read_ok io then (Inl OsError, Some content)
             else
               (case read_frames_with_valid_len content of
                  None \<Rightarrow> (Inl InvalidLog, Some content)
                | Some (_, existing_frames, valid_len) \<Rightarrow>
                    if \<not> continues existing_frames incoming_frames then (Inl SequenceGap, Some content)
                    else if \<not> open_ok io then (Inl OsError, Some content)
                    else map_prod id Some (write_batch io content valid_len frames_bytes))))"

section \<open>What a well-formed log is\<close>

definition enc :: "frame \<Rightarrow> bytes" where
  "enc f = encode_frame (frame_seq f) (frame_kind f) (frame_payload f)"

definition encode_frames :: "frame list \<Rightarrow> bytes" where
  "encode_frames fs = concat (map enc fs)"

definition encode_log :: "u32 \<Rightarrow> frame list \<Rightarrow> bytes" where
  "encode_log generation fs = encode_header generation @ encode_frames fs"

text \<open>Consecutive sequence numbers after \<open>prev\<close>, payloads within the length field.\<close>

fun chained :: "u64 option \<Rightarrow> frame list \<Rightarrow> bool" where
  "chained prev [] = True"
| "chained prev (f # fs) =
     ((case prev of None \<Rightarrow> True | Some p \<Rightarrow> checked_inc p = Some (frame_seq f))
      \<and> length (frame_payload f) < 2 ^ 32 \<and> chained (Some (frame_seq f)) fs)"

definition last_seq :: "u64 option \<Rightarrow> frame list \<Rightarrow> u64 option" where
  "last_seq prev fs = (if fs = [] then prev else Some (frame_seq (last fs)))"

section \<open>Proofs about the reader\<close>

lemma frame_kind_from_byte [simp]: "frame_kind_from_u8 (frame_kind_byte k) = Some k"
  by (cases k) (simp_all add: frame_kind_from_u8_def)

lemma frame_kind_from_u8_Some: "frame_kind_from_u8 b = Some k \<Longrightarrow> frame_kind_byte k = b"
  by (auto simp: frame_kind_from_u8_def split: if_splits)

lemma length_header [simp]: "length (encode_header g) = 9"
  by (simp add: encode_header_def MAGIC_def u32c.enc_width)

lemma length_enc [simp]: "length (enc f) = 13 + length (frame_payload f)"
  by (simp add: enc_def encode_frame_def u64c.enc_width u32c.enc_width)

lemma encode_frames_simps [simp]:
  "encode_frames [] = []" "encode_frames (f # fs) = enc f @ encode_frames fs"
  "encode_frames (fs @ gs) = encode_frames fs @ encode_frames gs"
  by (simp_all add: encode_frames_def)

lemma last_seq_simps [simp]:
  "last_seq prev [] = prev" "last_seq prev (f # fs) = last_seq (Some (frame_seq f)) fs"
  by (simp_all add: last_seq_def)

lemma chained_append:
  "chained prev (fs @ gs) \<longleftrightarrow> chained prev fs \<and> chained (last_seq prev fs) gs"
  by (induction fs arbitrary: prev) auto

lemma len_field:
  "length p < 2 ^ 32 \<Longrightarrow> unat (of_le (u32_le (of_nat (length p))) :: u32) = length p"
  by (simp add: u32c.dec_of_enc unat_of_nat)

lemma frame_eta [simp]:
  "\<lparr>frame_seq = frame_seq f, frame_kind = frame_kind f, frame_payload = frame_payload f\<rparr> = f"
  by (cases f) simp

text \<open>The fields the reader extracts at a position where a frame is written.\<close>

lemma enc_fields:
  assumes "drop c bs = enc f @ rest"
  shows "take 8 (drop c bs) = u64_le (frame_seq f)"
    and "bs ! (c + 8) = frame_kind_byte (frame_kind f)"
    and "take 4 (drop (c + 9) bs) = u32_le (of_nat (length (frame_payload f)))"
    and "take (length (frame_payload f)) (drop (c + 13) bs) = frame_payload f"
    and "c + 13 + length (frame_payload f) \<le> length bs"
proof -
  let ?p = "frame_payload f"
  have d: "drop c bs = u64_le (frame_seq f) @ frame_kind_byte (frame_kind f)
      # u32_le (of_nat (length ?p)) @ ?p @ rest"
    using assms by (simp add: enc_def encode_frame_def)
  have dk: "drop (c + k) bs = drop k (drop c bs)" for k
    by (simp add: add.commute)
  have len: "length bs - c = 13 + length ?p + length rest"
    using assms by (metis length_append length_drop length_enc)
  show "take 8 (drop c bs) = u64_le (frame_seq f)"
    by (simp add: d u64c.enc_width)
  have "bs ! (c + 8) = drop c bs ! 8"
    using len by (simp add: nth_drop)
  then show "bs ! (c + 8) = frame_kind_byte (frame_kind f)"
    by (simp add: d nth_append u64c.enc_width)
  show "take 4 (drop (c + 9) bs) = u32_le (of_nat (length ?p))"
    unfolding dk d by (simp add: u64c.enc_width u32c.enc_width)
  show "take (length ?p) (drop (c + 13) bs) = ?p"
    unfolding dk d by (simp add: u64c.enc_width u32c.enc_width)
  show "c + 13 + length ?p \<le> length bs"
    using len by linarith
qed

lemma read_loop_frame:
  assumes "drop c bs = enc f @ rest" and "chained prev [f]"
  shows "read_loop bs c prev fs
    = read_loop bs (c + length (enc f)) (Some (frame_seq f)) (fs @ [f])"
proof -
  note fields = enc_fields [OF assms(1)]
  have prev: "\<not> (case prev of None \<Rightarrow> False | Some p \<Rightarrow> checked_inc p \<noteq> Some (frame_seq f))"
    using assms(2) by (auto split: option.splits)
  have len: "unat (of_le (take 4 (drop (c + 9) bs)) :: u32) = length (frame_payload f)"
    using assms(2) by (simp add: fields(3) len_field)
  show ?thesis
    using fields(5) prev
    by (subst read_loop.simps)
      (simp add: fields(1,2,4) len u64c.dec_of_enc Let_def add.assoc)
qed

lemma read_loop_frames:
  assumes "drop c bs = encode_frames gs @ rest" and "chained prev gs"
  shows "read_loop bs c prev fs
    = read_loop bs (c + length (encode_frames gs)) (last_seq prev gs) (fs @ gs)"
  using assms
proof (induction gs arbitrary: c prev fs)
  case Nil
  then show ?case by simp
next
  case (Cons g gs)
  have here: "drop c bs = enc g @ (encode_frames gs @ rest)" using Cons.prems(1) by simp
  have "drop (c + length (enc g)) bs = drop (length (enc g)) (drop c bs)"
    by (simp add: add.commute)
  then have "drop (c + length (enc g)) bs = encode_frames gs @ rest" using here by simp
  then have "read_loop bs (c + length (enc g)) (Some (frame_seq g)) (fs @ [g])
    = read_loop bs (c + length (enc g) + length (encode_frames gs))
        (last_seq (Some (frame_seq g)) gs) ((fs @ [g]) @ gs)"
    using Cons.prems(2) by (intro Cons.IH) simp_all
  moreover have "chained prev [g]" using Cons.prems(2) by simp
  ultimately show ?case
    using read_loop_frame [OF here, of prev fs] by (simp add: add.assoc)
qed

text \<open>Reading stops where fewer bytes than the next frame are left.\<close>

lemma read_loop_torn:
  assumes "drop c bs = take k (enc f)" and "k < length (enc f)" and "chained prev [f]"
    and "c \<le> length bs"
  shows "read_loop bs c prev fs = Some (fs, c)"
proof -
  have "length bs - c = k" if "k < length (enc f)"
    using arg_cong [OF assms(1), of length] that by simp
  then have len: "length bs = c + k" using assms(2,4) by simp
  show ?thesis
  proof (cases "13 \<le> k")
    case False
    then show ?thesis by (subst read_loop.simps) (simp add: len)
  next
    case True
    let ?p = "take (k - 13) (frame_payload f)"
    have tk: "take k (enc f) = u64_le (frame_seq f) @ frame_kind_byte (frame_kind f)
        # u32_le (of_nat (length (frame_payload f))) @ ?p"
    proof -
      have "k = 8 + (1 + (4 + (k - 13)))" using True by simp
      then have "take k (enc f) = take (8 + (1 + (4 + (k - 13)))) (enc f)" by simp
      then show ?thesis
        by (simp add: enc_def encode_frame_def u64c.enc_width u32c.enc_width take_Cons')
    qed
    have dk: "drop (c + j) bs = drop j (drop c bs)" for j
      by (simp add: add.commute)
    have seq: "take 8 (drop c bs) = u64_le (frame_seq f)"
      by (simp add: assms(1) tk u64c.enc_width)
    have "bs ! (c + 8) = drop c bs ! 8" using len True by (simp add: nth_drop)
    then have kind: "bs ! (c + 8) = frame_kind_byte (frame_kind f)"
      by (simp add: assms(1) tk nth_append u64c.enc_width)
    have "take 4 (drop (c + 9) bs) = u32_le (of_nat (length (frame_payload f)))"
      unfolding dk assms(1) tk by (simp add: u64c.enc_width u32c.enc_width)
    then have ln: "unat (of_le (take 4 (drop (c + 9) bs)) :: u32) = length (frame_payload f)"
      using assms(3) by (simp add: len_field)
    have prev: "\<not> (case prev of None \<Rightarrow> False | Some p \<Rightarrow> checked_inc p \<noteq> Some (frame_seq f))"
      using assms(3) by (auto split: option.splits)
    have over: "length bs < c + 13 + length (frame_payload f)" using len assms(2) by simp
    show ?thesis
      using True len prev over
      by (subst read_loop.simps) (simp add: seq kind ln u64c.dec_of_enc Let_def)
  qed
qed

text \<open>Re-encoding the fields the reader extracted gives back the bytes it read.\<close>

lemma read_enc_back:
  assumes "c + 13 \<le> length bs" and "frame_kind_from_u8 (bs ! (c + 8)) = Some k"
    and "l = unat (of_le (take 4 (drop (c + 9) bs)) :: u32)" and "c + 13 + l \<le> length bs"
  shows "take (13 + l) (drop c bs) = enc \<lparr>frame_seq = of_le (take 8 (drop c bs)),
    frame_kind = k, frame_payload = take l (drop (c + 13) bs)\<rparr>"
proof -
  have s: "u64_le (of_le (take 8 (drop c bs))) = take 8 (drop c bs)"
    using assms(1) by (intro u64c.enc_of_dec) simp
  have "u32_le (of_le (take 4 (drop (c + 9) bs))) = take 4 (drop (c + 9) bs)"
    using assms(1) by (intro u32c.enc_of_dec) simp
  then have n: "u32_le (of_nat l) = take 4 (drop (c + 9) bs)"
    by (simp add: assms(3))
  have k: "[frame_kind_byte k] = take 1 (drop (c + 8) bs)"
    using assms(1) frame_kind_from_u8_Some [OF assms(2)]
    by (simp add: take_Suc_conv_app_nth Cons_nth_drop_Suc [symmetric])
  have "take (13 + l) (drop c bs) = take 8 (drop c bs) @ take 1 (drop (c + 8) bs)
      @ take 4 (drop (c + 9) bs) @ take l (drop (c + 13) bs)"
    using take_add [of 8 "1 + (4 + l)" "drop c bs"] take_add [of 1 "4 + l" "drop (c + 8) bs"]
      take_add [of 4 l "drop (c + 9) bs"]
    by (simp add: add.commute)
  then show ?thesis
    using assms(4) by (simp add: enc_def encode_frame_def s n k)
qed

lemma read_loop_end: "length bs \<le> c \<Longrightarrow> read_loop bs c prev fs = Some (fs, c)"
  by (subst read_loop.simps) simp

text \<open>
  Soundness on arbitrary bytes: what is read is the encoding of the consumed prefix, and its
  sequence numbers are consecutive.
\<close>

lemma read_loop_sound:
  assumes "read_loop bs c prev fs = Some (fs', n)" and "c \<le> length bs"
  shows "\<exists>gs. fs' = fs @ gs \<and> n = c + length (encode_frames gs) \<and> n \<le> length bs
    \<and> take (length (encode_frames gs)) (drop c bs) = encode_frames gs \<and> chained prev gs"
  using assms
proof (induction bs c prev fs arbitrary: fs' n rule: read_loop.induct)
  case (1 bs c prev fs)
  define s :: u64 where "s = of_le (take 8 (drop c bs))"
  define l where "l = unat (of_le (take 4 (drop (c + 9) bs)) :: u32)"
  have stop: ?case if "fs' = fs" "n = c"
    using that "1.prems"(2) by (intro exI [of _ "[]"]) simp
  show ?case
  proof (cases "c + 13 \<le> length bs")
    case False
    then show ?thesis using "1.prems"(1) stop by (subst (asm) read_loop.simps) simp
  next
    case c13: True
    have unf: "read_loop bs c prev fs =
      (if (case prev of None \<Rightarrow> False | Some p \<Rightarrow> checked_inc p \<noteq> Some s) then None
       else (case frame_kind_from_u8 (bs ! (c + 8)) of None \<Rightarrow> Some (fs, c)
         | Some k \<Rightarrow> if c + 13 + l > length bs then Some (fs, c)
             else read_loop bs (c + 13 + l) (Some s) (fs @ [\<lparr>frame_seq = s, frame_kind = k,
               frame_payload = take l (drop (c + 13) bs)\<rparr>])))"
      using c13 unfolding s_def l_def read_loop.simps [of bs c prev fs] Let_def by simp
    note ret = "1.prems"(1) [unfolded unf]
    show ?thesis
    proof (cases "case prev of None \<Rightarrow> False | Some p \<Rightarrow> checked_inc p \<noteq> Some s")
      case True
      then obtain p where "prev = Some p" "checked_inc p \<noteq> Some s" by (cases prev) auto
      then show ?thesis using ret by simp
    next
      case ok: False
      show ?thesis
      proof (cases "frame_kind_from_u8 (bs ! (c + 8))")
        case None
        then show ?thesis using ret ok stop by auto
      next
        case kind: (Some k)
        show ?thesis
        proof (cases "c + 13 + l > length bs")
          case True
          then show ?thesis using ret ok kind stop by auto
        next
          case fits: False
          define f where "f = \<lparr>frame_seq = s, frame_kind = k,
            frame_payload = take l (drop (c + 13) bs)\<rparr>"
          have rec: "read_loop bs (c + 13 + l) (Some s) (fs @ [f]) = Some (fs', n)"
            using ret ok kind fits by (auto simp: f_def)
          have "\<exists>gs. fs' = (fs @ [f]) @ gs \<and> n = c + 13 + l + length (encode_frames gs)
            \<and> n \<le> length bs
            \<and> take (length (encode_frames gs)) (drop (c + 13 + l) bs) = encode_frames gs
            \<and> chained (Some s) gs"
            using "1.IH" [OF c13 refl _ kind refl refl, folded s_def l_def, folded f_def, OF ok] fits rec
            by (simp add: not_less)
          then obtain gs where gs: "fs' = (fs @ [f]) @ gs" "n = c + 13 + l + length (encode_frames gs)"
            "n \<le> length bs" "take (length (encode_frames gs)) (drop (c + 13 + l) bs) = encode_frames gs"
            "chained (Some s) gs" by blast
          have pl: "length (frame_payload f) = l" using fits by (simp add: f_def)
          have lb: "l < 2 ^ 32" using unsigned_less [of "of_le (take 4 (drop (c + 9) bs)) :: u32"]
            by (simp add: l_def)
          have encf: "take (13 + l) (drop c bs) = enc f"
            using read_enc_back [of c bs k l] c13 fits kind by (simp add: f_def s_def l_def)
          have "take (13 + l + length (encode_frames gs)) (drop c bs)
            = enc f @ encode_frames gs"
            unfolding take_add [of "13 + l"] drop_drop encf
            using gs(4) by (simp add: ac_simps)
          moreover have "chained prev (f # gs)"
            using ok gs(5) lb pl by (auto simp: f_def split: option.splits)
          ultimately show ?thesis
            using gs(1-3) pl by (intro exI [of _ "f # gs"]) (simp add: add.assoc)
        qed
      qed
    qed
  qed
qed

section \<open>Whole logs\<close>

text \<open>Cutting a run of encoded frames anywhere leaves whole frames and one torn frame.\<close>

lemma cut_frames:
  assumes "k \<le> length (encode_frames gs)"
  shows "\<exists>m r. m \<le> length gs \<and> take k (encode_frames gs) = encode_frames (take m gs) @ r
    \<and> (m = length gs \<and> r = []
       \<or> m < length gs \<and> (\<exists>j < length (enc (gs ! m)). r = take j (enc (gs ! m))))"
  using assms
proof (induction gs arbitrary: k)
  case Nil
  then show ?case by simp
next
  case (Cons g gs)
  show ?case
  proof (cases "k < length (enc g)")
    case True
    then have "take k (encode_frames (g # gs)) = encode_frames (take 0 (g # gs)) @ take k (enc g)"
      by simp
    then show ?thesis using True by (intro exI [of _ 0] exI [of _ "take k (enc g)"]) auto
  next
    case False
    then have "k - length (enc g) \<le> length (encode_frames gs)" using Cons.prems by simp
    from Cons.IH [OF this] obtain m r where m: "m \<le> length gs"
      "take (k - length (enc g)) (encode_frames gs) = encode_frames (take m gs) @ r"
      "m = length gs \<and> r = []
       \<or> m < length gs \<and> (\<exists>j < length (enc (gs ! m)). r = take j (enc (gs ! m)))" by blast
    have "take k (encode_frames (g # gs)) = enc g @ take (k - length (enc g)) (encode_frames gs)"
      using False by simp
    with m show ?thesis by (intro exI [of _ "Suc m"] exI [of _ r]) auto
  qed
qed

lemma header_checks:
  "take 4 (encode_header g @ r) = MAGIC" "(encode_header g @ r) ! 4 = VERSION"
  "take 4 (drop 5 (encode_header g @ r)) = u32_le g" "drop 9 (encode_header g @ r) = r"
  by (simp_all add: encode_header_def MAGIC_def u32c.enc_width bytes_of_def nth_append)

lemma read_header:
  "read_frames_with_valid_len (encode_header g @ r) =
    map_option (\<lambda>(frames, n). (g, frames, n)) (read_loop (encode_header g @ r) 9 None [])"
  unfolding read_frames_with_valid_len_def header_checks
  by (simp add: u32c.dec_of_enc split: option.splits)

text \<open>Reading whole frames followed by a torn one.\<close>

lemma read_cut:
  assumes "chained None gs" and "m \<le> length gs"
    and "m = length gs \<and> r = []
       \<or> m < length gs \<and> (\<exists>j < length (enc (gs ! m)). r = take j (enc (gs ! m)))"
  shows "read_frames_with_valid_len (encode_log g (take m gs) @ r)
    = Some (g, take m gs, length (encode_log g (take m gs)))"
proof -
  let ?bs = "encode_header g @ encode_frames (take m gs) @ r"
  let ?c = "9 + length (encode_frames (take m gs))"
  have ch: "chained None (take m gs)" "chained (last_seq None (take m gs)) (drop m gs)"
    using assms(1) chained_append [of None "take m gs" "drop m gs"] by auto
  have d: "drop 9 ?bs = encode_frames (take m gs) @ r" by simp
  have rest: "drop ?c ?bs = r" by simp
  have "read_loop ?bs ?c (last_seq None (take m gs)) (take m gs) = Some (take m gs, ?c)"
  proof (cases "m = length gs")
    case True
    then have "r = []" using assms(3) by auto
    then show ?thesis by (intro read_loop_end) simp
  next
    case False
    then obtain j where j: "j < length (enc (gs ! m))" "r = take j (enc (gs ! m))" "m < length gs"
      using assms(2,3) by auto
    have "chained (last_seq None (take m gs)) [gs ! m]"
      using ch(2) j(3) by (simp add: Cons_nth_drop_Suc [symmetric])
    then show ?thesis
      using j rest by (intro read_loop_torn [where f = "gs ! m" and k = j]) simp_all
  qed
  then have "read_loop ?bs 9 None [] = Some (take m gs, ?c)"
    using read_loop_frames [OF d ch(1), of "[]"] by simp
  then show ?thesis by (simp add: encode_log_def read_header)
qed

lemma read_log:
  assumes "chained None fs"
  shows "read_frames_with_valid_len (encode_log g fs) = Some (g, fs, length (encode_log g fs))"
  using read_cut [OF assms, of "length fs" "[]" g] by simp

text \<open>
  C19: The log reader inverts the log writer: for every generation and every list of frames
  with consecutive sequence numbers (and payloads that fit the 32-bit length field), reading the
  encoded log returns exactly that generation and those frames and consumes every byte.
\<close>
theorem log_roundtrip:
  assumes "chained None fs"
  shows "read_frames_with_valid_len (encode_log g fs) = Some (g, fs, length (encode_log g fs))
    \<and> read_frames (encode_log g fs) = Some (g, fs)"
  using read_log [OF assms] by (simp_all add: read_frames_def)

definition demo_frames :: "frame list" where
  "demo_frames = [\<lparr>frame_seq = 7, frame_kind = Output, frame_payload = [104, 105]\<rparr>,
    \<lparr>frame_seq = 8, frame_kind = Clear, frame_payload = []\<rparr>]"

lemma demo_chained: "chained None demo_frames"
  by (simp add: demo_frames_def checked_inc_def)

theorem log_roundtrip_witness:
  "read_frames (encode_log 3 demo_frames) = Some (3, demo_frames) \<and> length demo_frames = 2"
  using log_roundtrip [OF demo_chained, of 3] by (simp add: demo_frames_def)

text \<open>
  A log cut off anywhere after its header (a crash in the middle of a write) still
  reads: the reader returns the longest run of complete frames that survived the cut and the
  exact length at which the torn tail begins, so the writer can truncate there.
\<close>
theorem torn_log_reads_complete_frames:
  assumes "chained None fs" and "9 \<le> k" and "k \<le> length (encode_log g fs)"
  shows "\<exists>m \<le> length fs.
    read_frames_with_valid_len (take k (encode_log g fs))
      = Some (g, take m fs, length (encode_log g (take m fs)))
    \<and> length (encode_log g (take m fs)) \<le> k
    \<and> (m < length fs \<longrightarrow> k < length (encode_log g (take (Suc m) fs)))"
proof -
  have "k - 9 \<le> length (encode_frames fs)" using assms(3) by (simp add: encode_log_def)
  from cut_frames [OF this] obtain m r where m: "m \<le> length fs"
    "take (k - 9) (encode_frames fs) = encode_frames (take m fs) @ r"
    "m = length fs \<and> r = []
       \<or> m < length fs \<and> (\<exists>j < length (enc (fs ! m)). r = take j (enc (fs ! m)))" by blast
  have cut: "take k (encode_log g fs) = encode_log g (take m fs) @ r"
    using assms(2) m(2) by (simp add: encode_log_def)
  have len: "k = length (encode_log g (take m fs)) + length r"
    using arg_cong [OF cut, of length] assms(3) by simp
  moreover have "k < length (encode_log g (take (Suc m) fs))" if "m < length fs"
    using that len m(3) by (auto simp: take_Suc_conv_app_nth encode_log_def)
  ultimately show ?thesis
    using read_cut [OF assms(1) m(1,3), of g] m(1) cut by (intro exI [of _ m]) simp
qed

theorem torn_log_witness:
  "\<exists>m \<le> length demo_frames.
    read_frames_with_valid_len (take 20 (encode_log 3 demo_frames))
      = Some (3, take m demo_frames, length (encode_log 3 (take m demo_frames)))
    \<and> length (encode_log 3 (take m demo_frames)) \<le> 20
    \<and> (m < length demo_frames \<longrightarrow> 20 < length (encode_log 3 (take (Suc m) demo_frames)))"
  by (rule torn_log_reads_complete_frames [OF demo_chained])
    (simp_all add: encode_log_def demo_frames_def)

lemma sound_read:
  assumes "read_frames_with_valid_len bs = Some (g, fs, n)"
  shows "n \<le> length bs \<and> take n bs = encode_log g fs \<and> chained None fs"
proof -
  from assms have h: "9 \<le> length bs" "take 4 bs = MAGIC" "bs ! 4 = VERSION"
    and g: "g = of_le (take 4 (drop 5 bs))" and loop: "read_loop bs 9 None [] = Some (fs, n)"
    by (auto simp: read_frames_with_valid_len_def split: if_splits option.splits)
  from read_loop_sound [OF loop h(1)] have s: "n = 9 + length (encode_frames fs)" "n \<le> length bs"
    "take (length (encode_frames fs)) (drop 9 bs) = encode_frames fs" "chained None fs" by auto
  have "take 9 bs = take 4 bs @ take 1 (drop 4 bs) @ take 4 (drop 5 bs)"
    using take_add [of 4 "1 + 4" bs] take_add [of 1 4 "drop 4 bs"] by simp
  also have "take 1 (drop 4 bs) = [VERSION]"
    using h by (simp add: take_Suc_conv_app_nth Cons_nth_drop_Suc [symmetric])
  also have "take 4 (drop 5 bs) = u32_le g"
    using h(1) by (simp add: g u32c.enc_of_dec)
  finally have "take 9 bs = encode_header g" by (simp add: encode_header_def h(2))
  then have "take n bs = encode_log g fs"
    using s(1,3) take_add [of 9 "length (encode_frames fs)" bs] by (simp add: encode_log_def)
  with s show ?thesis by simp
qed

text \<open>
  The reader is sound on arbitrary bytes: whatever file it accepts, the part it
  declares valid is the encoding of the frames it returns, and their sequence numbers have no
  gap; a file with a foreign header or a sequence gap is refused.
\<close>
theorem read_frames_sound:
  assumes "read_frames_with_valid_len bs = Some (g, fs, n)"
  shows "n \<le> length bs \<and> take n bs = encode_log g fs \<and> chained None fs"
  using assms by (rule sound_read)

theorem read_frames_sound_witness:
  "take 37 (encode_log 3 demo_frames @ [1, 2]) = encode_log 3 demo_frames"
proof -
  have "read_frames_with_valid_len (encode_log 3 demo_frames @ [1, 2])
    = Some (3, demo_frames, 37)"
    by (simp add: demo_frames_def) code_simp
  from read_frames_sound [OF this] show ?thesis by simp
qed

section \<open>Appending\<close>

lemma encode_header_eq_iff [simp]: "encode_header g @ r = encode_header h @ s \<longleftrightarrow> g = h \<and> r = s"
  by (auto simp: encode_header_def u32c.enc_eq_iff u32c.enc_width append_eq_append_conv)

lemma read_valid_batch:
  assumes "read_frames_with_valid_len (encode_header 0 @ batch) = Some (g, new, n)"
    and "n = length (encode_header 0 @ batch)"
  shows "batch = encode_frames new \<and> chained None new"
  using sound_read [OF assms(1)] assms(2) by (auto simp: encode_log_def)

lemma chained_join:
  assumes "chained None old" and "chained None new" and "continues old new"
  shows "chained None (old @ new)"
  using assms by (cases new) (auto simp: chained_append last_seq_def continues_def split: if_splits)

lemma chained_last:
  "chained (Some p) fs \<Longrightarrow> fs \<noteq> [] \<Longrightarrow> unat (frame_seq (last fs)) = unat p + length fs"
proof (induction fs arbitrary: p)
  case Nil
  then show ?case by simp
next
  case (Cons f fs)
  have "unat (frame_seq f) = unat p + 1" using Cons.prems(1) checked_inc_unat by auto
  then show ?case using Cons by (cases "fs = []") auto
qed

lemma chained_bounded: "chained prev fs \<Longrightarrow> f \<in> set fs \<Longrightarrow> length (frame_payload f) < 2 ^ 32"
  by (induction fs arbitrary: prev) auto

text \<open>A batch of which some frames are already in the file cannot be appended again.\<close>

lemma no_second_start:
  assumes "chained None new" and "0 < m" and "m \<le> length new"
  shows "\<not> continues (old @ take m new) new"
proof
  assume c: "continues (old @ take m new) new"
  obtain f fs where new: "new = f # fs" using assms by (cases new) auto
  obtain k where m: "m = Suc k" using assms(2) by (cases m) auto
  have "checked_inc (frame_seq (last (take m new))) = Some (frame_seq f)"
    using c new m by (simp add: continues_def)
  then have "unat (frame_seq f) = unat (frame_seq (last (take m new))) + 1"
    by (rule checked_inc_unat)
  moreover have "unat (frame_seq (last (take m new))) \<ge> unat (frame_seq f)"
  proof (cases "take k fs = []")
    case True
    then show ?thesis by (simp add: new m)
  next
    case False
    have "chained (Some (frame_seq f)) (take k fs)"
      using assms(1) chained_append [of "Some (frame_seq f)" "take k fs" "drop k fs"]
      by (simp add: new)
    from chained_last [OF this False] False show ?thesis by (simp add: new m)
  qed
  ultimately show False by simp
qed

text \<open>The appender's result, once its guards have passed.\<close>

lemma append_frames_cases:
  assumes "append_frames io (Some b) batch = (res, out)"
    and "read_frames_with_valid_len b = Some (g, old, n)"
  shows "out = Some b \<and> res \<noteq> Inr ()
    \<or> (\<exists>new. batch = encode_frames new \<and> chained None new \<and> continues old new
         \<and> write_batch io b n batch = (res, the out) \<and> out \<noteq> None)"
proof (cases "read_frames_with_valid_len (encode_header 0 @ batch)")
  case None
  then show ?thesis using assms by (auto simp: append_frames_def)
next
  case (Some x)
  obtain h new k where x: "x = (h, new, k)" by (cases x) auto
  show ?thesis
  proof (cases "k = length (encode_header 0 @ batch) \<and> read_ok io \<and> continues old new \<and> open_ok io")
    case False
    then show ?thesis using assms Some x by (auto simp: append_frames_def Let_def split: if_splits)
  next
    case True
    then have "write_batch io b n batch = (res, the out) \<and> out \<noteq> None"
      using assms Some x
      by (cases "write_batch io b n batch") (auto simp: append_frames_def Let_def)
    then show ?thesis
      using read_valid_batch [of batch h new k] Some x True by blast
  qed
qed

lemma append_extends:
  assumes "read_frames_with_valid_len b = Some (g, old, n)"
    and "append_frames io (Some b) batch = (Inr (), Some b')"
  shows "\<exists>new. batch = encode_frames new \<and> b' = encode_log g (old @ new)
    \<and> read_frames_with_valid_len b' = Some (g, old @ new, length b')"
proof -
  note sound = sound_read [OF assms(1)]
  obtain new where new: "batch = encode_frames new" "chained None new" "continues old new"
    and w: "write_batch io b n batch = (Inr (), b')"
    using append_frames_cases [OF assms(2,1)] by auto
  have "b' = take n b @ batch"
    using w by (auto simp: write_batch_def Let_def split: if_splits)
  then have b': "b' = encode_log g (old @ new)"
    using sound new(1) by (simp add: encode_log_def)
  have "chained None (old @ new)"
    using sound new by (intro chained_join) simp_all
  then show ?thesis using read_log [of "old @ new" g] b' new(1) by auto
qed

text \<open>
  A successful append is durable and complete: the log that was there (after its
  torn tail is cut off) and the whole batch are one log, which reads back as the old frames
  followed by the frames of the batch, with no gap and no byte left over.
\<close>
theorem append_extends_log:
  assumes "read_frames_with_valid_len b = Some (g, old, n)"
    and "append_frames io (Some b) batch = (Inr (), Some b')"
  shows "\<exists>new. batch = encode_frames new \<and> b' = encode_log g (old @ new)
    \<and> read_frames_with_valid_len b' = Some (g, old @ new, length b')"
  using assms by (rule append_extends)

definition demo_io :: log_io where
  "demo_io = \<lparr>create_ok = True, read_ok = True, open_ok = True, truncate_ok = True,
    seek_ok = True, append_ok = True, written = 0, rollback_len_ok = True,
    rollback_sync_ok = True\<rparr>"

definition demo_more :: "frame list" where
  "demo_more = [\<lparr>frame_seq = 9, frame_kind = Resize, frame_payload = [80, 0, 24, 0]\<rparr>]"

lemma demo_more_read:
  "read_frames_with_valid_len (encode_header 0 @ encode_frames demo_more)
    = Some (0, demo_more, length (encode_header 0 @ encode_frames demo_more))"
  using read_log [of demo_more 0] by (simp add: encode_log_def demo_more_def)

lemma demo_torn_read:
  "read_frames_with_valid_len (encode_log 3 demo_frames @ take 5 (enc (hd demo_more)))
    = Some (3, demo_frames, 37)"
  by (simp add: demo_frames_def demo_more_def) code_simp

theorem append_extends_log_witness:
  "\<exists>new. encode_frames demo_more = encode_frames new
    \<and> encode_log 3 (demo_frames @ demo_more) = encode_log 3 (demo_frames @ new)
    \<and> read_frames_with_valid_len (encode_log 3 (demo_frames @ demo_more))
        = Some (3, demo_frames @ new, length (encode_log 3 (demo_frames @ demo_more)))"
proof (rule append_extends_log [OF demo_torn_read, of demo_io])
  have "length (encode_log 3 demo_frames) = 37" by (simp add: encode_log_def demo_frames_def)
  moreover have "continues demo_frames demo_more"
    by (simp add: continues_def demo_frames_def demo_more_def checked_inc_def)
  ultimately show "append_frames demo_io (Some (encode_log 3 demo_frames
        @ take 5 (enc (hd demo_more)))) (encode_frames demo_more)
      = (Inr (), Some (encode_log 3 (demo_frames @ demo_more)))"
    by (simp add: append_frames_def demo_more_read demo_torn_read demo_io_def write_batch_def
        encode_log_def [of 3 "demo_frames @ demo_more"] Let_def)
      (simp add: encode_log_def)
qed

lemma encode_frames_inj:
  "chained None fs \<Longrightarrow> chained None gs \<Longrightarrow> encode_frames fs = encode_frames gs \<Longrightarrow> fs = gs"
  using read_log [of fs 0] read_log [of gs 0] by (simp add: encode_log_def)

text \<open>
  What the log reads as after a failed append: its old frames, and behind them complete frames of
  the batch only when neither the write nor the rollback worked.
\<close>

lemma failed_append_reads:
  assumes "read_frames_with_valid_len b = Some (g, old, n)"
    and "append_frames io (Some b) batch = (Inl e, out)"
  obtains b' kept n' where "out = Some b'" "read_frames_with_valid_len b' = Some (g, old @ kept, n')"
    "kept = [] \<or> e = RollbackFailed \<and> \<not> append_ok io \<and> \<not> rollback_len_ok io
       \<and> (\<exists>new m. batch = encode_frames new \<and> chained None new \<and> continues old new
            \<and> m \<le> length new \<and> kept = take m new)"
proof -
  note sound = sound_read [OF assms(1)]
  from append_frames_cases [OF assms(2,1)] consider "out = Some b"
    | new b' where "out = Some b'" "batch = encode_frames new" "chained None new" "continues old new"
        "write_batch io b n batch = (Inl e, b')" by auto
  then show thesis
  proof cases
    case 1
    then show thesis using that [of b "[]"] assms(1) by simp
  next
    case 2
    have old: "take n b = encode_log g old" "chained None old" "n = length (encode_log g old)"
      using sound by (simp_all, metis length_take min.absorb2)
    have j: "chained None (old @ new)" using 2 old(2) by (intro chained_join)
    consider "b' = b" | "b' = encode_log g old"
      | "e = RollbackFailed" "\<not> append_ok io" "\<not> rollback_len_ok io"
        "b' = encode_log g old @ take (written io) batch"
      using 2(5) old by (auto simp: write_batch_def Let_def split: if_splits)
    then show thesis
    proof cases
      case 1
      then show thesis using that [of b "[]"] 2(1) assms(1) by simp
    next
      case b: 2
      show thesis using that [of b' "[]"] 2(1) read_log [OF old(2), of g] b by simp
    next
      case dirty: 3
      let ?k = "min (written io) (length (encode_frames new))"
      obtain m r where m: "m \<le> length new" "take ?k (encode_frames new) = encode_frames (take m new) @ r"
        "m = length new \<and> r = []
          \<or> m < length new \<and> (\<exists>j < length (enc (new ! m)). r = take j (enc (new ! m)))"
        using cut_frames [of ?k new] by auto
      let ?t = "length old + m"
      have tk: "take ?t (old @ new) = old @ take m new" by simp
      have "b' = encode_log g (old @ take m new) @ r"
        using dirty(4) m(2) 2(2) by (simp add: encode_log_def min_def split: if_splits)
      moreover have "?t = length (old @ new) \<and> r = []
          \<or> ?t < length (old @ new)
            \<and> (\<exists>j < length (enc ((old @ new) ! ?t)). r = take j (enc ((old @ new) ! ?t)))"
        using m(1,3) by auto
      ultimately have "read_frames_with_valid_len b'
          = Some (g, old @ take m new, length (encode_log g (old @ take m new)))"
        using read_cut [OF j, of ?t r g] m(1) tk by simp
      then show thesis using that [of b' "take m new"] 2 dirty(1-3) m(1) by blast
    qed
  qed
qed

text \<open>
  A failed append loses nothing and a retry never duplicates output. After any
  failure the log still reads with all its old frames, and with exactly those when the rollback
  worked; and if the same batch is then retried successfully, whatever happened to the rollback,
  the log holds the old frames and the batch exactly once.
\<close>
theorem failed_append_is_safe:
  assumes "read_frames_with_valid_len b = Some (g, old, n)"
    and "append_frames io (Some b) batch = (Inl e, Some b')"
  shows "\<exists>kept n'. read_frames_with_valid_len b' = Some (g, old @ kept, n')
    \<and> (e \<noteq> RollbackFailed \<longrightarrow> kept = [])
    \<and> (\<forall>io' b''. append_frames io' (Some b') batch = (Inr (), Some b'') \<longrightarrow>
         (\<exists>new. batch = encode_frames new \<and> b'' = encode_log g (old @ new)))"
proof -
  obtain kept n' where r: "read_frames_with_valid_len b' = Some (g, old @ kept, n')"
    and k: "kept = [] \<or> e = RollbackFailed \<and> (\<exists>new m. batch = encode_frames new \<and> chained None new
      \<and> continues old new \<and> m \<le> length new \<and> kept = take m new)"
    using failed_append_reads [OF assms] by (metis option.inject)
  have "\<exists>new. batch = encode_frames new \<and> b'' = encode_log g (old @ new)"
    if a: "append_frames io' (Some b') batch = (Inr (), Some b'')" for io' b''
  proof (cases "kept = []")
    case True
    then show ?thesis using append_extends [OF r a] by auto
  next
    case False
    then obtain new m where n: "batch = encode_frames new" "chained None new" "m \<le> length new"
      "kept = take m new" using k by blast
    obtain new' where "batch = encode_frames new'" "chained None new'" "continues (old @ kept) new'"
      using append_frames_cases [OF a r] by auto
    then have "continues (old @ take m new) new" using encode_frames_inj n by metis
    moreover have "0 < m" using False n(4) by (cases m) auto
    ultimately show ?thesis using no_second_start [OF n(2) _ n(3), of old] by simp
  qed
  then show ?thesis using r k by blast
qed

definition demo_broken_io :: log_io where
  "demo_broken_io = demo_io\<lparr>append_ok := False, written := 15, rollback_len_ok := False\<rparr>"

definition demo_batch :: "frame list" where
  "demo_batch = [\<lparr>frame_seq = 9, frame_kind = Clear, frame_payload = []\<rparr>,
    \<lparr>frame_seq = 10, frame_kind = Output, frame_payload = [65]\<rparr>]"

theorem failed_append_is_safe_witness:
  "\<exists>kept n'. read_frames_with_valid_len
        (encode_log 3 demo_frames @ take 15 (encode_frames demo_batch))
      = Some (3, demo_frames @ kept, n')
    \<and> (RollbackFailed \<noteq> RollbackFailed \<longrightarrow> kept = [])
    \<and> (\<forall>io' b''. append_frames io' (Some (encode_log 3 demo_frames
            @ take 15 (encode_frames demo_batch))) (encode_frames demo_batch) = (Inr (), Some b'') \<longrightarrow>
         (\<exists>new. encode_frames demo_batch = encode_frames new
            \<and> b'' = encode_log 3 (demo_frames @ new)))"
proof (rule failed_append_is_safe [OF read_log [OF demo_chained, of 3], of demo_broken_io])
  have r: "read_frames_with_valid_len (encode_header 0 @ encode_frames demo_batch)
      = Some (0, demo_batch, length (encode_header 0 @ encode_frames demo_batch))"
    using read_log [of demo_batch 0] by (simp add: encode_log_def demo_batch_def checked_inc_def)
  have "continues demo_frames demo_batch"
    by (simp add: continues_def demo_frames_def demo_batch_def checked_inc_def)
  then show "append_frames demo_broken_io (Some (encode_log 3 demo_frames))
      (encode_frames demo_batch)
    = (Inl RollbackFailed, Some (encode_log 3 demo_frames @ take 15 (encode_frames demo_batch)))"
    by (simp add: append_frames_def r read_log [OF demo_chained] demo_io_def demo_broken_io_def
        write_batch_def Let_def)
qed

section \<open>Renumbering a batch\<close>

text \<open>What renumbering keeps of a frame.\<close>

definition content :: "frame \<Rightarrow> frame_kind \<times> bytes" where
  "content f = (frame_kind f, frame_payload f)"

lemma content_renumbered [simp]:
  "content \<lparr>frame_seq = s, frame_kind = frame_kind f, frame_payload = frame_payload f\<rparr> = content f"
  by (simp add: content_def)

lemma renumber_loop_spec:
  assumes "renumber_loop fs s out = Some (out', s')" and "\<forall>f \<in> set fs. length (frame_payload f) < 2 ^ 32"
  shows "\<exists>gs. out' = out @ encode_frames gs \<and> map content gs = map content fs
    \<and> unat s' = unat s + length fs
    \<and> (fs \<noteq> [] \<longrightarrow> frame_seq (hd gs) = s)
    \<and> (\<forall>p. checked_inc p = Some s \<longrightarrow> chained (Some p) gs) \<and> chained None gs"
  using assms
proof (induction fs arbitrary: s out)
  case Nil
  then show ?case by (intro exI [of _ "[]"]) simp
next
  case (Cons f fs)
  obtain t where t: "checked_inc s = Some t" using Cons.prems(1) by (auto split: option.splits)
  let ?g = "\<lparr>frame_seq = s, frame_kind = frame_kind f, frame_payload = frame_payload f\<rparr>"
  have "renumber_loop fs t (out @ enc ?g) = Some (out', s')"
    using Cons.prems(1) t by (simp add: enc_def)
  from Cons.IH [OF this] Cons.prems(2) obtain gs where gs: "out' = (out @ enc ?g) @ encode_frames gs"
    "map content gs = map content fs" "unat s' = unat t + length fs"
    "\<forall>p. checked_inc p = Some t \<longrightarrow> chained (Some p) gs" by auto
  then show ?case
    using t Cons.prems(2) checked_inc_unat [OF t]
    by (intro exI [of _ "?g # gs"]) auto
qed

text \<open>
  Renumbering a batch changes only its sequence numbers: the result is a log batch
  with the same kinds and payloads in the same order, numbered consecutively from the requested
  first number, and the returned next number is the first number plus the number of frames,
  without wrap-around (a counter that would overflow makes the whole call fail).
\<close>
theorem renumber_keeps_frames:
  assumes "read_frames (encode_header 0 @ batch) = Some (0, fs)"
    and "renumber_frames batch s = Some (out, s')"
  shows "\<exists>gs. read_frames (encode_header 0 @ out) = Some (0, gs)
    \<and> map content gs = map content fs \<and> (gs \<noteq> [] \<longrightarrow> frame_seq (hd gs) = s)
    \<and> unat s' = unat s + length fs"
proof -
  obtain n where rd: "read_frames_with_valid_len (encode_header 0 @ batch) = Some (0, fs, n)"
    using assms(1) by (auto simp: read_frames_def)
  have ch: "chained None fs" using sound_read [OF rd] by simp
  have len: "\<forall>f \<in> set fs. length (frame_payload f) < 2 ^ 32"
    using ch chained_bounded by blast
  have "renumber_loop fs s [] = Some (out, s')"
    using assms by (simp add: renumber_frames_def)
  from renumber_loop_spec [OF this len] obtain gs where gs: "out = encode_frames gs"
    "map content gs = map content fs" "unat s' = unat s + length fs"
    "fs \<noteq> [] \<longrightarrow> frame_seq (hd gs) = s" "chained None gs" by auto
  have "read_frames (encode_header 0 @ out) = Some (0, gs)"
    using read_log [OF gs(5), of 0] gs(1) by (simp add: encode_log_def read_frames_def)
  with gs show ?thesis by (metis map_is_Nil_conv)
qed

theorem renumber_keeps_frames_witness:
  "\<exists>gs. read_frames (encode_header 0 @ encode_frames demo_batch) = Some (0, gs)
    \<and> map content gs = map content (map (frame_seq_update (\<lambda>w. w - 4)) demo_batch)
    \<and> (gs \<noteq> [] \<longrightarrow> frame_seq (hd gs) = 9) \<and> unat (11 :: u64) = unat (9 :: u64) + 2"
proof -
  let ?fs = "map (frame_seq_update (\<lambda>w. w - 4)) demo_batch"
  have r: "read_frames (encode_header 0 @ encode_frames ?fs) = Some (0, ?fs)"
    using read_log [of ?fs 0]
    by (simp add: encode_log_def demo_batch_def checked_inc_def read_frames_def)
  then have "renumber_frames (encode_frames ?fs) 9 = Some (encode_frames demo_batch, 11)"
    by (simp add: renumber_frames_def demo_batch_def checked_inc_def enc_def)
  from renumber_keeps_frames [OF r this] show ?thesis by (simp add: demo_batch_def)
qed

text \<open>The resize payload is read back as written.\<close>

lemma parse_resize_payload: "parse_resize (resize_payload c r @ junk) = Some (c, r)"
  by (simp add: parse_resize_def resize_payload_def u16c.enc_width u16c.dec_of_enc)

end
