(* ===== verification/HookAuthority.thy ===== *)
theory HookAuthority
  imports Prelude
begin

text \<open>
  \<open>src/src/hook_authority.rs\<close>: who may let a hook have effects. A claim gives a birth (runtime and
  generation) of one leaf to an endpoint for an epoch. Each installed claim owns a gate; an
  \<open>Arc<Gate>\<close> is an index into a heap of gates, so that \<open>Arc::ptr_eq\<close> is equality of indices and
  a ticket or a permit keeps its gate after the registry has replaced it. A poisoned mutex is a
  flag that the environment may set at any time; every \<open>lock()\<close> tests it.
  The UUID parser is a parameter. The second half gives the world of outstanding tickets and
  permits and proves that at most one claim per leaf can have effects.
\<close>

section \<open>Claims and evidence\<close>

record leaf_key =
  key_workspace :: uuid
  key_panel :: uuid
  key_leaf :: uuid

record birth_binding =
  binding_runtime :: uuid
  binding_generation :: uuid

datatype claim_phase = AuthorizedBirth | Active | Detached | Retiring | Retired

fun phase_as_str :: "claim_phase \<Rightarrow> string" where
  "phase_as_str AuthorizedBirth = ''authorized_birth''"
| "phase_as_str Active = ''active''"
| "phase_as_str Detached = ''detached''"
| "phase_as_str Retiring = ''retiring''"
| "phase_as_str Retired = ''retired''"

record claim =
  claim_key :: leaf_key
  claim_runtime :: uuid
  claim_generation :: "uuid option"
  claim_epoch :: int
  claim_owner :: "uuid option"
  claim_phase :: claim_phase
  require_binding :: bool

record host_hook_target =
  workspace_id :: uuid
  panel_id :: uuid
  leaf_id :: uuid

definition target_of_key :: "leaf_key \<Rightarrow> host_hook_target" where
  "target_of_key k = \<lparr>workspace_id = key_workspace k, panel_id = key_panel k, leaf_id = key_leaf k\<rparr>"

record host_evidence =
  evidence_runtime :: uuid
  evidence_generation :: "uuid option"
  evidence_target :: "host_hook_target option"

definition proves :: "host_evidence \<Rightarrow> claim \<Rightarrow> bool" where
  "proves e c \<longleftrightarrow> claim_generation c \<noteq> None \<and> evidence_runtime e = claim_runtime c
     \<and> evidence_generation e = claim_generation c
     \<and> evidence_target e = Some (target_of_key (claim_key c))"

datatype denial = BindingInvalid | TargetInvalid | UnknownTarget | Quarantined | StaleClaim
  | RetiringDenied | PendingBirth | Poisoned

section \<open>Classification of a raw identity\<close>

record raw_hook_identity =
  raw_workspace :: "string option"
  raw_panel :: "string option"
  raw_leaf :: "string option"
  raw_runtime :: "string option"
  raw_generation :: "string option"

datatype query_identity = Bound leaf_key birth_binding
  | LegacyTarget "uuid option" uuid "uuid option"
  | UnscopedMemory

definition uuid_field :: "(string \<Rightarrow> uuid option) \<Rightarrow> string option \<Rightarrow> denial + uuid" where
  "uuid_field parse_str value
     = ok_or TargetInvalid
         (Option.bind (case value of None \<Rightarrow> None | Some raw \<Rightarrow> if raw = [] then None else Some raw)
           parse_str)"

definition empty_field :: "string option \<Rightarrow> bool" where
  "empty_field raw \<longleftrightarrow> (case raw of None \<Rightarrow> True | Some s \<Rightarrow> s = [])"

definition optional_field :: "(string \<Rightarrow> uuid option) \<Rightarrow> string option \<Rightarrow> denial + uuid option" where
  "optional_field parse_str raw = (case raw of
       None \<Rightarrow> Inr None
     | Some s \<Rightarrow> and_then (uuid_field parse_str (Some s)) (\<lambda>u. Inr (Some u)))"

definition classify :: "(string \<Rightarrow> uuid option) \<Rightarrow> raw_hook_identity \<Rightarrow> denial + query_identity" where
  "classify parse_str r =
    (if raw_runtime r \<noteq> None \<or> raw_generation r \<noteq> None then
       and_then (map_err (\<lambda>_. BindingInvalid) (uuid_field parse_str (raw_runtime r))) (\<lambda>rt.
       and_then (map_err (\<lambda>_. BindingInvalid) (uuid_field parse_str (raw_generation r))) (\<lambda>gen.
       and_then (uuid_field parse_str (raw_workspace r)) (\<lambda>w.
       and_then (uuid_field parse_str (raw_panel r)) (\<lambda>p.
       and_then (uuid_field parse_str (raw_leaf r)) (\<lambda>l.
         Inr (Bound \<lparr>key_workspace = w, key_panel = p, key_leaf = l\<rparr>
                \<lparr>binding_runtime = rt, binding_generation = gen\<rparr>))))))
     else if empty_field (raw_workspace r) \<and> empty_field (raw_panel r) \<and> empty_field (raw_leaf r) then
       Inr UnscopedMemory
     else
       and_then (optional_field parse_str (raw_workspace r)) (\<lambda>w.
       and_then (uuid_field parse_str (raw_panel r)) (\<lambda>p.
       and_then (optional_field parse_str (raw_leaf r)) (\<lambda>l.
         Inr (LegacyTarget w p l)))))"

section \<open>Gates\<close>

record owned_hook_context =
  ctx_claim :: claim
  legacy_alias_epoch :: "int option"

record gate =
  gate_claim :: claim
  gate_open :: bool
  in_flight :: u64
  gate_installed :: bool
  gate_poisoned :: bool

type_synonym gate_id = nat

record admission_ticket =
  ticket_gate :: gate_id
  ticket_context :: owned_hook_context

record effects_permit =
  permit_gate :: gate_id
  permit_context :: owned_hook_context

record retire_fence =
  fence_gate :: gate_id

record hook_authority =
  gates :: "gate list"
  registry :: "(leaf_key \<times> gate_id) list"
  registry_poisoned :: bool

definition empty_authority :: hook_authority where
  "empty_authority = \<lparr>gates = [], registry = [], registry_poisoned = False\<rparr>"

text \<open>\<open>self.registry.lock()\<close> and \<open>gate.state.lock()\<close>, with the error mapped to \<open>Poisoned\<close>.\<close>

definition lock_registry :: "hook_authority \<Rightarrow> denial + (leaf_key \<times> gate_id) list" where
  "lock_registry a = (if registry_poisoned a then Inl Poisoned else Inr (registry a))"

definition lock_gate :: "hook_authority \<Rightarrow> gate_id \<Rightarrow> denial + gate" where
  "lock_gate a g = (if gate_poisoned (gates a ! g) then Inl Poisoned else Inr (gates a ! g))"

definition same_authority :: "claim \<Rightarrow> claim \<Rightarrow> bool" where
  "same_authority a b \<longleftrightarrow> claim_key a = claim_key b \<and> claim_runtime a = claim_runtime b
     \<and> claim_generation a = claim_generation b \<and> claim_epoch a = claim_epoch b
     \<and> claim_owner a = claim_owner b \<and> require_binding a = require_binding b
     \<and> claim_phase a \<in> {AuthorizedBirth, Active} \<and> claim_phase b \<in> {AuthorizedBirth, Active}"

definition new_gate :: "claim \<Rightarrow> gate" where
  "new_gate c = \<lparr>gate_claim = c, gate_open = True, in_flight = 0,
     gate_installed = (claim_phase c = Active), gate_poisoned = False\<rparr>"

definition replaceable :: "hook_authority \<Rightarrow> claim \<Rightarrow> gate_id option \<Rightarrow> denial + unit" where
  "replaceable a c previous = (case previous of None \<Rightarrow> Inr ()
     | Some g \<Rightarrow> and_then (lock_gate a g) (\<lambda>s.
         and_then (reject_if (gate_open s \<or> in_flight s \<noteq> 0) RetiringDenied) (\<lambda>_.
         reject_if (claim_epoch (gate_claim s) \<ge> claim_epoch c) StaleClaim)))"

definition install :: "hook_authority \<Rightarrow> owned_hook_context \<Rightarrow> denial + hook_authority" where
  "install a ctx = (let c = ctx_claim ctx in
     and_then (reject_if (claim_owner c = None \<or> claim_phase c \<notin> {Active, AuthorizedBirth}) StaleClaim) (\<lambda>_.
     and_then (reject_if (claim_generation c = None \<and> require_binding c) Quarantined) (\<lambda>_.
     and_then (reject_if (claim_generation c \<noteq> None \<and> legacy_alias_epoch ctx \<noteq> None) TargetInvalid) (\<lambda>_.
     and_then (lock_registry a) (\<lambda>reg.
     and_then (replaceable a c (map_of reg (claim_key c))) (\<lambda>_.
       Inr (a\<lparr>gates := gates a @ [new_gate c],
              registry := AList.update (claim_key c) (length (gates a)) reg\<rparr>)))))))"

definition find_gate :: "hook_authority \<Rightarrow> claim \<Rightarrow> denial + gate_id" where
  "find_gate a c =
     and_then (lock_registry a) (\<lambda>reg.
     and_then (ok_or UnknownTarget (map_of reg (claim_key c))) (\<lambda>g.
     and_then (reject_if (\<not> same_authority (gate_claim (gates a ! g)) c) StaleClaim) (\<lambda>_. Inr g)))"

definition ticket :: "hook_authority \<Rightarrow> owned_hook_context \<Rightarrow> denial + admission_ticket" where
  "ticket a ctx =
     and_then (find_gate a (ctx_claim ctx)) (\<lambda>g.
     and_then (lock_gate a g) (\<lambda>s.
     and_then (reject_if (\<not> gate_open s) RetiringDenied) (\<lambda>_.
       Inr \<lparr>ticket_gate = g, ticket_context = ctx\<rparr>)))"

definition set_gate :: "hook_authority \<Rightarrow> gate_id \<Rightarrow> gate \<Rightarrow> hook_authority" where
  "set_gate a g s = a\<lparr>gates := (gates a)[g := s]\<rparr>"

definition begin_retire :: "hook_authority \<Rightarrow> claim \<Rightarrow> denial + (hook_authority \<times> retire_fence)" where
  "begin_retire a expected =
     and_then (find_gate a expected) (\<lambda>g.
     and_then (lock_gate a g) (\<lambda>s.
       Inr (set_gate a g (s\<lparr>gate_open := False\<rparr>), \<lparr>fence_gate = g\<rparr>)))"

definition invalidate :: "hook_authority \<Rightarrow> claim \<Rightarrow> hook_authority" where
  "invalidate a expected = (case begin_retire a expected of Inl _ \<Rightarrow> a | Inr (a', _) \<Rightarrow> a')"

definition locally_drained :: "hook_authority \<Rightarrow> retire_fence \<Rightarrow> bool" where
  "locally_drained a f = (case lock_gate a (fence_gate f) of
     Inl _ \<Rightarrow> False | Inr s \<Rightarrow> \<not> gate_open s \<and> in_flight s = 0)"

definition validate_ui :: "hook_authority \<Rightarrow> admission_ticket \<Rightarrow> denial + claim" where
  "validate_ui a t = (let c = ctx_claim (ticket_context t) in
     and_then (lock_registry a) (\<lambda>reg.
     and_then (ok_or UnknownTarget (map_of reg (claim_key c))) (\<lambda>g.
     and_then (reject_if (g \<noteq> ticket_gate t \<or> \<not> same_authority (gate_claim (gates a ! g)) c) StaleClaim) (\<lambda>_.
     and_then (lock_gate a g) (\<lambda>s.
     and_then (reject_if (\<not> gate_open s) RetiringDenied) (\<lambda>_.
     and_then (reject_if (\<not> gate_installed s) PendingBirth) (\<lambda>_.
       Inr ((gate_claim s)\<lparr>claim_phase := Active\<rparr>))))))))"

definition mark_installed :: "hook_authority \<Rightarrow> claim \<Rightarrow> denial + hook_authority" where
  "mark_installed a active =
     and_then (reject_if (claim_phase active \<noteq> Active) StaleClaim) (\<lambda>_.
     and_then (find_gate a active) (\<lambda>g.
     and_then (lock_gate a g) (\<lambda>s.
     and_then (reject_if (\<not> gate_open s) RetiringDenied) (\<lambda>_.
       Inr (set_gate a g (s\<lparr>gate_installed := True\<rparr>))))))"

definition begin_effects :: "hook_authority \<Rightarrow> admission_ticket
    \<Rightarrow> denial + (hook_authority \<times> effects_permit)" where
  "begin_effects a t =
     and_then (lock_gate a (ticket_gate t)) (\<lambda>s.
     and_then (reject_if (\<not> gate_open s) RetiringDenied) (\<lambda>_.
     and_then (ok_or Poisoned (checked_inc (in_flight s))) (\<lambda>n.
       Inr (set_gate a (ticket_gate t) (s\<lparr>in_flight := n\<rparr>),
            \<lparr>permit_gate = ticket_gate t, permit_context = ticket_context t\<rparr>))))"

text \<open>\<open>Drop for EffectsPermit\<close>; a poisoned gate keeps its count.\<close>

definition drop_permit :: "hook_authority \<Rightarrow> effects_permit \<Rightarrow> hook_authority" where
  "drop_permit a p = (case lock_gate a (permit_gate p) of
      Inl _ \<Rightarrow> a
    | Inr s \<Rightarrow> set_gate a (permit_gate p)
        (s\<lparr>in_flight := (if in_flight s = 0 then 0 else in_flight s - 1)\<rparr>))"

section \<open>The world around the authority\<close>

text \<open>
  The tickets ever issued (a ticket can be cloned and kept for ever) and the permits not yet
  dropped (a permit is not \<open>Clone\<close>). An event whose call is refused changes nothing, and neither
  does an index out of range, which stands for a value its caller never had.
\<close>

record hook_world =
  authority :: hook_authority
  tickets :: "admission_ticket list"
  permits :: "effects_permit list"

datatype hook_event = EInstall owned_hook_context | ETicket owned_hook_context
  | ERetire claim | EInstalled claim | EEffects nat | EDrop nat
  | EPoisonGate nat | EPoisonRegistry

definition drop_index :: "nat \<Rightarrow> 'a list \<Rightarrow> 'a list" where
  "drop_index i xs = take i xs @ drop (Suc i) xs"

fun hook_act :: "hook_world \<Rightarrow> hook_event \<Rightarrow> hook_world" where
  "hook_act w (EInstall ctx) = (case install (authority w) ctx of
      Inl _ \<Rightarrow> w | Inr a \<Rightarrow> w\<lparr>authority := a\<rparr>)"
| "hook_act w (ETicket ctx) = (case ticket (authority w) ctx of
      Inl _ \<Rightarrow> w | Inr t \<Rightarrow> w\<lparr>tickets := tickets w @ [t]\<rparr>)"
| "hook_act w (ERetire c) = w\<lparr>authority := invalidate (authority w) c\<rparr>"
| "hook_act w (EInstalled c) = (case mark_installed (authority w) c of
      Inl _ \<Rightarrow> w | Inr a \<Rightarrow> w\<lparr>authority := a\<rparr>)"
| "hook_act w (EEffects i) =
     (if i < length (tickets w) then
        (case begin_effects (authority w) (tickets w ! i) of
           Inl _ \<Rightarrow> w
         | Inr (a, p) \<Rightarrow> w\<lparr>authority := a, permits := permits w @ [p]\<rparr>)
      else w)"
| "hook_act w (EDrop i) =
     (if i < length (permits w) then
        w\<lparr>authority := drop_permit (authority w) (permits w ! i), permits := drop_index i (permits w)\<rparr>
      else w)"
| "hook_act w (EPoisonGate g) =
     (if g < length (gates (authority w)) then
        w\<lparr>authority := set_gate (authority w) g ((gates (authority w) ! g)\<lparr>gate_poisoned := True\<rparr>)\<rparr>
      else w)"
| "hook_act w EPoisonRegistry = w\<lparr>authority := (authority w)\<lparr>registry_poisoned := True\<rparr>\<rparr>"

definition hook_start :: hook_world where
  "hook_start = \<lparr>authority = empty_authority, tickets = [], permits = []\<rparr>"

section \<open>The invariant of the gates\<close>

definition held :: "hook_world \<Rightarrow> gate_id \<Rightarrow> nat" where
  "held w g = length (filter (\<lambda>p. permit_gate p = g) (permits w))"

definition registered :: "hook_world \<Rightarrow> leaf_key \<Rightarrow> gate_id option" where
  "registered w k = map_of (registry (authority w)) k"

definition gate_at :: "hook_world \<Rightarrow> gate_id \<Rightarrow> gate" where
  "gate_at w g = gates (authority w) ! g"

definition gate_count :: "hook_world \<Rightarrow> nat" where
  "gate_count w = length (gates (authority w))"

text \<open>The latest gate of its leaf, or closed and without effects for good.\<close>

definition superseded_ok :: "hook_world \<Rightarrow> gate_id \<Rightarrow> bool" where
  "superseded_ok w i \<longleftrightarrow> (\<exists>g. registered w (claim_key (gate_claim (gate_at w i))) = Some g \<and> i \<le> g
     \<and> (i \<noteq> g \<longrightarrow> \<not> gate_open (gate_at w i) \<and> in_flight (gate_at w i) = 0))"

definition epochs_ok :: "hook_world \<Rightarrow> bool" where
  "epochs_ok w \<longleftrightarrow> (\<forall>j < gate_count w. \<forall>i < j.
     claim_key (gate_claim (gate_at w i)) = claim_key (gate_claim (gate_at w j))
       \<longrightarrow> claim_epoch (gate_claim (gate_at w i)) < claim_epoch (gate_claim (gate_at w j)))"

definition counted_ok :: "hook_world \<Rightarrow> gate_id \<Rightarrow> bool" where
  "counted_ok w i \<longleftrightarrow> held w i \<le> unat (in_flight (gate_at w i))
     \<and> (\<not> gate_poisoned (gate_at w i) \<longrightarrow> held w i = unat (in_flight (gate_at w i)))"

definition refers_ok :: "hook_world \<Rightarrow> gate_id \<Rightarrow> owned_hook_context \<Rightarrow> bool" where
  "refers_ok w g ctx \<longleftrightarrow> g < gate_count w \<and> same_authority (gate_claim (gate_at w g)) (ctx_claim ctx)"

definition hook_inv :: "hook_world \<Rightarrow> bool" where
  "hook_inv w \<longleftrightarrow>
     (\<forall>k g. registered w k = Some g \<longrightarrow> g < gate_count w \<and> claim_key (gate_claim (gate_at w g)) = k)
   \<and> (\<forall>i < gate_count w. superseded_ok w i)
   \<and> epochs_ok w
   \<and> (\<forall>i < gate_count w. counted_ok w i)
   \<and> (\<forall>t \<in> set (tickets w). refers_ok w (ticket_gate t) (ticket_context t))
   \<and> (\<forall>p \<in> set (permits w). refers_ok w (permit_gate p) (permit_context p))"

lemma hook_inv_start: "hook_inv hook_start"
  by (simp add: hook_inv_def hook_start_def empty_authority_def registered_def gate_count_def
      epochs_ok_def)

text \<open>Every operation but \<open>install\<close> replaces the state of one gate and leaves its claim alone.\<close>

lemma hook_inv_set_gate:
  assumes inv: "hook_inv w" and g: "g < gate_count w"
    and claim: "gate_claim s = gate_claim (gate_at w g)"
    and closed: "\<not> gate_open (gate_at w g) \<Longrightarrow> \<not> gate_open s"
    and idle: "\<not> gate_open (gate_at w g) \<Longrightarrow> in_flight (gate_at w g) = 0 \<Longrightarrow> in_flight s = 0"
    and w': "w' = w\<lparr>authority := set_gate (authority w) g s, permits := ps\<rparr>"
    and refs: "\<forall>p \<in> set ps. refers_ok w (permit_gate p) (permit_context p)"
    and others: "\<And>i. i \<noteq> g \<Longrightarrow> held w' i = held w i"
    and own: "held w' g \<le> unat (in_flight s)"
      "\<not> gate_poisoned s \<Longrightarrow> held w' g = unat (in_flight s)"
  shows "hook_inv w'"
proof -
  have n: "gate_count w' = gate_count w"
    and reg: "registered w' k = registered w k"
    and at: "gate_at w' i = (if i = g then s else gate_at w i)" for i k
    using g by (simp_all add: w' set_gate_def gate_count_def registered_def gate_at_def nth_list_update)
  have c: "gate_claim (gate_at w' i) = gate_claim (gate_at w i)" for i
    using claim by (simp add: at)
  have refers: "refers_ok w' i ctx = refers_ok w i ctx" for i ctx
    by (simp add: refers_ok_def n c)
  have "superseded_ok w' i" if "i < gate_count w" for i
  proof -
    have "superseded_ok w i" using inv that by (simp add: hook_inv_def)
    then show ?thesis
      unfolding superseded_ok_def reg c using closed idle by (auto simp: at)
  qed
  moreover have "epochs_ok w'"
    using inv by (simp add: hook_inv_def epochs_ok_def n c)
  moreover have "counted_ok w' i" if "i < gate_count w" for i
  proof (cases "i = g")
    case True
    then show ?thesis using own by (simp add: counted_ok_def at)
  next
    case False
    have "counted_ok w i" using inv that by (simp add: hook_inv_def)
    with False show ?thesis by (simp add: counted_ok_def at others)
  qed
  moreover have "tickets w' = tickets w" "permits w' = ps"
    by (simp_all add: w')
  ultimately show ?thesis
    using inv refs by (simp add: hook_inv_def n reg c refers)
qed

lemma held_frame [simp]: "held (w\<lparr>authority := a\<rparr>) g = held w g"
  by (simp add: held_def)

lemma lock_gate_Inr [result_simps]:
  "lock_gate a g = Inr s \<longleftrightarrow> \<not> gate_poisoned (gates a ! g) \<and> s = gates a ! g"
  by (auto simp: lock_gate_def)

lemma lock_registry_Inr [result_simps]:
  "lock_registry a = Inr r \<longleftrightarrow> \<not> registry_poisoned a \<and> r = registry a"
  by (auto simp: lock_registry_def)

lemma find_gate_Inr:
  "find_gate a c = Inr g \<Longrightarrow> map_of (registry a) (claim_key c) = Some g
     \<and> same_authority (gate_claim (gates a ! g)) c \<and> \<not> registry_poisoned a"
  by (auto simp: find_gate_def result_simps)

lemma hook_inv_found:
  assumes "hook_inv w" and "find_gate (authority w) c = Inr g"
  shows "g < gate_count w" and "same_authority (gate_claim (gate_at w g)) c"
  using assms find_gate_Inr [OF assms(2)] by (auto simp: hook_inv_def registered_def gate_at_def)

lemma hook_inv_counted: "hook_inv w \<Longrightarrow> i < gate_count w \<Longrightarrow> counted_ok w i"
  by (simp add: hook_inv_def)

text \<open>A change of one gate's state that keeps its count and never reopens it.\<close>

lemma hook_inv_set_flag:
  assumes inv: "hook_inv w" and g: "g < gate_count w"
    and "gate_claim s = gate_claim (gate_at w g)"
    and "\<not> gate_open (gate_at w g) \<Longrightarrow> \<not> gate_open s"
    and n: "in_flight s = in_flight (gate_at w g)"
    and p: "\<not> gate_poisoned s \<Longrightarrow> \<not> gate_poisoned (gate_at w g)"
  shows "hook_inv (w\<lparr>authority := set_gate (authority w) g s\<rparr>)"
proof (rule hook_inv_set_gate [OF inv g, where s = s and ps = "permits w"])
  have c: "counted_ok w g" by (rule hook_inv_counted [OF inv g])
  show "held (w\<lparr>authority := set_gate (authority w) g s\<rparr>) g \<le> unat (in_flight s)"
    using c n by (simp add: counted_ok_def)
  show "held (w\<lparr>authority := set_gate (authority w) g s\<rparr>) g = unat (in_flight s)"
    if "\<not> gate_poisoned s"
    using c n p that by (simp add: counted_ok_def)
  show "\<forall>p\<in>set (permits w). refers_ok w (permit_gate p) (permit_context p)"
    using inv by (simp add: hook_inv_def)
qed (use assms in simp_all)

section \<open>Every event keeps the invariant\<close>

lemma install_Inr:
  assumes "install a ctx = Inr a'"
  defines "c \<equiv> ctx_claim ctx"
  shows "a' = a\<lparr>gates := gates a @ [new_gate c],
                registry := AList.update (claim_key c) (length (gates a)) (registry a)\<rparr>"
    and "claim_owner c \<noteq> None" and "claim_phase c \<in> {Active, AuthorizedBirth}"
    and "claim_generation c = None \<Longrightarrow> \<not> require_binding c"
    and "\<not> registry_poisoned a"
    and "map_of (registry a) (claim_key c) = Some g \<Longrightarrow>
      \<not> gate_poisoned (gates a ! g) \<and> \<not> gate_open (gates a ! g) \<and> in_flight (gates a ! g) = 0
      \<and> claim_epoch (gate_claim (gates a ! g)) < claim_epoch c"
proof -
  have *: "\<not> (claim_owner c = None \<or> claim_phase c \<notin> {Active, AuthorizedBirth})"
      "\<not> (claim_generation c = None \<and> require_binding c)" "\<not> registry_poisoned a"
      "replaceable a c (map_of (registry a) (claim_key c)) = Inr ()"
    and **: "a' = a\<lparr>gates := gates a @ [new_gate c],
        registry := AList.update (claim_key c) (length (gates a)) (registry a)\<rparr>"
    using assms(1) unfolding install_def Let_def c_def [symmetric] result_simps by auto
  show "a' = a\<lparr>gates := gates a @ [new_gate c],
        registry := AList.update (claim_key c) (length (gates a)) (registry a)\<rparr>" by (rule **)
  show "claim_owner c \<noteq> None" "claim_phase c \<in> {Active, AuthorizedBirth}" "\<not> registry_poisoned a"
      "claim_generation c = None \<Longrightarrow> \<not> require_binding c"
    using * by auto
  show "map_of (registry a) (claim_key c) = Some g \<Longrightarrow>
      \<not> gate_poisoned (gates a ! g) \<and> \<not> gate_open (gates a ! g) \<and> in_flight (gates a ! g) = 0
      \<and> claim_epoch (gate_claim (gates a ! g)) < claim_epoch c"
    using *(4) by (auto simp: replaceable_def result_simps)
qed

lemma hook_inv_install:
  assumes inv: "hook_inv w" and ok: "install (authority w) ctx = Inr a"
  shows "hook_inv (w\<lparr>authority := a\<rparr>)" (is "hook_inv ?w")
proof -
  define c where "c = ctx_claim ctx"
  define n where "n = gate_count w"
  note I = install_Inr [OF ok, folded c_def]
  have cnt: "gate_count ?w = Suc n"
    and reg: "registered ?w k = (if k = claim_key c then Some n else registered w k)" for k
    by (simp_all add: I(1) gate_count_def n_def registered_def al.look_put_if)
  have old: "gate_at ?w i = gate_at w i" if "i < n" for i
    using that by (simp add: I(1) gate_at_def n_def gate_count_def nth_append)
  have new: "gate_at ?w n = new_gate c"
    by (simp add: I(1) gate_at_def n_def gate_count_def)
  have prev: "\<not> gate_open (gate_at w i) \<and> in_flight (gate_at w i) = 0
      \<and> claim_epoch (gate_claim (gate_at w i)) < claim_epoch c"
    if i: "i < n" and k: "claim_key (gate_claim (gate_at w i)) = claim_key c" for i
  proof -
    have "superseded_ok w i" using inv i by (simp add: hook_inv_def n_def)
    then obtain g where g: "registered w (claim_key c) = Some g" "i \<le> g"
        "i \<noteq> g \<longrightarrow> \<not> gate_open (gate_at w i) \<and> in_flight (gate_at w i) = 0"
      unfolding superseded_ok_def k by blast
    have G: "\<not> gate_open (gate_at w g)" "in_flight (gate_at w g) = 0"
        "claim_epoch (gate_claim (gate_at w g)) < claim_epoch c"
      using I(6) [of g] g(1) by (auto simp: registered_def gate_at_def)
    have "g < n" "claim_key (gate_claim (gate_at w g)) = claim_key c"
      using inv g(1) by (auto simp: hook_inv_def n_def)
    then have "i = g \<or> claim_epoch (gate_claim (gate_at w i)) < claim_epoch (gate_claim (gate_at w g))"
      using inv g(2) k unfolding hook_inv_def epochs_ok_def n_def by (metis le_neq_implies_less)
    then show ?thesis using g(3) G by auto
  qed
  have "\<forall>k g. registered ?w k = Some g \<longrightarrow> g < gate_count ?w \<and> claim_key (gate_claim (gate_at ?w g)) = k"
  proof (intro allI impI)
    fix k g assume r: "registered ?w k = Some g"
    show "g < gate_count ?w \<and> claim_key (gate_claim (gate_at ?w g)) = k"
    proof (cases "k = claim_key c")
      case True
      then have "g = n" using r by (simp add: reg)
      with True show ?thesis using new by (simp add: cnt new_gate_def)
    next
      case False
      then have "g < n" "claim_key (gate_claim (gate_at w g)) = k"
        using r inv by (auto simp: reg hook_inv_def n_def)
      then show ?thesis by (simp add: cnt old)
    qed
  qed
  moreover have "\<forall>i < gate_count ?w. superseded_ok ?w i"
  proof (intro allI impI)
    fix i assume "i < gate_count ?w"
    then consider "i < n" | "i = n" by (metis cnt less_antisym)
    then show "superseded_ok ?w i"
    proof cases
      case 1
      have s: "superseded_ok w i" using inv 1 by (simp add: hook_inv_def n_def)
      show ?thesis
      proof (cases "claim_key (gate_claim (gate_at w i)) = claim_key c")
        case True
        then show ?thesis using prev [OF 1 True] 1 by (simp add: superseded_ok_def old [OF 1] reg)
      next
        case False
        then show ?thesis using s by (simp add: superseded_ok_def old [OF 1] reg)
      qed
    next
      case 2
      then show ?thesis by (simp add: superseded_ok_def reg new new_gate_def)
    qed
  qed
  moreover have "epochs_ok ?w"
    unfolding epochs_ok_def
  proof (intro allI impI)
    fix j i assume j: "j < gate_count ?w" and i: "i < j"
      and k: "claim_key (gate_claim (gate_at ?w i)) = claim_key (gate_claim (gate_at ?w j))"
    have i': "i < n" using i j by (simp add: cnt)
    show "claim_epoch (gate_claim (gate_at ?w i)) < claim_epoch (gate_claim (gate_at ?w j))"
    proof (cases "j < n")
      case True
      have "epochs_ok w" using inv by (simp add: hook_inv_def)
      then show ?thesis using True i k old [OF True] old [OF i']
        unfolding epochs_ok_def n_def by simp
    next
      case False
      then have "j = n" using j by (simp add: cnt)
      then show ?thesis using prev [OF i'] k by (simp add: old [OF i'] new new_gate_def)
    qed
  qed
  moreover have "\<forall>i < gate_count ?w. counted_ok ?w i"
  proof (intro allI impI)
    fix i assume "i < gate_count ?w"
    then consider "i < n" | "i = n" by (metis cnt less_antisym)
    then show "counted_ok ?w i"
    proof cases
      case 1
      have "counted_ok w i" using inv 1 by (simp add: hook_inv_def n_def)
      with 1 show ?thesis by (simp add: counted_ok_def old)
    next
      case 2
      have "\<forall>p \<in> set (permits w). permit_gate p < n"
        using inv by (auto simp: hook_inv_def refers_ok_def n_def)
      then have "held w n = 0" by (auto simp: held_def filter_empty_conv)
      with 2 show ?thesis by (simp add: counted_ok_def new new_gate_def)
    qed
  qed
  moreover have "refers_ok ?w g x" if "refers_ok w g x" for g x
    using that old [of g] by (simp add: refers_ok_def cnt n_def)
  ultimately show ?thesis
    using inv by (simp add: hook_inv_def)
qed

lemma hook_inv_add_ticket:
  assumes inv: "hook_inv w" and ok: "ticket (authority w) ctx = Inr t"
  shows "hook_inv (w\<lparr>tickets := tickets w @ [t]\<rparr>)"
proof -
  obtain g where g: "find_gate (authority w) (ctx_claim ctx) = Inr g"
      and t: "t = \<lparr>ticket_gate = g, ticket_context = ctx\<rparr>"
    using ok by (auto simp: ticket_def result_simps)
  have r: "refers_ok w (ticket_gate t) (ticket_context t)"
    using hook_inv_found [OF inv g] by (simp add: refers_ok_def t)
  let ?w = "w\<lparr>tickets := tickets w @ [t]\<rparr>"
  have "registered ?w = registered w" "gate_count ?w = gate_count w" "gate_at ?w = gate_at w"
      "held ?w = held w"
    by (auto simp: registered_def gate_count_def gate_at_def held_def)
  then show ?thesis
    using inv r unfolding hook_inv_def refers_ok_def superseded_ok_def epochs_ok_def counted_ok_def
    by simp
qed

lemma hook_inv_retire:
  assumes inv: "hook_inv w" and ok: "begin_retire (authority w) c = Inr (a, f)"
  shows "hook_inv (w\<lparr>authority := a\<rparr>)"
proof -
  obtain g where g: "find_gate (authority w) c = Inr g" and p: "\<not> gate_poisoned (gate_at w g)"
      and a: "a = set_gate (authority w) g ((gate_at w g)\<lparr>gate_open := False\<rparr>)"
    using ok by (auto simp: begin_retire_def result_simps gate_at_def)
  show ?thesis
    unfolding a by (rule hook_inv_set_flag [OF inv hook_inv_found(1) [OF inv g]]) (use p in simp_all)
qed

lemma hook_inv_mark:
  assumes inv: "hook_inv w" and ok: "mark_installed (authority w) c = Inr a"
  shows "hook_inv (w\<lparr>authority := a\<rparr>)"
proof -
  obtain g where g: "find_gate (authority w) c = Inr g" and p: "\<not> gate_poisoned (gate_at w g)"
      and a: "a = set_gate (authority w) g ((gate_at w g)\<lparr>gate_installed := True\<rparr>)"
    using ok by (auto simp: mark_installed_def result_simps gate_at_def)
  show ?thesis
    unfolding a by (rule hook_inv_set_flag [OF inv hook_inv_found(1) [OF inv g]]) (use p in simp_all)
qed

lemma begin_effects_Inr:
  "begin_effects a t = Inr (a', p) \<longleftrightarrow>
     (let s = gates a ! ticket_gate t in
        \<not> gate_poisoned s \<and> gate_open s \<and> in_flight s \<noteq> - 1
        \<and> a' = set_gate a (ticket_gate t) (s\<lparr>in_flight := in_flight s + 1\<rparr>)
        \<and> p = \<lparr>permit_gate = ticket_gate t, permit_context = ticket_context t\<rparr>)"
  by (auto simp: begin_effects_def result_simps Let_def checked_inc_Some_iff)

lemma hook_inv_effects:
  assumes inv: "hook_inv w" and t: "t \<in> set (tickets w)"
    and ok: "begin_effects (authority w) t = Inr (a, p)"
  shows "hook_inv (w\<lparr>authority := a, permits := permits w @ [p]\<rparr>)" (is "hook_inv ?w")
proof -
  define g where "g = ticket_gate t"
  define s where "s = gate_at w g"
  have ref: "refers_ok w g (ticket_context t)" using inv t by (simp add: hook_inv_def g_def)
  then have g: "g < gate_count w" by (simp add: refers_ok_def)
  have b: "\<not> gate_poisoned s" "gate_open s" "in_flight s \<noteq> - 1"
      "a = set_gate (authority w) g (s\<lparr>in_flight := in_flight s + 1\<rparr>)"
      "p = \<lparr>permit_gate = g, permit_context = ticket_context t\<rparr>"
    using ok [unfolded begin_effects_Inr Let_def] by (auto simp: s_def g_def gate_at_def)
  have c: "counted_ok w g" by (rule hook_inv_counted [OF inv g])
  have h: "held ?w i = (if i = g then held w g + 1 else held w i)" for i
    by (simp add: held_def b(5))
  show ?thesis
  proof (rule hook_inv_set_gate [OF inv g, where s = "s\<lparr>in_flight := in_flight s + 1\<rparr>"
          and ps = "permits w @ [p]"])
    show "held ?w g \<le> unat (in_flight (s\<lparr>in_flight := in_flight s + 1\<rparr>))"
      using c b(1,3) by (simp add: h counted_ok_def unat_inc s_def)
    show "held ?w g = unat (in_flight (s\<lparr>in_flight := in_flight s + 1\<rparr>))"
      using c b(1,3) by (simp add: h counted_ok_def unat_inc s_def)
    show "\<forall>p \<in> set (permits w @ [p]). refers_ok w (permit_gate p) (permit_context p)"
      using inv ref by (simp add: hook_inv_def b(5))
    show "held ?w i = held w i" if "i \<noteq> g" for i
      using that by (simp add: h)
  qed (use b in \<open>simp_all add: s_def\<close>)
qed

lemma drop_index_filter:
  "i < length xs \<Longrightarrow>
   length (filter P (drop_index i xs)) + (if P (xs ! i) then 1 else 0) = length (filter P xs)"
  using arg_cong [OF id_take_nth_drop [of i xs], of "\<lambda>ys. length (filter P ys)"]
  by (simp add: drop_index_def)

lemma drop_index_subset: "set (drop_index i xs) \<subseteq> set xs"
  using set_take_subset [of i xs] set_drop_subset [of "Suc i" xs] by (auto simp: drop_index_def)

lemma hook_inv_drop:
  assumes inv: "hook_inv w" and i: "i < length (permits w)"
  defines "p \<equiv> permits w ! i"
  shows "hook_inv (w\<lparr>authority := drop_permit (authority w) p, permits := drop_index i (permits w)\<rparr>)"
    (is "hook_inv ?w")
proof -
  define g where "g = permit_gate p"
  define s where "s = gate_at w g"
  define s' where "s' = (if gate_poisoned s then s
    else s\<lparr>in_flight := (if in_flight s = 0 then 0 else in_flight s - 1)\<rparr>)"
  have mem: "p \<in> set (permits w)" using i by (simp add: p_def)
  then have g: "g < gate_count w" using inv by (simp add: hook_inv_def refers_ok_def g_def)
  have c: "counted_ok w g" by (rule hook_inv_counted [OF inv g])
  have a: "drop_permit (authority w) p = set_gate (authority w) g s'"
    by (simp add: drop_permit_def lock_gate_def s'_def s_def g_def gate_at_def set_gate_def)
  have h: "held ?w j + (if j = g then 1 else 0) = held w j" for j
    using drop_index_filter [OF i, of "\<lambda>q. permit_gate q = j"] by (auto simp: held_def p_def g_def)
  have pos: "in_flight s \<noteq> 0" if "\<not> gate_poisoned s"
    using h [of g] c that by (auto simp: counted_ok_def s_def)
  have u: "unat (in_flight s') = unat (in_flight s) - (if gate_poisoned s then 0 else 1)"
    using pos by (auto simp: s'_def unat_minus_one)
  show ?thesis
  proof (rule hook_inv_set_gate [OF inv g, where s = s' and ps = "drop_index i (permits w)"])
    show "held ?w g \<le> unat (in_flight s')"
      using h [of g] c u by (auto simp: counted_ok_def s_def split: if_splits)
    show "held ?w g = unat (in_flight s')" if "\<not> gate_poisoned s'"
      using h [of g] c u that by (auto simp: counted_ok_def s_def s'_def split: if_splits)
    show "\<forall>p \<in> set (drop_index i (permits w)). refers_ok w (permit_gate p) (permit_context p)"
      using inv drop_index_subset [of i "permits w"] by (auto simp: hook_inv_def)
    show "held ?w j = held w j" if "j \<noteq> g" for j
      using h [of j] that by simp
  qed (simp_all add: a s'_def s_def)
qed

lemma hook_inv_registry_poison:
  "hook_inv w \<Longrightarrow> hook_inv (w\<lparr>authority := (authority w)\<lparr>registry_poisoned := True\<rparr>\<rparr>)"
  by (simp add: hook_inv_def registered_def gate_count_def gate_at_def superseded_ok_def epochs_ok_def
      counted_ok_def refers_ok_def)

lemma hook_act_inv: "hook_inv w \<Longrightarrow> hook_inv (hook_act w e)"
proof (induction w e rule: hook_act.induct)
  case (3 w c)
  then show ?case
    using hook_inv_retire [of w c] by (auto simp: invalidate_def split: sum.split)
next
  case (7 w g)
  then show ?case
    by (auto intro: hook_inv_set_flag simp: gate_count_def gate_at_def)
next
  case (5 w i)
  then show ?case
    by (auto split: sum.split intro: hook_inv_effects [OF _ nth_mem])
qed (auto split: sum.split intro: hook_inv_install hook_inv_add_ticket hook_inv_mark
    hook_inv_drop hook_inv_registry_poison)

interpretation hook: guarded_machine hook_start hook_act hook_inv
  by unfold_locales (rule hook_inv_start, rule hook_act_inv)

section \<open>A closed gate\<close>

text \<open>A gate once closed stays closed, and the effects it still holds can only end.\<close>

definition closed_at :: "hook_world \<Rightarrow> gate_id \<Rightarrow> bool" where
  "closed_at w g \<longleftrightarrow> g < gate_count w \<and> \<not> gate_open (gate_at w g)"

lemma closed_set_gate:
  assumes "closed_at w g" and "h = g \<Longrightarrow> \<not> gate_open s"
  shows "closed_at (w\<lparr>authority := set_gate (authority w) h s, permits := ps\<rparr>) g"
  using assms by (cases "h = g") (simp_all add: closed_at_def set_gate_def gate_count_def gate_at_def)

lemmas closed_set_gate' = closed_set_gate [where ps = "permits w" and w = w for w, simplified]

lemma closed_grow:
  "closed_at w g \<Longrightarrow> closed_at (w\<lparr>authority := (authority w)\<lparr>gates := gates (authority w) @ gs,
      registry := r\<rparr>\<rparr>) g"
  by (simp add: closed_at_def gate_count_def gate_at_def nth_append)

lemma held_drop_index: "length (filter P (drop_index i xs)) \<le> length (filter P xs)"
proof (cases "i < length xs")
  case True
  then show ?thesis using drop_index_filter [of i xs P] by simp
qed (simp add: drop_index_def)

lemma hook_act_closed:
  assumes "closed_at w g"
  shows "closed_at (hook_act w e) g \<and> held (hook_act w e) g \<le> held w g"
proof (cases e)
  case (EInstall ctx)
  then show ?thesis
    using assms by (auto simp: closed_grow dest: install_Inr(1) split: sum.split)
next
  case (ETicket ctx)
  then show ?thesis
    using assms by (auto simp: closed_at_def gate_count_def gate_at_def held_def split: sum.split)
next
  case (ERetire c)
  then show ?thesis
    using assms
    by (auto simp: invalidate_def begin_retire_def result_simps intro!: closed_set_gate' split: sum.split)
next
  case (EInstalled c)
  then show ?thesis
    using assms
    by (auto simp: mark_installed_def result_simps intro!: closed_set_gate' split: sum.split)
       (simp add: closed_at_def gate_at_def)
next
  case (EEffects i)
  show ?thesis
  proof (cases "\<exists>a p. i < length (tickets w) \<and> begin_effects (authority w) (tickets w ! i) = Inr (a, p)")
    case True
    then obtain a p where *: "i < length (tickets w)"
        "begin_effects (authority w) (tickets w ! i) = Inr (a, p)" by blast
    define h where "h = ticket_gate (tickets w ! i)"
    have b: "gate_open (gate_at w h)" "permit_gate p = h"
        "\<exists>s. a = set_gate (authority w) h s"
      using *(2) unfolding begin_effects_Inr Let_def by (auto simp: h_def gate_at_def)
    then have "h \<noteq> g" using assms by (auto simp: closed_at_def)
    then show ?thesis
      using b assms * by (auto simp: EEffects held_def intro: closed_set_gate)
  next
    case False
    then show ?thesis using assms by (auto simp: EEffects split: sum.split)
  qed
next
  case (EDrop i)
  have "\<exists>s. drop_permit (authority w) p = set_gate (authority w) (permit_gate p) s
      \<and> gate_open s = gate_open (gate_at w (permit_gate p))" for p
  proof (cases "gate_poisoned (gate_at w (permit_gate p))")
    case True
    then show ?thesis
      by (intro exI [of _ "gate_at w (permit_gate p)"])
         (simp add: drop_permit_def lock_gate_def gate_at_def set_gate_def)
  next
    case False
    then show ?thesis by (auto simp: drop_permit_def lock_gate_def gate_at_def)
  qed
  then obtain s where s: "drop_permit (authority w) (permits w ! i)
        = set_gate (authority w) (permit_gate (permits w ! i)) s"
      "gate_open s = gate_open (gate_at w (permit_gate (permits w ! i)))" by blast
  show ?thesis
    using assms s held_drop_index [of "\<lambda>p. permit_gate p = g" i "permits w"]
    by (auto simp: EDrop held_def intro!: closed_set_gate) (simp add: closed_at_def)
next
  case (EPoisonGate h)
  then show ?thesis
    using assms closed_set_gate' [OF assms, of h "(gate_at w h)\<lparr>gate_poisoned := True\<rparr>"]
    by (auto simp: gate_at_def closed_at_def)
next
  case EPoisonRegistry
  then show ?thesis using assms by (simp add: closed_at_def gate_count_def gate_at_def)
qed

lemma closed_for_good:
  "closed_at w g \<Longrightarrow> closed_at (foldl hook_act w es) g \<and> held (foldl hook_act w es) g \<le> held w g"
proof (induction es arbitrary: w)
  case Nil
  then show ?case by simp
next
  case (Cons e es)
  have "closed_at (hook_act w e) g" "held (hook_act w e) g \<le> held w g"
    using hook_act_closed [OF Cons.prems] by auto
  then show ?case using Cons.IH [of "hook_act w e"] by (simp add: le_trans)
qed

lemma closed_refuses:
  assumes "closed_at w g" and "ticket_gate t = g"
  shows "\<exists>d. begin_effects (authority w) t = Inl d" and "\<exists>d. validate_ui (authority w) t = Inl d"
proof -
  show "\<exists>d. begin_effects (authority w) t = Inl d"
    using assms by (auto simp: begin_effects_def lock_gate_def closed_at_def gate_at_def)
  show "\<exists>d. validate_ui (authority w) t = Inl d"
  proof (cases "validate_ui (authority w) t")
    case (Inr c)
    then show ?thesis
      using assms by (auto simp: validate_ui_def Let_def result_simps closed_at_def gate_at_def)
  qed blast
qed

section \<open>Properties\<close>

definition hook_run :: "hook_event list \<Rightarrow> hook_world" where
  "hook_run es = foldl hook_act hook_start es"

lemma hook_run_inv: "hook_inv (hook_run es)"
  unfolding hook_run_def by (rule hook.run_inv)

lemma live_is_registered:
  assumes inv: "hook_inv w" and i: "i < gate_count w"
    and live: "gate_open (gate_at w i) \<or> 0 < held w i"
  shows "registered w (claim_key (gate_claim (gate_at w i))) = Some i"
proof -
  have "superseded_ok w i" "counted_ok w i" using inv i by (auto simp: hook_inv_def)
  then show ?thesis using live by (auto simp: superseded_ok_def counted_ok_def)
qed

lemma same_authority_trans:
  "same_authority a b \<Longrightarrow> same_authority a c \<Longrightarrow> same_authority b c"
  by (simp add: same_authority_def)

lemma permit_holds: "p \<in> set (permits w) \<Longrightarrow> 0 < held w (permit_gate p)"
  by (auto simp: held_def filter_empty_conv)

lemma permit_is_registered:
  assumes inv: "hook_inv w" and p: "p \<in> set (permits w)"
  shows "registered w (claim_key (ctx_claim (permit_context p))) = Some (permit_gate p)"
    and "same_authority (gate_claim (gate_at w (permit_gate p))) (ctx_claim (permit_context p))"
proof -
  have r: "refers_ok w (permit_gate p) (permit_context p)" using inv p by (simp add: hook_inv_def)
  then show "same_authority (gate_claim (gate_at w (permit_gate p))) (ctx_claim (permit_context p))"
    by (simp add: refers_ok_def)
  then show "registered w (claim_key (ctx_claim (permit_context p))) = Some (permit_gate p)"
    using live_is_registered [OF inv, of "permit_gate p"] r permit_holds [OF p]
    by (simp add: refers_ok_def same_authority_def)
qed

definition demo_key :: leaf_key where
  "demo_key = \<lparr>key_workspace = 1, key_panel = 2, key_leaf = 3\<rparr>"

definition demo_claim :: "int \<Rightarrow> claim_phase \<Rightarrow> claim" where
  "demo_claim e ph = \<lparr>claim_key = demo_key, claim_runtime = 7, claim_generation = Some 9,
     claim_epoch = e, claim_owner = Some 5, claim_phase = ph, require_binding = True\<rparr>"

definition demo_context :: "int \<Rightarrow> claim_phase \<Rightarrow> owned_hook_context" where
  "demo_context e ph = \<lparr>ctx_claim = demo_claim e ph, legacy_alias_epoch = None\<rparr>"

text \<open>A birth is authorised, its first hook arrives, it is installed and a second effect starts.\<close>

definition demo_events :: "hook_event list" where
  "demo_events = [EInstall (demo_context 1 AuthorizedBirth), ETicket (demo_context 1 Active),
     EEffects 0, EInstalled (demo_claim 1 Active), EEffects 0]"

text \<open>
  C1: Effects of one leaf never overlap across claims. In every state the authority can reach, by
  any interleaving of installs, tickets, retirements, activations, effects, drops and poisonings,
  any two outstanding effects permits of the same leaf come from the same gate and carry the same
  authority (runtime, generation, epoch, owner), and no other gate of that leaf is still open.\<close>
theorem one_authority_per_leaf:
  assumes "p \<in> set (permits (hook_run es))" and "q \<in> set (permits (hook_run es))"
    and "claim_key (ctx_claim (permit_context p)) = claim_key (ctx_claim (permit_context q))"
  shows "permit_gate p = permit_gate q
    \<and> same_authority (ctx_claim (permit_context p)) (ctx_claim (permit_context q))
    \<and> (\<forall>i < gate_count (hook_run es). gate_open (gate_at (hook_run es) i)
          \<longrightarrow> claim_key (gate_claim (gate_at (hook_run es) i)) = claim_key (ctx_claim (permit_context p))
          \<longrightarrow> i = permit_gate p)"
proof -
  let ?w = "hook_run es"
  note inv = hook_run_inv [of es]
  have eq: "permit_gate p = permit_gate q"
    using permit_is_registered(1) [OF inv assms(1)] permit_is_registered(1) [OF inv assms(2)] assms(3)
    by simp
  moreover have "same_authority (ctx_claim (permit_context p)) (ctx_claim (permit_context q))"
    using permit_is_registered(2) [OF inv assms(1)] permit_is_registered(2) [OF inv assms(2)] eq
    by (auto intro: same_authority_trans)
  moreover have "i = permit_gate p" if "i < gate_count ?w" "gate_open (gate_at ?w i)"
      "claim_key (gate_claim (gate_at ?w i)) = claim_key (ctx_claim (permit_context p))" for i
    using live_is_registered [OF inv that(1)] that permit_is_registered(1) [OF inv assms(1)] by simp
  ultimately show ?thesis by blast
qed

definition demo_permit :: effects_permit where
  "demo_permit = \<lparr>permit_gate = 0, permit_context = demo_context 1 Active\<rparr>"

lemma demo_permits: "permits (hook_run demo_events) = [demo_permit, demo_permit]"
  by (simp add: demo_permit_def demo_events_def) code_simp

theorem one_authority_per_leaf_witness:
  "demo_permit \<in> set (permits (hook_run demo_events))
   \<and> same_authority (ctx_claim (permit_context demo_permit)) (ctx_claim (permit_context demo_permit))"
  using one_authority_per_leaf [of demo_permit demo_events demo_permit] by (simp add: demo_permits)

text \<open>
  C3: A retirement fence holds for ever. Once \<open>begin_retire\<close> has returned a fence, whatever
  happens afterwards no ticket of the fenced gate can start effects or pass \<open>validate_ui\<close>, the
  number of outstanding effects of the gate never grows, and once the fence reads as drained no
  effect of the gate exists or ever will.\<close>
theorem retire_fence_is_final:
  assumes "begin_retire (authority (hook_run es)) c = Inr (a, f)"
    and "w = foldl hook_act ((hook_run es)\<lparr>authority := a\<rparr>) afterwards"
  shows "(\<forall>t. ticket_gate t = fence_gate f \<longrightarrow>
            (\<exists>d. begin_effects (authority w) t = Inl d) \<and> (\<exists>d. validate_ui (authority w) t = Inl d))
    \<and> held w (fence_gate f) \<le> held (hook_run es) (fence_gate f)
    \<and> (locally_drained (authority w) f \<longrightarrow>
        (\<forall>later. held (foldl hook_act w later) (fence_gate f) = 0))"
proof -
  let ?w = "hook_run es" and ?v = "(hook_run es)\<lparr>authority := a\<rparr>"
  obtain g where g: "find_gate (authority ?w) c = Inr g" and fg: "fence_gate f = g"
      and a: "a = set_gate (authority ?w) g ((gate_at ?w g)\<lparr>gate_open := False\<rparr>)"
    using assms(1) by (auto simp: begin_retire_def result_simps gate_at_def)
  have "g < gate_count ?w" by (rule hook_inv_found [OF hook_run_inv g])
  then have "closed_at ?v g"
    by (simp add: a closed_at_def gate_count_def gate_at_def set_gate_def)
  then have w: "closed_at w g" "held w g \<le> held ?v g"
    using closed_for_good [of ?v g afterwards] assms(2) by auto
  have inv: "hook_inv w"
    unfolding assms(2) by (rule hook.run_from_inv) (rule hook_inv_retire [OF hook_run_inv assms(1)])
  have "held (foldl hook_act w later) g = 0" if "locally_drained (authority w) f" for later
  proof -
    have "held w g = 0"
      using that hook_inv_counted [OF inv, of g] w(1)
      by (auto simp: locally_drained_def lock_gate_def fg counted_ok_def closed_at_def gate_at_def
          split: if_splits)
    then show ?thesis using closed_for_good [OF w(1), of later] by simp
  qed
  then show ?thesis using w closed_refuses [OF w(1)] by (auto simp: fg)
qed

definition demo_fenced :: hook_authority where
  "demo_fenced = invalidate (authority (hook_run demo_events)) (demo_claim 1 Active)"

lemma demo_fence:
  "begin_retire (authority (hook_run demo_events)) (demo_claim 1 Active)
     = Inr (demo_fenced, \<lparr>fence_gate = 0\<rparr>)"
  by (simp add: demo_fenced_def demo_events_def) code_simp

definition demo_drained :: hook_world where
  "demo_drained = foldl hook_act ((hook_run demo_events)\<lparr>authority := demo_fenced\<rparr>) [EDrop 0, EDrop 0]"

lemma demo_is_drained: "locally_drained (authority demo_drained) \<lparr>fence_gate = 0\<rparr>"
  by (simp add: demo_drained_def demo_fenced_def demo_events_def) code_simp

theorem retire_fence_is_final_witness:
  "held (foldl hook_act demo_drained [EEffects 0, EEffects 0]) 0 = 0"
  using retire_fence_is_final [OF demo_fence demo_drained_def] demo_is_drained
  by (simp del: foldl_Cons)

text \<open>
  A replacement never overlaps its predecessor. When \<open>install\<close> succeeds in a reachable state,
  the claim was owned and in an admitting phase, no permit of that leaf was outstanding, every
  earlier claim of the leaf is closed and has a smaller epoch, and afterwards the leaf is registered
  to a new open gate that admits tickets of the new claim.\<close>
theorem install_replaces_only_drained:
  assumes "install (authority (hook_run es)) ctx = Inr a"
  defines "w \<equiv> hook_run es" and "c \<equiv> ctx_claim ctx"
  shows "claim_owner c \<noteq> None \<and> claim_phase c \<in> {Active, AuthorizedBirth}
    \<and> (\<forall>p \<in> set (permits w). claim_key (ctx_claim (permit_context p)) \<noteq> claim_key c)
    \<and> (\<forall>i < gate_count w. claim_key (gate_claim (gate_at w i)) = claim_key c \<longrightarrow>
          \<not> gate_open (gate_at w i) \<and> claim_epoch (gate_claim (gate_at w i)) < claim_epoch c)
    \<and> ticket a ctx = Inr \<lparr>ticket_gate = gate_count w, ticket_context = ctx\<rparr>"
proof -
  note I = install_Inr [OF assms(1), folded w_def c_def]
  have inv: "hook_inv w" unfolding w_def by (rule hook_run_inv)
  have inv': "hook_inv (w\<lparr>authority := a\<rparr>)"
    unfolding w_def by (rule hook_inv_install [OF hook_run_inv assms(1)])
  let ?n = "gate_count w"
  have new: "registered (w\<lparr>authority := a\<rparr>) (claim_key c) = Some ?n"
    and at: "gate_at (w\<lparr>authority := a\<rparr>) ?n = new_gate c"
    and cnt: "gate_count (w\<lparr>authority := a\<rparr>) = Suc ?n"
    by (simp_all add: I(1) registered_def gate_at_def gate_count_def al.look_put_if)
  have old: "gate_at (w\<lparr>authority := a\<rparr>) i = gate_at w i" if "i < ?n" for i
    using that by (simp add: I(1) gate_at_def gate_count_def nth_append)
  have earlier: "\<not> gate_open (gate_at w i) \<and> held w i = 0
      \<and> claim_epoch (gate_claim (gate_at w i)) < claim_epoch c"
    if i: "i < ?n" and k: "claim_key (gate_claim (gate_at w i)) = claim_key c" for i
  proof -
    have "epochs_ok (w\<lparr>authority := a\<rparr>)" using inv' by (simp add: hook_inv_def)
    then have e: "claim_epoch (gate_claim (gate_at w i)) < claim_epoch c"
      using i k old [OF i] at cnt unfolding epochs_ok_def
      by (metis gate.select_convs(1) lessI new_gate_def)
    have "registered (w\<lparr>authority := a\<rparr>) (claim_key c) \<noteq> Some i" using new i by simp
    then have "\<not> gate_open (gate_at w i)" "\<not> 0 < held w i"
      using live_is_registered [OF inv', of i] i k old [OF i] cnt by auto
    with e show ?thesis by simp
  qed
  have "claim_key (ctx_claim (permit_context p)) \<noteq> claim_key c" if p: "p \<in> set (permits w)" for p
  proof
    assume k: "claim_key (ctx_claim (permit_context p)) = claim_key c"
    have "refers_ok w (permit_gate p) (permit_context p)" using inv p by (simp add: hook_inv_def)
    then have "permit_gate p < ?n" "claim_key (gate_claim (gate_at w (permit_gate p))) = claim_key c"
      using k by (auto simp: refers_ok_def same_authority_def)
    then show False using earlier permit_holds [OF p] by fastforce
  qed
  moreover have "ticket a ctx = Inr \<lparr>ticket_gate = ?n, ticket_context = ctx\<rparr>"
    using I(3,5) by (auto simp: ticket_def find_gate_def lock_registry_def lock_gate_def I(1)
        al.look_put_if same_authority_def new_gate_def gate_count_def c_def [symmetric])
  ultimately show ?thesis using I(2,3) earlier by simp
qed

definition demo_retired_events :: "hook_event list" where
  "demo_retired_events = demo_events @ [ERetire (demo_claim 1 Active), EDrop 0, EDrop 1, EDrop 0]"

definition demo_replaced :: hook_authority where
  "demo_replaced = (case install (authority (hook_run demo_retired_events)) (demo_context 2 Active) of
     Inl _ \<Rightarrow> empty_authority | Inr a \<Rightarrow> a)"

lemma demo_replacement:
  "install (authority (hook_run demo_retired_events)) (demo_context 2 Active) = Inr demo_replaced"
  by (simp add: demo_replaced_def demo_events_def demo_retired_events_def) code_simp

theorem install_replaces_only_drained_witness:
  "ticket demo_replaced (demo_context 2 Active)
     = Inr \<lparr>ticket_gate = gate_count (hook_run demo_retired_events), ticket_context = demo_context 2 Active\<rparr>"
  using install_replaces_only_drained [OF demo_replacement] by simp

definition managed :: "raw_hook_identity \<Rightarrow> bool" where
  "managed r \<longleftrightarrow> raw_runtime r \<noteq> None \<or> raw_generation r \<noteq> None"

lemma uuid_field_Inr [result_simps]:
  "uuid_field parse v = Inr u \<longleftrightarrow> v \<noteq> Some [] \<and> Option.bind v parse = Some u"
  by (auto simp: uuid_field_def result_simps split: option.splits)

lemma uuid_field_Inl: "uuid_field parse v = Inl d \<Longrightarrow> d = TargetInvalid"
  by (auto simp: uuid_field_def result_simps)

lemma empty_field_iff: "empty_field v \<longleftrightarrow> v \<in> {None, Some []}"
  by (cases v) (auto simp: empty_field_def)

lemma classify_cases:
  "case classify parse r of
     Inl d \<Rightarrow> d \<in> {BindingInvalid, TargetInvalid}
   | Inr (Bound k b) \<Rightarrow> managed r
       \<and> uuid_field parse (raw_runtime r) = Inr (binding_runtime b)
       \<and> uuid_field parse (raw_generation r) = Inr (binding_generation b)
       \<and> uuid_field parse (raw_workspace r) = Inr (key_workspace k)
       \<and> uuid_field parse (raw_panel r) = Inr (key_panel k)
       \<and> uuid_field parse (raw_leaf r) = Inr (key_leaf k)
   | Inr (LegacyTarget w p l) \<Rightarrow> \<not> managed r \<and> uuid_field parse (raw_panel r) = Inr p
       \<and> \<not> (empty_field (raw_workspace r) \<and> empty_field (raw_panel r) \<and> empty_field (raw_leaf r))
   | Inr UnscopedMemory \<Rightarrow> \<not> managed r
       \<and> empty_field (raw_workspace r) \<and> empty_field (raw_panel r) \<and> empty_field (raw_leaf r)"
proof (cases "classify parse r")
  case (Inl d)
  then show ?thesis
    by (auto simp: classify_def result_simps optional_field_def dest!: uuid_field_Inl
        split: if_splits option.splits)
next
  case (Inr q)
  then show ?thesis
    by (auto simp: classify_def and_then_Inr map_err_Inr managed_def split: if_splits)
qed

text \<open>
  A managed identity never falls back. Whatever the UUID parser does, an identity that names a
  runtime or a generation is classified as a binding whose five fields are present, non-empty and
  parsed, or it is refused; memory is unscoped exactly when no binding field is given and the
  three target fields are absent or empty; a legacy target always has a parsed panel.\<close>
theorem classify_never_falls_back:
  "(managed r \<longrightarrow> (case classify parse r of
       Inl d \<Rightarrow> d \<in> {BindingInvalid, TargetInvalid}
     | Inr (Bound k b) \<Rightarrow>
         Option.bind (raw_runtime r) parse = Some (binding_runtime b)
         \<and> Option.bind (raw_generation r) parse = Some (binding_generation b)
         \<and> Option.bind (raw_workspace r) parse = Some (key_workspace k)
         \<and> Option.bind (raw_panel r) parse = Some (key_panel k)
         \<and> Option.bind (raw_leaf r) parse = Some (key_leaf k)
         \<and> Some [] \<notin> {raw_runtime r, raw_generation r, raw_workspace r, raw_panel r, raw_leaf r}
     | Inr _ \<Rightarrow> False))
   \<and> (classify parse r = Inr UnscopedMemory \<longleftrightarrow> \<not> managed r
       \<and> {raw_workspace r, raw_panel r, raw_leaf r} \<subseteq> {None, Some []})
   \<and> (\<forall>w p l. classify parse r = Inr (LegacyTarget w p l) \<longrightarrow> \<not> managed r
       \<and> Option.bind (raw_panel r) parse = Some p \<and> raw_panel r \<noteq> Some [])"
proof -
  note C = classify_cases [where parse = parse and r = r]
  have unscoped: "classify parse r = Inr UnscopedMemory" if "\<not> managed r"
      "{raw_workspace r, raw_panel r, raw_leaf r} \<subseteq> {None, Some []}"
    using that by (simp add: classify_def managed_def empty_field_iff)
  show ?thesis
  proof (cases "classify parse r")
    case (Inl d)
    then have "\<not> (\<not> managed r \<and> {raw_workspace r, raw_panel r, raw_leaf r} \<subseteq> {None, Some []})"
      using unscoped by (metis sum.distinct(1))
    then show ?thesis using C Inl by simp
  next
    case (Inr q)
    show ?thesis
    proof (cases q)
      case (Bound k b)
      then show ?thesis using C Inr by (auto simp: uuid_field_Inr)
    next
      case (LegacyTarget w p l)
      then show ?thesis using C unscoped Inr by (auto simp: uuid_field_Inr)
    next
      case UnscopedMemory
      then show ?thesis using C Inr by (simp add: empty_field_iff)
    qed
  qed
qed

definition demo_parse :: "string \<Rightarrow> uuid option" where
  "demo_parse s = (if length s = 4 then Some (of_nat (length s)) else None)"

definition demo_raw :: raw_hook_identity where
  "demo_raw = \<lparr>raw_workspace = Some ''aaaa'', raw_panel = Some ''bbbb'', raw_leaf = Some ''cccc'',
     raw_runtime = Some ''dddd'', raw_generation = None\<rparr>"

theorem classify_never_falls_back_witness:
  "managed demo_raw \<and> classify demo_parse demo_raw = Inl BindingInvalid
   \<and> classify demo_parse demo_raw \<noteq> Inr UnscopedMemory"
proof -
  have "managed demo_raw" "classify demo_parse demo_raw = Inl BindingInvalid"
    by (simp_all add: managed_def demo_raw_def classify_def uuid_field_def demo_parse_def map_err_def)
  then show ?thesis
    using classify_never_falls_back [where parse = demo_parse and r = demo_raw] by blast
qed

section \<open>Evidence of the host\<close>

text \<open>Evidence binds one birth: it proves two claims only if they name the same birth and leaf.\<close>

lemma proves_unique:
  "proves e c \<Longrightarrow> proves e d \<Longrightarrow> claim_runtime c = claim_runtime d
    \<and> claim_generation c = claim_generation d \<and> claim_key c = claim_key d"
  by (auto simp: proves_def target_of_key_def)

end
