(* ===== verification/Utf8.thy ===== *)
theory Utf8
  imports Prelude
begin

text \<open>
  The parts of Rust's \<open>str\<close> that the sources rely on. A \<open>String\<close> is its UTF-8 bytes; a character
  is the byte sequence that encodes it. \<open>from_utf8\<close> accepts the well-formed sequences of the
  Unicode table (no overlong forms, no surrogates, nothing above U+10FFFF), which is what
  \<open>String::from_utf8\<close> and \<open>str::from_utf8\<close> check; \<open>is_char_boundary\<close>, \<open>trim\<close>, \<open>strip_prefix\<close> and the
  constant-time comparison of the tokens are here as well.
\<close>

section \<open>Well-formed UTF-8\<close>

definition cont_byte :: "u8 \<Rightarrow> bool" where
  "cont_byte b \<longleftrightarrow> 0x80 \<le> b \<and> b \<le> 0xBF"

text \<open>The length of the first character, zero when the bytes do not start with one.\<close>

fun utf8_width :: "bytes \<Rightarrow> nat" where
  "utf8_width [] = 0"
| "utf8_width (a # r) =
    (if a < 0x80 then 1
     else if 0xC2 \<le> a \<and> a \<le> 0xDF then
       (case r of b # _ \<Rightarrow> if cont_byte b then 2 else 0 | _ \<Rightarrow> 0)
     else if 0xE0 \<le> a \<and> a \<le> 0xEF then
       (case r of b # c # _ \<Rightarrow>
          if cont_byte b \<and> cont_byte c \<and> (a = 0xE0 \<longrightarrow> 0xA0 \<le> b) \<and> (a = 0xED \<longrightarrow> b \<le> 0x9F) then 3 else 0
        | _ \<Rightarrow> 0)
     else if 0xF0 \<le> a \<and> a \<le> 0xF4 then
       (case r of b # c # d # _ \<Rightarrow>
          if cont_byte b \<and> cont_byte c \<and> cont_byte d
             \<and> (a = 0xF0 \<longrightarrow> 0x90 \<le> b) \<and> (a = 0xF4 \<longrightarrow> b \<le> 0x8F) then 4 else 0
        | _ \<Rightarrow> 0)
     else 0)"

lemma utf8_width_le: "utf8_width bs \<le> length bs"
  by (cases bs) (auto split: list.splits)

lemma bytes4_cases:
  obtains "bs = []" | a where "bs = [a]" | a b where "bs = [a, b]" | a b c where "bs = [a, b, c]"
  | a b c d r where "bs = a # b # c # d # (r :: bytes)"
  by (metis neq_Nil_conv)

lemma utf8_width_append: "0 < utf8_width bs \<Longrightarrow> utf8_width (bs @ t) = utf8_width bs"
  by (rule bytes4_cases [of bs]) (simp_all split: if_splits)

function utf8_chars :: "bytes \<Rightarrow> bytes list option" where
  "utf8_chars bs =
    (if bs = [] then Some []
     else if utf8_width bs = 0 then None
     else map_option ((#) (take (utf8_width bs) bs)) (utf8_chars (drop (utf8_width bs) bs)))"
  by pat_completeness auto
termination
  by (relation "measure length") auto

declare utf8_chars.simps [simp del]

definition utf8_ok :: "bytes \<Rightarrow> bool" where
  "utf8_ok bs \<longleftrightarrow> utf8_chars bs \<noteq> None"

definition from_utf8 :: "bytes \<Rightarrow> bytes option" where
  "from_utf8 bs = (if utf8_ok bs then Some bs else None)"

lemma utf8_chars_Nil [simp]: "utf8_chars [] = Some []"
  by (simp add: utf8_chars.simps)

lemma utf8_ok_Nil [simp]: "utf8_ok []"
  by (simp add: utf8_ok_def)

lemma utf8_chars_step:
  "0 < utf8_width bs \<Longrightarrow>
   utf8_chars bs = map_option ((#) (take (utf8_width bs) bs)) (utf8_chars (drop (utf8_width bs) bs))"
  by (subst utf8_chars.simps) auto

lemma utf8_chars_append:
  "utf8_chars bs = Some cs \<Longrightarrow> utf8_chars (bs @ t) = map_option ((@) cs) (utf8_chars t)"
proof (induction bs arbitrary: cs rule: utf8_chars.induct)
  case (1 bs)
  show ?case
  proof (cases "bs = []")
    case True
    with 1 show ?thesis by (cases "utf8_chars t") auto
  next
    case False
    let ?w = "utf8_width bs"
    have w: "0 < ?w"
      using 1(2) False by (subst (asm) utf8_chars.simps) (auto split: if_splits)
    then obtain ds where ds: "utf8_chars (drop ?w bs) = Some ds" "cs = take ?w bs # ds"
      using 1(2) by (auto simp: utf8_chars_step)
    have "utf8_chars (bs @ t) = map_option ((#) (take ?w bs)) (utf8_chars (drop ?w bs @ t))"
      using w utf8_width_le [of bs] by (simp add: utf8_chars_step utf8_width_append)
    with 1(1) [OF False _ ds(1)] w ds show ?thesis by (cases "utf8_chars t") auto
  qed
qed

lemma utf8_ok_append: "utf8_ok s \<Longrightarrow> utf8_ok (s @ t) \<longleftrightarrow> utf8_ok t"
  by (auto simp: utf8_ok_def utf8_chars_append)

lemma utf8_ascii: "b < 0x80 \<Longrightarrow> utf8_ok (b # bs) \<longleftrightarrow> utf8_ok bs"
  by (simp add: utf8_ok_def utf8_chars_step)

lemma utf8_chars_concat: "utf8_chars bs = Some cs \<Longrightarrow> concat cs = bs"
proof (induction bs arbitrary: cs rule: utf8_chars.induct)
  case (1 bs)
  then show ?case
    by (subst (asm) (2) utf8_chars.simps) (auto split: if_splits)
qed

text \<open>The characters of a string.\<close>

definition chars :: "bytes \<Rightarrow> bytes list" where
  "chars s = (case utf8_chars s of Some cs \<Rightarrow> cs | None \<Rightarrow> [])"

text \<open>\<open>is_char_boundary\<close>: the ends, and every byte that is not a continuation byte.\<close>

definition is_char_boundary :: "bytes \<Rightarrow> nat \<Rightarrow> bool" where
  "is_char_boundary s i \<longleftrightarrow> i = 0 \<or> i = length s \<or> (i < length s \<and> \<not> cont_byte (s ! i))"

lemma utf8_tail_cont:
  assumes "0 < i" and "i < utf8_width bs"
  shows "cont_byte (bs ! i)"
proof -
  have "utf8_width bs \<le> 4"
    by (rule bytes4_cases [of bs]) simp_all
  then have "i = 1 \<or> i = 2 \<or> i = 3" using assms by linarith
  then show ?thesis
    using assms by (cases bs rule: bytes4_cases) (auto split: if_splits)
qed

lemma utf8_drop_boundary: "utf8_ok s \<Longrightarrow> is_char_boundary s i \<Longrightarrow> utf8_ok (drop i s)"
proof (induction s arbitrary: i rule: utf8_chars.induct)
  case (1 s)
  show ?case
  proof (cases "s = [] \<or> i = 0 \<or> length s \<le> i")
    case True
    with 1 show ?thesis by auto
  next
    case False
    let ?w = "utf8_width s"
    have w: "0 < ?w" and ok: "utf8_ok (drop ?w s)"
      using 1(2) False by (auto simp: utf8_ok_def utf8_chars.simps [of s] split: if_splits)
    have i: "i < length s" "\<not> cont_byte (s ! i)"
      using 1(3) False by (auto simp: is_char_boundary_def)
    have "?w \<le> i"
      using utf8_tail_cont [of i s] i(2) False by (metis not_le_imp_less not_gr_zero)
    moreover have "utf8_ok (drop (i - ?w) (drop ?w s))"
    proof (rule 1(1) [OF _ _ ok])
      have "i - ?w < length (drop ?w s)" using i(1) \<open>?w \<le> i\<close> by simp
      then show "is_char_boundary (drop ?w s) (i - ?w)"
        using i(2) \<open>?w \<le> i\<close> by (simp add: is_char_boundary_def)
    qed (use w False in auto)
    ultimately show ?thesis by simp
  qed
qed

section \<open>Code points and white space\<close>

fun char_code :: "bytes \<Rightarrow> nat" where
  "char_code [a] = unat a"
| "char_code [a, b] = (unat a - 0xC0) * 64 + (unat b - 0x80)"
| "char_code [a, b, c] = ((unat a - 0xE0) * 64 + (unat b - 0x80)) * 64 + (unat c - 0x80)"
| "char_code [a, b, c, d] =
     (((unat a - 0xF0) * 64 + (unat b - 0x80)) * 64 + (unat c - 0x80)) * 64 + (unat d - 0x80)"
| "char_code _ = 0"

text \<open>\<open>char::is_whitespace\<close>: the Unicode property White_Space.\<close>

definition is_whitespace :: "bytes \<Rightarrow> bool" where
  "is_whitespace ch \<longleftrightarrow> (let c = char_code ch in
     (9 \<le> c \<and> c \<le> 13) \<or> c = 32 \<or> c = 0x85 \<or> c = 0xA0 \<or> c = 0x1680 \<or> (0x2000 \<le> c \<and> c \<le> 0x200A)
     \<or> c = 0x2028 \<or> c = 0x2029 \<or> c = 0x202F \<or> c = 0x205F \<or> c = 0x3000)"

definition trim_chars :: "bytes list \<Rightarrow> bytes list" where
  "trim_chars cs = rev (dropWhile is_whitespace (rev (dropWhile is_whitespace cs)))"

definition trim :: "bytes \<Rightarrow> bytes" where
  "trim s = (case utf8_chars s of None \<Rightarrow> s | Some cs \<Rightarrow> concat (trim_chars cs))"

definition strip_prefix :: "bytes \<Rightarrow> bytes \<Rightarrow> bytes option" where
  "strip_prefix p s = (if take (length p) s = p then Some (drop (length p) s) else None)"

lemma strip_prefix_append [simp]: "strip_prefix p (p @ s) = Some s"
  by (simp add: strip_prefix_def)

lemma strip_prefix_Some: "strip_prefix p s = Some t \<longleftrightarrow> s = p @ t"
  by (auto simp: strip_prefix_def) (metis append_take_drop_id)

section \<open>Comparison without an early return\<close>

text \<open>The accumulator of the token comparisons: or of the xors of the paired bytes.\<close>

definition xor_fold :: "bytes \<Rightarrow> bytes \<Rightarrow> u8" where
  "xor_fold xs ys = foldl (\<lambda>acc (a, b). or acc (xor a b)) 0 (zip xs ys)"

lemma word_or_zero_iff: "or a b = (0 :: 'a::len word) \<longleftrightarrow> a = 0 \<and> b = 0"
  by (auto simp: bit_eq_iff bit_or_iff)

lemma word_xor_zero_iff: "xor a b = (0 :: 'a::len word) \<longleftrightarrow> a = b"
  by (auto simp: bit_eq_iff bit_xor_iff)

lemma xor_foldl_zero:
  "foldl (\<lambda>acc (a, b). or acc (xor a b)) acc ps = (0 :: u8) \<longleftrightarrow> acc = 0 \<and> (\<forall>(a, b) \<in> set ps. a = b)"
  by (induction ps arbitrary: acc) (auto simp: word_or_zero_iff word_xor_zero_iff)

lemma xor_fold_zero: "length xs = length ys \<Longrightarrow> xor_fold xs ys = 0 \<longleftrightarrow> xs = ys"
  by (induction xs ys rule: list_induct2) (auto simp: xor_fold_def xor_foldl_zero word_xor_zero_iff)

end
