(* ===== verification/DaemonProtocol.thy ===== *)
theory DaemonProtocol
  imports Utf8
begin

text \<open>
  \<open>src/src/daemon/protocol.rs\<close>: the NDJSON protocol between the application and its PTY daemon:
  messages, the line reader with its memory bound, the bounded response writer, the budget of a
  snapshot, the error envelopes and the handshake.
  serde\_json, base64 and the text form of a UUID are not under src/: the serializer is the
  parameter \<open>ser\<close> (the chunks it writes, or no value when it fails), the parsers are parameters
  too. A reader is the bytes still to come, followed by the end of the stream or an I/O error.
\<close>

section \<open>Messages\<close>

definition PROTOCOL_VERSION :: u32 where
  "PROTOCOL_VERSION = 4"

definition MAX_PROTOCOL_LINE_BYTES :: nat where
  "MAX_PROTOCOL_LINE_BYTES = 8 * 1024 * 1024"

definition MAX_WIRE_INPUT_BYTES :: nat where
  "MAX_WIRE_INPUT_BYTES = 64 * 1024"

definition MAX_SOCKET_PATH_BYTES :: nat where
  "MAX_SOCKET_PATH_BYTES = 104"

definition socket_path_fits :: "bytes \<Rightarrow> bool" where
  "socket_path_fits path \<longleftrightarrow> length path < MAX_SOCKET_PATH_BYTES"

record wire_spec =
  hook_generation :: "uuid option"
  hook_owner :: "uuid option"
  memory_task_id :: "uuid option"
  spec_title :: bytes
  spec_cwd :: "bytes option"
  startup_command :: "bytes option"
  spec_panel_id :: "uuid option"
  spec_workspace_id :: "uuid option"
  spec_leaf_id :: "uuid option"
  spec_cols :: u16
  spec_rows :: u16

definition default_cols :: u16 where
  "default_cols = 80"

definition default_rows :: u16 where
  "default_rows = 24"

definition default_spec :: wire_spec where
  "default_spec = \<lparr>hook_generation = None, hook_owner = None, memory_task_id = None, spec_title = [],
     spec_cwd = None, startup_command = None, spec_panel_id = None, spec_workspace_id = None,
     spec_leaf_id = None, spec_cols = default_cols, spec_rows = default_rows\<rparr>"

record wire_hook_target =
  wire_workspace_id :: uuid
  wire_panel_id :: uuid
  wire_leaf_id :: uuid

text \<open>Field order as in the source: \<open>Hello version token client_id\<close>, \<open>Spawn spec id\<close> and so on.\<close>

datatype request = Hello u32 bytes uuid
  | Spawn wire_spec "uuid option"
  | Attach uuid
  | Write uuid bytes
  | Resize uuid u16 u16
  | Kill uuid
  | CloseBirth uuid
  | SetPriority "uuid option"
  | ListSessions
  | ReconcileLive "uuid list"
  | ShutdownIfIdle

text \<open>\<open>Attached id snapshot seq alive output_ready hook_generation hook_target\<close>.\<close>

datatype response = Welcome u32 bool bool bool
  | Spawned uuid
  | Attached uuid bytes u64 bool bool "uuid option" "wire_hook_target option"
  | Sessions "uuid list"
  | OutputEvent uuid u64 bytes
  | ExitEvent uuid
  | InputError uuid bytes
  | Killed uuid
  | Reconciled "uuid list"
  | ShuttingDown
  | ErrorResponse bytes

record birth_capabilities =
  birth_idempotent :: bool
  cancel_safe :: bool
  has_hook_authority :: bool

definition permits_birth :: "birth_capabilities \<Rightarrow> bool" where
  "permits_birth c \<longleftrightarrow> birth_idempotent c \<and> cancel_safe c"

definition permits_hook_birth :: "birth_capabilities \<Rightarrow> bool" where
  "permits_hook_birth c \<longleftrightarrow> permits_birth c \<and> has_hook_authority c"

section \<open>Writing lines\<close>

type_synonym 'm serializer = "'m \<Rightarrow> bytes list option"

definition LF :: u8 where
  "LF = 10"

definition encode_line :: "'m serializer \<Rightarrow> 'm \<Rightarrow> bytes" where
  "encode_line ser m = (case ser m of None \<Rightarrow> bytes_of ''{}'' | Some cs \<Rightarrow> concat cs) @ [LF]"

datatype wire_error = SnapshotWireTooLarge | BinaryTooLarge | ResponseTooLarge | InvalidLimit
  | SerializerFailed | LineTooLarge | LineNotUtf8 | ReadFailed

definition nil_target :: wire_hook_target where
  "nil_target = \<lparr>wire_workspace_id = 0, wire_panel_id = 0, wire_leaf_id = 0\<rparr>"

definition snapshot_payload_budget :: "response serializer \<Rightarrow> uuid \<Rightarrow> nat \<Rightarrow> wire_error + nat" where
  "snapshot_payload_budget ser sid max_line_bytes =
    (let attached = length (encode_line ser
           (Attached sid [] (- 1) False False (Some 0) (Some nil_target)));
         repair = length (encode_line ser (OutputEvent sid (- 1) []))
     in and_then (reject_if (max_line_bytes < max attached repair) SnapshotWireTooLarge) (\<lambda>_.
        Inr ((max_line_bytes - max attached repair) div 4 * 3)))"

definition snapshot_ansi_budget :: "response serializer \<Rightarrow> uuid \<Rightarrow> nat \<Rightarrow> nat \<Rightarrow> wire_error + nat" where
  "snapshot_ansi_budget ser sid metadata_bytes max_line_bytes =
     and_then (snapshot_payload_budget ser sid max_line_bytes) (\<lambda>budget.
     and_then (reject_if (budget < metadata_bytes) SnapshotWireTooLarge) (\<lambda>_.
       Inr (budget - metadata_bytes)))"

text \<open>The payload that the early check of the response writer looks at.\<close>

fun binary_payload :: "response \<Rightarrow> (uuid \<times> bytes) option" where
  "binary_payload (Attached sid snapshot _ _ _ _ _) = Some (sid, snapshot)"
| "binary_payload (OutputEvent sid _ data) = Some (sid, data)"
| "binary_payload _ = None"

text \<open>\<open>LineBytes::write\<close> for the chunks of the serializer, one after the other.\<close>

fun write_chunks :: "nat \<Rightarrow> bytes \<Rightarrow> bytes list \<Rightarrow> wire_error + bytes" where
  "write_chunks max_bytes line [] = Inr line"
| "write_chunks max_bytes line (c # cs) =
     (if length c > max_bytes - length line then Inl ResponseTooLarge
      else write_chunks max_bytes (line @ c) cs)"

definition encode_response_line_with_limit ::
    "response serializer \<Rightarrow> response \<Rightarrow> nat \<Rightarrow> wire_error + bytes" where
  "encode_response_line_with_limit ser r max_line_bytes =
     and_then (reject_if (case binary_payload r of None \<Rightarrow> False | Some (sid, payload) \<Rightarrow>
         length payload > (case snapshot_payload_budget ser sid max_line_bytes of
            Inl _ \<Rightarrow> 0 | Inr b \<Rightarrow> b)) BinaryTooLarge) (\<lambda>_.
     and_then (reject_if (max_line_bytes = 0) InvalidLimit) (\<lambda>_.
     and_then (ok_or SerializerFailed (ser r)) (\<lambda>chunks.
     and_then (write_chunks (max_line_bytes - 1) [] chunks) (\<lambda>line.
       Inr (line @ [LF])))))"

section \<open>Error envelopes\<close>

datatype snapshot_failure_kind = TooLarge | Unavailable | UnknownFailure

definition SNAPSHOT_FAILURE_PREFIX :: bytes where
  "SNAPSHOT_FAILURE_PREFIX = bytes_of ''terminal_canvas_snapshot_failure_v1:''"

definition BIRTH_REJECTED_PREFIX :: bytes where
  "BIRTH_REJECTED_PREFIX = bytes_of ''terminal_canvas_birth_rejected_v1:''"

definition snapshot_failure_response ::
    "(uuid \<times> snapshot_failure_kind \<Rightarrow> bytes) \<Rightarrow> uuid \<Rightarrow> snapshot_failure_kind \<Rightarrow> response" where
  "snapshot_failure_response details_json sid kind =
     ErrorResponse (SNAPSHOT_FAILURE_PREFIX @ details_json (sid, kind))"

definition snapshot_failure_from_response ::
    "(bytes \<Rightarrow> (uuid \<times> snapshot_failure_kind) option) \<Rightarrow> response
      \<Rightarrow> (uuid \<times> snapshot_failure_kind) option" where
  "snapshot_failure_from_response parse_details r = (case r of
       ErrorResponse message \<Rightarrow> Option.bind (strip_prefix SNAPSHOT_FAILURE_PREFIX message) parse_details
     | _ \<Rightarrow> None)"

definition birth_rejected_response :: "(uuid \<Rightarrow> bytes) \<Rightarrow> uuid \<Rightarrow> response" where
  "birth_rejected_response show_uuid sid = ErrorResponse (BIRTH_REJECTED_PREFIX @ show_uuid sid)"

definition birth_rejected_from_response :: "(bytes \<Rightarrow> uuid option) \<Rightarrow> response \<Rightarrow> uuid option" where
  "birth_rejected_from_response parse_uuid r = (case r of
       ErrorResponse message \<Rightarrow> Option.bind (strip_prefix BIRTH_REJECTED_PREFIX message) parse_uuid
     | _ \<Rightarrow> None)"

definition close_pending_response :: "(uuid \<Rightarrow> bytes) \<Rightarrow> uuid \<Rightarrow> response" where
  "close_pending_response show_uuid sid
     = ErrorResponse (bytes_of ''terminal_canvas_close_pending_v1:'' @ show_uuid sid)"

section \<open>Reading lines\<close>

record reader =
  stream :: bytes
  faulty :: bool

definition USIZE_MAX :: nat where
  "USIZE_MAX = 2 ^ 64 - 1"

text \<open>\<open>take(limit).read_until(LF)\<close>: what was read and what is left.\<close>

fun read_until :: "nat \<Rightarrow> bytes \<Rightarrow> bytes \<times> bytes" where
  "read_until 0 s = ([], s)"
| "read_until (Suc n) [] = ([], [])"
| "read_until (Suc n) (b # s) =
     (if b = LF then ([b], s) else (let (l, r) = read_until n s in (b # l, r)))"

definition reached_end :: "nat \<Rightarrow> bytes \<Rightarrow> bool" where
  "reached_end limit l \<longleftrightarrow> length l < limit \<and> (l = [] \<or> last l \<noteq> LF)"

definition read_protocol_line_with_limit ::
    "reader \<Rightarrow> nat \<Rightarrow> (wire_error + bytes option) \<times> reader" where
  "read_protocol_line_with_limit rd max_bytes =
    (if max_bytes = USIZE_MAX then (Inl InvalidLimit, rd)
     else let limit = max_bytes + 1; (l, rest) = read_until limit (stream rd); rd' = rd\<lparr>stream := rest\<rparr> in
       if reached_end limit l \<and> faulty rd then (Inl ReadFailed, rd')
       else if l = [] then (Inr None, rd')
       else if length l > max_bytes then (Inl LineTooLarge, rd')
       else if utf8_ok l then (Inr (Some l), rd')
       else (Inl LineNotUtf8, rd'))"

definition read_protocol_line :: "reader \<Rightarrow> (wire_error + bytes option) \<times> reader" where
  "read_protocol_line rd = read_protocol_line_with_limit rd MAX_PROTOCOL_LINE_BYTES"

definition decode_line :: "(bytes \<Rightarrow> 'm option) \<Rightarrow> bytes \<Rightarrow> 'm option" where
  "decode_line from_str line = (let l = trim line in if l = [] then None else from_str l)"

section \<open>Handshake\<close>

definition handshake_ok :: "u32 \<Rightarrow> bytes \<Rightarrow> bytes \<Rightarrow> bool" where
  "handshake_ok version token expected_token =
    (if version \<noteq> PROTOCOL_VERSION then False
     else if expected_token = [] \<or> length token \<noteq> length expected_token then False
     else xor_fold token expected_token = 0)"

section \<open>The handshake and the envelopes\<close>

text \<open>
  The handshake accepts exactly the current protocol version together with the configured,
  non-empty token: the comparison without an early return is equality of the two tokens.\<close>
theorem handshake_exact:
  "handshake_ok version token expected
     \<longleftrightarrow> version = PROTOCOL_VERSION \<and> expected \<noteq> [] \<and> token = expected"
  by (auto simp: handshake_ok_def xor_fold_zero)

lemma prefixes_differ:
  "take (length SNAPSHOT_FAILURE_PREFIX) (BIRTH_REJECTED_PREFIX @ s) \<noteq> SNAPSHOT_FAILURE_PREFIX"
  "take (length BIRTH_REJECTED_PREFIX) (SNAPSHOT_FAILURE_PREFIX @ s) \<noteq> BIRTH_REJECTED_PREFIX"
  by (simp_all add: SNAPSHOT_FAILURE_PREFIX_def BIRTH_REJECTED_PREFIX_def bytes_of_def byte_of_char_def)

text \<open>The two machine-readable errors are read back, and neither is taken for the other.\<close>

lemma envelopes_roundtrip:
  assumes "\<And>u. parse_uuid (show_uuid u) = Some u" and "\<And>d. parse_details (details_json d) = Some d"
  shows "birth_rejected_from_response parse_uuid (birth_rejected_response show_uuid u) = Some u"
    and "snapshot_failure_from_response parse_details (snapshot_failure_response details_json u k) = Some (u, k)"
    and "birth_rejected_from_response parse_uuid (snapshot_failure_response details_json u k) = None"
    and "snapshot_failure_from_response parse_details (birth_rejected_response show_uuid u) = None"
  using assms prefixes_differ
  by (simp_all add: birth_rejected_from_response_def birth_rejected_response_def
      snapshot_failure_from_response_def snapshot_failure_response_def strip_prefix_def)

section \<open>The bounded reader\<close>

lemma read_until_split: "read_until n s = (l, r) \<Longrightarrow> s = l @ r \<and> length l \<le> n"
  by (induction n s arbitrary: l r rule: read_until.induct) (auto split: if_splits prod.splits)

lemma read_until_no_inner: "read_until n s = (l, r) \<Longrightarrow> LF \<notin> set (butlast l)"
  by (induction n s arbitrary: l r rule: read_until.induct) (auto split: if_splits prod.splits)

lemma read_until_end: "read_until n s = (l, r) \<Longrightarrow> reached_end n l \<Longrightarrow> r = []"
proof (induction n s arbitrary: l r rule: read_until.induct)
  case (3 n b s)
  then show ?case
    by (auto simp: reached_end_def split: if_splits prod.splits)
qed (auto simp: reached_end_def)

lemma read_until_line:
  "LF \<notin> set l \<Longrightarrow> length l < n \<Longrightarrow> read_until n (l @ LF # r) = (l @ [LF], r)"
proof (induction l arbitrary: n)
  case Nil
  then show ?case by (cases n) auto
next
  case (Cons b l)
  then show ?case by (cases n) auto
qed

lemma read_until_nonempty: "read_until (Suc n) s = ([], r) \<Longrightarrow> s = []"
  by (cases s) (auto split: if_splits prod.splits)

text \<open>
  The line reader is bounded and loses no framing. On any stream and any limit it consumes a
  prefix of at most one byte more than the limit; a line it returns is exactly that prefix, within
  the limit, valid UTF-8, not empty, with no line feed inside, and complete unless the stream has
  ended; no value means the stream had ended; and a too long line is reported only when one byte
  more than the limit was there without a line feed before it.\<close>
theorem protocol_line_bounded:
  assumes "read_protocol_line_with_limit rd max_bytes = (res, rd')"
  shows "\<exists>used. stream rd = used @ stream rd' \<and> length used \<le> max_bytes + 1
    \<and> (case res of
        Inr (Some l) \<Rightarrow> l = used \<and> l \<noteq> [] \<and> length l \<le> max_bytes \<and> utf8_ok l \<and> LF \<notin> set (butlast l)
           \<and> (last l = LF \<or> stream rd' = [])
      | Inr None \<Rightarrow> stream rd = [] \<and> used = []
      | Inl LineTooLarge \<Rightarrow> length used = max_bytes + 1 \<and> LF \<notin> set (butlast used)
      | Inl LineNotUtf8 \<Rightarrow> \<not> utf8_ok used \<and> length used \<le> max_bytes
      | Inl ReadFailed \<Rightarrow> faulty rd \<and> stream rd' = []
      | Inl e \<Rightarrow> e = InvalidLimit \<and> max_bytes = USIZE_MAX)"
proof (cases "max_bytes = USIZE_MAX")
  case True
  then show ?thesis using assms by (auto simp: read_protocol_line_with_limit_def)
next
  case False
  obtain l r where lr: "read_until (max_bytes + 1) (stream rd) = (l, r)" by fastforce
  have s: "stream rd = l @ r" "length l \<le> max_bytes + 1" and inner: "LF \<notin> set (butlast l)"
    and e: "reached_end (max_bytes + 1) l \<Longrightarrow> r = []"
    using read_until_split [OF lr] read_until_no_inner [OF lr] read_until_end [OF lr] by auto
  have empty: "l = [] \<Longrightarrow> stream rd = []"
    using read_until_nonempty [of max_bytes "stream rd" r] lr by simp
  have last: "length l \<le> max_bytes \<Longrightarrow> last l = LF \<or> r = []"
    using e by (auto simp: reached_end_def)
  have rd': "stream rd' = r"
    and res: "res = (if reached_end (max_bytes + 1) l \<and> faulty rd then Inl ReadFailed
       else if l = [] then Inr None else if length l > max_bytes then Inl LineTooLarge
       else if utf8_ok l then Inr (Some l) else Inl LineNotUtf8)"
    using assms False lr by (auto simp: read_protocol_line_with_limit_def Let_def split: if_splits)
  show ?thesis
  proof (intro exI [of _ l] conjI)
    show "stream rd = l @ stream rd'" "length l \<le> max_bytes + 1" using s rd' by auto
    consider "reached_end (max_bytes + 1) l \<and> faulty rd"
      | "\<not> (reached_end (max_bytes + 1) l \<and> faulty rd)" "l = []"
      | "\<not> (reached_end (max_bytes + 1) l \<and> faulty rd)" "l \<noteq> []" "max_bytes < length l"
      | "\<not> (reached_end (max_bytes + 1) l \<and> faulty rd)" "l \<noteq> []" "length l \<le> max_bytes"
      by linarith
    then show "case res of
        Inr (Some k) \<Rightarrow> k = l \<and> k \<noteq> [] \<and> length k \<le> max_bytes \<and> utf8_ok k \<and> LF \<notin> set (butlast k)
           \<and> (last k = LF \<or> stream rd' = [])
      | Inr None \<Rightarrow> stream rd = [] \<and> l = []
      | Inl LineTooLarge \<Rightarrow> length l = max_bytes + 1 \<and> LF \<notin> set (butlast l)
      | Inl LineNotUtf8 \<Rightarrow> \<not> utf8_ok l \<and> length l \<le> max_bytes
      | Inl ReadFailed \<Rightarrow> faulty rd \<and> stream rd' = []
      | Inl e \<Rightarrow> e = InvalidLimit \<and> max_bytes = USIZE_MAX"
    proof cases
      case 1
      then show ?thesis using res e rd' by simp
    next
      case 2
      then show ?thesis using res empty by (simp add: reached_end_def)
    next
      case 3
      then show ?thesis using res s(2) inner by (simp add: reached_end_def)
    next
      case 4
      then have "res = (if utf8_ok l then Inr (Some l) else Inl LineNotUtf8)" using res by auto
      then show ?thesis using 4 last inner rd' by simp
    qed
  qed
qed

definition demo_stream :: reader where
  "demo_stream = \<lparr>stream = bytes_of ''{}'' @ [LF] @ bytes_of ''tail'', faulty = True\<rparr>"

theorem protocol_line_bounded_witness:
  "\<exists>used. stream demo_stream = used @ bytes_of ''tail'' \<and> length used \<le> 9"
proof -
  have "read_protocol_line_with_limit demo_stream 8
     = (Inr (Some (bytes_of ''{}'' @ [LF])), \<lparr>stream = bytes_of ''tail'', faulty = True\<rparr>)"
    using read_until_line [of "bytes_of ''{}''" 9 "bytes_of ''tail''"]
    by (simp add: read_protocol_line_with_limit_def demo_stream_def USIZE_MAX_def reached_end_def
        bytes_of_def byte_of_char_def LF_def utf8_ascii)
  from protocol_line_bounded [OF this] show ?thesis by auto
qed

section \<open>Messages on a connection\<close>

text \<open>
  What the protocol relies on of serde\_json for its messages: a message is written as one JSON
  object, valid UTF-8 and without a raw line feed, and is parsed back to itself.
\<close>

definition json_object :: "bytes \<Rightarrow> bool" where
  "json_object t \<longleftrightarrow> (\<exists>mid. t = 0x7B # mid @ [0x7D] \<and> utf8_ok mid \<and> LF \<notin> set mid)"

definition json_laws :: "'m serializer \<Rightarrow> (bytes \<Rightarrow> 'm option) \<Rightarrow> bool" where
  "json_laws ser from_str \<longleftrightarrow>
     (\<forall>m. \<exists>cs. ser m = Some cs \<and> json_object (concat cs) \<and> from_str (concat cs) = Some m)"

fun read_lines :: "nat \<Rightarrow> nat \<Rightarrow> reader \<Rightarrow> (wire_error + bytes option) list" where
  "read_lines 0 max_bytes rd = []"
| "read_lines (Suc n) max_bytes rd =
    (let (res, rd') = read_protocol_line_with_limit rd max_bytes in res # read_lines n max_bytes rd')"

lemma utf8_chars_ascii: "b < 0x80 \<Longrightarrow> utf8_chars (b # bs) = map_option ((#) [b]) (utf8_chars bs)"
  by (simp add: utf8_chars_step)

lemma trim_json_line:
  assumes "json_object t"
  shows "trim (t @ [LF]) = t" and "t \<noteq> []"
proof -
  obtain mid where t: "t = 0x7B # mid @ [0x7D]" "utf8_ok mid"
    using assms by (auto simp: json_object_def)
  obtain cs where cs: "utf8_chars mid = Some cs" using t(2) by (auto simp: utf8_ok_def)
  have "utf8_chars (t @ [LF]) = Some ([0x7B] # cs @ [[0x7D], [LF]])"
    using cs by (simp add: t(1) utf8_chars_ascii utf8_chars_append LF_def)
  then show "trim (t @ [LF]) = t"
    by (simp add: trim_def trim_chars_def is_whitespace_def LF_def t(1) utf8_chars_concat [OF cs])
  show "t \<noteq> []" by (simp add: t(1))
qed

lemma json_line:
  assumes "json_laws ser from_str"
  obtains t where "encode_line ser m = t @ [LF]" "json_object t" "from_str t = Some m"
  using assms unfolding json_laws_def encode_line_def
  by (metis (no_types, lifting) option.simps(5))

lemma json_object_line: "json_object t \<Longrightarrow> LF \<notin> set t \<and> utf8_ok (t @ [LF])"
  by (auto simp: json_object_def LF_def utf8_ascii utf8_ok_append)

lemma read_one_message:
  assumes laws: "json_laws ser from_str" and fits: "length (encode_line ser m) \<le> max_bytes"
    and small: "max_bytes < USIZE_MAX"
  shows "read_protocol_line_with_limit \<lparr>stream = encode_line ser m @ rest, faulty = f\<rparr> max_bytes
    = (Inr (Some (encode_line ser m)), \<lparr>stream = rest, faulty = f\<rparr>)"
proof -
  obtain t where t: "encode_line ser m = t @ [LF]" "json_object t"
    using json_line [OF laws] by metis
  have "read_until (max_bytes + 1) (encode_line ser m @ rest) = (encode_line ser m, rest)"
    using read_until_line [of t "max_bytes + 1" rest] json_object_line [OF t(2)] fits
    by (simp add: t(1))
  then show ?thesis
    using fits small json_object_line [OF t(2)]
    by (simp add: read_protocol_line_with_limit_def Let_def reached_end_def t(1))
qed

text \<open>
  A connection delivers every message. When the serializer writes JSON objects that its parser
  reads back, the lines read from any sequence of encoded messages that respect the limit are those
  messages in order followed by the end of the stream, and every line decodes to its message.\<close>
theorem messages_roundtrip:
  assumes "json_laws ser from_str" and "\<forall>m \<in> set ms. length (encode_line ser m) \<le> max_bytes"
    and "max_bytes < USIZE_MAX"
  shows "read_lines (length ms + 1) max_bytes \<lparr>stream = concat (map (encode_line ser) ms), faulty = False\<rparr>
      = map (\<lambda>m. Inr (Some (encode_line ser m))) ms @ [Inr None]
    \<and> (\<forall>m. decode_line from_str (encode_line ser m) = Some m)"
proof
  show "read_lines (length ms + 1) max_bytes \<lparr>stream = concat (map (encode_line ser) ms), faulty = False\<rparr>
      = map (\<lambda>m. Inr (Some (encode_line ser m))) ms @ [Inr None]"
    using assms(2)
  proof (induction ms)
    case Nil
    show ?case using assms(3)
      by (simp add: read_protocol_line_with_limit_def)
  next
    case (Cons m ms)
    then show ?case using read_one_message [OF assms(1) _ assms(3), of m] by simp
  qed
  show "\<forall>m. decode_line from_str (encode_line ser m) = Some m"
  proof
    fix m
    obtain t where "encode_line ser m = t @ [LF]" "json_object t" "from_str t = Some m"
      using json_line [OF assms(1)] by metis
    then show "decode_line from_str (encode_line ser m) = Some m"
      by (simp add: decode_line_def trim_json_line)
  qed
qed

definition demo_ser :: "bool serializer" where
  "demo_ser b = Some [[0x7B], if b then [0x31] else [0x30], [0x7D]]"

definition demo_from :: "bytes \<Rightarrow> bool option" where
  "demo_from s = (if s = [0x7B, 0x31, 0x7D] then Some True
     else if s = [0x7B, 0x30, 0x7D] then Some False else None)"

lemma demo_json_laws: "json_laws demo_ser demo_from"
  unfolding json_laws_def
proof
  fix m
  have "json_object (concat [[0x7B], if m then [0x31] else [0x30], [0x7D]])"
    unfolding json_object_def
    by (rule exI [of _ "if m then [0x31] else [0x30]"]) (auto simp: utf8_ascii LF_def)
  then show "\<exists>cs. demo_ser m = Some cs \<and> json_object (concat cs) \<and> demo_from (concat cs) = Some m"
    by (auto simp: demo_ser_def demo_from_def)
qed

theorem messages_roundtrip_witness:
  "read_lines 3 4 \<lparr>stream = concat (map (encode_line demo_ser) [True, False]), faulty = False\<rparr>
     = [Inr (Some (encode_line demo_ser True)), Inr (Some (encode_line demo_ser False)), Inr None]"
  using messages_roundtrip [OF demo_json_laws, of "[True, False]" 4]
  by (simp add: encode_line_def demo_ser_def USIZE_MAX_def numeral_3_eq_3)

section \<open>The budget of a snapshot\<close>

lemma write_chunks_iff:
  "length line \<le> n \<Longrightarrow> write_chunks n line cs =
     (if length line + length (concat cs) \<le> n then Inr (line @ concat cs) else Inl ResponseTooLarge)"
  by (induction cs arbitrary: line) auto

text \<open>
  What the budget relies on of the serializer: base64 turns n bytes into 4 * ceil (n / 3)
  characters and changes nothing else; the other fields of the two messages are at their longest
  in the messages from which the budget is computed.
\<close>

definition base64_len :: "nat \<Rightarrow> nat" where
  "base64_len n = 4 * ((n + 2) div 3)"

definition text_len :: "response serializer \<Rightarrow> response \<Rightarrow> nat" where
  "text_len ser r = (case ser r of None \<Rightarrow> 0 | Some cs \<Rightarrow> length (concat cs))"

definition snapshot_laws :: "response serializer \<Rightarrow> bool" where
  "snapshot_laws ser \<longleftrightarrow> (\<forall>r. ser r \<noteq> None)
     \<and> (\<forall>i s q al rdy g t. text_len ser (Attached i s q al rdy g t)
           = text_len ser (Attached i [] q al rdy g t) + base64_len (length s))
     \<and> (\<forall>i q al rdy g t. text_len ser (Attached i [] q al rdy g t)
           \<le> text_len ser (Attached i [] (- 1) False False (Some 0) (Some nil_target)))
     \<and> (\<forall>i s q. text_len ser (OutputEvent i q s) = text_len ser (OutputEvent i q []) + base64_len (length s))
     \<and> (\<forall>i q. text_len ser (OutputEvent i q []) \<le> text_len ser (OutputEvent i (- 1) []))"

lemma encode_line_len: "ser r \<noteq> None \<Longrightarrow> length (encode_line ser r) = text_len ser r + 1"
  by (auto simp: encode_line_def text_len_def)

lemma base64_budget: "n \<le> k div 4 * 3 \<Longrightarrow> base64_len n \<le> k"
proof -
  assume "n \<le> k div 4 * 3"
  then have "(n + 2) div 3 \<le> k div 4" by linarith
  then show "base64_len n \<le> k" unfolding base64_len_def by linarith
qed

text \<open>
  The snapshot budget is sufficient. Whatever the protocol's limit, a snapshot or a repair
  whose payload is within \<open>snapshot_payload_budget\<close> is encoded, for every sequence number, flag and
  hook target: the line is the message's JSON followed by a line feed, and it is within the limit.\<close>
theorem budgeted_snapshot_fits:
  assumes laws: "snapshot_laws ser" and payload: "binary_payload r = Some (i, s)"
    and budget: "snapshot_payload_budget ser i limit = Inr b" and fits: "length s \<le> b"
  shows "encode_response_line_with_limit ser r limit = Inr (encode_line ser r)
    \<and> length (encode_line ser r) \<le> limit"
proof -
  define A where "A = text_len ser (Attached i [] (- 1) False False (Some 0) (Some nil_target))"
  define R where "R = text_len ser (OutputEvent i (- 1) [])"
  have total: "ser x \<noteq> None" for x using laws unfolding snapshot_laws_def by blast
  have lim: "max (A + 1) (R + 1) \<le> limit" and b: "b = (limit - max (A + 1) (R + 1)) div 4 * 3"
    using budget by (auto simp: snapshot_payload_budget_def Let_def result_simps encode_line_len total
        A_def R_def)
  have "base64_len (length s) \<le> limit - max (A + 1) (R + 1)"
    using fits unfolding b by (rule base64_budget)
  moreover have "text_len ser r \<le> max A R + base64_len (length s)"
  proof -
    have "text_len ser (Attached i s q al rdy g t)
          = text_len ser (Attached i [] q al rdy g t) + base64_len (length s)"
        "text_len ser (Attached i [] q al rdy g t) \<le> A"
        "text_len ser (OutputEvent i q s) = text_len ser (OutputEvent i q []) + base64_len (length s)"
        "text_len ser (OutputEvent i q []) \<le> R" for q al rdy g t
      using laws unfolding snapshot_laws_def A_def R_def by blast+
    then have a: "text_len ser (Attached i s q al rdy g t) \<le> A + base64_len (length s)"
      and o: "text_len ser (OutputEvent i q s) \<le> R + base64_len (length s)" for q al rdy g t
      by (metis add_le_mono1)+
    from payload show ?thesis
    proof (cases r)
      case (Attached j u q al rdy g t)
      then show ?thesis using payload a [of q al rdy g t] by simp
    next
      case (OutputEvent j q u)
      then show ?thesis using payload o [of q] by simp
    qed simp_all
  qed
  ultimately have size: "text_len ser r + 1 \<le> limit"
    using lim by linarith
  obtain cs where cs: "ser r = Some cs" using total by auto
  have "write_chunks (limit - 1) [] cs = Inr (concat cs)"
    using size cs by (simp add: write_chunks_iff text_len_def)
  then have "encode_response_line_with_limit ser r limit = Inr (encode_line ser r)"
    using fits budget payload cs size
    by (simp add: encode_response_line_with_limit_def encode_line_def)
  then show ?thesis using size by (simp add: encode_line_len total)
qed

definition demo_response_ser :: "response serializer" where
  "demo_response_ser r = Some (case binary_payload r of
       None \<Rightarrow> [[0x7B, 0x7D]]
     | Some (_, s) \<Rightarrow> [[0x7B], replicate (base64_len (length s)) 0x41, [0x7D]])"

lemma demo_response_ser_len:
  "text_len demo_response_ser r
     = 2 + (case binary_payload r of None \<Rightarrow> 0 | Some (_, s) \<Rightarrow> base64_len (length s))"
  by (auto simp: text_len_def demo_response_ser_def split: option.splits)

lemma demo_response_ser_laws: "snapshot_laws demo_response_ser"
  unfolding snapshot_laws_def demo_response_ser_len
  by (simp add: demo_response_ser_def base64_len_def)

theorem budgeted_snapshot_fits_witness:
  "encode_response_line_with_limit demo_response_ser (OutputEvent 5 7 [1, 2, 3, 4, 5, 6]) 11
     = Inr (encode_line demo_response_ser (OutputEvent 5 7 [1, 2, 3, 4, 5, 6]))"
proof -
  have "snapshot_payload_budget demo_response_ser 5 11 = Inr 6"
    by (simp add: snapshot_payload_budget_def encode_line_def demo_response_ser_def base64_len_def)
  then show ?thesis
    using budgeted_snapshot_fits [OF demo_response_ser_laws, of "OutputEvent 5 7 [1, 2, 3, 4, 5, 6]" 5
        "[1, 2, 3, 4, 5, 6]" 11 6] by simp
qed

text \<open>A line the writer returns is never longer than the limit, whatever the serializer does.\<close>

lemma encoded_response_bounded:
  "encode_response_line_with_limit ser r limit = Inr line \<Longrightarrow> length line \<le> limit \<and> last line = LF"
  by (auto simp: encode_response_line_with_limit_def result_simps write_chunks_iff split: if_splits)

end
