(* ===== verification/ReaderRetirement.thy ===== *)
theory ReaderRetirement
  imports Prelude
begin

text \<open>
  \<open>src/src/terminal/reader_retirement.rs\<close>: the atomic state that lets a closing terminal pause its
  reader, take what was read, and then drain to the physical end of file. Each atomic update is a
  function of the state; \<open>read_and_retain\<close> is split at its atomic updates, because the thread that
  retires the terminal runs between them. The reader loop of \<open>src/src/terminal/pty.rs\<close> stops after
  EOF or a failure and marks the state as failed when it panics.
\<close>

section \<open>The atomic state\<close>

datatype reader_phase = IDLE | READING | PAUSE_REQUESTED | PAUSED | DRAINING | DRAIN_READING | EOF | FAILED

fun begin_read :: "reader_phase \<Rightarrow> reader_phase option" where
  "begin_read IDLE = Some READING"
| "begin_read DRAINING = Some DRAIN_READING"
| "begin_read _ = None"

fun finish_read :: "reader_phase \<Rightarrow> reader_phase" where
  "finish_read READING = IDLE"
| "finish_read PAUSE_REQUESTED = PAUSED"
| "finish_read DRAIN_READING = DRAINING"
| "finish_read p = p"

fun request_pause :: "reader_phase \<Rightarrow> reader_phase" where
  "request_pause IDLE = PAUSED"
| "request_pause READING = PAUSE_REQUESTED"
| "request_pause p = p"

definition quiescent :: "reader_phase \<Rightarrow> bool" where
  "quiescent p \<longleftrightarrow> p = PAUSED \<or> p = EOF"

definition draining :: "reader_phase \<Rightarrow> bool" where
  "draining p \<longleftrightarrow> p = DRAINING \<or> p = DRAIN_READING"

definition resume_drain :: "reader_phase \<Rightarrow> reader_phase" where
  "resume_drain p = (if p = PAUSED then DRAINING else p)"

section \<open>One read\<close>

text \<open>
  What the operating system answers: no bytes, some bytes, the broken pipe that Windows reports for
  a closed console, a transient error, any other error.
\<close>

datatype read_outcome = ReadZero | ReadBytes bytes | ReadBrokenPipe | ReadTransient | ReadFailure

datatype read_completion = Data | Retry | Paused | EofReached | ReadFailed

text \<open>The state and the completion after the outcome, before \<open>finish_read\<close>; the flag is the result of
  the retention closure.\<close>

fun complete_read :: "reader_phase \<Rightarrow> read_outcome \<Rightarrow> bool \<Rightarrow> reader_phase \<times> read_completion" where
  "complete_read p ReadZero retained = (EOF, EofReached)"
| "complete_read p (ReadBytes b) retained = (if retained then (p, Data) else (FAILED, ReadFailed))"
| "complete_read p ReadBrokenPipe retained = (EOF, EofReached)"
| "complete_read p ReadTransient retained = (p, Retry)"
| "complete_read p ReadFailure retained = (FAILED, ReadFailed)"

text \<open>The whole call when nothing else runs in between.\<close>

definition read_and_retain :: "reader_phase \<Rightarrow> read_outcome \<Rightarrow> bool \<Rightarrow> reader_phase \<times> read_completion" where
  "read_and_retain p outcome retained = (case begin_read p of
       None \<Rightarrow> (p, Paused)
     | Some q \<Rightarrow> (case complete_read q outcome retained of (r, c) \<Rightarrow> (finish_read r, c)))"

section \<open>The reader and the thread that retires it\<close>

datatype reader_pc = Outside | Admitted | Completed | Stopped

text \<open>\<open>delivered\<close> is what the operating system has handed out, \<open>retained\<close> what reached the log.\<close>

record reader_system =
  phase :: reader_phase
  pc :: reader_pc
  delivered :: bytes
  retained :: bytes

fun outcome_bytes :: "read_outcome \<Rightarrow> bytes" where
  "outcome_bytes (ReadBytes b) = b"
| "outcome_bytes _ = []"

inductive reader_step :: "reader_system \<Rightarrow> reader_system \<Rightarrow> bool" where
  admit: "pc s = Outside \<Longrightarrow> begin_read (phase s) = Some p \<Longrightarrow>
    reader_step s (s\<lparr>phase := p, pc := Admitted\<rparr>)"
| complete: "pc s = Admitted \<Longrightarrow> complete_read (phase s) outcome ok = (p, c) \<Longrightarrow>
    reader_step s (s\<lparr>phase := p, pc := Completed, delivered := delivered s @ outcome_bytes outcome,
      retained := (if ok then retained s @ outcome_bytes outcome else retained s)\<rparr>)"
| finish: "pc s = Completed \<Longrightarrow> reader_step s (s\<lparr>phase := finish_read (phase s), pc := Outside\<rparr>)"
| request: "reader_step s (s\<lparr>phase := request_pause (phase s)\<rparr>)"
| resume: "reader_step s (s\<lparr>phase := resume_drain (phase s)\<rparr>)"
| stop: "pc s = Outside \<Longrightarrow> phase s \<in> {EOF, FAILED} \<Longrightarrow> reader_step s (s\<lparr>pc := Stopped\<rparr>)"
| panic: "pc s \<noteq> Stopped \<Longrightarrow>
    reader_step s (s\<lparr>phase := FAILED, pc := Stopped, delivered := delivered s @ lost\<rparr>)"

inductive_cases reader_stepE: "reader_step s t"

definition reader_initial :: "reader_system \<Rightarrow> bool" where
  "reader_initial s \<longleftrightarrow> s = \<lparr>phase = IDLE, pc = Outside, delivered = [], retained = []\<rparr>"

definition reader_inv :: "reader_system \<Rightarrow> bool" where
  "reader_inv s \<longleftrightarrow>
     (phase s \<noteq> FAILED \<longrightarrow> retained s = delivered s)
   \<and> phase s \<in> (case pc s of
        Outside \<Rightarrow> {IDLE, PAUSED, DRAINING, EOF, FAILED}
      | Admitted \<Rightarrow> {READING, PAUSE_REQUESTED, DRAIN_READING}
      | Completed \<Rightarrow> {READING, PAUSE_REQUESTED, DRAIN_READING, EOF, FAILED}
      | Stopped \<Rightarrow> {EOF, FAILED})"

lemma reader_inv_initial: "reader_initial s \<Longrightarrow> reader_inv s"
  by (simp add: reader_initial_def reader_inv_def)

lemma complete_keeps:
  assumes "reader_inv s" and "pc s = Admitted" and "complete_read (phase s) outcome ok = (p, c)"
  shows "reader_inv (s\<lparr>phase := p, pc := Completed, delivered := delivered s @ outcome_bytes outcome,
      retained := (if ok then retained s @ outcome_bytes outcome else retained s)\<rparr>)"
  using assms by (cases outcome; cases ok) (auto simp: reader_inv_def)

lemma reader_step_inv: "reader_inv s \<Longrightarrow> reader_step s t \<Longrightarrow> reader_inv t"
proof (erule reader_stepE)
  fix p assume "reader_inv s" "pc s = Outside" "begin_read (phase s) = Some p"
    "t = s\<lparr>phase := p, pc := Admitted\<rparr>"
  then show ?thesis by (cases "phase s") (auto simp: reader_inv_def)
next
  fix outcome ok p c
  assume "reader_inv s" "pc s = Admitted" "complete_read (phase s) outcome ok = (p, c)"
    "t = s\<lparr>phase := p, pc := Completed, delivered := delivered s @ outcome_bytes outcome,
      retained := if ok then retained s @ outcome_bytes outcome else retained s\<rparr>"
  then show ?thesis using complete_keeps by blast
next
  assume "reader_inv s" "pc s = Completed" "t = s\<lparr>phase := finish_read (phase s), pc := Outside\<rparr>"
  then show ?thesis by (cases "phase s") (auto simp: reader_inv_def)
next
  assume "reader_inv s" "t = s\<lparr>phase := request_pause (phase s)\<rparr>"
  then show ?thesis by (cases "phase s"; cases "pc s") (auto simp: reader_inv_def)
next
  assume "reader_inv s" "t = s\<lparr>phase := resume_drain (phase s)\<rparr>"
  then show ?thesis by (cases "phase s"; cases "pc s") (auto simp: reader_inv_def resume_drain_def)
qed (auto simp: reader_inv_def)

interpretation reader_sys: guarded_relation reader_initial reader_step reader_inv
  by unfold_locales (auto intro: reader_inv_initial reader_step_inv)

section \<open>Certificates\<close>

definition certified :: "reader_system \<Rightarrow> bool" where
  "certified s \<longleftrightarrow> quiescent (phase s)"

text \<open>While paused nothing is read; the end of file and a failure are final.\<close>

lemma paused_step:
  "reader_inv s \<Longrightarrow> reader_step s t \<Longrightarrow> phase s = PAUSED \<Longrightarrow>
    delivered t = delivered s \<or> phase t = FAILED"
  by (erule reader_stepE) (auto simp: reader_inv_def)

lemma eof_step: "reader_inv s \<Longrightarrow> reader_step s t \<Longrightarrow> phase s = EOF \<Longrightarrow>
    phase t = FAILED \<or> phase t = EOF \<and> delivered t = delivered s"
  by (erule reader_stepE) (auto simp: reader_inv_def resume_drain_def)

lemma failed_step: "reader_inv s \<Longrightarrow> reader_step s t \<Longrightarrow> phase s = FAILED \<Longrightarrow> phase t = FAILED"
  by (erule reader_stepE) (auto simp: reader_inv_def resume_drain_def)

lemma failed_final:
  assumes "reader_step\<^sup>*\<^sup>* s t" and "reader_inv s" and "phase s = FAILED"
  shows "phase t = FAILED"
proof -
  from assms have "reader_inv t \<and> phase t = FAILED"
    by (induction rule: rtranclp_induct) (auto intro: reader_step_inv failed_step)
  then show ?thesis ..
qed

lemma eof_final:
  assumes "reader_step\<^sup>*\<^sup>* s t" and "reader_inv s" and "phase s = EOF"
  shows "phase t = FAILED \<or> phase t = EOF \<and> delivered t = delivered s"
proof -
  from assms have "reader_inv t \<and> (phase t = FAILED \<or> phase t = EOF \<and> delivered t = delivered s)"
  proof (induction rule: rtranclp_induct)
    case (step u v)
    then show ?case using reader_step_inv eof_step [of u v] failed_step [of u v] by auto
  qed simp
  then show ?thesis ..
qed

text \<open>
  C13: A pause is acknowledged only across a whole read. In every interleaving of the reader with the
  thread that retires it, when the state reads as quiescent (paused or end of file) no admitted
  read still has bytes to deliver and every byte the operating system delivered has been retained;
  after an end of file nothing is ever delivered again unless the reader is marked as failed, and
  a failure is permanent, so it can never be taken for an end of file.\<close>
theorem quiescent_reader_is_complete:
  assumes "reader_initial s0" and "reader_step\<^sup>*\<^sup>* s0 s"
  shows "(quiescent (phase s) \<longrightarrow> pc s \<noteq> Admitted \<and> retained s = delivered s)
    \<and> (\<forall>t. reader_step\<^sup>*\<^sup>* s t \<longrightarrow>
        (phase s = EOF \<longrightarrow> phase t = FAILED \<or> phase t = EOF \<and> retained t = delivered s)
      \<and> (phase s = FAILED \<longrightarrow> phase t = FAILED))"
proof -
  have inv: "reader_inv s" by (rule reader_sys.reachable_inv [OF assms])
  have "phase t = FAILED \<or> phase t = EOF \<and> retained t = delivered s"
    if "reader_step\<^sup>*\<^sup>* s t" "phase s = EOF" for t
    using eof_final [OF that(1) inv that(2)] reader_sys.steps_inv [OF that(1) inv]
    by (auto simp: reader_inv_def)
  then show ?thesis
    using inv failed_final [OF _ inv] by (auto simp: reader_inv_def quiescent_def)
qed

definition demo_reader :: reader_system where
  "demo_reader = \<lparr>phase = IDLE, pc = Outside, delivered = [], retained = []\<rparr>"

definition demo_paused :: reader_system where
  "demo_paused = \<lparr>phase = PAUSED, pc = Outside, delivered = [7, 8], retained = [7, 8]\<rparr>"

lemma demo_reader_run: "reader_step\<^sup>*\<^sup>* demo_reader demo_paused"
proof -
  let ?a = "\<lparr>phase = READING, pc = Admitted, delivered = [], retained = []\<rparr>"
  let ?b = "\<lparr>phase = PAUSE_REQUESTED, pc = Admitted, delivered = [], retained = []\<rparr>"
  let ?c = "\<lparr>phase = PAUSE_REQUESTED, pc = Completed, delivered = [7, 8], retained = [7, 8]\<rparr>"
  have a: "reader_step demo_reader ?a"
    using admit [of demo_reader READING] by (simp add: demo_reader_def)
  have b: "reader_step ?a ?b" using request [of ?a] by simp
  have c: "reader_step ?b ?c" using complete [of ?b "ReadBytes [7, 8]" True] by simp
  have d: "reader_step ?c demo_paused" using finish [of ?c] by (simp add: demo_paused_def)
  show ?thesis
    by (rule converse_rtranclp_into_rtranclp, rule a, rule converse_rtranclp_into_rtranclp, rule b,
        rule converse_rtranclp_into_rtranclp, rule c, rule r_into_rtranclp, rule d)
qed

theorem quiescent_reader_is_complete_witness:
  "pc demo_paused \<noteq> Admitted \<and> retained demo_paused = delivered demo_paused"
  using quiescent_reader_is_complete [OF _ demo_reader_run]
  by (simp add: reader_initial_def demo_reader_def quiescent_def demo_paused_def)

text \<open>The reader can always be brought to rest: after a request, finishing its read is enough.\<close>

lemma request_then_finish:
  "reader_inv s \<Longrightarrow> pc s = Completed \<Longrightarrow>
    quiescent (finish_read (request_pause (phase s))) \<or> finish_read (request_pause (phase s)) \<in> {FAILED, DRAINING}"
  by (cases "phase s") (auto simp: reader_inv_def quiescent_def)

end
