(* ===== verification/PtyLog.thy ===== *)
theory PtyLog
  imports ScrollbackLog ReaderRetirement
begin

text \<open>
  The raw output log of one terminal (\<open>src/src/terminal/pty.rs\<close>): the reader thread and \<open>resize\<close>
  append frames to \<open>pending_log\<close>, its owners take prefixes of it under one lock, and a retirement
  transfers the rest exactly once. The grid of the terminal emulator is represented by what these
  operations ask of it: whether it shows the alternate screen and the result of the export closure.
  Mutexes are poisoned, threads end and children are reaped when the environment says so: those are
  fields of the record. A pressure of \<open>None\<close> is \<open>usize::MAX\<close>, the mark of a terminal with no owner.
\<close>

section \<open>State\<close>

record pty =
  pending_log :: bytes
  log_seq :: u64
  log_poisoned :: bool
  grid_poisoned :: bool
  grid_alternate :: bool
  restoring_history :: bool
  history_restore_failed :: bool
  reader_state :: reader_phase
  reader_finished :: bool
  log_owned :: bool
  checkpoint_ready :: bool
  legacy_transfer :: bool
  durable_pressure :: "nat option"
  is_remote :: bool
  process_reaped :: bool
  child_terminated :: bool
  writer_closed :: bool
  writer_finished :: bool
  master_open :: bool
  closer_running :: bool

definition USIZE_TOP :: nat where
  "USIZE_TOP = 2 ^ 64 - 1"

datatype pty_error = RawSequenceExhausted | LogPoisoned | InvalidRawLog | IncompleteRawLog
  | DurableSequenceExhausted | ReaderNotPaused | ReaderUncertain | NotHost | BoundaryIncomplete
  | CloserFailed

section \<open>Appending to the log\<close>

definition next_log_sequence :: "u64 \<Rightarrow> u64 option" where
  "next_log_sequence counter = checked_inc counter"

text \<open>
  \<open>retain_raw_read_and_parse\<close>: the bytes of one read become one frame before any parser sees them.
  The result says whether the grid was healthy enough to be parsed into.
\<close>

definition retain_raw_read :: "pty \<Rightarrow> bytes \<Rightarrow> (pty_error + bool) \<times> pty" where
  "retain_raw_read p raw =
    (if log_poisoned p then (Inl LogPoisoned, p)
     else (case next_log_sequence (log_seq p) of
        None \<Rightarrow> (Inl RawSequenceExhausted, p)
      | Some s \<Rightarrow> (Inr (\<not> grid_poisoned p),
          p\<lparr>log_seq := s, pending_log := pending_log p @ encode_frame s Output raw\<rparr>)))"

text \<open>The log part of \<open>PtyHandle::resize\<close>; \<open>size_changed\<close> compares with the previous window size.\<close>

definition resize_pty :: "pty \<Rightarrow> u16 \<Rightarrow> u16 \<Rightarrow> bool \<Rightarrow> pty" where
  "resize_pty p cols rows size_changed =
    (if log_owned p then p
     else if \<not> grid_poisoned p \<and> size_changed \<and> \<not> log_poisoned p then
       (case next_log_sequence (log_seq p) of
          None \<Rightarrow> p
        | Some s \<Rightarrow> p\<lparr>log_seq := s,
            pending_log := pending_log p @ encode_frame s Resize (resize_payload cols rows)\<rparr>)
     else p)"

section \<open>Taking a prefix\<close>

text \<open>The loop of \<open>drain_log_prefix\<close>: the length of the longest prefix of whole frames to take.\<close>

function drain_cut :: "bytes \<Rightarrow> nat \<Rightarrow> nat \<Rightarrow> nat" where
  "drain_cut pending max_bytes taken =
    (if length pending - taken < 13 then taken
     else let payload_len = unat (of_le (take 4 (drop (taken + 9) pending)) :: u32);
              finish = taken + 13 + payload_len
          in if finish > length pending \<or> (taken \<noteq> 0 \<and> finish > max_bytes) then taken
             else if finish \<ge> max_bytes then finish
             else drain_cut pending max_bytes finish)"
  by pat_completeness auto
termination
  by (relation "measure (\<lambda>(p, m, c). length p - c)") auto

declare drain_cut.simps [simp del]

definition drain_log_prefix :: "bytes \<Rightarrow> nat \<Rightarrow> bytes \<times> bytes" where
  "drain_log_prefix pending max_bytes =
    (if max_bytes = 0 then ([], pending)
     else let taken = drain_cut pending max_bytes 0 in (take taken pending, drop taken pending))"

definition charge_transferred_pending :: "pty \<Rightarrow> nat \<Rightarrow> pty" where
  "charge_transferred_pending p n =
    p\<lparr>legacy_transfer := legacy_transfer p \<or> (0 < n \<and> durable_pressure p = None),
      durable_pressure := map_option (\<lambda>d. min (d + n) (USIZE_TOP - 1)) (durable_pressure p)\<rparr>"

definition set_daemon_durable_pressure :: "pty \<Rightarrow> nat \<Rightarrow> pty" where
  "set_daemon_durable_pressure p n = p\<lparr>durable_pressure := Some n\<rparr>"

definition drain_pending_log :: "pty \<Rightarrow> bytes \<times> pty" where
  "drain_pending_log p =
    (if log_owned p \<or> log_poisoned p then ([], p)
     else (pending_log p,
       (charge_transferred_pending (p\<lparr>pending_log := []\<rparr>) (length (pending_log p)))\<lparr>log_seq := 0\<rparr>))"

definition drain_pending_log_capped :: "pty \<Rightarrow> nat \<Rightarrow> bytes \<times> pty" where
  "drain_pending_log_capped p max_bytes =
    (if log_owned p \<or> log_poisoned p then ([], p)
     else let (drained, rest) = drain_log_prefix (pending_log p) max_bytes;
              q = charge_transferred_pending (p\<lparr>pending_log := rest\<rparr>) (length drained)
          in (drained, if rest = [] then q\<lparr>log_seq := 0\<rparr> else q))"

definition retirement_log_snapshot :: "pty \<Rightarrow> bytes" where
  "retirement_log_snapshot p = (if log_poisoned p then [] else pending_log p)"

definition pending_log_snapshot :: "pty \<Rightarrow> bytes" where
  "pending_log_snapshot p = (if log_owned p then [] else retirement_log_snapshot p)"

definition acknowledge_pending_log :: "pty \<Rightarrow> nat \<Rightarrow> pty" where
  "acknowledge_pending_log p written_bytes =
    (if log_owned p \<or> log_poisoned p then p
     else let rest = drop (min written_bytes (length (pending_log p))) (pending_log p);
              q = p\<lparr>pending_log := rest\<rparr>
          in if rest = [] then q\<lparr>log_seq := 0\<rparr> else q)"

section \<open>Snapshots at the log boundary\<close>

definition retirement_snapshot_blocked :: "pty \<Rightarrow> bool" where
  "retirement_snapshot_blocked p \<longleftrightarrow> log_owned p \<and> \<not> checkpoint_ready p"

definition checkpoint_snapshot :: "pty \<Rightarrow> 'r \<Rightarrow> ('r \<times> nat) option" where
  "checkpoint_snapshot p text =
    (if retirement_snapshot_blocked p \<or> restoring_history p \<or> history_restore_failed p then None
     else if grid_poisoned p \<or> log_poisoned p then None
     else Some (text, length (pending_log p)))"

datatype 'r recovery_snapshot = Checkpoint 'r nat | PendingLog bytes | SnapshotUnavailable

definition recovery_snapshot :: "pty \<Rightarrow> bool \<Rightarrow> 'r \<Rightarrow> 'r recovery_snapshot" where
  "recovery_snapshot p restore_pending text =
    (if retirement_snapshot_blocked p then SnapshotUnavailable
     else case (if restore_pending \<or> restoring_history p then None else checkpoint_snapshot p text) of
         Some (v, n) \<Rightarrow> Checkpoint v n
       | None \<Rightarrow> if log_poisoned p then SnapshotUnavailable else PendingLog (pending_log p))"

text \<open>
  \<open>try_attach_snapshot_and_drain\<close>: \<open>export\<close> is the result of the closure on the locked grid. The
  pending frames are taken only when it succeeds.
\<close>

definition try_attach_snapshot_and_drain ::
    "pty \<Rightarrow> ('e + 'r) \<Rightarrow> ('e + ('r \<times> bytes) option) \<times> pty" where
  "try_attach_snapshot_and_drain p export =
    (if log_owned p \<or> restoring_history p \<or> history_restore_failed p then (Inr None, p)
     else if grid_poisoned p \<or> log_poisoned p then (Inr None, p)
     else case export of
         Inl e \<Rightarrow> (Inl e, p)
       | Inr snapshot \<Rightarrow> (Inr (Some (snapshot, pending_log p)),
           (charge_transferred_pending (p\<lparr>pending_log := []\<rparr>) (length (pending_log p)))\<lparr>log_seq := 0\<rparr>))"

text \<open>\<open>try_output_update\<close>: frames, alternate flag, and the snapshot when the primary screen returned.\<close>

definition try_output_update ::
    "pty \<Rightarrow> nat \<Rightarrow> bool \<Rightarrow> ('e + bytes) \<Rightarrow> ('e + (bytes \<times> bool \<times> bytes option) option) \<times> pty" where
  "try_output_update p max_bytes was_alternate export =
    (if log_owned p \<or> restoring_history p \<or> history_restore_failed p \<or> grid_poisoned p then (Inr None, p)
     else case (if was_alternate \<and> \<not> grid_alternate p
             then (case export of Inl e \<Rightarrow> Inl e | Inr s \<Rightarrow> Inr (Some s)) else Inr None) of
         Inl e \<Rightarrow> (Inl e, p)
       | Inr snapshot \<Rightarrow>
           if log_poisoned p then (Inr None, p)
           else let (drained, rest) = drain_log_prefix (pending_log p)
                      (if snapshot \<noteq> None then USIZE_TOP else max_bytes)
                in (Inr (Some (drained, grid_alternate p, snapshot)),
                    charge_transferred_pending (p\<lparr>pending_log := rest\<rparr>) (length drained)))"

section \<open>Retirement\<close>

definition claim_retirement_log_owner :: "pty \<Rightarrow> pty" where
  "claim_retirement_log_owner p =
     p\<lparr>log_owned := True, writer_closed := True, reader_state := request_pause (reader_state p)\<rparr>"

definition retirement_pending_snapshot :: "pty \<Rightarrow> (pty_error + bytes option) \<times> pty" where
  "retirement_pending_snapshot p =
    (if is_remote p then (Inl NotHost, p)
     else let q = claim_retirement_log_owner p in
       (if \<not> quiescent (reader_state q) then Inr None
        else if restoring_history q then Inr None
        else if reader_state q = FAILED then Inl ReaderUncertain
        else if log_seq q = - 1 then Inl RawSequenceExhausted
        else if log_poisoned q then Inl LogPoisoned
        else if pending_log q \<noteq> [] \<and> read_frames (encode_header 0 @ pending_log q) = None
        then Inl InvalidRawLog
        else Inr (Some (pending_log q)), q))"

text \<open>The owner's queue and its sequence number are passed and returned.\<close>

fun transfer_loop :: "frame list \<Rightarrow> bytes \<Rightarrow> u64 \<Rightarrow> bytes \<times> u64" where
  "transfer_loop [] durable sq = (durable, sq)"
| "transfer_loop (f # fs) durable sq =
     transfer_loop fs (durable @ encode_frame (sq + 1) (frame_kind f) (frame_payload f)) (sq + 1)"

definition transfer_retirement_frames ::
    "pty \<Rightarrow> bytes \<Rightarrow> u64 \<Rightarrow> bool \<Rightarrow> (pty_error + bool) \<times> pty \<times> bytes \<times> u64" where
  "transfer_retirement_frames p durable sq has_destination =
    (if log_seq p = - 1 then (Inl RawSequenceExhausted, p, durable, sq)
     else if log_poisoned p then (Inl LogPoisoned, p, durable, sq)
     else if \<not> has_destination \<and> (pending_log p \<noteq> [] \<or> durable \<noteq> []) then (Inr False, p, durable, sq)
     else let encoded = encode_header 0 @ pending_log p in
       case read_frames_with_valid_len encoded of
         None \<Rightarrow> (Inl InvalidRawLog, p, durable, sq)
       | Some (_, frames, valid_len) \<Rightarrow>
           if valid_len \<noteq> length encoded then (Inl IncompleteRawLog, p, durable, sq)
           else if unat sq + length frames \<ge> 2 ^ 64 then (Inl DurableSequenceExhausted, p, durable, sq)
           else let (durable', sq') = transfer_loop frames durable sq in
             (Inr True, set_daemon_durable_pressure (p\<lparr>pending_log := []\<rparr>) (length durable'), durable', sq'))"

definition take_retirement_prefix ::
    "pty \<Rightarrow> bytes \<Rightarrow> u64 \<Rightarrow> bool \<Rightarrow> (pty_error + bool) \<times> pty \<times> bytes \<times> u64" where
  "take_retirement_prefix p durable sq has_destination =
    (case retirement_pending_snapshot p of
       (Inl e, q) \<Rightarrow> (Inl e, q, durable, sq)
     | (Inr None, q) \<Rightarrow> (Inr False, q, durable, sq)
     | (Inr (Some _), q) \<Rightarrow> transfer_retirement_frames q durable sq has_destination)"

definition take_retirement_tail ::
    "pty \<Rightarrow> bytes \<Rightarrow> u64 \<Rightarrow> bool \<Rightarrow> (pty_error + bool) \<times> pty \<times> bytes \<times> u64" where
  "take_retirement_tail p durable sq has_destination =
    (if \<not> draining (reader_state p) \<and> reader_state p \<noteq> EOF then (Inr False, p, durable, sq)
     else if reader_state p = FAILED then (Inl ReaderUncertain, p, durable, sq)
     else transfer_retirement_frames p durable sq has_destination)"

text \<open>\<open>spawned\<close>: whether the thread that closes the master could be started.\<close>

definition begin_retirement_drain :: "pty \<Rightarrow> bool \<Rightarrow> (pty_error + unit) \<times> pty" where
  "begin_retirement_drain p spawned =
    (let q = p\<lparr>reader_state := resume_drain (reader_state p)\<rparr> in
     if \<not> draining (reader_state q) \<and> reader_state q \<noteq> EOF then (Inl ReaderNotPaused, q)
     else if master_open q \<and> \<not> spawned then (Inl CloserFailed, q)
     else (Inr (), q\<lparr>master_open := False, closer_running := closer_running q \<or> master_open q,
                     child_terminated := True\<rparr>))"

text \<open>The value and the writer that the call closes again.\<close>

definition retirement_physical_complete :: "pty \<Rightarrow> bool \<times> pty" where
  "retirement_physical_complete p =
    (\<not> legacy_transfer p \<and> reader_state p = EOF \<and> reader_finished p \<and> process_reaped p
       \<and> \<not> is_remote p \<and> writer_finished p \<and> \<not> master_open p \<and> \<not> closer_running p,
     p\<lparr>writer_closed := True\<rparr>)"

definition complete_local_retirement_checkpoint :: "pty \<Rightarrow> (pty_error + unit) \<times> pty" where
  "complete_local_retirement_checkpoint p =
    (if \<not> log_owned p then (Inl BoundaryIncomplete, p)
     else let (complete, q) = retirement_physical_complete p in
       if \<not> complete then (Inl BoundaryIncomplete, q)
       else if log_poisoned q then (Inl LogPoisoned, q)
       else if pending_log q \<noteq> [] then (Inl BoundaryIncomplete, q)
       else (Inr (), q\<lparr>checkpoint_ready := True\<rparr>))"

section \<open>Frames of a byte queue\<close>

text \<open>\<open>decode_frames\<close> of \<open>src/src/daemon/server.rs\<close>.\<close>

definition decode_frames :: "bytes \<Rightarrow> frame list" where
  "decode_frames bs =
    (if bs = [] then []
     else case read_frames (encode_header 0 @ bs) of None \<Rightarrow> [] | Some (_, decoded) \<Rightarrow> decoded)"

section \<open>Frame queues\<close>

text \<open>
  The shape that the raw log and the daemon's durable queue share: the encoding of consecutively
  numbered frames, the last of which carries the current counter.
\<close>

definition queue_of :: "bytes \<Rightarrow> u64 \<Rightarrow> frame list \<Rightarrow> bool" where
  "queue_of bs sq fs \<longleftrightarrow> bs = encode_frames fs \<and> chained None fs \<and> (fs \<noteq> [] \<longrightarrow> frame_seq (last fs) = sq)"

lemma enc_not_Nil [simp]: "enc f \<noteq> []" "[] \<noteq> enc f"
  by (metis add_is_0 length_0_conv length_enc numeral_eq_one_iff zero_neq_numeral)+

lemma encode_frames_Nil_iff [simp]:
  "encode_frames fs = [] \<longleftrightarrow> fs = []" "[] = encode_frames fs \<longleftrightarrow> fs = []"
  by (cases fs; simp)+

lemma decode_encoded: "chained None fs \<Longrightarrow> decode_frames (encode_frames fs) = fs"
  using read_log [of fs 0] by (auto simp: decode_frames_def read_frames_def encode_log_def)

lemma queue_decode: "queue_of bs sq fs \<Longrightarrow> decode_frames bs = fs"
  by (simp add: queue_of_def decode_encoded)

lemma queue_nil [simp]: "queue_of [] sq fs \<longleftrightarrow> fs = []"
  by (auto simp: queue_of_def)

lemma chained_snoc:
  "chained prev (fs @ [f]) \<longleftrightarrow> chained prev fs \<and> length (frame_payload f) < 2 ^ 32
     \<and> (case last_seq prev fs of None \<Rightarrow> True | Some p \<Rightarrow> checked_inc p = Some (frame_seq f))"
  by (auto simp: chained_append)

lemma queue_push:
  assumes "queue_of bs sq fs" and "checked_inc sq = Some s" and "length pl < 2 ^ 32"
  shows "queue_of (bs @ encode_frame s k pl) s (fs @ [\<lparr>frame_seq = s, frame_kind = k, frame_payload = pl\<rparr>])"
  using assms by (auto simp: queue_of_def chained_snoc last_seq_def enc_def)

lemma chained_drop: "chained None fs \<Longrightarrow> chained None (drop k fs)"
proof -
  assume "chained None fs"
  then have "chained (last_seq None (take k fs)) (drop k fs)"
    using chained_append [of None "take k fs" "drop k fs"] by simp
  then show ?thesis by (cases "drop k fs") auto
qed

lemma queue_drop: "queue_of bs sq fs \<Longrightarrow> queue_of (encode_frames (drop k fs)) sq (drop k fs)"
  by (auto simp: queue_of_def chained_drop last_drop)

lemma encode_take_drop: "encode_frames fs = encode_frames (take k fs) @ encode_frames (drop k fs)"
  by (metis append_take_drop_id encode_frames_simps(3))

lemma frame_bound: "chained prev fs \<Longrightarrow> \<forall>f \<in> set fs. length (frame_payload f) < 2 ^ 32"
  using chained_bounded by blast

section \<open>Whole frames\<close>

lemma drain_cut_step:
  assumes "length (frame_payload f) < 2 ^ 32" and "pend = encode_frames (done @ f # fs)"
  shows "drain_cut pend m (length (encode_frames done)) =
    (if done \<noteq> [] \<and> length (encode_frames (done @ [f])) > m then length (encode_frames done)
     else if length (encode_frames (done @ [f])) \<ge> m then length (encode_frames (done @ [f]))
     else drain_cut pend m (length (encode_frames (done @ [f]))))"
proof -
  let ?c = "length (encode_frames done)"
  have d: "drop ?c pend = enc f @ encode_frames fs" using assms(2) by simp
  note fields = enc_fields [OF d]
  have len: "unat (of_le (take 4 (drop (?c + 9) pend)) :: u32) = length (frame_payload f)"
    using assms(1) by (simp add: fields(3) len_field)
  have e: "length (encode_frames (done @ [f])) = ?c + 13 + length (frame_payload f)"
    by simp
  have "\<not> length pend - ?c < 13" "\<not> ?c + 13 + length (frame_payload f) > length pend"
    using fields(5) by linarith+
  moreover have "?c \<noteq> 0 \<longleftrightarrow> done \<noteq> []" by simp
  ultimately show ?thesis
    unfolding drain_cut.simps [of pend m ?c] len Let_def e by (simp only: if_False simp_thms)
qed

lemma drain_cut_end: "length pend \<le> c \<Longrightarrow> drain_cut pend m c = c"
  by (simp add: drain_cut.simps)

lemma drain_cut_frames:
  assumes "\<forall>f \<in> set fs. length (frame_payload f) < 2 ^ 32" and "pend = encode_frames (done @ fs)"
    and "done \<noteq> [] \<longrightarrow> length (encode_frames done) < m"
  shows "\<exists>k \<le> length fs. drain_cut pend m (length (encode_frames done)) = length (encode_frames (done @ take k fs))
    \<and> (done = [] \<longrightarrow> fs \<noteq> [] \<longrightarrow> 0 < k)
    \<and> (length (encode_frames (done @ take k fs)) \<le> m \<or> done = [] \<and> k \<le> 1)
    \<and> (k < length fs \<longrightarrow> m < length (encode_frames (done @ take (Suc k) fs)))"
  using assms
proof (induction fs arbitrary: "done")
  case Nil
  then show ?case by (intro exI [of _ 0]) (auto simp: drain_cut_end)
next
  case (Cons f fs)
  let ?D = "done @ [f]"
  have step: "drain_cut pend m (length (encode_frames done)) =
    (if done \<noteq> [] \<and> length (encode_frames ?D) > m then length (encode_frames done)
     else if length (encode_frames ?D) \<ge> m then length (encode_frames ?D)
     else drain_cut pend m (length (encode_frames ?D)))"
    by (rule drain_cut_step) (use Cons.prems in auto)
  consider "done \<noteq> []" "length (encode_frames ?D) > m"
    | "\<not> (done \<noteq> [] \<and> length (encode_frames ?D) > m)" "length (encode_frames ?D) \<ge> m"
    | "length (encode_frames ?D) < m" by linarith
  then show ?case
  proof cases
    case 1
    then show ?thesis using step Cons.prems(3) by (intro exI [of _ 0]) auto
  next
    case 2
    have more: "m < length (encode_frames (done @ take (Suc 1) (f # fs)))" if two: "1 < length (f # fs)"
    proof -
      obtain g gs where "fs = g # gs" using two by (cases fs) auto
      then show ?thesis using 2(2) by simp
    qed
    show ?thesis using step 2 more by (intro exI [of _ 1]) auto
  next
    case 3
    have "\<exists>k \<le> length fs. drain_cut pend m (length (encode_frames ?D)) = length (encode_frames (?D @ take k fs))
      \<and> (?D = [] \<longrightarrow> fs \<noteq> [] \<longrightarrow> 0 < k)
      \<and> (length (encode_frames (?D @ take k fs)) \<le> m \<or> ?D = [] \<and> k \<le> 1)
      \<and> (k < length fs \<longrightarrow> m < length (encode_frames (?D @ take (Suc k) fs)))"
      by (rule Cons.IH) (use Cons.prems 3 in auto)
    then obtain k where "k \<le> length fs"
      "drain_cut pend m (length (encode_frames ?D)) = length (encode_frames (?D @ take k fs))"
      "length (encode_frames (?D @ take k fs)) \<le> m"
      "k < length fs \<longrightarrow> m < length (encode_frames (?D @ take (Suc k) fs))" by auto
    then show ?thesis using step 3 by (intro exI [of _ "Suc k"]) simp
  qed
qed

lemma drain_prefix_frames:
  assumes "chained None fs" and "drain_log_prefix (encode_frames fs) m = (drained, rest)"
  shows "\<exists>k \<le> length fs. drained = encode_frames (take k fs) \<and> rest = encode_frames (drop k fs)
    \<and> (0 < m \<longrightarrow> fs \<noteq> [] \<longrightarrow> 0 < k) \<and> (length drained \<le> m \<or> k = 1)
    \<and> (k < length fs \<longrightarrow> m < length (encode_frames (take (Suc k) fs)))"
proof (cases "m = 0")
  case True
  then show ?thesis using assms(2)
    by (intro exI [of _ 0]) (cases fs; auto simp: drain_log_prefix_def)
next
  case False
  have "\<exists>k \<le> length fs. drain_cut (encode_frames fs) m (length (encode_frames [])) = length (encode_frames ([] @ take k fs))
    \<and> ([] = ([] :: frame list) \<longrightarrow> fs \<noteq> [] \<longrightarrow> 0 < k)
    \<and> (length (encode_frames ([] @ take k fs)) \<le> m \<or> [] = ([] :: frame list) \<and> k \<le> 1)
    \<and> (k < length fs \<longrightarrow> m < length (encode_frames ([] @ take (Suc k) fs)))"
    by (rule drain_cut_frames) (use frame_bound [OF assms(1)] in auto)
  then obtain k where k: "k \<le> length fs" "drain_cut (encode_frames fs) m 0 = length (encode_frames (take k fs))"
    "fs \<noteq> [] \<longrightarrow> 0 < k" "length (encode_frames (take k fs)) \<le> m \<or> k \<le> 1"
    "k < length fs \<longrightarrow> m < length (encode_frames (take (Suc k) fs))" by auto
  have "drained = encode_frames (take k fs)" "rest = encode_frames (drop k fs)"
    using assms(2) False k(2) encode_take_drop [of fs k]
    by (auto simp: drain_log_prefix_def Let_def)
  then show ?thesis
    using k by (intro exI [of _ k]) (cases "k = 0"; auto)
qed

text \<open>
  A byte budget never splits a frame and never stops progress. From a well-formed log the capped
  drain takes a prefix of whole frames and leaves exactly the others; it takes at least one frame
  whenever there is one and the budget is not zero, respects the budget unless that first frame
  alone exceeds it, and takes as many frames as the budget allows.\<close>
theorem drain_takes_whole_frames:
  assumes "chained None fs" and "drain_log_prefix (encode_frames fs) max_bytes = (drained, rest)"
  shows "\<exists>k \<le> length fs. drained = encode_frames (take k fs) \<and> rest = encode_frames (drop k fs)
    \<and> (0 < max_bytes \<longrightarrow> fs \<noteq> [] \<longrightarrow> 0 < k) \<and> (length drained \<le> max_bytes \<or> k = 1)
    \<and> (k < length fs \<longrightarrow> max_bytes < length (encode_frames (take (Suc k) fs)))"
  by (rule drain_prefix_frames [OF assms])

definition demo_queue :: "frame list" where
  "demo_queue = [\<lparr>frame_seq = 1, frame_kind = Output, frame_payload = [65, 66, 67]\<rparr>,
     \<lparr>frame_seq = 2, frame_kind = Resize, frame_payload = resize_payload 80 24\<rparr>,
     \<lparr>frame_seq = 3, frame_kind = Output, frame_payload = [68]\<rparr>]"

lemma demo_queue_chained: "chained None demo_queue"
  by (simp add: demo_queue_def checked_inc_def resize_payload_def u16c.enc_width)

theorem drain_takes_whole_frames_witness:
  "\<exists>k \<le> 3. fst (drain_log_prefix (encode_frames demo_queue) 20) = encode_frames (take k demo_queue) \<and> 0 < k"
proof -
  have "demo_queue \<noteq> []" "length demo_queue = 3" by (simp_all add: demo_queue_def)
  then show ?thesis
    using drain_takes_whole_frames [OF demo_queue_chained, of 20
        "fst (drain_log_prefix (encode_frames demo_queue) 20)"
        "snd (drain_log_prefix (encode_frames demo_queue) 20)"] by auto
qed

section \<open>The log of a terminal\<close>

definition log_of :: "pty \<Rightarrow> frame list" where
  "log_of p = decode_frames (pending_log p)"

definition log_ok :: "pty \<Rightarrow> bool" where
  "log_ok p \<longleftrightarrow> queue_of (pending_log p) (log_seq p) (log_of p)"

definition contents :: "frame list \<Rightarrow> (frame_kind \<times> bytes) list" where
  "contents fs = map content fs"

lemma contents_simps [simp]:
  "contents [] = []" "contents (fs @ gs) = contents fs @ contents gs"
  "contents (f # fs) = content f # contents fs"
  by (simp_all add: contents_def)

lemma log_okI: "queue_of (pending_log p) (log_seq p) fs \<Longrightarrow> log_ok p \<and> log_of p = fs"
  using queue_decode by (auto simp: log_ok_def log_of_def)

lemma retain_keeps:
  assumes "log_ok p" and "retain_raw_read p raw = (Inr healthy, q)" and "length raw < 2 ^ 32"
  shows "log_ok q \<and> contents (log_of q) = contents (log_of p) @ [(Output, raw)]"
proof -
  obtain s where s: "checked_inc (log_seq p) = Some s"
      "q = p\<lparr>log_seq := s, pending_log := pending_log p @ encode_frame s Output raw\<rparr>"
    using assms(2) by (auto simp: retain_raw_read_def next_log_sequence_def split: if_splits option.splits)
  have "queue_of (pending_log q) (log_seq q) (log_of p @ [\<lparr>frame_seq = s, frame_kind = Output, frame_payload = raw\<rparr>])"
    using queue_push [OF assms(1) [unfolded log_ok_def] s(1) assms(3), of Output] by (simp add: s(2))
  from log_okI [OF this] show ?thesis by (simp add: content_def)
qed

lemma charge_frame [simp]:
  "pending_log (charge_transferred_pending p n) = pending_log p"
  "log_seq (charge_transferred_pending p n) = log_seq p"
  by (simp_all add: charge_transferred_pending_def)

lemma capped_drain_splits:
  assumes "log_ok p" and "drain_pending_log_capped p m = (drained, q)"
  shows "log_ok q \<and> decode_frames drained @ log_of q = log_of p \<and> chained None (decode_frames drained)
    \<and> drained = encode_frames (decode_frames drained)"
proof (cases "log_owned p \<or> log_poisoned p")
  case True
  then show ?thesis using assms by (auto simp: drain_pending_log_capped_def decode_frames_def)
next
  case False
  obtain dr rest where d: "drain_log_prefix (pending_log p) m = (dr, rest)" by fastforce
  have p: "pending_log p = encode_frames (log_of p)" "chained None (log_of p)"
    using assms(1) by (auto simp: log_ok_def queue_of_def)
  obtain k where k: "dr = encode_frames (take k (log_of p))" "rest = encode_frames (drop k (log_of p))"
    using drain_prefix_frames [OF p(2)] d p(1) by metis
  have q: "pending_log q = rest" "log_seq q = log_seq p \<or> rest = []" "drained = dr"
    using assms(2) d False by (auto simp: drain_pending_log_capped_def Let_def)
  have "queue_of (pending_log q) (log_seq q) (drop k (log_of p))"
    using queue_drop [OF assms(1) [unfolded log_ok_def], of k] q k(2) by auto
  from log_okI [OF this] have "log_ok q" "log_of q = drop k (log_of p)" by auto
  moreover have "chained None (take k (log_of p))"
    using p(2) chained_append [of None "take k (log_of p)" "drop k (log_of p)"] by simp
  ultimately show ?thesis using q(3) k(1) by (simp add: decode_encoded)
qed

lemma transfer_loop_spec:
  assumes "unat sq + length fs < 2 ^ 64" and "\<forall>f \<in> set fs. length (frame_payload f) < 2 ^ 32"
    and "queue_of durable sq gs"
  shows "\<exists>hs. transfer_loop fs durable sq = (durable @ encode_frames hs, sq + of_nat (length fs))
    \<and> contents hs = contents fs \<and> queue_of (durable @ encode_frames hs) (sq + of_nat (length fs)) (gs @ hs)"
  using assms
proof (induction fs arbitrary: durable sq gs)
  case Nil
  then show ?case by (intro exI [of _ "[]"]) simp
next
  case (Cons f fs)
  have top: "sq \<noteq> - 1"
  proof
    assume "sq = - 1"
    then have "unat sq = 2 ^ 64 - 1" by (simp add: unsigned_minus_1_eq_mask mask_eq_exp_minus_1)
    then show False using Cons.prems(1) by simp
  qed
  let ?f = "\<lparr>frame_seq = sq + 1, frame_kind = frame_kind f, frame_payload = frame_payload f\<rparr>"
  have "queue_of (durable @ encode_frame (sq + 1) (frame_kind f) (frame_payload f)) (sq + 1) (gs @ [?f])"
    using queue_push [OF Cons.prems(3), of "sq + 1"] top Cons.prems(2) by (simp add: checked_inc_def)
  moreover have "unat (sq + 1) + length fs < 2 ^ 64"
    using Cons.prems(1) top by (simp add: unat_inc)
  ultimately obtain hs where hs: "transfer_loop fs (durable @ enc ?f) (sq + 1)
        = ((durable @ enc ?f) @ encode_frames hs, sq + 1 + of_nat (length fs))"
      "contents hs = contents fs"
      "queue_of ((durable @ enc ?f) @ encode_frames hs) (sq + 1 + of_nat (length fs)) ((gs @ [?f]) @ hs)"
    using Cons.IH [of "sq + 1" "durable @ enc ?f" "gs @ [?f]"] Cons.prems(2) by (auto simp: enc_def)
  then show ?case
    by (intro exI [of _ "?f # hs"]) (simp add: enc_def content_def add.assoc)
qed

lemma transfer_moves_once:
  assumes p: "log_ok p" and d: "queue_of durable sq gs"
    and t: "transfer_retirement_frames p durable sq dest = (res, q, durable', sq')"
  shows "if res = Inr True
    then pending_log q = [] \<and> log_ok q \<and> (\<exists>hs. queue_of durable' sq' (gs @ hs) \<and> contents hs = contents (log_of p))
    else q = p \<and> durable' = durable \<and> sq' = sq"
proof (cases "res = Inr True")
  case False
  then show ?thesis using t
    by (auto simp: transfer_retirement_frames_def Let_def split: if_splits option.splits prod.splits)
next
  case True
  have fs: "pending_log p = encode_frames (log_of p)" "chained None (log_of p)"
    using p by (auto simp: log_ok_def queue_of_def)
  have rd: "read_frames_with_valid_len (encode_header 0 @ pending_log p)
      = Some (0, log_of p, length (encode_header 0 @ pending_log p))"
    using read_log [OF fs(2), of 0] fs(1) by (simp add: encode_log_def)
  have *: "unat sq + length (log_of p) < 2 ^ 64"
      "q = set_daemon_durable_pressure (p\<lparr>pending_log := []\<rparr>) (length durable')"
      "(durable', sq') = transfer_loop (log_of p) durable sq"
    using t True rd
    by (auto simp: transfer_retirement_frames_def Let_def split: if_splits prod.splits)
  obtain hs where hs: "transfer_loop (log_of p) durable sq = (durable @ encode_frames hs, sq + of_nat (length (log_of p)))"
      "contents hs = contents (log_of p)"
      "queue_of (durable @ encode_frames hs) (sq + of_nat (length (log_of p))) (gs @ hs)"
    using transfer_loop_spec [OF *(1) frame_bound [OF fs(2)] d] by auto
  have "pending_log q = []" by (simp add: *(2) set_daemon_durable_pressure_def)
  moreover from this have "log_ok q" using log_okI [of q "[]"] by simp
  ultimately show ?thesis using True hs *(3) by auto
qed

end
