(* ===== verification/DaemonSession.thy ===== *)
theory DaemonSession
  imports PtyLog DaemonProtocol
begin

text \<open>
  One session of the daemon (\<open>DaemonSession\<close> in \<open>src/src/daemon/server.rs\<close>): numbering of output,
  the durable queue, the attach boundary, the pump and the retirement that ends a session without
  losing output. The session owns its terminal's log (\<open>PtyLog\<close>); what else the operations ask the
  terminal for (metadata, the export of the grid, an input error) is a view that the environment
  supplies. Instants are milliseconds of a monotonic clock.
\<close>

section \<open>State\<close>

definition MAX_SNAPSHOT_BYTES :: nat where
  "MAX_SNAPSHOT_BYTES = 256 * 1024"

definition RAW_OUTPUT_CHUNK_BYTES :: nat where
  "RAW_OUTPUT_CHUNK_BYTES = 64 * 1024"

definition LIVE_REPAIR_RETRY :: nat where
  "LIVE_REPAIR_RETRY = 2000"

record live_repair_pending =
  repair_kind :: snapshot_failure_kind
  retry_at :: nat

record daemon_session =
  spec :: wire_spec
  snapshot :: bytes
  seq :: u64
  alive :: bool
  scrollback_dirty :: bool
  persist_pending :: bytes
  persist_seq :: u64
  last_metadata :: bytes
  was_alternate :: bool
  last_input_error :: "bytes option"
  live_repair :: "live_repair_pending option"
  output_ready :: bool
  history_panel :: "uuid option"
  retirement_requested :: bool
  retirement_captured :: bool
  retirement_draining :: bool
  retirement_final_captured :: bool
  birth_client :: "uuid option"
  adopters :: "uuid list"
  handle :: "pty option"
  handle_poisoned :: bool

record pty_view =
  view_metadata_attaching :: bytes
  view_metadata :: bytes
  view_export :: "nat \<Rightarrow> bytes option"
  view_text :: bytes
  view_input_error :: "bytes option"
  view_semantic_ready :: bool

definition new_session :: "wire_spec \<Rightarrow> daemon_session" where
  "new_session sp = \<lparr>spec = sp, snapshot = [], seq = 0, alive = True, scrollback_dirty = False,
     persist_pending = [], persist_seq = 0, last_metadata = [], was_alternate = False,
     last_input_error = None, live_repair = None, output_ready = False,
     history_panel = spec_panel_id sp, retirement_requested = False, retirement_captured = False,
     retirement_draining = False, retirement_final_captured = False, birth_client = None,
     adopters = [], handle = None, handle_poisoned = False\<rparr>"

definition client_may_close :: "daemon_session \<Rightarrow> uuid \<Rightarrow> bool" where
  "client_may_close s client \<longleftrightarrow> birth_client s = Some client \<or> client \<in> set (adopters s)"

definition refuse_live_snapshot :: "daemon_session \<Rightarrow> snapshot_failure_kind \<Rightarrow> nat \<Rightarrow> daemon_session" where
  "refuse_live_snapshot s kind now =
     s\<lparr>live_repair := Some \<lparr>repair_kind = kind, retry_at = now + LIVE_REPAIR_RETRY\<rparr>\<rparr>"

definition repair_retry_due :: "daemon_session \<Rightarrow> nat \<Rightarrow> bool" where
  "repair_retry_due s now \<longleftrightarrow> (case live_repair s of None \<Rightarrow> False | Some r \<Rightarrow> retry_at r \<le> now)"

definition repair_blocked :: "daemon_session \<Rightarrow> nat \<Rightarrow> bool" where
  "repair_blocked s now \<longleftrightarrow> live_repair s \<noteq> None \<and> \<not> repair_retry_due s now"

definition host_target_from_spec :: "wire_spec \<Rightarrow> wire_hook_target option" where
  "host_target_from_spec sp =
     (case (spec_workspace_id sp, spec_panel_id sp, spec_leaf_id sp) of
        (Some w, Some p, Some l) \<Rightarrow>
          Some \<lparr>wire_workspace_id = w, wire_panel_id = p, wire_leaf_id = l\<rparr>
      | _ \<Rightarrow> None)"

section \<open>Output\<close>

definition clamp_snapshot :: "bytes \<Rightarrow> nat \<Rightarrow> bytes" where
  "clamp_snapshot snap max_bytes =
     (if length snap \<le> max_bytes then snap else drop (length snap - max_bytes) snap)"

definition push_output_event :: "daemon_session \<Rightarrow> bytes \<Rightarrow> daemon_session \<times> u64" where
  "push_output_event s data =
    (let n = (case checked_inc (seq s) of None \<Rightarrow> - 1 | Some m \<Rightarrow> m) in
     (s\<lparr>seq := n, snapshot := clamp_snapshot (snapshot s @ data) MAX_SNAPSHOT_BYTES,
        scrollback_dirty := True\<rparr>, n))"

definition set_handle_pressure :: "daemon_session \<Rightarrow> daemon_session" where
  "set_handle_pressure s =
     s\<lparr>handle := map_option (\<lambda>p. set_daemon_durable_pressure p (length (persist_pending s))) (handle s)\<rparr>"

definition record_persist_frame :: "daemon_session \<Rightarrow> frame_kind \<Rightarrow> bytes \<Rightarrow> daemon_session" where
  "record_persist_frame s kind payload = (case checked_inc (persist_seq s) of
       None \<Rightarrow> s\<lparr>scrollback_dirty := True\<rparr>
     | Some n \<Rightarrow> set_handle_pressure
         (s\<lparr>persist_seq := n, persist_pending := persist_pending s @ encode_frame n kind payload,
            scrollback_dirty := True\<rparr>))"

definition push_output :: "daemon_session \<Rightarrow> bytes \<Rightarrow> daemon_session \<times> u64" where
  "push_output s data =
     push_output_event (record_persist_frame (s\<lparr>output_ready := output_ready s \<or> data \<noteq> []\<rparr>) Output data) data"

text \<open>\<open>slice::chunks\<close>.\<close>

function chunks :: "nat \<Rightarrow> 'a list \<Rightarrow> 'a list list" where
  "chunks n xs = (if xs = [] \<or> n = 0 then [] else take n xs # chunks n (drop n xs))"
  by pat_completeness auto
termination
  by (relation "measure (\<lambda>(n, xs). length xs)") auto

declare chunks.simps [simp del]

text \<open>The accumulator of \<open>ingest_pty_frames\<close>: session, events so far, output not yet in an event.\<close>

fun ingest_chunks ::
    "bytes list \<Rightarrow> daemon_session \<times> (u64 \<times> bytes) list \<times> bytes \<Rightarrow> daemon_session \<times> (u64 \<times> bytes) list \<times> bytes" where
  "ingest_chunks [] acc = acc"
| "ingest_chunks (c # cs) (s, events, out) =
     (if length out + length c > RAW_OUTPUT_CHUNK_BYTES
      then let (s', n) = push_output_event s out in ingest_chunks cs (s', events @ [(n, out)], c)
      else ingest_chunks cs (s, events, out @ c))"

fun ingest_frames ::
    "frame list \<Rightarrow> daemon_session \<times> (u64 \<times> bytes) list \<times> bytes \<Rightarrow> daemon_session \<times> (u64 \<times> bytes) list \<times> bytes" where
  "ingest_frames [] acc = acc"
| "ingest_frames (f # fs) (s, events, out) =
    (let s' = record_persist_frame s (frame_kind f) (frame_payload f) in
     if frame_kind f \<noteq> Output then ingest_frames fs (s', events, out)
     else ingest_frames fs (ingest_chunks (chunks RAW_OUTPUT_CHUNK_BYTES (frame_payload f)) (s', events, out)))"

definition ingest_pty_frames :: "pty_view \<Rightarrow> daemon_session \<Rightarrow> bytes \<Rightarrow> daemon_session \<times> (u64 \<times> bytes) list" where
  "ingest_pty_frames v s frames =
    (let ready = (if handle s \<noteq> None then view_semantic_ready v
                  else list_ex (\<lambda>f. frame_kind f = Output \<and> frame_payload f \<noteq> []) (decode_frames frames));
         (s1, events, out) = ingest_frames (decode_frames frames)
            (s\<lparr>output_ready := output_ready s \<or> ready\<rparr>, [], [])
     in if out \<noteq> [] then let (s2, n) = push_output_event s1 out in (s2, events @ [(n, out)])
        else (s1, events))"

definition acknowledge_persisted :: "daemon_session \<Rightarrow> nat \<Rightarrow> daemon_session" where
  "acknowledge_persisted s written_bytes =
    (let s1 = set_handle_pressure
           (s\<lparr>persist_pending := drop (min written_bytes (length (persist_pending s))) (persist_pending s)\<rparr>)
     in if persist_pending s1 = [] \<and> \<not> retirement_requested s1 then s1\<lparr>persist_seq := 0\<rparr> else s1)"

section \<open>Attach\<close>

definition bounded_wire_snapshot ::
    "response serializer \<Rightarrow> pty_view \<Rightarrow> uuid \<Rightarrow> nat \<Rightarrow> snapshot_failure_kind + bytes" where
  "bounded_wire_snapshot ser v sid line_limit =
    (let metadata = view_metadata_attaching v in
     and_then (map_err (\<lambda>_. TooLarge) (snapshot_ansi_budget ser sid (length metadata) line_limit)) (\<lambda>budget.
     and_then (reject_if (\<not> utf8_ok metadata) Unavailable) (\<lambda>_.
     and_then (ok_or TooLarge (view_export v budget)) (\<lambda>ansi.
       let snap = ansi @ metadata in
       and_then (map_err (\<lambda>_. TooLarge) (encode_response_line_with_limit ser
           (Attached sid snap (- 1) False False (Some 0) (Some nil_target)) line_limit)) (\<lambda>_.
         Inr snap)))))"

definition attached_response :: "uuid \<Rightarrow> daemon_session \<Rightarrow> bytes \<Rightarrow> response" where
  "attached_response sid s snap = Attached sid snap (seq s) (alive s) (output_ready s)
     (hook_generation (spec s)) (host_target_from_spec (spec s))"

definition restore_events ::
    "bool \<Rightarrow> bytes \<Rightarrow> daemon_session \<times> (u64 \<times> bytes) list \<Rightarrow> daemon_session \<times> (u64 \<times> bytes) list" where
  "restore_events restore_primary snap r = (let (s, out) = r in
     if restore_primary then
       (if out = [] then let (s', n) = push_output_event s snap in (s', [(n, snap)])
        else (s, [(fst (last out), snap)]))
     else (s, out))"

definition attach_boundary ::
    "response serializer \<Rightarrow> pty_view \<Rightarrow> uuid \<Rightarrow> nat \<Rightarrow> nat \<Rightarrow> daemon_session
      \<Rightarrow> (snapshot_failure_kind + (bytes \<times> (u64 \<times> bytes) list)) \<times> daemon_session" where
  "attach_boundary ser v sid line_limit now s =
    (if repair_blocked s now then (Inl (case live_repair s of Some r \<Rightarrow> repair_kind r | None \<Rightarrow> Unavailable), s)
     else case handle s of
       None \<Rightarrow> (case encode_response_line_with_limit ser (attached_response sid s (snapshot s)) line_limit of
           Inl _ \<Rightarrow> (Inl TooLarge, s)
         | Inr _ \<Rightarrow> (Inr (snapshot s, []), s))
     | Some p \<Rightarrow>
         (case (if handle_poisoned s then (Inl Unavailable, p)
                else map_prod (\<lambda>r. and_then r (ok_or Unavailable)) (\<lambda>q. q)
                  (try_attach_snapshot_and_drain p (bounded_wire_snapshot ser v sid line_limit))) of
            (Inl kind, q) \<Rightarrow> (Inl kind, refuse_live_snapshot (s\<lparr>handle := Some q\<rparr>) kind now)
          | (Inr (snap, frames), q) \<Rightarrow>
              let alternate = grid_alternate p;
                  restore_primary = (live_repair s \<noteq> None \<or> (was_alternate s \<and> \<not> alternate));
                  (s', events) = restore_events restore_primary snap
                    (ingest_pty_frames v (s\<lparr>handle := Some q, was_alternate := alternate, live_repair := None\<rparr>) frames)
              in (Inr (snap, events), s')))"

section \<open>The pump\<close>

text \<open>What one pump of a session takes from its terminal, before anything is numbered.\<close>

record pump_boundary =
  pumped_frames :: bytes
  pumped_alive :: bool
  pumped_alternate :: bool
  pumped_replacement :: "bytes option"
  durable_only :: bool

definition rescue_boundary :: "daemon_session \<Rightarrow> pty \<Rightarrow> pump_boundary \<times> pty" where
  "rescue_boundary s p = (let (frames, q) = drain_pending_log_capped p RAW_OUTPUT_CHUNK_BYTES in
     (\<lparr>pumped_frames = frames, pumped_alive = \<not> reader_finished p, pumped_alternate = was_alternate s,
       pumped_replacement = None, durable_only = True\<rparr>, q))"

definition pump_boundary_of ::
    "response serializer \<Rightarrow> pty_view \<Rightarrow> uuid \<Rightarrow> nat \<Rightarrow> nat \<Rightarrow> nat \<Rightarrow> daemon_session \<Rightarrow> pty
      \<Rightarrow> (snapshot_failure_kind + pump_boundary) \<times> pty" where
  "pump_boundary_of ser v sid line_limit now interactive s p =
    (if repair_blocked s now then map_prod Inr id (rescue_boundary s p)
     else if handle_poisoned s then (Inl Unavailable, p)
     else let still = \<not> reader_finished p;
              export = bounded_wire_snapshot ser v sid line_limit
       in if live_repair s \<noteq> None then
            (case try_attach_snapshot_and_drain p export of
               (Inl e, q) \<Rightarrow> (Inl e, q)
             | (Inr None, q) \<Rightarrow> (Inl Unavailable, q)
             | (Inr (Some (snap, frames)), q) \<Rightarrow>
                 (Inr \<lparr>pumped_frames = frames, pumped_alive = still, pumped_alternate = grid_alternate p,
                    pumped_replacement = Some snap, durable_only = False\<rparr>, q))
          else
            (case try_output_update p (if still \<and> 0 < interactive then interactive else USIZE_TOP)
                    (was_alternate s) export of
               (Inl e, q) \<Rightarrow> (Inl e, q)
             | (Inr None, q) \<Rightarrow> (Inl Unavailable, q)
             | (Inr (Some (frames, alternate, repair)), q) \<Rightarrow>
                 (Inr \<lparr>pumped_frames = frames, pumped_alive = still, pumped_alternate = alternate,
                    pumped_replacement = repair, durable_only = False\<rparr>, q)))"

fun push_metadata :: "uuid \<Rightarrow> bytes list \<Rightarrow> daemon_session \<Rightarrow> daemon_session \<times> response list" where
  "push_metadata sid [] s = (s, [])"
| "push_metadata sid (c # cs) s = (let (s1, n) = push_output_event s c; (s2, es) = push_metadata sid cs s1
     in (s2, OutputEvent sid n c # es))"

definition report_input_error :: "uuid \<Rightarrow> pty_view \<Rightarrow> daemon_session \<Rightarrow> daemon_session \<times> response list" where
  "report_input_error sid v s = (case view_input_error v of
      None \<Rightarrow> (s, [])
    | Some m \<Rightarrow> if last_input_error s \<noteq> Some m then (s\<lparr>last_input_error := Some m\<rparr>, [InputError sid m]) else (s, []))"

definition report_metadata :: "uuid \<Rightarrow> pty_view \<Rightarrow> daemon_session \<Rightarrow> daemon_session \<times> response list" where
  "report_metadata sid v s = (let metadata = view_metadata v in
     if metadata \<noteq> last_metadata s
     then push_metadata sid (chunks RAW_OUTPUT_CHUNK_BYTES metadata) (s\<lparr>last_metadata := metadata\<rparr>)
     else (s, []))"

text \<open>
  The body of the pump for one session with a terminal and no retirement: the session, its events,
  whether its subscribers must be disconnected, and the number of bytes drained.
\<close>

definition pump_session ::
    "response serializer \<Rightarrow> pty_view \<Rightarrow> uuid \<Rightarrow> nat \<Rightarrow> nat \<Rightarrow> nat \<Rightarrow> daemon_session \<Rightarrow> pty
      \<Rightarrow> daemon_session \<times> response list \<times> bool \<times> nat" where
  "pump_session ser v sid line_limit now interactive s p =
    (case pump_boundary_of ser v sid line_limit now interactive s p of
       (Inl kind, q) \<Rightarrow> (refuse_live_snapshot (s\<lparr>handle := Some q\<rparr>) kind now, [], True, 0)
     | (Inr b, q) \<Rightarrow>
        let drained = length (pumped_frames b);
            (s1, out) = ingest_pty_frames v (s\<lparr>handle := Some q\<rparr>) (pumped_frames b)
        in if durable_only b then ((if pumped_alive b then s1 else s1\<lparr>alive := False\<rparr>), [], False, drained)
           else let s2 = s1\<lparr>was_alternate := pumped_alternate b, live_repair := None\<rparr>;
                    (s3, numbered) = (case pumped_replacement b of
                        Some snap \<Rightarrow> restore_events True snap (s2, out)
                      | None \<Rightarrow> (s2, out));
                    output_events = map (\<lambda>(n, d). OutputEvent sid n d) numbered;
                    (s4, input_events) = (if handle_poisoned s3 then (s3, []) else report_input_error sid v s3);
                    (s5, metadata_events) = (if handle_poisoned s4 then (s4, []) else report_metadata sid v s4);
                    exited = (\<not> pumped_alive b \<and> alive s5)
                in ((if exited then s5\<lparr>alive := False\<rparr> else s5),
                    output_events @ input_events @ metadata_events @ (if exited then [ExitEvent sid] else []),
                    False, drained))"

section \<open>The checkpoint boundary\<close>

record scrollback_target =
  target_session :: uuid
  target_panel :: uuid
  target_leaf :: "uuid option"
  target_text :: bytes
  target_pending_bytes :: nat

text \<open>
  The body of \<open>take_dirty_scrollback_targets_at\<close> for one session: the session, the target when a
  checkpoint is due, the events to broadcast and whether the subscribers must be disconnected.
\<close>

definition checkpoint_export ::
    "response serializer \<Rightarrow> pty_view \<Rightarrow> uuid \<Rightarrow> nat \<Rightarrow> daemon_session \<Rightarrow> pty
      \<Rightarrow> snapshot_failure_kind + (bytes option \<times> bytes option)" where
  "checkpoint_export ser v sid line_limit s p =
    (let text = (if grid_alternate p then None else Some (view_text v)) in
     if live_repair s \<noteq> None \<or> (was_alternate s \<and> \<not> grid_alternate p)
     then and_then (bounded_wire_snapshot ser v sid line_limit) (\<lambda>snap. Inr (text, Some snap))
     else Inr (text, None))"

definition checkpoint_session ::
    "response serializer \<Rightarrow> pty_view \<Rightarrow> uuid \<Rightarrow> nat \<Rightarrow> nat \<Rightarrow> daemon_session
      \<Rightarrow> daemon_session \<times> scrollback_target option \<times> response list \<times> bool" where
  "checkpoint_session ser v sid line_limit now s =
    (case (history_panel s, handle s) of
       (Some panel, Some p) \<Rightarrow>
         (if retirement_requested s \<or> \<not> scrollback_dirty s \<or> repair_blocked s now then (s, None, [], False)
          else case (if handle_poisoned s then (Inl Unavailable, p)
                     else map_prod (\<lambda>r. and_then r (ok_or Unavailable)) (\<lambda>q. q)
                       (try_attach_snapshot_and_drain p (checkpoint_export ser v sid line_limit s p))) of
              (Inl kind, q) \<Rightarrow> (refuse_live_snapshot (s\<lparr>handle := Some q\<rparr>) kind now, None, [], True)
            | (Inr ((text, repair), frames), q) \<Rightarrow>
                let (s1, out) = ingest_pty_frames v (s\<lparr>handle := Some q\<rparr>) frames;
                    s2 = s1\<lparr>was_alternate := grid_alternate p, live_repair := None\<rparr>;
                    (s3, numbered) = (case repair of Some snap \<Rightarrow> restore_events True snap (s2, out) | None \<Rightarrow> (s2, out));
                    events = map (\<lambda>(n, d). OutputEvent sid n d) numbered
                in (case text of
                      None \<Rightarrow> (s3, None, events, False)
                    | Some t \<Rightarrow> (s3\<lparr>scrollback_dirty := False\<rparr>,
                        Some \<lparr>target_session = sid, target_panel = panel, target_leaf = spec_leaf_id (spec s3),
                          target_text = t, target_pending_bytes = length (persist_pending s3)\<rparr>, events, False)))
     | _ \<Rightarrow> (s, None, [], False))"

record incremental_target =
  inc_session :: uuid
  inc_panel :: uuid
  inc_leaf :: "uuid option"
  inc_frames :: bytes
  inc_alternate :: bool
  inc_cols :: u16
  inc_rows :: u16

definition incremental_target_of :: "uuid \<Rightarrow> daemon_session \<Rightarrow> incremental_target option" where
  "incremental_target_of sid s = (case history_panel s of
      None \<Rightarrow> None
    | Some panel \<Rightarrow> if persist_pending s = [] then None
        else Some \<lparr>inc_session = sid, inc_panel = panel, inc_leaf = spec_leaf_id (spec s),
          inc_frames = persist_pending s, inc_alternate = was_alternate s,
          inc_cols = spec_cols (spec s), inc_rows = spec_rows (spec s)\<rparr>)"

section \<open>Retirement\<close>

text \<open>\<open>spawned\<close> as in \<open>begin_retirement_drain\<close>. The steps are those of \<open>capture_retirement\<close>.\<close>

definition capture_prefix :: "daemon_session \<Rightarrow> pty \<Rightarrow> bool \<times> daemon_session \<times> pty" where
  "capture_prefix s p =
    (if retirement_captured s then (True, s, p)
     else case take_retirement_prefix p (persist_pending s) (persist_seq s) (history_panel s \<noteq> None) of
        (res, q, durable, sq) \<Rightarrow>
          let s' = s\<lparr>persist_pending := durable, persist_seq := sq\<rparr> in
          if res = Inr True then (True, s'\<lparr>retirement_captured := True\<rparr>, q) else (False, s', q))"

definition capture_drain :: "bool \<Rightarrow> daemon_session \<Rightarrow> pty \<Rightarrow> bool \<times> daemon_session \<times> pty" where
  "capture_drain spawned s p =
    (if retirement_draining s then (True, s, p)
     else if persist_pending s \<noteq> [] then (False, s, p)
     else case begin_retirement_drain p spawned of
        (Inl _, q) \<Rightarrow> (False, s, q)
      | (Inr _, q) \<Rightarrow> (True, s\<lparr>retirement_draining := True\<rparr>, q))"

text \<open>The transfer of the tail, with what the boundary was before it.\<close>

definition capture_tail :: "bool \<Rightarrow> daemon_session \<Rightarrow> pty \<Rightarrow> daemon_session \<times> pty" where
  "capture_tail complete s p =
    (case take_retirement_tail p (persist_pending s) (persist_seq s) (history_panel s \<noteq> None) of
       (res, q, durable, sq) \<Rightarrow>
         let s' = s\<lparr>persist_pending := durable, persist_seq := sq\<rparr> in
         if res = Inr True then (s'\<lparr>retirement_final_captured := complete\<rparr>, q) else (s', q))"

text \<open>
  \<open>capture_retirement\<close> holds the session and the terminal, but not the reader: its thread may retain
  output, meet the end of the file or fail between any two of the accesses. The points between them,
  the last with the sampled boundary, and the step from each point to the next or to the end of the call.
\<close>

datatype capture_point = BeforePrefix | BeforeDrain | BeforeSample | BeforeTransfer bool

definition capture_start :: "daemon_session \<Rightarrow> capture_point option" where
  "capture_start s =
    (if \<not> retirement_requested s \<or> retirement_final_captured s \<or> handle s = None then None else Some BeforePrefix)"

definition capture_step :: "bool \<Rightarrow> capture_point \<Rightarrow> daemon_session \<Rightarrow> capture_point option \<times> daemon_session" where
  "capture_step spawned c s =
    (case handle s of
       None \<Rightarrow> (None, s)
     | Some p \<Rightarrow>
        (case c of
           BeforePrefix \<Rightarrow> (case capture_prefix s p of
               (go, t, q) \<Rightarrow> (if go then Some BeforeDrain else None, t\<lparr>handle := Some q\<rparr>))
         | BeforeDrain \<Rightarrow> (case capture_drain spawned s p of
               (go, t, q) \<Rightarrow> (if go then Some BeforeSample else None, t\<lparr>handle := Some q\<rparr>))
         | BeforeSample \<Rightarrow> (case retirement_physical_complete p of
               (complete, q) \<Rightarrow> (Some (BeforeTransfer complete), s\<lparr>handle := Some q\<rparr>))
         | BeforeTransfer complete \<Rightarrow> (case capture_tail complete s p of (t, q) \<Rightarrow> (None, t\<lparr>handle := Some q\<rparr>))))"

text \<open>
  The whole call. Its surroundings say whether the closing thread starts and what the reader does to
  the terminal before each access.
\<close>

record retirement_env =
  closer_starts :: bool
  reader_meanwhile :: "capture_point \<Rightarrow> pty \<Rightarrow> pty"

fun points_left :: "capture_point \<Rightarrow> nat" where
  "points_left BeforePrefix = 3"
| "points_left BeforeDrain = 2"
| "points_left BeforeSample = 1"
| "points_left (BeforeTransfer complete) = 0"

lemma capture_step_forward: "capture_step spawned c s = (Some d, t) \<Longrightarrow> points_left d < points_left c"
  by (cases c) (auto simp: capture_step_def split: option.splits prod.splits if_splits)

function capture_from :: "retirement_env \<Rightarrow> capture_point \<Rightarrow> daemon_session \<Rightarrow> daemon_session" where
  "capture_from r c s =
    (case capture_step (closer_starts r) c (s\<lparr>handle := map_option (reader_meanwhile r c) (handle s)\<rparr>) of
       (None, t) \<Rightarrow> t
     | (Some d, t) \<Rightarrow> capture_from r d t)"
  by pat_completeness auto
termination
  by (relation "measure (\<lambda>(r, c, s). points_left c)") (auto dest!: capture_step_forward [OF sym])

declare capture_from.simps [simp del]

definition capture_retirement :: "retirement_env \<Rightarrow> daemon_session \<Rightarrow> daemon_session" where
  "capture_retirement r s = (case capture_start s of None \<Rightarrow> s | Some c \<Rightarrow> capture_from r c s)"

text \<open>The part of \<open>kill\<close> that concerns the session, and the condition under which it is removed.\<close>

definition mark_retirement :: "daemon_session \<Rightarrow> daemon_session" where
  "mark_retirement s =
    (let s1 = s\<lparr>retirement_requested := True\<rparr> in
     if handle s1 = None then s1\<lparr>retirement_captured := True, retirement_final_captured := True\<rparr> else s1)"

definition request_retirement :: "retirement_env \<Rightarrow> daemon_session \<Rightarrow> daemon_session" where
  "request_retirement r s = capture_retirement r (mark_retirement s)"

definition retirement_complete :: "daemon_session \<Rightarrow> bool" where
  "retirement_complete s \<longleftrightarrow> retirement_final_captured s \<and> (handle s = None \<or> persist_pending s = [])"

section \<open>Resize\<close>

text \<open>The session's part of \<open>DaemonState::resize\<close>; the flag is that of \<open>resize_pty\<close>.\<close>

definition resize_session :: "daemon_session \<Rightarrow> u16 \<Rightarrow> u16 \<Rightarrow> bool \<Rightarrow> daemon_session" where
  "resize_session s cols rows size_changed =
    (let s1 = s\<lparr>spec := (spec s)\<lparr>spec_cols := cols, spec_rows := rows\<rparr>, scrollback_dirty := True\<rparr> in
     if handle_poisoned s1 then s1
     else s1\<lparr>handle := map_option (\<lambda>p. resize_pty p (max cols 1) (max rows 1) size_changed) (handle s1)\<rparr>)"

end
