(* ===== verification/Retirement.thy ===== *)
theory Retirement
  imports DaemonSession
begin

text \<open>
  No output of a daemon session is lost on its way from the operating system to the durable log.
  The custody of a byte passes from the reader to the raw log (\<open>PtyLog\<close>), from there to the
  session's durable queue (pump, attach, checkpoint, retirement) and leaves the queue only when the
  host acknowledges a batch it has written. The machine below interleaves all of these with the
  environment; ghost fields record what was read, what was retained and what was acknowledged.
\<close>

section \<open>Custody\<close>

text \<open>A terminal without the gauge that its owners update.\<close>

definition pty_core :: "pty \<Rightarrow> pty" where
  "pty_core p = p\<lparr>durable_pressure := None\<rparr>"

lemma pty_core_fields [simp]:
  "pending_log (pty_core p) = pending_log p" "log_seq (pty_core p) = log_seq p"
  "log_owned (pty_core p) = log_owned p" "reader_state (pty_core p) = reader_state p"
  "reader_finished (pty_core p) = reader_finished p" "process_reaped (pty_core p) = process_reaped p"
  "log_poisoned (pty_core p) = log_poisoned p"
  by (simp_all add: pty_core_def)

lemma pty_core_eqD:
  assumes "pty_core p = pty_core q"
  shows "pending_log p = pending_log q" "log_seq p = log_seq q" "log_owned p = log_owned q"
    "reader_state p = reader_state q" "reader_finished p = reader_finished q"
    "process_reaped p = process_reaped q"
  using assms by (metis pty_core_fields)+

lemma pty_core_pressure [simp]: "pty_core (set_daemon_durable_pressure p n) = pty_core p"
  by (simp add: pty_core_def set_daemon_durable_pressure_def)

lemma log_of_core: "pty_core p = pty_core q \<Longrightarrow> log_of p = log_of q \<and> log_ok p = log_ok q"
  using pty_core_eqD [of p q] by (simp add: log_of_def log_ok_def)

text \<open>What the operations on output leave alone.\<close>

definition same_life :: "daemon_session \<Rightarrow> daemon_session \<Rightarrow> bool" where
  "same_life s t \<longleftrightarrow> map_option pty_core (handle t) = map_option pty_core (handle s)
     \<and> retirement_requested t = retirement_requested s \<and> retirement_captured t = retirement_captured s
     \<and> retirement_draining t = retirement_draining s
     \<and> retirement_final_captured t = retirement_final_captured s \<and> history_panel t = history_panel s"

definition same_queue :: "daemon_session \<Rightarrow> daemon_session \<Rightarrow> bool" where
  "same_queue s t \<longleftrightarrow> persist_pending t = persist_pending s \<and> persist_seq t = persist_seq s"

lemma same_life_refl [simp]: "same_life s s"
  by (simp add: same_life_def)

lemma same_life_trans: "same_life s t \<Longrightarrow> same_life t u \<Longrightarrow> same_life s u"
  by (simp add: same_life_def)

lemma push_output_event_frame:
  "push_output_event s d = (t, n) \<Longrightarrow> same_life s t \<and> same_queue s t \<and> handle t = handle s"
  by (auto simp: push_output_event_def Let_def same_life_def same_queue_def)

lemma record_persist_life: "same_life s (record_persist_frame s k pl)"
  by (auto simp: record_persist_frame_def same_life_def set_handle_pressure_def option.map_comp comp_def
      split: option.split)

lemma ingest_chunks_frame:
  "ingest_chunks cs (s, ev, out) = (t, ev', out') \<Longrightarrow> same_life s t \<and> same_queue s t"
proof (induction cs "(s, ev, out)" arbitrary: s ev out rule: ingest_chunks.induct)
  case 1
  then show ?case by (simp add: same_queue_def)
next
  case (2 c cs s ev out)
  show ?case
  proof (cases "length out + length c > RAW_OUTPUT_CHUNK_BYTES")
    case True
    obtain s' n where p: "push_output_event s out = (s', n)" by fastforce
    have "same_life s' t \<and> same_queue s' t"
      using 2(1) [OF True refl p [symmetric]] 2(3) True p by simp
    then show ?thesis
      using push_output_event_frame [OF p] by (auto simp: same_queue_def intro: same_life_trans)
  next
    case False
    then show ?thesis using 2(2) 2(3) by simp
  qed
qed

text \<open>One frame enters the queue, unless the 64-bit counter is exhausted.\<close>

lemma record_persist_queue:
  assumes "queue_of (persist_pending s) (persist_seq s) gs" and "length pl < 2 ^ 32"
  shows "\<exists>hs. queue_of (persist_pending (record_persist_frame s k pl)) (persist_seq (record_persist_frame s k pl)) (gs @ hs)
    \<and> (unat (persist_seq s) + 1 < 2 ^ 64 \<longrightarrow> contents hs = [(k, pl)])
    \<and> unat (persist_seq (record_persist_frame s k pl)) \<le> unat (persist_seq s) + 1"
proof (cases "checked_inc (persist_seq s)")
  case None
  then have "persist_seq s = - 1" by (simp add: checked_inc_def split: if_splits)
  then have "unat (persist_seq s) = 2 ^ 64 - 1"
    by (simp add: unsigned_minus_1_eq_mask mask_eq_exp_minus_1)
  then show ?thesis using None assms(1)
    by (intro exI [of _ "[]"]) (simp add: record_persist_frame_def)
next
  case (Some n)
  have r: "persist_pending (record_persist_frame s k pl) = persist_pending s @ encode_frame n k pl"
      "persist_seq (record_persist_frame s k pl) = n"
    by (simp_all add: record_persist_frame_def Some set_handle_pressure_def)
  show ?thesis
    using queue_push [OF assms(1) Some assms(2), of k] checked_inc_unat [OF Some]
    by (intro exI [of _ "[\<lparr>frame_seq = n, frame_kind = k, frame_payload = pl\<rparr>]"])
       (simp add: r content_def)
qed

definition enqueued :: "daemon_session \<Rightarrow> frame list \<Rightarrow> frame list \<Rightarrow> daemon_session \<Rightarrow> bool" where
  "enqueued s gs fs t \<longleftrightarrow> (\<exists>hs. queue_of (persist_pending t) (persist_seq t) (gs @ hs)
     \<and> (unat (persist_seq s) + length fs < 2 ^ 64 \<longrightarrow> contents hs = contents fs)
     \<and> unat (persist_seq t) \<le> unat (persist_seq s) + length fs)"

lemma ingest_frames_moves:
  assumes "queue_of (persist_pending s) (persist_seq s) gs" and "\<forall>f \<in> set fs. length (frame_payload f) < 2 ^ 32"
    and "ingest_frames fs (s, ev, out) = (t, ev', out')"
  shows "same_life s t \<and> enqueued s gs fs t"
  using assms
proof (induction fs arbitrary: s ev out gs)
  case Nil
  then show ?case by (auto simp: enqueued_def intro: exI [of _ "[]"])
next
  case (Cons f fs)
  let ?r = "record_persist_frame s (frame_kind f) (frame_payload f)"
  obtain hs where hs: "queue_of (persist_pending ?r) (persist_seq ?r) (gs @ hs)"
    "unat (persist_seq s) + 1 < 2 ^ 64 \<longrightarrow> contents hs = [(frame_kind f, frame_payload f)]"
    "unat (persist_seq ?r) \<le> unat (persist_seq s) + 1"
    using record_persist_queue [OF Cons.prems(1), of "frame_payload f" "frame_kind f"] Cons.prems(2) by auto
  obtain u ev1 out1 where u: "ingest_frames fs (u, ev1, out1) = (t, ev', out')"
      "same_life ?r u" "same_queue ?r u"
  proof (cases "frame_kind f = Output")
    case True
    obtain u ev1 out1 where c: "ingest_chunks (chunks RAW_OUTPUT_CHUNK_BYTES (frame_payload f)) (?r, ev, out) = (u, ev1, out1)"
      using prod_cases3 by blast
    show ?thesis
      by (rule that [of u ev1 out1]) (use Cons.prems(3) True c ingest_chunks_frame [OF c] in \<open>simp_all add: Let_def\<close>)
  next
    case False
    show ?thesis
      by (rule that [of ?r ev out]) (use Cons.prems(3) False in \<open>simp_all add: Let_def same_queue_def\<close>)
  qed
  have "queue_of (persist_pending u) (persist_seq u) (gs @ hs)" using hs(1) u(3) by (simp add: same_queue_def)
  from Cons.IH [OF this _ u(1)] Cons.prems(2)
  have ih: "same_life u t" "enqueued u (gs @ hs) fs t" by auto
  obtain ks where ks: "queue_of (persist_pending t) (persist_seq t) ((gs @ hs) @ ks)"
    "unat (persist_seq u) + length fs < 2 ^ 64 \<longrightarrow> contents ks = contents fs"
    "unat (persist_seq t) \<le> unat (persist_seq u) + length fs"
    using ih(2) by (auto simp: enqueued_def)
  have su: "unat (persist_seq u) \<le> unat (persist_seq s) + 1" using u(3) hs(3) by (simp add: same_queue_def)
  have "contents (hs @ ks) = contents (f # fs)" if "unat (persist_seq s) + length (f # fs) < 2 ^ 64"
    using that hs(2) ks(2) su by (simp add: content_def)
  then have "enqueued s gs (f # fs) t"
    unfolding enqueued_def using ks su by (intro exI [of _ "hs @ ks"]) simp
  moreover have "same_life s t"
    using record_persist_life u(2) ih(1) by (blast intro: same_life_trans)
  ultimately show ?case by blast
qed

lemma ingest_moves:
  assumes q: "queue_of (persist_pending s) (persist_seq s) gs"
    and fs: "chained None fs" "frames = encode_frames fs"
    and i: "ingest_pty_frames v s frames = (t, ev)"
  shows "same_life s t \<and> enqueued s gs fs t"
proof -
  define s0 where "s0 = s\<lparr>output_ready := output_ready s \<or> (if handle s \<noteq> None then view_semantic_ready v
      else list_ex (\<lambda>f. frame_kind f = Output \<and> frame_payload f \<noteq> []) fs)\<rparr>"
  have s0: "same_life s s0" "same_queue s s0" by (simp_all add: s0_def same_life_def same_queue_def)
  obtain s1 ev1 out where g: "ingest_frames fs (s0, [], []) = (s1, ev1, out)"
    using prod_cases3 by blast
  have q0: "queue_of (persist_pending s0) (persist_seq s0) gs" using q s0(2) by (simp add: same_queue_def)
  have m: "same_life s0 s1" "enqueued s0 gs fs s1"
    using ingest_frames_moves [OF q0 frame_bound [OF fs(1)] g] by auto
  have "t = s1 \<or> (\<exists>n. push_output_event s1 out = (t, n))"
    using i g by (auto simp: ingest_pty_frames_def decode_encoded [OF fs(1)] fs(2) s0_def Let_def
        split: if_splits prod.splits)
  then have "same_life s1 t" "same_queue s1 t"
    using push_output_event_frame by (auto simp: same_queue_def)
  then show ?thesis
    using m s0 by (auto simp: enqueued_def same_queue_def intro: same_life_trans)
qed

section \<open>Every boundary hands its frames over\<close>

definition pty_env :: "pty \<Rightarrow> reader_phase \<times> bool \<times> bool \<times> bool" where
  "pty_env p = (reader_state p, reader_finished p, process_reaped p, log_owned p)"

definition takes :: "pty \<Rightarrow> bytes \<Rightarrow> pty \<Rightarrow> bool" where
  "takes p frames q \<longleftrightarrow> (\<exists>taken. frames = encode_frames taken \<and> chained None taken
     \<and> log_ok q \<and> log_of p = taken @ log_of q \<and> pty_env q = pty_env p)"

lemma takes_none: "log_ok p \<Longrightarrow> takes p [] p"
  unfolding takes_def by (rule exI [of _ "[]"]) simp

lemma pty_env_charge [simp]: "pty_env (charge_transferred_pending p n) = pty_env p"
  by (simp add: pty_env_def charge_transferred_pending_def)

lemma pty_env_log [simp]: "pty_env (p\<lparr>pending_log := b\<rparr>) = pty_env p" "pty_env (p\<lparr>log_seq := n\<rparr>) = pty_env p"
  by (simp_all add: pty_env_def)

lemma log_frames: "log_ok p \<Longrightarrow> pending_log p = encode_frames (log_of p) \<and> chained None (log_of p)"
  by (simp add: log_ok_def queue_of_def)

lemma takes_capped:
  assumes "log_ok p" and "drain_pending_log_capped p m = (frames, q)"
  shows "takes p frames q"
proof -
  have "pty_env q = pty_env p"
    using assms(2) by (auto simp: drain_pending_log_capped_def Let_def split: if_splits prod.splits)
  then show ?thesis
    using capped_drain_splits [OF assms] unfolding takes_def by (intro exI [of _ "decode_frames frames"]) auto
qed

lemma takes_attach:
  assumes "log_ok p" and "try_attach_snapshot_and_drain p export = (r, q)"
  shows "(\<exists>snap frames. r = Inr (Some (snap, frames)) \<and> export = Inr snap \<and> takes p frames q)
    \<or> (q = p \<and> (r = Inr None \<or> (\<exists>e. r = Inl e)))"
proof (cases "(log_owned p \<or> restoring_history p \<or> history_restore_failed p)
    \<or> grid_poisoned p \<or> log_poisoned p \<or> (\<exists>e. export = Inl e)")
  case True
  then show ?thesis using assms(2)
    unfolding try_attach_snapshot_and_drain_def by (elim disjE exE) (auto split: if_splits sum.splits)
next
  case False
  then obtain snap where e: "export = Inr snap" by (cases export) auto
  have r: "r = Inr (Some (snap, pending_log p))"
      "q = (charge_transferred_pending (p\<lparr>pending_log := []\<rparr>) (length (pending_log p)))\<lparr>log_seq := 0\<rparr>"
    using assms(2) False e unfolding try_attach_snapshot_and_drain_def by simp_all
  have "pending_log q = []" by (simp add: r(2))
  then have "log_ok q \<and> log_of q = []" using log_okI [of q "[]"] by simp
  then have "takes p (pending_log p) q"
    unfolding takes_def using log_frames [OF assms(1)] by (intro exI [of _ "log_of p"]) (simp add: r(2))
  then show ?thesis using r(1) e by blast
qed

lemma takes_drained:
  assumes "log_ok p" and "drain_log_prefix (pending_log p) n = (frames, rest)"
    and "q = charge_transferred_pending (p\<lparr>pending_log := rest\<rparr>) (length frames)"
  shows "takes p frames q"
proof -
  note p = log_frames [OF assms(1)]
  obtain k where k: "frames = encode_frames (take k (log_of p))" "rest = encode_frames (drop k (log_of p))"
    using drain_prefix_frames [of "log_of p" n frames rest] assms(2) p by auto
  have "queue_of (pending_log q) (log_seq q) (drop k (log_of p))"
    using queue_drop [OF assms(1) [unfolded log_ok_def], of k] by (simp add: assms(3) k(2))
  from log_okI [OF this] have "log_ok q \<and> log_of q = drop k (log_of p)" .
  moreover have "chained None (take k (log_of p))"
    using p chained_append [of None "take k (log_of p)" "drop k (log_of p)"] by simp
  ultimately show ?thesis
    unfolding takes_def by (intro exI [of _ "take k (log_of p)"]) (simp add: k(1) assms(3))
qed

lemma takes_update:
  assumes "log_ok p" and "try_output_update p m alt export = (r, q)"
  shows "(\<exists>frames a snap. r = Inr (Some (frames, a, snap)) \<and> takes p frames q)
    \<or> (q = p \<and> (r = Inr None \<or> (\<exists>e. r = Inl e)))"
proof -
  define snap where "snap = (if alt \<and> \<not> grid_alternate p
      then (case export of Inl e \<Rightarrow> Inl e | Inr s \<Rightarrow> Inr (Some s)) else Inr None)"
  have run: "(if log_owned p \<or> restoring_history p \<or> history_restore_failed p \<or> grid_poisoned p then (Inr None, p)
     else case snap of
         Inl e \<Rightarrow> (Inl e, p)
       | Inr snp \<Rightarrow>
           if log_poisoned p then (Inr None, p)
           else let (drained, rest) = drain_log_prefix (pending_log p)
                      (if snp \<noteq> None then USIZE_TOP else m)
                in (Inr (Some (drained, grid_alternate p, snp)),
                    charge_transferred_pending (p\<lparr>pending_log := rest\<rparr>) (length drained))) = (r, q)"
    using assms(2) unfolding try_output_update_def snap_def .
  show ?thesis
  proof (cases "(log_owned p \<or> restoring_history p \<or> history_restore_failed p \<or> grid_poisoned p)
      \<or> (\<exists>e. snap = Inl e) \<or> log_poisoned p")
    case True
    then show ?thesis using run
      by (elim disjE exE) (auto split: if_splits sum.splits)
  next
    case False
    then obtain sn where sn: "snap = Inr sn" by (cases snap) auto
    obtain frames rest where d: "drain_log_prefix (pending_log p) (if sn \<noteq> None then USIZE_TOP else m) = (frames, rest)"
      by fastforce
    have r: "r = Inr (Some (frames, grid_alternate p, sn))"
      "q = charge_transferred_pending (p\<lparr>pending_log := rest\<rparr>) (length frames)"
      using run False sn d by simp_all
    have "takes p frames q" by (rule takes_drained [OF assms(1) d r(2)])
    then show ?thesis using r(1) by blast
  qed
qed

text \<open>A session whose terminal's log moved, without loss, towards its queue.\<close>

definition same_flags :: "daemon_session \<Rightarrow> daemon_session \<Rightarrow> bool" where
  "same_flags s t \<longleftrightarrow> retirement_requested t = retirement_requested s
     \<and> retirement_captured t = retirement_captured s \<and> retirement_draining t = retirement_draining s
     \<and> retirement_final_captured t = retirement_final_captured s \<and> history_panel t = history_panel s"

definition moves :: "daemon_session \<Rightarrow> pty \<Rightarrow> frame list \<Rightarrow> daemon_session \<Rightarrow> bool" where
  "moves s p gs t \<longleftrightarrow> same_flags s t \<and> (\<exists>q taken. handle t = Some q \<and> log_ok q
     \<and> log_of p = taken @ log_of q \<and> enqueued s gs taken t \<and> pty_env q = pty_env p)"

definition inert :: "daemon_session \<Rightarrow> daemon_session \<Rightarrow> bool" where
  "inert s t \<longleftrightarrow> same_life s t \<and> same_queue s t"

lemma passive_refl [simp]: "inert s s"
  by (simp add: inert_def same_queue_def)

lemma passive_trans: "inert s t \<Longrightarrow> inert t u \<Longrightarrow> inert s u"
  by (auto simp: inert_def same_queue_def intro: same_life_trans)

lemma enqueued_queue: "same_queue s s' \<Longrightarrow> enqueued s' gs fs t = enqueued s gs fs t"
  by (simp add: enqueued_def same_queue_def)

lemma same_life_handle:
  assumes "same_life s t" and "handle s = Some q"
  shows "\<exists>r. handle t = Some r \<and> log_ok r = log_ok q \<and> log_of r = log_of q \<and> pty_env r = pty_env q"
proof -
  have "map_option pty_core (handle t) = Some (pty_core q)" using assms by (simp add: same_life_def)
  then obtain r where r: "handle t = Some r" "pty_core r = pty_core q" by auto
  show ?thesis
    using r(1) log_of_core [OF r(2)] pty_core_eqD [OF r(2)] by (auto simp: pty_env_def)
qed

lemma same_life_flags: "same_life s t \<Longrightarrow> same_flags s t"
  by (simp add: same_life_def same_flags_def)

lemma same_flags_trans: "same_flags s t \<Longrightarrow> same_flags t u \<Longrightarrow> same_flags s u"
  by (simp add: same_flags_def)

lemma moves_passive:
  assumes m: "moves s p gs t" and i: "inert t u"
  shows "moves s p gs u"
proof -
  obtain q taken where q: "handle t = Some q" "log_ok q" "log_of p = taken @ log_of q"
      "enqueued s gs taken t" "pty_env q = pty_env p" and f: "same_flags s t"
    using m by (auto simp: moves_def)
  have l: "same_life t u" and sq: "same_queue t u" using i by (simp_all add: inert_def)
  obtain r where r: "handle u = Some r" "log_ok r = log_ok q" "log_of r = log_of q" "pty_env r = pty_env q"
    using same_life_handle [OF l q(1)] by auto
  have "enqueued s gs taken u" using q(4) sq by (simp add: enqueued_def same_queue_def)
  then show ?thesis
    unfolding moves_def using q r same_flags_trans [OF f same_life_flags [OF l]] by auto
qed

lemma moves_refl:
  assumes "queue_of (persist_pending s) (persist_seq s) gs" and "handle s = Some p" and "log_ok p"
  shows "moves s p gs s"
  unfolding moves_def
  using assms by (auto simp: same_flags_def enqueued_def intro!: exI [of _ "[]"])

lemma moves_take:
  assumes q: "queue_of (persist_pending s) (persist_seq s) gs" and s: "handle s = Some p"
    and t: "takes p frames q'" and i: "ingest_pty_frames v s' frames = (t, ev)"
    and s': "handle s' = Some q'" "same_queue s s'" "same_flags s s'"
  shows "moves s p gs t"
proof -
  obtain taken where k: "frames = encode_frames taken" "chained None taken" "log_ok q'"
      "log_of p = taken @ log_of q'" "pty_env q' = pty_env p"
    using t by (auto simp: takes_def)
  have "queue_of (persist_pending s') (persist_seq s') gs" using q s'(2) by (simp add: same_queue_def)
  from ingest_moves [OF this k(2,1) i]
  have m: "same_life s' t" "enqueued s gs taken t" using enqueued_queue [OF s'(2)] by auto
  then have f: "same_flags s t" using same_flags_trans [OF s'(3) same_life_flags] by simp
  obtain r where "handle t = Some r" "log_ok r = log_ok q'" "log_of r = log_of q'" "pty_env r = pty_env q'"
    using same_life_handle [OF m(1) s'(1)] by auto
  then show ?thesis
    using k m(2) f unfolding moves_def by auto
qed

lemma restore_passive: "restore_events b snap (s, out) = (t, ev) \<Longrightarrow> inert s t"
  using push_output_event_frame by (auto simp: restore_events_def inert_def same_queue_def split: if_splits prod.splits)

lemma push_metadata_passive: "push_metadata sid cs s = (t, ev) \<Longrightarrow> inert s t"
proof (induction cs arbitrary: s t ev)
  case (Cons c cs)
  obtain s1 n where 1: "push_output_event s c = (s1, n)" by fastforce
  obtain s2 es where 2: "push_metadata sid cs s1 = (s2, es)" by fastforce
  have "inert s s1" using push_output_event_frame [OF 1] by (simp add: inert_def)
  then show ?case using Cons.IH [OF 2] Cons.prems 1 2 by (auto intro: passive_trans)
qed simp

lemma report_passive:
  "report_input_error sid v s = (t, ev) \<Longrightarrow> inert s t"
  "report_metadata sid v s = (t, ev) \<Longrightarrow> inert s t"
proof -
  show "inert s t" if "report_input_error sid v s = (t, ev)"
    using that by (auto simp: report_input_error_def inert_def same_life_def same_queue_def
        split: option.splits if_splits)
  have p: "inert s (s\<lparr>last_metadata := m\<rparr>)" for m
    by (simp add: inert_def same_life_def same_queue_def)
  show "inert s t" if "report_metadata sid v s = (t, ev)"
  proof (cases "view_metadata v = last_metadata s")
    case True
    then show ?thesis using that by (simp add: report_metadata_def)
  next
    case False
    then have "push_metadata sid (chunks RAW_OUTPUT_CHUNK_BYTES (view_metadata v))
        (s\<lparr>last_metadata := view_metadata v\<rparr>) = (t, ev)"
      using that by (simp add: report_metadata_def Let_def)
    from push_metadata_passive [OF this] show ?thesis by (rule passive_trans [OF p])
  qed
qed

lemma moves_refused:
  assumes "queue_of (persist_pending s) (persist_seq s) gs" and "handle s = Some p" and "log_ok p"
  shows "moves s p gs (refuse_live_snapshot (s\<lparr>handle := Some p\<rparr>) kind now)"
  by (rule moves_passive [OF moves_refl [OF assms]])
    (simp add: refuse_live_snapshot_def inert_def same_life_def same_queue_def assms(2))

lemma pump_boundary_takes:
  assumes "log_ok p" and "pump_boundary_of ser v sid limit now interactive s p = (r, q)"
  shows "(\<exists>kind. r = Inl kind \<and> q = p) \<or> (\<exists>b. r = Inr b \<and> takes p (pumped_frames b) q)"
proof -
  have rescue: "takes p (pumped_frames b) q" if "rescue_boundary s p = (b, q)" for b q
    using that takes_capped [OF assms(1)] by (auto simp: rescue_boundary_def Let_def split: prod.splits)
  consider "repair_blocked s now" | "\<not> repair_blocked s now" "handle_poisoned s"
    | "\<not> repair_blocked s now" "\<not> handle_poisoned s" "live_repair s \<noteq> None"
    | "\<not> repair_blocked s now" "\<not> handle_poisoned s" "live_repair s = None" by blast
  then show ?thesis
  proof cases
    case 1
    then show ?thesis using assms(2) rescue
      by (cases "rescue_boundary s p") (auto simp: pump_boundary_of_def)
  next
    case 2
    then show ?thesis using assms(2) by (auto simp: pump_boundary_of_def)
  next
    case 3
    obtain x y where a: "try_attach_snapshot_and_drain p (bounded_wire_snapshot ser v sid limit) = (x, y)" by fastforce
    show ?thesis using takes_attach [OF assms(1) a] assms(2) 3 a
      by (auto simp: pump_boundary_of_def)
  next
    case 4
    obtain x y where a: "try_output_update p (if \<not> reader_finished p \<and> 0 < interactive then interactive else USIZE_TOP)
        (was_alternate s) (bounded_wire_snapshot ser v sid limit) = (x, y)" by fastforce
    show ?thesis using takes_update [OF assms(1) a] assms(2) 4 a
      by (auto simp: pump_boundary_of_def Let_def)
  qed
qed

lemma pump_moves:
  assumes q: "queue_of (persist_pending s) (persist_seq s) gs" and h: "handle s = Some p" and ok: "log_ok p"
    and r: "pump_session ser v sid limit now interactive s p = (t, ev, refused, n)"
  shows "moves s p gs t"
proof -
  obtain b q' where b: "pump_boundary_of ser v sid limit now interactive s p = (b, q')" by fastforce
  from pump_boundary_takes [OF ok b] show ?thesis
  proof (elim disjE exE conjE)
    fix kind assume "b = Inl kind" "q' = p"
    then have "t = refuse_live_snapshot (s\<lparr>handle := Some p\<rparr>) kind now"
      using r b by (simp add: pump_session_def)
    then show ?thesis using moves_refused [OF q h ok] by simp
  next
    fix pb assume pb: "b = Inr pb" and t: "takes p (pumped_frames pb) q'"
    obtain s1 out where i: "ingest_pty_frames v (s\<lparr>handle := Some q'\<rparr>) (pumped_frames pb) = (s1, out)" by fastforce
    have m: "moves s p gs s1"
      by (rule moves_take [OF q h t i]) (simp_all add: same_queue_def same_flags_def)
    have st: "inert x (x\<lparr>alive := a\<rparr>)" "inert x (x\<lparr>was_alternate := w, live_repair := l\<rparr>)" for x a w l
      by (simp_all add: inert_def same_life_def same_queue_def)
    show ?thesis
    proof (cases "durable_only pb")
      case True
      then have "t = s1 \<or> t = s1\<lparr>alive := False\<rparr>"
        using r by (auto simp: pump_session_def b pb i Let_def split: if_splits)
      then show ?thesis using moves_passive [OF m] st by auto
    next
      case False
      let ?s2 = "s1\<lparr>was_alternate := pumped_alternate pb, live_repair := None\<rparr>"
      obtain s3 num where 3: "(case pumped_replacement pb of Some snap \<Rightarrow> restore_events True snap (?s2, out)
          | None \<Rightarrow> (?s2, out)) = (s3, num)" by fastforce
      obtain s4 e4 where 4: "(if handle_poisoned s3 then (s3, []) else report_input_error sid v s3) = (s4, e4)" by fastforce
      obtain s5 e5 where 5: "(if handle_poisoned s4 then (s4, []) else report_metadata sid v s4) = (s5, e5)" by fastforce
      have "inert ?s2 s3" using 3 restore_passive by (auto split: option.splits)
      moreover have "inert s3 s4" using 4 report_passive(1) by (auto split: if_splits)
      moreover have "inert s4 s5" using 5 report_passive(2) by (auto split: if_splits)
      moreover have "t = s5 \<or> t = s5\<lparr>alive := False\<rparr>"
        using r False by (auto simp: pump_session_def b pb i 3 4 5 Let_def split: if_splits)
      ultimately have "inert s1 t" using st passive_trans by metis
      then show ?thesis by (rule moves_passive [OF m])
    qed
  qed
qed

lemma boundary_taken:
  assumes ok: "log_ok p"
    and r: "(if poisoned then (Inl Unavailable, p)
      else map_prod (\<lambda>r. and_then r (ok_or Unavailable)) (\<lambda>q. q) (try_attach_snapshot_and_drain p export)) = (x, q)"
  shows "(\<exists>kind. x = Inl kind \<and> q = p) \<or> (\<exists>snap frames. x = Inr (snap, frames) \<and> takes p frames q)"
proof (cases poisoned)
  case True
  then show ?thesis using r by auto
next
  case False
  obtain y z where a: "try_attach_snapshot_and_drain p export = (y, z)" by fastforce
  show ?thesis using takes_attach [OF ok a] r False a by auto
qed

lemma attach_moves:
  assumes q: "queue_of (persist_pending s) (persist_seq s) gs" and h: "handle s = Some p" and ok: "log_ok p"
    and r: "attach_boundary ser v sid limit now s = (res, t)"
  shows "moves s p gs t"
proof (cases "repair_blocked s now")
  case True
  then show ?thesis using r moves_refl [OF q h ok] by (simp add: attach_boundary_def)
next
  case False
  obtain x q' where b: "(if handle_poisoned s then (Inl Unavailable, p)
      else map_prod (\<lambda>r. and_then r (ok_or Unavailable)) (\<lambda>q. q)
        (try_attach_snapshot_and_drain p (bounded_wire_snapshot ser v sid limit))) = (x, q')" by fastforce
  from boundary_taken [OF ok b] show ?thesis
  proof (elim disjE exE conjE)
    fix kind assume x: "x = Inl kind" "q' = p"
    have "t = refuse_live_snapshot (s\<lparr>handle := Some p\<rparr>) kind now"
      using r False h b x unfolding attach_boundary_def by simp
    then show ?thesis using moves_refused [OF q h ok] by simp
  next
    fix snap frames assume x: "x = Inr (snap, frames)" and tk: "takes p frames q'"
    let ?s = "s\<lparr>handle := Some q', was_alternate := grid_alternate p, live_repair := None\<rparr>"
    obtain s1 out where i: "ingest_pty_frames v ?s frames = (s1, out)" by fastforce
    obtain s2 ev where e: "restore_events (live_repair s \<noteq> None \<or> (was_alternate s \<and> \<not> grid_alternate p)) snap (s1, out)
        = (s2, ev)" by fastforce
    have "t = s2"
      using r False h b x i e unfolding attach_boundary_def by (simp add: Let_def)
    moreover have "moves s p gs s1"
      by (rule moves_take [OF q h tk i]) (simp_all add: same_queue_def same_flags_def)
    ultimately show ?thesis using moves_passive restore_passive [OF e] by blast
  qed
qed

lemma checkpoint_moves:
  assumes q: "queue_of (persist_pending s) (persist_seq s) gs" and h: "handle s = Some p" and ok: "log_ok p"
    and r: "checkpoint_session ser v sid limit now s = (t, tgt, ev, refused)"
  shows "moves s p gs t \<and> (\<forall>x. tgt = Some x \<longrightarrow> target_pending_bytes x = length (persist_pending t))"
proof (cases "history_panel s = None \<or> retirement_requested s \<or> \<not> scrollback_dirty s \<or> repair_blocked s now")
  case True
  then have "t = s \<and> tgt = None"
    using r h by (auto simp: checkpoint_session_def split: option.splits)
  then show ?thesis using moves_refl [OF q h ok] by simp
next
  case False
  then obtain panel where panel: "history_panel s = Some panel" by auto
  obtain x q' where b: "(if handle_poisoned s then (Inl Unavailable, p)
      else map_prod (\<lambda>r. and_then r (ok_or Unavailable)) (\<lambda>q. q)
        (try_attach_snapshot_and_drain p (checkpoint_export ser v sid limit s p))) = (x, q')" by fastforce
  from boundary_taken [OF ok b] show ?thesis
  proof (elim disjE exE conjE)
    fix kind assume x: "x = Inl kind" "q' = p"
    have "t = refuse_live_snapshot (s\<lparr>handle := Some p\<rparr>) kind now \<and> tgt = None"
      using r False h b x panel unfolding checkpoint_session_def by simp
    then show ?thesis using moves_refused [OF q h ok] by simp
  next
    fix tr frames assume x: "x = Inr (tr, frames)" and tk: "takes p frames q'"
    obtain txo repair where tr: "tr = (txo, repair)" by fastforce
    obtain s1 out where i: "ingest_pty_frames v (s\<lparr>handle := Some q'\<rparr>) frames = (s1, out)" by fastforce
    let ?s2 = "s1\<lparr>was_alternate := grid_alternate p, live_repair := None\<rparr>"
    obtain s3 num where e: "(case repair of Some snap \<Rightarrow> restore_events True snap (?s2, out) | None \<Rightarrow> (?s2, out)) = (s3, num)"
      by fastforce
    have res: "(t, tgt, ev, refused) = (case txo of
          None \<Rightarrow> (s3, None, map (\<lambda>(n, d). OutputEvent sid n d) num, False)
        | Some tx \<Rightarrow> (s3\<lparr>scrollback_dirty := False\<rparr>,
            Some \<lparr>target_session = sid, target_panel = panel, target_leaf = spec_leaf_id (spec s3),
              target_text = tx, target_pending_bytes = length (persist_pending s3)\<rparr>,
            map (\<lambda>(n, d). OutputEvent sid n d) num, False))"
      using r False h b x tr panel i e unfolding checkpoint_session_def by (simp add: Let_def)
    have st: "inert y (y\<lparr>was_alternate := w, live_repair := l\<rparr>)" "inert y (y\<lparr>scrollback_dirty := d\<rparr>)" for y w l d
      by (simp_all add: inert_def same_life_def same_queue_def)
    have "inert ?s2 s3" using e restore_passive by (auto split: option.splits)
    moreover have "inert s3 t" using res st by (auto split: option.splits)
    ultimately have "inert s1 t" using st passive_trans by metis
    moreover have "moves s p gs s1"
      by (rule moves_take [OF q h tk i]) (simp_all add: same_queue_def same_flags_def)
    ultimately show ?thesis
      using moves_passive res by (auto split: option.splits)
  qed
qed

section \<open>The machine\<close>

record pump_env =
  env_ser :: "response serializer"
  env_view :: pty_view
  env_id :: uuid
  env_limit :: nat
  env_now :: nat

text \<open>
  The reader thread, the environment of the terminal, the operations of the daemon on the session
  and the durable host. A pty read is at most the reader's buffer. A retirement is a call of several
  steps: with \<open>ERetire\<close> \<open>kill\<close> and with \<open>ECapture\<close> the pump enters \<open>capture_retirement\<close>, \<open>ECaptureStep\<close>
  is its next step. Between the steps happens what needs neither the daemon's state nor the
  terminal's handle, above all the events of the reader.
\<close>

datatype life_event =
    EAdmit | EDeliver bytes | ETransient | EEof | EFail bytes
  | EReaderGone | EReaped | EWriterDone | ECloserDone
  | EPoison bool bool bool | EGrid bool bool bool
  | EResize u16 u16 bool | EPump pump_env nat | EAttach pump_env | ECheckpoint pump_env
  | ETakeBatch | EAck | EBatchFailed | ERetire | ECapture | ECaptureStep bool

record life =
  session :: daemon_session
  delivered_bytes :: bytes
  retained_frames :: "(frame_kind \<times> bytes) list"
  acked_frames :: "(frame_kind \<times> bytes) list"
  in_flight_batch :: "nat option"
  capturing :: "capture_point option"

definition READ_BUFFER :: nat where
  "READ_BUFFER = 65536"

definition with_pty :: "life \<Rightarrow> (pty \<Rightarrow> pty) \<Rightarrow> life" where
  "with_pty w f = w\<lparr>session := (session w)\<lparr>handle := map_option f (handle (session w))\<rparr>\<rparr>"

definition reader_active :: "pty \<Rightarrow> bool" where
  "reader_active p \<longleftrightarrow> \<not> reader_finished p \<and> reader_state p \<in> {READING, PAUSE_REQUESTED, DRAIN_READING}"

text \<open>The effect of one read on the log: \<open>retain\<close>, then \<open>finish_read\<close>; a refusal marks the reader as failed.\<close>

definition deliver :: "life \<Rightarrow> pty \<Rightarrow> bytes \<Rightarrow> life" where
  "deliver w p raw = (case retain_raw_read p raw of
      (Inr _, q) \<Rightarrow> (with_pty w (\<lambda>_. q\<lparr>reader_state := finish_read (reader_state q)\<rparr>))
         \<lparr>delivered_bytes := delivered_bytes w @ raw, retained_frames := retained_frames w @ [(Output, raw)]\<rparr>
    | (Inl _, q) \<Rightarrow> (with_pty w (\<lambda>_. q\<lparr>reader_state := FAILED\<rparr>))
         \<lparr>delivered_bytes := delivered_bytes w @ raw\<rparr>)"

definition resize_life :: "life \<Rightarrow> pty \<Rightarrow> u16 \<Rightarrow> u16 \<Rightarrow> bool \<Rightarrow> life" where
  "resize_life w p cols rows changed =
    (let s = resize_session (session w) cols rows changed in
     w\<lparr>session := s,
       retained_frames := (case handle s of
           Some q \<Rightarrow> if pending_log q = pending_log p then retained_frames w
             else retained_frames w @ [(frame_kind.Resize, resize_payload (max cols 1) (max rows 1))]
         | None \<Rightarrow> retained_frames w)\<rparr>)"

fun life_pty_act :: "life \<Rightarrow> pty \<Rightarrow> life_event \<Rightarrow> life" where
  "life_pty_act w p EAdmit = (if reader_finished p then w else (case begin_read (reader_state p) of
      None \<Rightarrow> w | Some st \<Rightarrow> with_pty w (\<lambda>q. q\<lparr>reader_state := st\<rparr>)))"
| "life_pty_act w p (EDeliver raw) =
     (if reader_active p \<and> raw \<noteq> [] \<and> length raw \<le> READ_BUFFER then deliver w p raw else w)"
| "life_pty_act w p ETransient =
     (if reader_active p then with_pty w (\<lambda>q. q\<lparr>reader_state := finish_read (reader_state q)\<rparr>) else w)"
| "life_pty_act w p EEof = (if reader_active p then with_pty w (\<lambda>q. q\<lparr>reader_state := EOF\<rparr>) else w)"
| "life_pty_act w p (EFail lost) = (if reader_finished p then w
     else (with_pty w (\<lambda>q. q\<lparr>reader_state := FAILED\<rparr>))\<lparr>delivered_bytes := delivered_bytes w @ lost\<rparr>)"
| "life_pty_act w p EReaderGone =
     (if reader_state p \<in> {EOF, FAILED} then with_pty w (\<lambda>q. q\<lparr>reader_finished := True\<rparr>) else w)"
| "life_pty_act w p EReaped = with_pty w (\<lambda>q. q\<lparr>process_reaped := True\<rparr>)"
| "life_pty_act w p EWriterDone = with_pty w (\<lambda>q. q\<lparr>writer_finished := True\<rparr>)"
| "life_pty_act w p ECloserDone = with_pty w (\<lambda>q. q\<lparr>closer_running := False\<rparr>)"
| "life_pty_act w p (EPoison l g h) =
     (with_pty w (\<lambda>q. q\<lparr>log_poisoned := log_poisoned q \<or> l, grid_poisoned := grid_poisoned q \<or> g\<rparr>))
       \<lparr>session := (session (with_pty w (\<lambda>q. q\<lparr>log_poisoned := log_poisoned q \<or> l, grid_poisoned := grid_poisoned q \<or> g\<rparr>)))
         \<lparr>handle_poisoned := handle_poisoned (session w) \<or> h\<rparr>\<rparr>"
| "life_pty_act w p (EGrid a r f) =
     with_pty w (\<lambda>q. q\<lparr>grid_alternate := a, restoring_history := r, history_restore_failed := f\<rparr>)"
| "life_pty_act w p (EResize cols rows changed) =
     (if retirement_requested (session w) then w else resize_life w p cols rows changed)"
| "life_pty_act w p (EPump e interactive) = (if retirement_requested (session w) then w
     else w\<lparr>session := fst (pump_session (env_ser e) (env_view e) (env_id e) (env_limit e) (env_now e)
              interactive (session w) p)\<rparr>)"
| "life_pty_act w p (EAttach e) = (if retirement_requested (session w) then w
     else w\<lparr>session := snd (attach_boundary (env_ser e) (env_view e) (env_id e) (env_limit e) (env_now e) (session w))\<rparr>)"
| "life_pty_act w p (ECheckpoint e) = (if in_flight_batch w \<noteq> None then w
     else case checkpoint_session (env_ser e) (env_view e) (env_id e) (env_limit e) (env_now e) (session w) of
       (s, tgt, _, _) \<Rightarrow> w\<lparr>session := s, in_flight_batch := map_option target_pending_bytes tgt\<rparr>)"
| "life_pty_act w p ETakeBatch = (if in_flight_batch w \<noteq> None then w
     else case incremental_target_of 0 (session w) of
       None \<Rightarrow> w | Some t \<Rightarrow> w\<lparr>in_flight_batch := Some (length (inc_frames t))\<rparr>)"
| "life_pty_act w p EAck = (case in_flight_batch w of
      None \<Rightarrow> w
    | Some n \<Rightarrow> w\<lparr>session := acknowledge_persisted (session w) n, in_flight_batch := None,
        acked_frames := acked_frames w @ contents (decode_frames (take n (persist_pending (session w))))\<rparr>)"
| "life_pty_act w p EBatchFailed = w\<lparr>in_flight_batch := None\<rparr>"
| "life_pty_act w p ERetire = (let s = mark_retirement (session w) in w\<lparr>session := s, capturing := capture_start s\<rparr>)"
| "life_pty_act w p ECapture = w\<lparr>capturing := capture_start (session w)\<rparr>"
| "life_pty_act w p (ECaptureStep spawned) = (case capturing w of
      None \<Rightarrow> w
    | Some c \<Rightarrow> (case capture_step spawned c (session w) of (d, s) \<Rightarrow> w\<lparr>session := s, capturing := d\<rparr>))"

text \<open>The events that need the daemon's state, which the call holds.\<close>

definition needs_state :: "life_event \<Rightarrow> bool" where
  "needs_state e = (case e of
      EResize _ _ _ \<Rightarrow> True | EPump _ _ \<Rightarrow> True | EAttach _ \<Rightarrow> True | ECheckpoint _ \<Rightarrow> True | ETakeBatch \<Rightarrow> True
    | EAck \<Rightarrow> True | EBatchFailed \<Rightarrow> True | ERetire \<Rightarrow> True | ECapture \<Rightarrow> True | _ \<Rightarrow> False)"

definition life_act :: "life \<Rightarrow> life_event \<Rightarrow> life" where
  "life_act w e = (case handle (session w) of
      None \<Rightarrow> w
    | Some p \<Rightarrow> if capturing w \<noteq> None \<and> needs_state e then w else life_pty_act w p e)"

text \<open>A session as \<open>spawn_with_pty_in_history_dir_using\<close> registers it.\<close>

definition fresh_pty :: pty where
  "fresh_pty = \<lparr>pending_log = [], log_seq = 0, log_poisoned = False, grid_poisoned = False,
     grid_alternate = False, restoring_history = False, history_restore_failed = False,
     reader_state = IDLE, reader_finished = False, log_owned = False, checkpoint_ready = False,
     legacy_transfer = False, durable_pressure = Some 0, is_remote = False, process_reaped = False,
     child_terminated = False, writer_closed = False, writer_finished = False, master_open = True,
     closer_running = False\<rparr>"

definition spawned_session :: "wire_spec \<Rightarrow> uuid option \<Rightarrow> daemon_session" where
  "spawned_session sp panel = (new_session sp)\<lparr>history_panel := panel, handle := Some fresh_pty\<rparr>"

definition life_start :: "wire_spec \<Rightarrow> uuid option \<Rightarrow> life" where
  "life_start sp panel = \<lparr>session = spawned_session sp panel, delivered_bytes = [],
     retained_frames = [], acked_frames = [], in_flight_batch = None, capturing = None\<rparr>"

section \<open>The steps of a retirement\<close>

definition retires :: "daemon_session \<Rightarrow> pty \<Rightarrow> frame list \<Rightarrow> daemon_session \<Rightarrow> pty \<Rightarrow> frame list \<Rightarrow> bool" where
  "retires s p gs t q gs' \<longleftrightarrow> log_ok q
     \<and> (\<exists>taken hs. gs' = gs @ hs \<and> log_of p = taken @ log_of q
          \<and> queue_of (persist_pending t) (persist_seq t) gs'
          \<and> (unat (persist_seq s) + length taken < 2 ^ 64 \<longrightarrow> contents hs = contents taken)
          \<and> unat (persist_seq t) \<le> unat (persist_seq s) + length taken)
     \<and> (reader_state q = FAILED \<longleftrightarrow> reader_state p = FAILED) \<and> reader_finished q = reader_finished p
     \<and> process_reaped q = process_reaped p \<and> (log_owned p \<longrightarrow> log_owned q)
     \<and> retirement_requested t = retirement_requested s \<and> history_panel t = history_panel s"

lemma retires_still:
  assumes "queue_of (persist_pending s) (persist_seq s) gs" and "log_ok q" and "log_of q = log_of p"
    and "reader_state q = FAILED \<longleftrightarrow> reader_state p = FAILED" and "reader_finished q = reader_finished p"
    and "process_reaped q = process_reaped p" and "log_owned p \<longrightarrow> log_owned q"
    and "same_queue s t" and "retirement_requested t = retirement_requested s" and "history_panel t = history_panel s"
  shows "retires s p gs t q gs"
  unfolding retires_def using assms by (auto simp: same_queue_def intro!: exI [of _ "[]"])

lemma retires_trans:
  assumes "retires s p gs t q gs1" and "retires t q gs1 u r gs2"
  shows "retires s p gs u r gs2"
proof -
  obtain a hs where a: "gs1 = gs @ hs" "log_of p = a @ log_of q"
      "unat (persist_seq s) + length a < 2 ^ 64 \<longrightarrow> contents hs = contents a"
      "unat (persist_seq t) \<le> unat (persist_seq s) + length a"
    using assms(1) by (auto simp: retires_def)
  obtain b ks where b: "gs2 = gs1 @ ks" "log_of q = b @ log_of r"
      "queue_of (persist_pending u) (persist_seq u) gs2"
      "unat (persist_seq t) + length b < 2 ^ 64 \<longrightarrow> contents ks = contents b"
      "unat (persist_seq u) \<le> unat (persist_seq t) + length b"
    using assms(2) by (auto simp: retires_def)
  have "\<exists>taken hs. gs2 = gs @ hs \<and> log_of p = taken @ log_of r
          \<and> queue_of (persist_pending u) (persist_seq u) gs2
          \<and> (unat (persist_seq s) + length taken < 2 ^ 64 \<longrightarrow> contents hs = contents taken)
          \<and> unat (persist_seq u) \<le> unat (persist_seq s) + length taken"
    using a b by (intro exI [of _ "a @ b"] exI [of _ "hs @ ks"]) auto
  then show ?thesis using assms by (auto simp: retires_def)
qed

lemma request_pause_failed [simp]: "request_pause st = FAILED \<longleftrightarrow> st = FAILED"
  by (cases st) auto

lemma resume_drain_failed [simp]: "resume_drain st = FAILED \<longleftrightarrow> st = FAILED"
  by (cases st) (auto simp: resume_drain_def)

lemma claimed_retires:
  assumes "queue_of (persist_pending s) (persist_seq s) gs" and "log_ok p"
  shows "retires s p gs s (claim_retirement_log_owner p) gs"
  by (rule retires_still) (use assms in \<open>auto simp: claim_retirement_log_owner_def log_ok_def log_of_def same_queue_def\<close>)

lemma transfer_retires:
  assumes q: "queue_of (persist_pending s) (persist_seq s) gs" and ok: "log_ok p"
    and t: "transfer_retirement_frames p (persist_pending s) (persist_seq s) dest = (res, r, durable, sq)"
  shows "\<exists>gs'. retires s p gs (s\<lparr>persist_pending := durable, persist_seq := sq\<rparr>) r gs'
    \<and> (res = Inr True \<longrightarrow> log_of r = []) \<and> reader_state r = reader_state p \<and> log_owned r = log_owned p"
proof (cases "res = Inr True")
  case True
  have env: "r = set_daemon_durable_pressure (p\<lparr>pending_log := []\<rparr>) (length durable)"
    and sq: "unat sq \<le> unat (persist_seq s) + length (log_of p)"
  proof -
    have fs: "pending_log p = encode_frames (log_of p)" "chained None (log_of p)"
      using log_frames [OF ok] by auto
    have rd: "read_frames_with_valid_len (encode_header 0 @ pending_log p)
        = Some (0, log_of p, length (encode_header 0 @ pending_log p))"
      using read_log [OF fs(2), of 0] fs(1) by (simp add: encode_log_def)
    have *: "unat (persist_seq s) + length (log_of p) < 2 ^ 64"
        "r = set_daemon_durable_pressure (p\<lparr>pending_log := []\<rparr>) (length durable)"
        "(durable, sq) = transfer_loop (log_of p) (persist_pending s) (persist_seq s)"
      using t True rd by (auto simp: transfer_retirement_frames_def Let_def split: if_splits prod.splits)
    show "r = set_daemon_durable_pressure (p\<lparr>pending_log := []\<rparr>) (length durable)" by (rule *(2))
    have "sq = persist_seq s + of_nat (length (log_of p))"
      using transfer_loop_spec [OF *(1) frame_bound [OF fs(2)] q] *(3) by auto
    then show "unat sq \<le> unat (persist_seq s) + length (log_of p)"
      using *(1) by (simp add: unat_word_ariths unat_of_nat)
  qed
  have m: "pending_log r = []" "log_ok r"
      "\<exists>hs. queue_of durable sq (gs @ hs) \<and> contents hs = contents (log_of p)"
    using transfer_moves_once [OF ok q t] True by auto
  have e: "log_of r = []" using m(1) by (simp add: log_of_def decode_frames_def)
  obtain hs where hs: "queue_of durable sq (gs @ hs)" "contents hs = contents (log_of p)" using m(3) by auto
  have "retires s p gs (s\<lparr>persist_pending := durable, persist_seq := sq\<rparr>) r (gs @ hs)"
    unfolding retires_def using hs m(2) e sq
    by (auto simp: env set_daemon_durable_pressure_def intro!: exI [of _ "log_of p"])
  then show ?thesis using e by (auto simp: env set_daemon_durable_pressure_def)
next
  case False
  then have "r = p" "durable = persist_pending s" "sq = persist_seq s"
    using transfer_moves_once [OF ok q t] by auto
  then have "retires s p gs (s\<lparr>persist_pending := durable, persist_seq := sq\<rparr>) r gs"
    using q ok by (intro retires_still) (simp_all add: same_queue_def)
  then show ?thesis using False \<open>r = p\<close> by auto
qed

lemma prefix_retires:
  assumes q: "queue_of (persist_pending s) (persist_seq s) gs" and ok: "log_ok p"
    and own: "retirement_captured s \<Longrightarrow> log_owned p"
    and c: "capture_prefix s p = (b, t, r)"
  shows "\<exists>gs'. retires s p gs t r gs' \<and> retirement_final_captured t = retirement_final_captured s
    \<and> (b \<longrightarrow> retirement_captured t) \<and> (retirement_captured t \<longrightarrow> log_owned r)"
proof (cases "retirement_captured s")
  case True
  then have "b \<and> t = s \<and> r = p" using c by (simp add: capture_prefix_def)
  then show ?thesis using True own q ok
    by (intro exI [of _ gs]) (auto intro: retires_still simp: same_queue_def)
next
  case False
  obtain x p1 where x: "retirement_pending_snapshot p = (x, p1)" by fastforce
  have p1: "p1 = p \<or> p1 = claim_retirement_log_owner p"
      and own1: "(\<exists>y. x = Inr (Some y)) \<longrightarrow> log_owned p1"
    using x by (auto simp: retirement_pending_snapshot_def Let_def claim_retirement_log_owner_def split: if_splits)
  have "retires s p gs s p gs" by (rule retires_still) (use q ok in \<open>simp_all add: same_queue_def\<close>)
  then have r1: "retires s p gs s p1 gs" using p1 claimed_retires [OF q ok] by metis
  have r1': "log_ok p1" using r1 unfolding retires_def by blast
  show ?thesis
  proof (cases "\<exists>y. x = Inr (Some y)")
    case True
    then obtain y where y: "x = Inr (Some y)" by auto
    obtain res q2 durable sq where tr: "transfer_retirement_frames p1 (persist_pending s) (persist_seq s)
        (history_panel s \<noteq> None) = (res, q2, durable, sq)" by (metis prod_cases4)
    obtain gs' where g: "retires s p1 gs (s\<lparr>persist_pending := durable, persist_seq := sq\<rparr>) q2 gs'"
        "log_owned q2 = log_owned p1"
      using transfer_retires [OF q r1' tr] by auto
    have t: "take_retirement_prefix p (persist_pending s) (persist_seq s) (history_panel s \<noteq> None)
        = (res, q2, durable, sq)"
      using tr unfolding take_retirement_prefix_def x y by simp
    have cases: "(t, r) = (if res = Inr True then s\<lparr>persist_pending := durable, persist_seq := sq, retirement_captured := True\<rparr>
        else s\<lparr>persist_pending := durable, persist_seq := sq\<rparr>, q2) \<and> b = (res = Inr True)"
      using c False unfolding capture_prefix_def t Let_def by (auto split: if_splits)
    have "retires s p gs (s\<lparr>persist_pending := durable, persist_seq := sq\<rparr>) q2 gs'"
      by (rule retires_trans [OF r1 g(1)])
    then have "retires s p gs t r gs'"
      using cases by (auto simp: retires_def split: if_splits)
    then show ?thesis using cases own1 y g(2) False by (auto split: if_splits)
  next
    case no: False
    have t: "\<exists>res. take_retirement_prefix p (persist_pending s) (persist_seq s) (history_panel s \<noteq> None)
        = (res, p1, persist_pending s, persist_seq s) \<and> res \<noteq> Inr True"
      using no x by (cases x) (auto simp: take_retirement_prefix_def split: option.splits)
    then obtain res where res: "take_retirement_prefix p (persist_pending s) (persist_seq s) (history_panel s \<noteq> None)
        = (res, p1, persist_pending s, persist_seq s)" "res \<noteq> Inr True" by blast
    have "\<not> b \<and> t = s \<and> r = p1"
      using c False res(2) unfolding capture_prefix_def res(1) Let_def by auto
    then show ?thesis using r1 False by auto
  qed
qed

lemma drain_retires:
  assumes q: "queue_of (persist_pending s) (persist_seq s) gs" and ok: "log_ok p"
    and c: "capture_drain spawned s p = (b, t, r)"
  shows "retires s p gs t r gs \<and> retirement_captured t = retirement_captured s
    \<and> retirement_final_captured t = retirement_final_captured s \<and> log_owned r = log_owned p"
proof -
  have "t = s \<or> t = s\<lparr>retirement_draining := True\<rparr>"
    and "r = p \<or> r = p\<lparr>reader_state := resume_drain (reader_state p)\<rparr>
      \<or> (\<exists>m k. r = p\<lparr>reader_state := resume_drain (reader_state p), master_open := False,
           closer_running := k, child_terminated := True\<rparr>)"
    using c by (auto simp: capture_drain_def begin_retirement_drain_def Let_def split: if_splits)
  then show ?thesis
    using q ok by (auto intro!: retires_still simp: same_queue_def log_ok_def log_of_def)
qed

text \<open>What holds at a point of the call: a boundary that was sampled as complete stays so.\<close>

definition call_ok :: "capture_point option \<Rightarrow> daemon_session \<Rightarrow> pty \<Rightarrow> bool" where
  "call_ok c s p \<longleftrightarrow> (case c of
      None \<Rightarrow> True
    | Some d \<Rightarrow> retirement_requested s \<and> \<not> retirement_final_captured s
        \<and> (d \<noteq> BeforePrefix \<longrightarrow> retirement_captured s)
        \<and> (d = BeforeTransfer True \<longrightarrow> reader_state p = EOF \<and> reader_finished p \<and> process_reaped p))"

definition captured_all :: "daemon_session \<Rightarrow> pty \<Rightarrow> bool" where
  "captured_all s p \<longleftrightarrow> retirement_requested s \<and> retirement_captured s
     \<and> reader_state p = EOF \<and> reader_finished p \<and> process_reaped p \<and> log_of p = []"

lemma retires_handle [simp]: "retires x y g (z\<lparr>handle := h\<rparr>) v g' = retires x y g z v g'"
  by (simp add: retires_def)

lemma tail_retires:
  assumes q: "queue_of (persist_pending s) (persist_seq s) gs" and ok: "log_ok p"
    and c: "capture_tail complete s p = (t, r)" and nf: "\<not> retirement_final_captured s"
    and eof: "complete \<longrightarrow> reader_state p = EOF \<and> reader_finished p \<and> process_reaped p"
  shows "\<exists>gs'. retires s p gs t r gs' \<and> retirement_captured t = retirement_captured s \<and> log_owned r = log_owned p
    \<and> (retirement_final_captured t \<longrightarrow> reader_state r = EOF \<and> reader_finished r \<and> process_reaped r \<and> log_of r = [])"
proof -
  obtain res durable sq where tr: "take_retirement_tail p (persist_pending s) (persist_seq s)
        (history_panel s \<noteq> None) = (res, r, durable, sq)"
      and t: "t = (if res = Inr True then s\<lparr>persist_pending := durable, persist_seq := sq, retirement_final_captured := complete\<rparr>
        else s\<lparr>persist_pending := durable, persist_seq := sq\<rparr>)"
    using c by (auto simp: capture_tail_def Let_def split: prod.splits if_splits)
  define s1 where "s1 = s\<lparr>persist_pending := durable, persist_seq := sq\<rparr>"
  have "\<exists>gs'. retires s p gs s1 r gs' \<and> (res = Inr True \<longrightarrow> log_of r = [])
      \<and> reader_state r = reader_state p \<and> log_owned r = log_owned p"
  proof (cases "(\<not> draining (reader_state p) \<and> reader_state p \<noteq> EOF) \<or> reader_state p = FAILED")
    case True
    then have "r = p \<and> durable = persist_pending s \<and> sq = persist_seq s \<and> res \<noteq> Inr True"
      using tr by (auto simp: take_retirement_tail_def split: if_splits)
    then show ?thesis
      using q ok by (intro exI [of _ gs]) (auto intro!: retires_still simp: same_queue_def s1_def)
  next
    case False
    then have "transfer_retirement_frames p (persist_pending s) (persist_seq s) (history_panel s \<noteq> None)
        = (res, r, durable, sq)"
      using tr by (auto simp: take_retirement_tail_def)
    from transfer_retires [OF q ok this] show ?thesis by (simp add: s1_def)
  qed
  then obtain gs' where g: "retires s p gs s1 r gs'" "res = Inr True \<longrightarrow> log_of r = []"
      "reader_state r = reader_state p" "log_owned r = log_owned p" by auto
  have "retires s p gs t r gs'" using g(1) t by (auto simp: retires_def s1_def split: if_splits)
  moreover have "retirement_final_captured t \<longrightarrow> reader_state r = EOF \<and> reader_finished r \<and> process_reaped r \<and> log_of r = []"
    using t g nf eof by (auto simp: retires_def split: if_splits)
  ultimately show ?thesis using t g(4) by (auto split: if_splits)
qed

lemma capture_step_retires:
  assumes q: "queue_of (persist_pending s) (persist_seq s) gs" and h: "handle s = Some p" and ok: "log_ok p"
    and own: "retirement_captured s \<Longrightarrow> log_owned p" and call: "call_ok (Some c) s p"
    and st: "capture_step spawned c s = (d, t)"
  shows "\<exists>r gs'. handle t = Some r \<and> retires s p gs t r gs' \<and> (retirement_captured t \<longrightarrow> log_owned r)
    \<and> call_ok d t r \<and> (retirement_final_captured t \<longrightarrow> captured_all t r)"
proof -
  have nf: "\<not> retirement_final_captured s" and rq: "retirement_requested s"
    using call by (auto simp: call_ok_def)
  show ?thesis
  proof (cases c)
    case BeforePrefix
    obtain b s1 p1 where 1: "capture_prefix s p = (b, s1, p1)" using prod_cases3 by blast
    have t: "t = s1\<lparr>handle := Some p1\<rparr>" "d = (if b then Some BeforeDrain else None)"
      using st h BeforePrefix 1 by (simp_all add: capture_step_def)
    obtain g1 where g1: "retires s p gs s1 p1 g1" "retirement_final_captured s1 = retirement_final_captured s"
        "b \<longrightarrow> retirement_captured s1" "retirement_captured s1 \<longrightarrow> log_owned p1"
      using prefix_retires [OF q ok own 1] by auto
    have "retirement_requested s1" using g1(1) rq by (simp add: retires_def)
    then show ?thesis using g1 t nf
      by (intro exI [of _ p1] exI [of _ g1]) (auto simp: call_ok_def)
  next
    case BeforeDrain
    obtain b s2 p2 where 2: "capture_drain spawned s p = (b, s2, p2)" using prod_cases3 by blast
    have t: "t = s2\<lparr>handle := Some p2\<rparr>" "d = (if b then Some BeforeSample else None)"
      using st h BeforeDrain 2 by (simp_all add: capture_step_def)
    have g2: "retires s p gs s2 p2 gs" "retirement_captured s2 = retirement_captured s"
        "retirement_final_captured s2 = retirement_final_captured s" "log_owned p2 = log_owned p"
      using drain_retires [OF q ok 2] by auto
    have "retirement_captured s" using call BeforeDrain by (simp add: call_ok_def)
    moreover have "retirement_requested s2" using g2(1) rq by (simp add: retires_def)
    ultimately show ?thesis using g2 t nf own
      by (intro exI [of _ p2] exI [of _ gs]) (auto simp: call_ok_def)
  next
    case BeforeSample
    have t: "t = s\<lparr>handle := Some (p\<lparr>writer_closed := True\<rparr>)\<rparr>"
        "d = Some (BeforeTransfer (fst (retirement_physical_complete p)))"
      using st h BeforeSample by (auto simp: capture_step_def retirement_physical_complete_def)
    have "retires s p gs s (p\<lparr>writer_closed := True\<rparr>) gs"
      by (rule retires_still) (use q ok in \<open>simp_all add: same_queue_def log_of_def log_ok_def\<close>)
    moreover have "retirement_captured s" using call BeforeSample by (simp add: call_ok_def)
    ultimately show ?thesis using t nf rq own
      by (intro exI [of _ "p\<lparr>writer_closed := True\<rparr>"] exI [of _ gs])
        (auto simp: call_ok_def retirement_physical_complete_def)
  next
    case (BeforeTransfer complete)
    obtain s3 p3 where 3: "capture_tail complete s p = (s3, p3)" by fastforce
    have t: "t = s3\<lparr>handle := Some p3\<rparr>" "d = None"
      using st h BeforeTransfer 3 by (simp_all add: capture_step_def)
    have eof: "complete \<longrightarrow> reader_state p = EOF \<and> reader_finished p \<and> process_reaped p" and cap: "retirement_captured s"
      using call BeforeTransfer by (auto simp: call_ok_def)
    obtain g3 where g3: "retires s p gs s3 p3 g3" "retirement_captured s3 = retirement_captured s"
        "log_owned p3 = log_owned p" "retirement_final_captured s3 \<longrightarrow> reader_state p3 = EOF
          \<and> reader_finished p3 \<and> process_reaped p3 \<and> log_of p3 = []"
      using tail_retires [OF q ok 3 nf eof] by auto
    have "retirement_requested s3" using g3(1) rq by (simp add: retires_def)
    moreover have "log_of p3 = [] \<Longrightarrow> captured_all (s3\<lparr>handle := Some p3\<rparr>) p3
        = (reader_state p3 = EOF \<and> reader_finished p3 \<and> process_reaped p3)"
      using cap g3(2) calculation by (simp add: captured_all_def)
    ultimately show ?thesis using g3 t own cap
      by (intro exI [of _ p3] exI [of _ g3]) (auto simp: call_ok_def)
  qed
qed

section \<open>Conservation\<close>

definition outputs :: "(frame_kind \<times> bytes) list \<Rightarrow> bytes" where
  "outputs fs = concat (map snd (filter (\<lambda>(k, _). k = Output) fs))"

lemma outputs_append [simp]: "outputs (a @ b) = outputs a @ outputs b"
  by (simp add: outputs_def)

lemma outputs_one [simp]: "outputs [(Output, d)] = d" "k \<noteq> Output \<Longrightarrow> outputs [(k, d)] = []" "outputs [] = []"
  by (simp_all add: outputs_def)

definition custody :: "life \<Rightarrow> pty \<Rightarrow> frame list \<Rightarrow> bool" where
  "custody w p gs \<longleftrightarrow> (let s = session w in
     handle s = Some p \<and> log_ok p \<and> queue_of (persist_pending s) (persist_seq s) gs
   \<and> unat (persist_seq s) + length (log_of p) \<le> length (retained_frames w)
   \<and> (length (retained_frames w) < 2 ^ 64 \<longrightarrow>
        acked_frames w @ contents gs @ contents (log_of p) = retained_frames w)
   \<and> (\<forall>n. in_flight_batch w = Some n \<longrightarrow> (\<exists>k \<le> length gs. n = length (encode_frames (take k gs))))
   \<and> (reader_state p \<noteq> FAILED \<longrightarrow> delivered_bytes w = outputs (retained_frames w))
   \<and> (retirement_captured s \<longrightarrow> log_owned p) \<and> call_ok (capturing w) s p
   \<and> (retirement_final_captured s \<longrightarrow> captured_all s p))"

definition life_inv :: "life \<Rightarrow> bool" where
  "life_inv w \<longleftrightarrow> (\<exists>p gs. custody w p gs)"

lemma life_inv_start: "life_inv (life_start sp panel)"
  unfolding life_inv_def
  by (rule exI [of _ fresh_pty], rule exI [of _ "[]"])
    (simp add: custody_def call_ok_def life_start_def spawned_session_def new_session_def fresh_pty_def log_ok_def
      log_of_def decode_frames_def)

text \<open>An operation that hands frames from the log to the queue keeps custody.\<close>

lemma custody_retires:
  assumes c: "custody w p gs" and r: "retires (session w) p gs t q gs'" and h: "handle t = Some q"
    and cap: "retirement_captured t \<longrightarrow> log_owned q" and call: "call_ok d t q"
    and fin: "retirement_final_captured t \<longrightarrow> captured_all t q"
  shows "custody (w\<lparr>session := t, capturing := d\<rparr>) q gs'"
proof -
  let ?s = "session w"
  obtain taken hs where m: "gs' = gs @ hs" "log_of p = taken @ log_of q"
      "queue_of (persist_pending t) (persist_seq t) gs'"
      "unat (persist_seq ?s) + length taken < 2 ^ 64 \<longrightarrow> contents hs = contents taken"
      "unat (persist_seq t) \<le> unat (persist_seq ?s) + length taken"
    using r by (auto simp: retires_def)
  have le: "unat (persist_seq ?s) + length (log_of p) \<le> length (retained_frames w)"
    and cons: "length (retained_frames w) < 2 ^ 64 \<longrightarrow>
        acked_frames w @ contents gs @ contents (log_of p) = retained_frames w"
    and fl: "\<forall>n. in_flight_batch w = Some n \<longrightarrow> (\<exists>k \<le> length gs. n = length (encode_frames (take k gs)))"
    and del: "reader_state p \<noteq> FAILED \<longrightarrow> delivered_bytes w = outputs (retained_frames w)"
    using c by (auto simp: custody_def Let_def)
  have "acked_frames w @ contents gs' @ contents (log_of q) = retained_frames w"
    if "length (retained_frames w) < 2 ^ 64"
    using that cons le m(1,2,4) by simp
  moreover have "\<exists>k \<le> length gs'. n = length (encode_frames (take k gs'))"
    if f: "in_flight_batch w = Some n" for n
  proof -
    obtain k where "k \<le> length gs" "n = length (encode_frames (take k gs))" using fl f by blast
    then show ?thesis by (intro exI [of _ k]) (simp add: m(1))
  qed
  moreover have "log_ok q" "reader_state q = FAILED \<longleftrightarrow> reader_state p = FAILED" using r by (simp_all add: retires_def)
  ultimately show ?thesis
    using h m le del cap fin call by (simp add: custody_def Let_def)
qed

lemma moves_retires:
  assumes "moves s p gs t"
  shows "\<exists>q gs'. handle t = Some q \<and> retires s p gs t q gs' \<and> pty_env q = pty_env p"
proof -
  obtain q taken hs where m: "handle t = Some q" "log_ok q" "log_of p = taken @ log_of q" "pty_env q = pty_env p"
      "queue_of (persist_pending t) (persist_seq t) (gs @ hs)"
      "unat (persist_seq s) + length taken < 2 ^ 64 \<longrightarrow> contents hs = contents taken"
      "unat (persist_seq t) \<le> unat (persist_seq s) + length taken" and f: "same_flags s t"
    using assms unfolding moves_def enqueued_def by blast
  have "retires s p gs t q (gs @ hs)"
    unfolding retires_def using m f by (auto simp: same_flags_def pty_env_def)
  then show ?thesis using m by blast
qed

lemma custody_moves:
  assumes c: "custody w p gs" and m: "moves (session w) p gs t"
  shows "\<exists>q gs'. custody (w\<lparr>session := t\<rparr>) q gs' \<and> persist_pending t = encode_frames gs'"
proof -
  obtain q gs' where q: "handle t = Some q" "retires (session w) p gs t q gs'" "pty_env q = pty_env p"
    using moves_retires [OF m] by auto
  have f: "same_flags (session w) t" using m by (simp add: moves_def)
  have "log_of p = [] \<Longrightarrow> log_of q = []" using q(2) by (auto simp: retires_def)
  moreover have "call_ok (capturing w) t q"
    using c f q(3) by (auto simp: custody_def Let_def call_ok_def same_flags_def pty_env_def split: option.splits)
  ultimately have "custody (w\<lparr>session := t, capturing := capturing w\<rparr>) q gs'"
    using c f q(3) by (intro custody_retires [OF c q(2,1)])
      (auto simp: custody_def Let_def same_flags_def pty_env_def captured_all_def)
  then have "custody (w\<lparr>session := t\<rparr>) q gs'" by simp
  then show ?thesis by (auto simp: custody_def Let_def queue_of_def)
qed

text \<open>A change of the terminal that leaves its log alone.\<close>

lemma custody_env:
  assumes c: "custody w p gs" and l: "pending_log q = pending_log p" "log_seq q = log_seq p"
    and r: "reader_state q \<noteq> FAILED \<Longrightarrow> reader_state p \<noteq> FAILED"
    and o: "log_owned q = log_owned p"
    and f: "reader_finished p \<Longrightarrow> reader_state q = reader_state p \<and> reader_finished q"
    and d: "process_reaped p \<Longrightarrow> process_reaped q"
    and v: "w' = w\<lparr>session := (session w)\<lparr>handle := Some q, handle_poisoned := hp\<rparr>, delivered_bytes := db\<rparr>"
    and db: "reader_state q \<noteq> FAILED \<Longrightarrow> db = delivered_bytes w"
  shows "custody w' q gs"
proof -
  have "log_of q = log_of p" "log_ok q = log_ok p" using l by (simp_all add: log_of_def log_ok_def)
  moreover have "call_ok (capturing w) (session w) p \<Longrightarrow> call_ok (capturing w) (session w) q"
    using f d by (auto simp: call_ok_def split: option.splits)
  ultimately show ?thesis using c r o f d db
    by (auto simp: custody_def Let_def v call_ok_def captured_all_def split: option.splits)
qed

lemma custody_push:
  assumes c: "custody w p gs" and nf: "\<not> retirement_final_captured (session w)"
    and ok: "log_ok q" and l: "contents (log_of q) = contents (log_of p) @ [(k, d)]"
    and o: "log_owned q = log_owned p"
    and r: "reader_state q = FAILED \<longleftrightarrow> reader_state p = FAILED"
    and t: "handle t = Some q" "same_queue (session w) t" "same_flags (session w) t"
    and call: "call_ok (capturing w) t q"
  shows "custody (w\<lparr>session := t, delivered_bytes := delivered_bytes w @ (if k = Output then d else []),
      retained_frames := retained_frames w @ [(k, d)]\<rparr>) q gs"
proof -
  have "length (log_of q) = Suc (length (log_of p))"
    using arg_cong [OF l, of length] by (simp add: contents_def)
  then show ?thesis
    using c nf ok l o r t call by (auto simp: custody_def Let_def same_queue_def same_flags_def)
qed

lemma finish_read_failed [simp]: "finish_read st = FAILED \<longleftrightarrow> st = FAILED"
  by (cases st) auto

lemma begin_read_not_failed: "begin_read st = Some st' \<Longrightarrow> st \<noteq> FAILED \<and> st' \<noteq> FAILED"
  by (cases st) auto

lemma final_not_active:
  "custody w p gs \<Longrightarrow> \<not> reader_finished p \<Longrightarrow> \<not> retirement_final_captured (session w)"
  by (auto simp: custody_def Let_def captured_all_def)

lemma deliver_inv:
  assumes c: "custody w p gs" and a: "reader_active p" and n: "length raw \<le> READ_BUFFER"
  shows "life_inv (deliver w p raw)"
proof -
  obtain x q where x: "retain_raw_read p raw = (x, q)" by fastforce
  have h: "handle (session w) = Some p" and ok: "log_ok p" using c by (auto simp: custody_def Let_def)
  have nf: "\<not> retirement_final_captured (session w)"
    using final_not_active [OF c] a by (simp add: reader_active_def)
  show ?thesis
  proof (cases x)
    case (Inl e)
    have q: "q = p" using x Inl by (auto simp: retain_raw_read_def split: if_splits option.splits)
    let ?q = "p\<lparr>reader_state := FAILED\<rparr>"
    have "custody (deliver w p raw) ?q gs"
      by (rule custody_env [OF c, where hp = "handle_poisoned (session w)" and db = "delivered_bytes w @ raw"])
        (use a h in \<open>auto simp: deliver_def x Inl q with_pty_def reader_active_def\<close>)
    then show ?thesis by (auto simp: life_inv_def)
  next
    case (Inr healthy)
    let ?q = "q\<lparr>reader_state := finish_read (reader_state q)\<rparr>"
    have "length raw < 2 ^ 32" using n by (simp add: READ_BUFFER_def)
    then have k: "log_ok q" "contents (log_of q) = contents (log_of p) @ [(Output, raw)]"
      using retain_keeps [OF ok] x Inr by auto
    have env: "log_owned q = log_owned p" "reader_state q = reader_state p"
      using x Inr by (auto simp: retain_raw_read_def split: if_splits option.splits)
    have q': "log_ok ?q" "log_of ?q = log_of q" using k(1) by (simp_all add: log_ok_def log_of_def)
    have "custody (w\<lparr>session := (session w)\<lparr>handle := Some ?q\<rparr>,
        delivered_bytes := delivered_bytes w @ (if Output = Output then raw else []),
        retained_frames := retained_frames w @ [(Output, raw)]\<rparr>) ?q gs"
    proof (rule custody_push [OF c nf])
      show "call_ok (capturing w) ((session w)\<lparr>handle := Some ?q\<rparr>) ?q"
        using c a by (auto simp: custody_def Let_def call_ok_def reader_active_def split: option.splits)
    qed (use k q' env in \<open>simp_all add: same_queue_def same_flags_def\<close>)
    moreover have "deliver w p raw = w\<lparr>session := (session w)\<lparr>handle := Some ?q\<rparr>,
        delivered_bytes := delivered_bytes w @ (if Output = Output then raw else []),
        retained_frames := retained_frames w @ [(Output, raw)]\<rparr>"
      using h by (simp add: deliver_def x Inr with_pty_def)
    ultimately show ?thesis by (auto simp: life_inv_def)
  qed
qed

lemma resize_inv:
  assumes c: "custody w p gs" and nr: "\<not> retirement_requested (session w)" and idle: "capturing w = None"
  shows "life_inv (resize_life w p cols rows changed)"
proof -
  define s where "s = resize_session (session w) cols rows changed"
  have h: "handle (session w) = Some p" and ok: "log_ok p" using c by (auto simp: custody_def Let_def)
  have nf: "\<not> retirement_final_captured (session w)" using c nr by (auto simp: custody_def Let_def captured_all_def)
  have sq: "same_queue (session w) s" "same_flags (session w) s"
    by (simp_all add: s_def resize_session_def Let_def same_queue_def same_flags_def)
  obtain q where q: "handle s = Some q"
    and pq: "q = p \<or> q = resize_pty p (max cols 1) (max rows 1) changed"
    using h by (cases "handle_poisoned (session w)") (auto simp: s_def resize_session_def Let_def)
  show ?thesis
  proof (cases "pending_log q = pending_log p")
    case True
    have "q = p"
    proof (rule ccontr)
      assume ne: "q \<noteq> p"
      then obtain n where "q = p\<lparr>log_seq := n, pending_log := pending_log p
          @ encode_frame n frame_kind.Resize (resize_payload (max cols 1) (max rows 1))\<rparr>"
        using pq by (auto simp: resize_pty_def split: if_splits option.splits)
      then show False using True by (simp add: encode_frame_def u64_le_def)
    qed
    then have "custody (w\<lparr>session := s\<rparr>) p gs"
      using c sq q idle by (auto simp: custody_def Let_def same_queue_def same_flags_def call_ok_def captured_all_def)
    moreover have "resize_life w p cols rows changed = w\<lparr>session := s\<rparr>"
      using q True by (simp add: resize_life_def s_def [symmetric] Let_def)
    ultimately show ?thesis by (auto simp: life_inv_def)
  next
    case False
    then obtain n where n: "checked_inc (log_seq p) = Some n"
        "q = p\<lparr>log_seq := n, pending_log := pending_log p
          @ encode_frame n frame_kind.Resize (resize_payload (max cols 1) (max rows 1))\<rparr>"
      using pq by (auto simp: resize_pty_def next_log_sequence_def split: if_splits option.splits)
    let ?d = "resize_payload (max cols 1) (max rows 1)"
    have "queue_of (pending_log q) (log_seq q)
        (log_of p @ [\<lparr>frame_seq = n, frame_kind = frame_kind.Resize, frame_payload = ?d\<rparr>])"
      using queue_push [OF ok [unfolded log_ok_def] n(1), of ?d frame_kind.Resize]
      by (simp add: n(2) resize_payload_def u16c.enc_width)
    from log_okI [OF this] have k: "log_ok q" "contents (log_of q) = contents (log_of p) @ [(frame_kind.Resize, ?d)]"
      by (auto simp: content_def)
    have "custody (w\<lparr>session := s, delivered_bytes := delivered_bytes w @ (if frame_kind.Resize = Output then ?d else []),
        retained_frames := retained_frames w @ [(frame_kind.Resize, ?d)]\<rparr>) q gs"
      by (rule custody_push [OF c nf k _ _ q sq]) (simp_all add: n(2) idle call_ok_def)
    moreover have "resize_life w p cols rows changed
        = w\<lparr>session := s, delivered_bytes := delivered_bytes w @ (if frame_kind.Resize = Output then ?d else []),
            retained_frames := retained_frames w @ [(frame_kind.Resize, ?d)]\<rparr>"
      using q False by (simp add: resize_life_def s_def [symmetric] Let_def)
    ultimately show ?thesis by (auto simp: life_inv_def)
  qed
qed

lemma ack_inv:
  assumes c: "custody w p gs" and f: "in_flight_batch w = Some n"
  shows "life_inv (w\<lparr>session := acknowledge_persisted (session w) n, in_flight_batch := None,
    acked_frames := acked_frames w @ contents (decode_frames (take n (persist_pending (session w))))\<rparr>)"
proof -
  let ?s = "session w"
  obtain k where k: "k \<le> length gs" "n = length (encode_frames (take k gs))"
    using c f by (auto simp: custody_def Let_def)
  have qu: "queue_of (persist_pending ?s) (persist_seq ?s) gs" and h: "handle ?s = Some p"
    using c by (auto simp: custody_def Let_def)
  then have pend: "persist_pending ?s = encode_frames (take k gs) @ encode_frames (drop k gs)"
    using encode_take_drop [of gs k] by (simp add: queue_of_def)
  have ch: "chained None (take k gs)"
    using qu chained_append [of None "take k gs" "drop k gs"] by (simp add: queue_of_def)
  have tk: "contents (decode_frames (take n (persist_pending ?s))) = contents (take k gs)"
    using ch by (simp add: pend k(2) decode_encoded)
  have dr: "drop (min n (length (persist_pending ?s))) (persist_pending ?s) = encode_frames (drop k gs)"
    by (simp add: pend k(2))
  define t where "t = acknowledge_persisted ?s n"
  have t: "persist_pending t = encode_frames (drop k gs)"
      "persist_seq t = persist_seq ?s \<or> (persist_seq t = 0 \<and> drop k gs = [])"
      "same_life ?s t"
    by (auto simp: t_def acknowledge_persisted_def Let_def set_handle_pressure_def dr same_life_def
        option.map_comp comp_def)
  obtain q where q: "handle t = Some q" "log_ok q = log_ok p" "log_of q = log_of p" "pty_env q = pty_env p"
    using same_life_handle [OF t(3) h] by auto
  have "queue_of (persist_pending t) (persist_seq t) (drop k gs)"
    using queue_drop [OF qu, of k] t(1,2) by auto
  moreover have "unat (persist_seq t) \<le> unat (persist_seq ?s)" using t(2) by auto
  moreover have split: "contents gs = contents (take k gs) @ contents (drop k gs)"
    by (metis append_take_drop_id contents_simps(2))
  moreover have "same_flags ?s t" by (rule same_life_flags [OF t(3)])
  moreover have "reader_state q = reader_state p" "reader_finished q = reader_finished p"
      "process_reaped q = process_reaped p" "log_owned q = log_owned p"
    using q(4) by (simp_all add: pty_env_def)
  ultimately have "custody (w\<lparr>session := t, in_flight_batch := None,
      acked_frames := acked_frames w @ contents (take k gs)\<rparr>) q (drop k gs)"
    using c q(1-3) unfolding custody_def Let_def same_flags_def captured_all_def split
    by (simp add: call_ok_def cong: option.case_cong)
  then show ?thesis by (auto simp: life_inv_def tk t_def)
qed

lemma custody_handle: "custody w p gs \<Longrightarrow> handle (session w) = Some p"
  by (simp add: custody_def Let_def)

lemma custody_queue: "custody w p gs \<Longrightarrow> queue_of (persist_pending (session w)) (persist_seq (session w)) gs \<and> log_ok p"
  by (simp add: custody_def Let_def)

lemma env_inv:
  assumes c: "custody w p gs" and l: "pending_log (f p) = pending_log p" "log_seq (f p) = log_seq p"
    and r: "reader_state (f p) \<noteq> FAILED \<Longrightarrow> reader_state p \<noteq> FAILED"
    and o: "log_owned (f p) = log_owned p"
    and g: "reader_finished p \<Longrightarrow> reader_state (f p) = reader_state p \<and> reader_finished (f p)"
    and d: "process_reaped p \<Longrightarrow> process_reaped (f p)"
  shows "life_inv (with_pty w f)"
proof -
  have "custody (with_pty w f) (f p) gs"
    by (rule custody_env [OF c l r o g d, where hp = "handle_poisoned (session w)" and db = "delivered_bytes w"])
      (simp_all add: with_pty_def custody_handle [OF c])
  then show ?thesis by (auto simp: life_inv_def)
qed

lemma capture_step_inv:
  assumes c: "custody w p gs" and p: "capturing w = Some pt" and st: "capture_step spawned pt (session w) = (d, t)"
  shows "life_inv (w\<lparr>session := t, capturing := d\<rparr>)"
proof -
  note q = custody_queue [OF c] and h = custody_handle [OF c]
  have own: "retirement_captured (session w) \<Longrightarrow> log_owned p" and call: "call_ok (Some pt) (session w) p"
    using c p by (auto simp: custody_def Let_def)
  obtain r gs' where "handle t = Some r" "retires (session w) p gs t r gs'" "retirement_captured t \<longrightarrow> log_owned r"
      "call_ok d t r" "retirement_final_captured t \<longrightarrow> captured_all t r"
    using capture_step_retires [OF _ h _ own call st] q by blast
  from custody_retires [OF c this(2,1,3,4,5)] show ?thesis by (auto simp: life_inv_def)
qed

lemma start_inv:
  assumes c: "custody w p gs" and s: "s = session w \<or> s = (session w)\<lparr>retirement_requested := True\<rparr>"
  shows "life_inv (w\<lparr>session := s, capturing := capture_start s\<rparr>)"
proof -
  have "call_ok (capture_start s) s p" by (auto simp: call_ok_def capture_start_def)
  then have "custody (w\<lparr>session := s, capturing := capture_start s\<rparr>) p gs"
    using c s by (auto simp: custody_def Let_def captured_all_def)
  then show ?thesis by (auto simp: life_inv_def)
qed

lemma life_pty_inv:
  assumes c: "custody w p gs" and free: "capturing w = None \<or> \<not> needs_state e"
  shows "life_inv (life_pty_act w p e)"
proof -
  have keep: "life_inv w" using c by (auto simp: life_inv_def)
  have h: "handle (session w) = Some p" by (rule custody_handle [OF c])
  have q: "queue_of (persist_pending (session w)) (persist_seq (session w)) gs" and ok: "log_ok p"
    using custody_queue [OF c] by auto
  show ?thesis
  proof (cases e)
    case EAdmit
    then show ?thesis using keep
      by (auto split: option.split intro!: env_inv [OF c] dest: begin_read_not_failed)
  next
    case (EDeliver raw)
    then show ?thesis using keep deliver_inv [OF c] by simp
  next
    case ETransient
    then show ?thesis using keep by (auto simp: reader_active_def intro!: env_inv [OF c])
  next
    case EEof
    then show ?thesis using keep by (auto simp: reader_active_def intro!: env_inv [OF c])
  next
    case (EFail lost)
    show ?thesis
    proof (cases "reader_finished p")
      case False
      have "custody (life_pty_act w p e) (p\<lparr>reader_state := FAILED\<rparr>) gs"
        by (rule custody_env [OF c, where hp = "handle_poisoned (session w)" and db = "delivered_bytes w @ lost"])
          (use False h in \<open>auto simp: EFail with_pty_def\<close>)
      then show ?thesis by (auto simp: life_inv_def)
    qed (simp add: EFail keep)
  next
    case EReaderGone
    then show ?thesis using keep by (auto intro!: env_inv [OF c])
  next
    case EReaped
    then show ?thesis by (auto intro!: env_inv [OF c])
  next
    case EWriterDone
    then show ?thesis by (auto intro!: env_inv [OF c])
  next
    case ECloserDone
    then show ?thesis by (auto intro!: env_inv [OF c])
  next
    case (EPoison l g hp)
    let ?q = "p\<lparr>log_poisoned := log_poisoned p \<or> l, grid_poisoned := grid_poisoned p \<or> g\<rparr>"
    have "custody (life_pty_act w p e) ?q gs"
      by (rule custody_env [OF c, where hp = "handle_poisoned (session w) \<or> hp" and db = "delivered_bytes w"])
        (use h in \<open>auto simp: EPoison with_pty_def\<close>)
    then show ?thesis by (auto simp: life_inv_def)
  next
    case (EGrid a r f)
    then show ?thesis by (auto intro!: env_inv [OF c])
  next
    case (EResize cols rows changed)
    then show ?thesis using keep resize_inv [OF c] free by (simp add: needs_state_def)
  next
    case (EPump x n)
    obtain t ev refused m where t: "pump_session (env_ser x) (env_view x) (env_id x) (env_limit x) (env_now x) n
        (session w) p = (t, ev, refused, m)" by (metis prod_cases4)
    show ?thesis using keep custody_moves [OF c pump_moves [OF q h ok t]] t
      by (auto simp: EPump life_inv_def)
  next
    case (EAttach x)
    obtain res t where t: "attach_boundary (env_ser x) (env_view x) (env_id x) (env_limit x) (env_now x) (session w)
        = (res, t)" by fastforce
    show ?thesis using keep custody_moves [OF c attach_moves [OF q h ok t]] t
      by (auto simp: EAttach life_inv_def)
  next
    case (ECheckpoint x)
    obtain t tgt ev refused where t: "checkpoint_session (env_ser x) (env_view x) (env_id x) (env_limit x)
        (env_now x) (session w) = (t, tgt, ev, refused)" by (metis prod_cases4)
    note m = checkpoint_moves [OF q h ok t]
    obtain u gs' where u: "custody (w\<lparr>session := t\<rparr>) u gs'" "persist_pending t = encode_frames gs'"
      using custody_moves [OF c] m by blast
    have "custody (w\<lparr>session := t, in_flight_batch := map_option target_pending_bytes tgt\<rparr>) u gs'"
      using u m by (auto simp: custody_def Let_def intro!: exI [of _ "length gs'"])
    then show ?thesis using keep by (auto simp: ECheckpoint t life_inv_def)
  next
    case ETakeBatch
    have "custody (w\<lparr>in_flight_batch := Some (length (persist_pending (session w)))\<rparr>) p gs"
      using c by (auto simp: custody_def Let_def queue_of_def intro!: exI [of _ "length gs"])
    then show ?thesis using keep
      by (auto simp: ETakeBatch incremental_target_of_def life_inv_def split: option.splits)
  next
    case EAck
    then show ?thesis using keep ack_inv [OF c] by (auto split: option.split)
  next
    case EBatchFailed
    have "custody (w\<lparr>in_flight_batch := None\<rparr>) p gs" using c by (simp add: custody_def Let_def)
    then show ?thesis by (auto simp: EBatchFailed life_inv_def)
  next
    case ERetire
    have "mark_retirement (session w) = (session w)\<lparr>retirement_requested := True\<rparr>"
      by (simp add: mark_retirement_def Let_def h)
    then show ?thesis using start_inv [OF c] by (simp add: ERetire Let_def)
  next
    case ECapture
    have "w\<lparr>session := session w, capturing := capture_start (session w)\<rparr> = w\<lparr>capturing := capture_start (session w)\<rparr>"
      by simp
    then show ?thesis using start_inv [OF c, of "session w"] by (simp add: ECapture)
  next
    case (ECaptureStep spawned)
    then show ?thesis using keep capture_step_inv [OF c] by (auto split: option.split prod.split)
  qed
qed

lemma life_act_inv: "life_inv w \<Longrightarrow> life_inv (life_act w e)"
  unfolding life_act_def using life_pty_inv by (auto simp: life_inv_def [of w] custody_handle life_inv_def split: option.split)

interpretation session_life: guarded_machine "life_start sp panel" life_act life_inv for sp panel
  by unfold_locales (rule life_inv_start, rule life_act_inv)

definition life_run :: "wire_spec \<Rightarrow> uuid option \<Rightarrow> life_event list \<Rightarrow> life" where
  "life_run sp panel es = foldl life_act (life_start sp panel) es"

lemma life_run_inv: "life_inv (life_run sp panel es)"
  unfolding life_run_def by (rule session_life.run_inv)

text \<open>
  C6: Output is conserved. In every state that a session can reach by any interleaving of reads,
  resizes, pumps, attaches, checkpoints, batches, acknowledgements, failures and retirement steps,
  the frames ever retained by the reader are, in order and without duplicates, those acknowledged
  by the durable host, then those in the session's queue, then those still in the terminal's log;
  and unless the reader has failed, the retained output is exactly what the operating system has
  delivered. (The counters have 64 bits: the run is assumed to retain fewer than 2^64 frames.)\<close>
theorem output_is_conserved:
  assumes "length (retained_frames (life_run sp panel es)) < 2 ^ 64"
  shows "\<exists>p. handle (session (life_run sp panel es)) = Some p
    \<and> retained_frames (life_run sp panel es) = acked_frames (life_run sp panel es)
        @ contents (decode_frames (persist_pending (session (life_run sp panel es))))
        @ contents (decode_frames (pending_log p))
    \<and> (reader_state p \<noteq> FAILED \<longrightarrow>
        delivered_bytes (life_run sp panel es) = outputs (retained_frames (life_run sp panel es)))"
proof -
  obtain p gs where c: "custody (life_run sp panel es) p gs"
    using life_run_inv [of sp panel es] unfolding life_inv_def by blast
  then have "decode_frames (persist_pending (session (life_run sp panel es))) = gs"
    using custody_queue [OF c] queue_decode by blast
  then show ?thesis
    using c assms by (auto simp: custody_def Let_def log_of_def)
qed

text \<open>
  C9: A session is destroyed only when its output is durable. Whenever the condition under which
  \<open>kill\<close> removes a session holds, whatever the reader did between the steps of the retirement that led
  there (above all between the sample of the physical boundary and the last transfer), the reader has
  stopped at the physical end of file, the child has been reaped, and every byte the operating system
  ever delivered is in the frames that the durable host has acknowledged, in order.\<close>
theorem killed_session_is_durable:
  assumes "length (retained_frames (life_run sp panel es)) < 2 ^ 64"
    and "retirement_complete (session (life_run sp panel es))"
  shows "delivered_bytes (life_run sp panel es) = outputs (acked_frames (life_run sp panel es))
    \<and> (\<exists>p. handle (session (life_run sp panel es)) = Some p \<and> reader_state p = EOF \<and> reader_finished p
        \<and> process_reaped p \<and> pending_log p = [])"
proof -
  obtain p gs where c: "custody (life_run sp panel es) p gs"
    using life_run_inv [of sp panel es] unfolding life_inv_def by blast
  have h: "handle (session (life_run sp panel es)) = Some p" by (rule custody_handle [OF c])
  have "retirement_final_captured (session (life_run sp panel es))"
      "persist_pending (session (life_run sp panel es)) = []"
    using assms(2) h by (auto simp: retirement_complete_def)
  then show ?thesis
    using c assms(1) h log_frames [of p] by (auto simp: custody_def Let_def captured_all_def)
qed

section \<open>A concrete life\<close>

text \<open>
  One byte is read, the session is killed, the byte becomes durable; while the next capture is under way,
  the terminal comes to its end between the sample and the transfer, and a third capture finds it there.
\<close>

definition demo_life :: "life_event list" where
  "demo_life = [EAdmit, EDeliver [65], ERetire, ECaptureStep True, ECaptureStep True, ETakeBatch, EAck,
     ECapture, ECaptureStep True, ECaptureStep True, ECaptureStep True, EAdmit, EEof, EReaderGone, EReaped,
     EWriterDone, ECloserDone, ECaptureStep True,
     ECapture, ECaptureStep True, ECaptureStep True, ECaptureStep True, ECaptureStep True]"

definition one_frame :: frame where
  "one_frame = \<lparr>frame_seq = 1, frame_kind = Output, frame_payload = [65]\<rparr>"
lemma demo_read: "read_frames_with_valid_len (encode_header 0 @ encode_frame 1 Output [65])
  = Some (0, [one_frame], length (encode_header 0 @ encode_frame 1 Output [65]))"
  using read_log [of "[one_frame]" 0]
  by (simp add: one_frame_def encode_log_def enc_def)
lemma demo_len: "length (encode_frame s k pl) = 13 + length pl"
  by (simp add: encode_frame_def u64c.enc_width u32c.enc_width)
lemma demo_ne: "encode_frame s k pl \<noteq> []"
  by (simp add: encode_frame_def)
lemma demo_empty: "read_frames_with_valid_len (encode_header 0) = Some (0, [], length (encode_header 0))"
  using read_log [of "[]" 0] by (simp add: encode_log_def)
lemma demo_decode: "decode_frames (encode_frame 1 Output [65]) = [one_frame]"
  using decode_encoded [of "[one_frame]"] by (simp add: one_frame_def enc_def)

lemmas demo_steps = life_run_def life_start_def spawned_session_def fresh_pty_def life_act_def new_session_def
  mark_retirement_def capture_start_def capture_step_def needs_state_def with_pty_def reader_active_def deliver_def retain_raw_read_def
  next_log_sequence_def checked_inc_def READ_BUFFER_def capture_prefix_def take_retirement_prefix_def 
  retirement_pending_snapshot_def claim_retirement_log_owner_def Let_def transfer_retirement_frames_def
  begin_retirement_drain_def capture_drain_def capture_tail_def quiescent_def draining_def resume_drain_def
  read_frames_def set_daemon_durable_pressure_def retirement_physical_complete_def take_retirement_tail_def
  incremental_target_of_def acknowledge_persisted_def set_handle_pressure_def retirement_complete_def
  default_spec_def demo_read demo_len demo_ne demo_decode demo_empty

lemma demo_result:
  "retained_frames (life_run default_spec (Some 7) demo_life) = [(Output, [65])]"
  "retirement_complete (session (life_run default_spec (Some 7) demo_life))"
  by (simp_all add: demo_life_def demo_steps one_frame_def contents_def content_def)

theorem output_is_conserved_witness:
  "\<exists>p. handle (session (life_run default_spec (Some 7) demo_life)) = Some p
    \<and> [(Output, [65])] = acked_frames (life_run default_spec (Some 7) demo_life)
        @ contents (decode_frames (persist_pending (session (life_run default_spec (Some 7) demo_life))))
        @ contents (decode_frames (pending_log p))"
  using output_is_conserved [of default_spec "Some 7" demo_life] by (auto simp: demo_result)

theorem killed_session_is_durable_witness:
  "delivered_bytes (life_run default_spec (Some 7) demo_life)
    = outputs (acked_frames (life_run default_spec (Some 7) demo_life))"
  using killed_session_is_durable [of default_spec "Some 7" demo_life] by (simp add: demo_result)

end
