(* ===== verification/DaemonServer.thy ===== *)
theory DaemonServer
  imports DaemonSession HookAuthority
begin

text \<open>
  The registry of the PTY daemon (\<open>src/src/daemon/server.rs\<close>): sessions, the ledger of births, the
  clients and their claims, the subscribers and their bounded queues, and the handler of every
  request of the protocol. A \<open>HashMap\<close> is an association list with distinct keys, a \<open>HashSet\<close> a
  list without repetition. The SQLite ledger answers through \<open>hook_ledger\<close>; the shell factory, the
  history loader, the clock, fresh identifiers and the emulator are fields of \<open>server_env\<close>.
  Channels and sockets are the part of the state that the writer threads see.
\<close>

section \<open>State\<close>

definition ADOPTION_TIMEOUT :: nat where
  "ADOPTION_TIMEOUT = 120000"

definition SUBSCRIBER_QUEUE_CAPACITY :: nat where
  "SUBSCRIBER_QUEUE_CAPACITY = 64"

definition INTERACTIVE_BYTE_BUDGET :: nat where
  "INTERACTIVE_BYTE_BUDGET = 32 * 1024"

definition MAX_BIRTH_IDENTITIES :: nat where
  "MAX_BIRTH_IDENTITIES = 8192"

text \<open>The two questions to the ledger; \<open>None\<close> also stands for a failed query.\<close>

record hook_ledger =
  hook_close_claim :: "uuid \<Rightarrow> uuid option \<Rightarrow> claim option"
  hook_birth_consumed :: "claim \<Rightarrow> bool option"

record subscriber =
  sub_connection :: uuid
  sub_session :: uuid
  sub_socket :: bool

record channel =
  queued :: "response list"
  receiver_alive :: bool

record daemon_state =
  sessions :: "(uuid \<times> daemon_session) list"
  hook_store :: "hook_ledger option"
  session_claimants :: "(uuid \<times> uuid list) list"
  birth_tombstones :: "(uuid \<times> uuid) list"
  client_connections :: "(uuid \<times> nat) list"
  clients :: nat
  idle_since :: "nat option"
  subscribers :: "subscriber list"
  priority_session :: "uuid option"
  line_limit_override :: "nat option"
  scheduler_priority :: "uuid option"
  scheduler_poisoned :: bool
  channels :: "(uuid \<times> channel) list"
  closed_sockets :: "uuid list"
  pty_input :: "(uuid \<times> bytes) list"
  started :: "uuid list"

text \<open>
  What the surroundings answer to one call. \<open>env_fresh\<close> is the identifier with which the loop over
  \<open>Uuid::new_v4\<close> ends; \<open>env_closer\<close> says whether the thread that closes the terminal starts and what the readers do
  in the middle of a retirement;
  \<open>env_scheduler\<close> whether a scheduler was passed.
\<close>

record 'h server_env =
  env_serializer :: "response serializer"
  env_screen :: "uuid \<Rightarrow> pty_view"
  env_clock :: nat
  env_closer :: retirement_env
  env_resized :: bool
  env_fresh :: uuid
  env_history_dir :: bool
  env_load :: "uuid \<Rightarrow> uuid option \<Rightarrow> bytes + 'h"
  env_spawn :: "uuid \<Rightarrow> wire_spec \<Rightarrow> 'h option \<Rightarrow> bytes + pty"
  env_scheduler :: bool
  env_show :: "uuid \<Rightarrow> bytes"
  env_details :: "uuid \<times> snapshot_failure_kind \<Rightarrow> bytes"

definition snapshot_line_limit :: "daemon_state \<Rightarrow> nat" where
  "snapshot_line_limit st = (case line_limit_override st of Some n \<Rightarrow> n | None \<Rightarrow> MAX_PROTOCOL_LINE_BYTES)"

definition new_state :: "nat \<Rightarrow> daemon_state" where
  "new_state now = \<lparr>sessions = [], hook_store = None, session_claimants = [], birth_tombstones = [],
     client_connections = [], clients = 0, idle_since = Some now, subscribers = [],
     priority_session = None, line_limit_override = None, scheduler_priority = None,
     scheduler_poisoned = False, channels = [], closed_sockets = [], pty_input = [], started = []\<rparr>"

definition session_of :: "daemon_state \<Rightarrow> uuid \<Rightarrow> daemon_session option" where
  "session_of st sid = map_of (sessions st) sid"

text \<open>The session borrowed mutably is written back under its key.\<close>

definition put_session :: "uuid \<Rightarrow> daemon_session \<Rightarrow> daemon_state \<Rightarrow> daemon_state" where
  "put_session sid s st = st\<lparr>sessions := al_modify sid (\<lambda>_. s) (sessions st)\<rparr>"

definition insert_session :: "uuid \<Rightarrow> wire_spec \<Rightarrow> daemon_state \<Rightarrow> daemon_state" where
  "insert_session sid sp st = st\<lparr>sessions := AList.update sid (new_session sp) (sessions st)\<rparr>"

definition session_ids :: "daemon_state \<Rightarrow> uuid list" where
  "session_ids st = sort (map fst (sessions st))"

text \<open>\<open>ids.swap(0, pos)\<close> where \<open>pos\<close> is the position of the priority.\<close>

fun position :: "'a \<Rightarrow> 'a list \<Rightarrow> nat option" where
  "position x [] = None"
| "position x (y # ys) = (if y = x then Some 0 else map_option Suc (position x ys))"

definition swap_positions :: "'a list \<Rightarrow> nat \<Rightarrow> nat \<Rightarrow> 'a list" where
  "swap_positions xs i j = xs[i := xs ! j, j := xs ! i]"

definition pump_order :: "(uuid \<times> daemon_session) list \<Rightarrow> uuid option \<Rightarrow> uuid list" where
  "pump_order ss priority =
    (let ids = sort (map fst ss) in
     case priority of
       None \<Rightarrow> ids
     | Some p \<Rightarrow> (case position p ids of None \<Rightarrow> ids | Some pos \<Rightarrow> swap_positions ids 0 pos))"

section \<open>Subscribers\<close>

fun event_session_id :: "response \<Rightarrow> uuid option" where
  "event_session_id (OutputEvent sid n d) = Some sid"
| "event_session_id (ExitEvent sid) = Some sid"
| "event_session_id (InputError sid m) = Some sid"
| "event_session_id _ = None"

datatype send_result = Sent | Full | Disconnected

definition channel_of :: "(uuid \<times> channel) list \<Rightarrow> uuid \<Rightarrow> channel" where
  "channel_of chs c = (case map_of chs c of Some ch \<Rightarrow> ch | None \<Rightarrow> \<lparr>queued = [], receiver_alive = False\<rparr>)"

definition try_send :: "channel \<Rightarrow> response \<Rightarrow> send_result \<times> channel" where
  "try_send ch e =
    (if \<not> receiver_alive ch then (Disconnected, ch)
     else if SUBSCRIBER_QUEUE_CAPACITY \<le> length (queued ch) then (Full, ch)
     else (Sent, ch\<lparr>queued := queued ch @ [e]\<rparr>))"

definition subscribe :: "uuid \<Rightarrow> uuid \<Rightarrow> bool \<Rightarrow> daemon_state \<Rightarrow> daemon_state" where
  "subscribe conn sid socket st = st\<lparr>subscribers :=
     filter (\<lambda>s. sub_connection s \<noteq> conn) (subscribers st)
       @ [\<lparr>sub_connection = conn, sub_session = sid, sub_socket = socket\<rparr>]\<rparr>"

definition unsubscribe :: "uuid \<Rightarrow> daemon_state \<Rightarrow> daemon_state" where
  "unsubscribe conn st = st\<lparr>subscribers := filter (\<lambda>s. sub_connection s \<noteq> conn) (subscribers st)\<rparr>"

definition disconnect_session_subscribers :: "uuid \<Rightarrow> daemon_state \<Rightarrow> daemon_state" where
  "disconnect_session_subscribers sid st =
    st\<lparr>subscribers := filter (\<lambda>s. sub_session s \<noteq> sid) (subscribers st),
       closed_sockets := closed_sockets st
         @ map sub_connection (filter (\<lambda>s. sub_session s = sid \<and> sub_socket s) (subscribers st))\<rparr>"

text \<open>The inner \<open>all\<close> of \<open>broadcast\<close>: it stops at the first event that cannot be queued.\<close>

fun offer_events :: "uuid \<Rightarrow> response list \<Rightarrow> channel \<Rightarrow> send_result \<times> channel" where
  "offer_events sid [] ch = (Sent, ch)"
| "offer_events sid (e # es) ch =
    (if event_session_id e \<noteq> None \<and> event_session_id e \<noteq> Some sid then offer_events sid es ch
     else case try_send ch e of
       (Sent, ch') \<Rightarrow> offer_events sid es ch'
     | (r, ch') \<Rightarrow> (r, ch'))"

fun retain_subscribers :: "response list \<Rightarrow> subscriber list \<Rightarrow> (uuid \<times> channel) list
    \<Rightarrow> subscriber list \<times> (uuid \<times> channel) list \<times> uuid list" where
  "retain_subscribers events [] chs = ([], chs, [])"
| "retain_subscribers events (s # ss) chs =
    (case offer_events (sub_session s) events (channel_of chs (sub_connection s)) of
       (r, ch) \<Rightarrow> (case retain_subscribers events ss (al_modify (sub_connection s) (\<lambda>_. ch) chs) of
         (kept, chs', shut) \<Rightarrow> (if r = Sent then s # kept else kept, chs',
            if r = Full \<and> sub_socket s then sub_connection s # shut else shut)))"

definition broadcast :: "response list \<Rightarrow> daemon_state \<Rightarrow> daemon_state" where
  "broadcast events st = (case retain_subscribers events (subscribers st) (channels st) of
     (kept, chs, shut) \<Rightarrow> st\<lparr>subscribers := kept, channels := chs, closed_sockets := closed_sockets st @ shut\<rparr>)"

section \<open>Closing\<close>

definition host_unknown_close_fence :: "hook_ledger option \<Rightarrow> uuid \<Rightarrow> uuid \<Rightarrow> claim option" where
  "host_unknown_close_fence store runtime owner =
     Option.bind store (\<lambda>l. hook_close_claim l runtime (Some owner))"

definition host_close_fenced :: "hook_ledger option \<Rightarrow> uuid \<Rightarrow> daemon_session \<Rightarrow> uuid option \<Rightarrow> bool" where
  "host_close_fenced store runtime s owner =
    (case host_target_from_spec (spec s) of
       None \<Rightarrow> True
     | Some target \<Rightarrow>
        (case Option.bind store (\<lambda>l. hook_close_claim l runtime owner) of
           None \<Rightarrow> False
         | Some c \<Rightarrow> claim_generation c = hook_generation (spec s)
             \<and> key_workspace (claim_key c) = wire_workspace_id target
             \<and> key_panel (claim_key c) = wire_panel_id target
             \<and> key_leaf (claim_key c) = wire_leaf_id target))"

definition managed :: "daemon_session \<Rightarrow> bool" where
  "managed s \<longleftrightarrow> host_target_from_spec (spec s) \<noteq> None"

text \<open>The removal of a session whose retirement is complete.\<close>

definition remove_session :: "uuid \<Rightarrow> daemon_session \<Rightarrow> daemon_state \<Rightarrow> daemon_state" where
  "remove_session sid s st =
    (let st1 = st\<lparr>sessions := AList.delete sid (sessions st)\<rparr>;
         st2 = (case birth_client s of
             Some creator \<Rightarrow> st1\<lparr>birth_tombstones := AList.update sid creator (birth_tombstones st1)\<rparr>
           | None \<Rightarrow> st1);
         st3 = disconnect_session_subscribers sid (broadcast [ExitEvent sid] st2);
         st4 = st3\<lparr>session_claimants := AList.delete sid (session_claimants st3)\<rparr>
     in if priority_session st4 = Some sid then st4\<lparr>priority_session := None\<rparr> else st4)"

definition kill :: "retirement_env \<Rightarrow> uuid \<Rightarrow> daemon_state \<Rightarrow> bool \<times> daemon_state" where
  "kill closer sid st =
    (case session_of st sid of
       None \<Rightarrow> (False, st)
     | Some s \<Rightarrow>
        if managed s \<and> \<not> host_close_fenced (hook_store st) sid s None then (False, st)
        else let s' = request_retirement closer s; st1 = put_session sid s' st in
          if \<not> retirement_complete s' then (False, st1) else (True, remove_session sid s' st1))"

fun kill_all :: "retirement_env \<Rightarrow> uuid list \<Rightarrow> daemon_state \<Rightarrow> uuid list \<times> daemon_state" where
  "kill_all closer [] st = ([], st)"
| "kill_all closer (i # is) st =
    (case kill closer i st of (b, st1) \<Rightarrow>
      (case kill_all closer is st1 of (ks, st2) \<Rightarrow> (if b then i # ks else ks, st2)))"

definition finish_acknowledged_retirements :: "retirement_env \<Rightarrow> daemon_state \<Rightarrow> daemon_state" where
  "finish_acknowledged_retirements closer st =
     snd (kill_all closer (map fst (filter (\<lambda>(i, s). retirement_requested s) (sessions st))) st)"

section \<open>Claims\<close>

definition claim_session :: "uuid \<Rightarrow> uuid \<Rightarrow> (uuid \<times> uuid list) list \<Rightarrow> (uuid \<times> uuid list) list" where
  "claim_session sid client cl =
     AList.update sid (List.insert client (case map_of cl sid of Some cs \<Rightarrow> cs | None \<Rightarrow> [])) cl"

definition may_adopt_live :: "daemon_state \<Rightarrow> uuid \<Rightarrow> uuid \<Rightarrow> bool" where
  "may_adopt_live st client sid = (case session_of st sid of
      None \<Rightarrow> False
    | Some s \<Rightarrow> birth_client s = None \<or> client_may_close s client)"

definition reclaim :: "uuid \<Rightarrow> uuid list \<Rightarrow> daemon_state \<Rightarrow> (uuid \<times> uuid list) list" where
  "reclaim client live st =
    foldl (\<lambda>cl i. if may_adopt_live st client i then claim_session i client cl else cl)
      (map (\<lambda>(i, cs). (i, if i \<in> set live then cs else removeAll client cs)) (session_claimants st)) live"

definition claimed_by_connected :: "daemon_state \<Rightarrow> uuid \<Rightarrow> bool" where
  "claimed_by_connected st sid = (case map_of (session_claimants st) sid of
      None \<Rightarrow> False
    | Some cs \<Rightarrow> list_ex (\<lambda>c. map_of (client_connections st) c \<noteq> None) cs)"

definition orphan :: "daemon_state \<Rightarrow> uuid \<Rightarrow> uuid list \<Rightarrow> uuid \<Rightarrow> bool" where
  "orphan st client live sid \<longleftrightarrow> sid \<notin> set live
     \<and> \<not> (case session_of st sid of None \<Rightarrow> False
           | Some s \<Rightarrow> birth_client s \<noteq> None \<and> \<not> client_may_close s client)
     \<and> \<not> claimed_by_connected st sid"

definition reconcile_live :: "retirement_env \<Rightarrow> uuid \<Rightarrow> uuid list \<Rightarrow> daemon_state \<Rightarrow> uuid list \<times> daemon_state" where
  "reconcile_live closer client live st =
    (let st1 = st\<lparr>session_claimants := reclaim client live st\<rparr>;
         orphans = filter (orphan st1 client live) (map fst (sessions st1));
         (killed, st2) = kill_all closer orphans st1
     in (sort killed, st2))"

section \<open>Connections\<close>

definition client_connected :: "uuid \<Rightarrow> daemon_state \<Rightarrow> daemon_state" where
  "client_connected client st = st\<lparr>clients := min (clients st + 1) USIZE_TOP,
     client_connections := AList.update client
       (min ((case map_of (client_connections st) client of Some n \<Rightarrow> n | None \<Rightarrow> 0) + 1) USIZE_TOP)
       (client_connections st),
     idle_since := None\<rparr>"

definition client_disconnected :: "uuid \<Rightarrow> nat \<Rightarrow> daemon_state \<Rightarrow> daemon_state" where
  "client_disconnected client now st =
    (let st1 = st\<lparr>clients := clients st - 1\<rparr>;
         st2 = (case map_of (client_connections st1) client of
             None \<Rightarrow> st1
           | Some n \<Rightarrow> if n - 1 = 0 then st1\<lparr>client_connections := AList.delete client (client_connections st1)\<rparr>
               else st1\<lparr>client_connections := al_modify client (\<lambda>_. n - 1) (client_connections st1)\<rparr>)
     in if clients st2 = 0 then st2\<lparr>idle_since := Some now\<rparr> else st2)"

definition should_shutdown :: "nat \<Rightarrow> daemon_state \<Rightarrow> bool" where
  "should_shutdown now st =
    (if 0 < clients st \<or> sessions st \<noteq> [] then False
     else case idle_since st of Some since \<Rightarrow> ADOPTION_TIMEOUT \<le> now - since | None \<Rightarrow> False)"

definition should_shutdown_with_request :: "nat \<Rightarrow> bool \<Rightarrow> daemon_state \<Rightarrow> bool" where
  "should_shutdown_with_request now requested st \<longleftrightarrow> (requested \<and> sessions st = []) \<or> should_shutdown now st"

section \<open>Sessions with a terminal\<close>

text \<open>The two bytes of the letter o with an acute accent, and the message about an unknown session.\<close>

definition o_acute :: bytes where
  "o_acute = [0xC3, 0xB3]"

definition unknown_session :: "'h server_env \<Rightarrow> uuid \<Rightarrow> response" where
  "unknown_session e sid =
     ErrorResponse (bytes_of ''sesi'' @ o_acute @ bytes_of ''n desconocida: '' @ env_show e sid)"

definition history_panel_of :: "'h server_env \<Rightarrow> uuid \<Rightarrow> wire_spec \<Rightarrow> uuid option" where
  "history_panel_of e sid sp = (case spec_panel_id sp of
      Some p \<Rightarrow> Some p
    | None \<Rightarrow> if env_history_dir e then Some sid else None)"

definition load_history :: "'h server_env \<Rightarrow> uuid \<Rightarrow> wire_spec \<Rightarrow> bytes + 'h option" where
  "load_history e sid sp = (case history_panel_of e sid sp of
      None \<Rightarrow> Inr None
    | Some panel \<Rightarrow>
        if \<not> env_history_dir e then Inl (bytes_of ''falta el directorio de historial'')
        else and_then (env_load e panel (spec_leaf_id sp)) (\<lambda>h. Inr (Some h)))"

definition startup_input :: "wire_spec \<Rightarrow> bytes list" where
  "startup_input sp = (case startup_command sp of
      None \<Rightarrow> []
    | Some c \<Rightarrow> if trim c = [] then [] else [trim c @ [LF]])"

definition register_session :: "'h server_env \<Rightarrow> uuid \<Rightarrow> wire_spec \<Rightarrow> pty \<Rightarrow> daemon_state \<Rightarrow> daemon_state" where
  "register_session e sid sp p st =
    st\<lparr>pty_input := pty_input st @ map (Pair sid) (startup_input sp),
       started := started st @ [sid],
       sessions := AList.update sid ((new_session sp)\<lparr>history_panel := history_panel_of e sid sp,
          handle := Some (set_daemon_durable_pressure p 0)\<rparr>) (sessions st)\<rparr>"

definition spawn_with_pty :: "'h server_env \<Rightarrow> wire_spec \<Rightarrow> uuid option \<Rightarrow> daemon_state
    \<Rightarrow> (bytes + uuid) \<times> daemon_state" where
  "spawn_with_pty e sp desired st =
    (case (case desired of
             Some i \<Rightarrow> if session_of st i \<noteq> None
               then Inl (bytes_of ''el UUID solicitado ya pertenece a otra sesi'' @ o_acute @ bytes_of ''n: '' @ env_show e i)
               else Inr i
           | None \<Rightarrow> Inr (env_fresh e)) of
       Inl m \<Rightarrow> (Inl m, st)
     | Inr sid \<Rightarrow>
        (case and_then (load_history e sid sp) (env_spawn e sid sp) of
           Inl m \<Rightarrow> (Inl m, st)
         | Inr p \<Rightarrow> (Inr sid, register_session e sid sp p st)))"

definition write_to :: "uuid \<Rightarrow> bytes \<Rightarrow> daemon_state \<Rightarrow> bool \<times> daemon_state" where
  "write_to sid data st = (case session_of st sid of
      None \<Rightarrow> (False, st)
    | Some s \<Rightarrow> if retirement_requested s then (False, st)
        else (True, if handle s \<noteq> None \<and> \<not> handle_poisoned s
                    then st\<lparr>pty_input := pty_input st @ [(sid, data)]\<rparr> else st))"

definition resize_in_registry :: "bool \<Rightarrow> uuid \<Rightarrow> u16 \<Rightarrow> u16 \<Rightarrow> daemon_state \<Rightarrow> bool \<times> daemon_state" where
  "resize_in_registry changed sid cols rows st = (case session_of st sid of
      None \<Rightarrow> (False, st)
    | Some s \<Rightarrow> if retirement_requested s then (False, st)
        else (True, put_session sid (resize_session s cols rows changed) st))"

section \<open>The pump over all sessions\<close>

fun pump_loop :: "'h server_env \<Rightarrow> uuid list \<Rightarrow> nat \<Rightarrow> daemon_state
    \<Rightarrow> response list \<times> uuid list \<times> daemon_state" where
  "pump_loop e [] budget st = ([], [], st)"
| "pump_loop e (i # is) budget st =
    (case session_of st i of
       None \<Rightarrow> pump_loop e is budget st
     | Some s \<Rightarrow>
      (case handle s of
         None \<Rightarrow> pump_loop e is budget st
       | Some p \<Rightarrow>
          if retirement_requested s
          then pump_loop e is budget (put_session i (capture_retirement (env_closer e) s) st)
          else let is_priority = (priority_session st = Some i);
                   (s', events, refuse, drained) = pump_session (env_serializer e) (env_screen e i) i
                      (snapshot_line_limit st) (env_clock e) (if is_priority then budget else 0) s p;
                   (more_events, refused, st') = pump_loop e is
                      (if is_priority then budget - drained else budget) (put_session i s' st)
               in (events @ more_events, if refuse then i # refused else refused, st')))"

definition disconnect_all :: "uuid list \<Rightarrow> daemon_state \<Rightarrow> daemon_state" where
  "disconnect_all is st = foldl (\<lambda>t i. disconnect_session_subscribers i t) st is"

definition pump_output :: "'h server_env \<Rightarrow> daemon_state \<Rightarrow> response list \<times> daemon_state" where
  "pump_output e st =
    (case pump_loop e (pump_order (sessions st) (priority_session st))
            (if priority_session st \<noteq> None then INTERACTIVE_BYTE_BUDGET else 0) st of
       (events, refused, st') \<Rightarrow> (events, disconnect_all refused st'))"

fun checkpoint_loop :: "'h server_env \<Rightarrow> uuid list \<Rightarrow> daemon_state
    \<Rightarrow> scrollback_target list \<times> response list \<times> uuid list \<times> daemon_state" where
  "checkpoint_loop e [] st = ([], [], [], st)"
| "checkpoint_loop e (i # is) st =
    (case session_of st i of
       None \<Rightarrow> checkpoint_loop e is st
     | Some s \<Rightarrow>
        (let (s', target, events, refuse) = checkpoint_session (env_serializer e) (env_screen e i) i
               (snapshot_line_limit st) (env_clock e) s;
             (targets, more_events, refused, st') = checkpoint_loop e is (put_session i s' st)
         in ((case target of Some t \<Rightarrow> t # targets | None \<Rightarrow> targets), events @ more_events,
             if refuse then i # refused else refused, st')))"

definition take_dirty_scrollback_targets :: "'h server_env \<Rightarrow> daemon_state \<Rightarrow> scrollback_target list \<times> daemon_state" where
  "take_dirty_scrollback_targets e st =
    (case checkpoint_loop e (map fst (sessions st)) st of
       (targets, events, refused, st') \<Rightarrow> (targets, broadcast events (disconnect_all refused st')))"

definition incremental_scrollback_targets :: "daemon_state \<Rightarrow> incremental_target list" where
  "incremental_scrollback_targets st =
     List.map_filter (\<lambda>(i, s). incremental_target_of i s) (sessions st)"

section \<open>Requests\<close>

text \<open>The end of a birth: the creator is recorded and holds the first claim.\<close>

definition record_birth :: "uuid \<Rightarrow> uuid \<Rightarrow> daemon_state \<Rightarrow> daemon_state" where
  "record_birth client sid st =
    (let st1 = st\<lparr>sessions := al_modify sid (\<lambda>s. s\<lparr>birth_client := Some client\<rparr>) (sessions st)\<rparr>
     in st1\<lparr>session_claimants := claim_session sid client (session_claimants st1)\<rparr>)"

definition at_capacity :: "daemon_state \<Rightarrow> bool" where
  "at_capacity st \<longleftrightarrow> MAX_BIRTH_IDENTITIES \<le> length (sessions st) + length (birth_tombstones st)"

definition same_birth :: "uuid \<Rightarrow> wire_spec \<Rightarrow> daemon_session \<Rightarrow> bool" where
  "same_birth client sp s \<longleftrightarrow> birth_client s = Some client \<and> \<not> retirement_requested s
     \<and> hook_generation (spec s) = hook_generation sp
     \<and> host_target_from_spec (spec s) = host_target_from_spec sp"

definition handle_spawn :: "'h server_env \<Rightarrow> uuid \<Rightarrow> wire_spec \<Rightarrow> uuid option \<Rightarrow> daemon_state
    \<Rightarrow> response \<times> daemon_state" where
  "handle_spawn e client wire_sp desired st =
    (let sp = wire_sp\<lparr>hook_owner := Some client\<rparr>;
         rejected = (\<lambda>i. birth_rejected_response (env_show e) i)
     in case desired of
          Some i \<Rightarrow>
            if map_of (birth_tombstones st) i \<noteq> None then (rejected i, st)
            else if at_capacity st \<and> session_of st i = None
            then (ErrorResponse (bytes_of ''La capacidad protegida de nacimientos est'' @ [0xC3, 0xA1] @ bytes_of '' completa.''), st)
            else (case session_of st i of
                Some s \<Rightarrow> (if same_birth client sp s then Spawned i else rejected i, st)
              | None \<Rightarrow>
                if host_target_from_spec sp \<noteq> None \<and> (hook_generation sp = None \<or> hook_store st = None)
                then (rejected i, st)
                else if env_scheduler e then (case spawn_with_pty e sp (Some i) st of
                    (Inl m, st1) \<Rightarrow> (ErrorResponse (bytes_of ''no se pudo crear la sesi'' @ o_acute @ bytes_of ''n del terminal: '' @ m), st1)
                  | (Inr sid, st1) \<Rightarrow> (Spawned sid, record_birth client sid st1))
                else (Spawned i, record_birth client i (insert_session i sp st)))
        | None \<Rightarrow>
            if at_capacity st
            then (ErrorResponse (bytes_of ''La capacidad protegida de nacimientos est'' @ [0xC3, 0xA1] @ bytes_of '' completa.''), st)
            else if host_target_from_spec sp \<noteq> None
            then (ErrorResponse (bytes_of ''managed birth requires a reserved UUID and generation''), st)
            else if env_scheduler e then (case spawn_with_pty e sp None st of
                (Inl m, st1) \<Rightarrow> (ErrorResponse (bytes_of ''no se pudo crear la sesi'' @ o_acute @ bytes_of ''n del terminal: '' @ m), st1)
              | (Inr sid, st1) \<Rightarrow> (Spawned sid, record_birth client sid st1))
            else (Spawned (env_fresh e), record_birth client (env_fresh e) (insert_session (env_fresh e) sp st)))"

definition handle_attach :: "'h server_env \<Rightarrow> uuid \<Rightarrow> uuid \<Rightarrow> daemon_state \<Rightarrow> response \<times> daemon_state" where
  "handle_attach e client sid st =
    (case session_of st sid of
       None \<Rightarrow> (unknown_session e sid, st)
     | Some s \<Rightarrow>
        if retirement_requested s then (close_pending_response (env_show e) sid, st)
        else case attach_boundary (env_serializer e) (env_screen e sid) sid (snapshot_line_limit st)
               (env_clock e) (s\<lparr>adopters := List.insert client (adopters s)\<rparr>) of
          (Inl kind, s') \<Rightarrow> (snapshot_failure_response (env_details e) sid kind,
             disconnect_session_subscribers sid (put_session sid s' st))
        | (Inr (snap, pending), s') \<Rightarrow>
             (attached_response sid s' snap,
              (let st1 = broadcast (map (\<lambda>(n, d). OutputEvent sid n d) pending) (put_session sid s' st)
               in st1\<lparr>session_claimants := claim_session sid client (session_claimants st1)\<rparr>)))"

definition handle_kill :: "'h server_env \<Rightarrow> uuid \<Rightarrow> uuid \<Rightarrow> daemon_state \<Rightarrow> response \<times> daemon_state" where
  "handle_kill e client sid st =
    (case session_of st sid of
       None \<Rightarrow> (unknown_session e sid, st)
     | Some s \<Rightarrow>
        if managed s \<and> \<not> host_close_fenced (hook_store st) sid s (Some client)
        then (birth_rejected_response (env_show e) sid, st)
        else if \<not> client_may_close s client then (birth_rejected_response (env_show e) sid, st)
        else case kill (env_closer e) sid st of
          (True, st1) \<Rightarrow> (Killed sid, st1)
        | (False, st1) \<Rightarrow> (if session_of st1 sid \<noteq> None then close_pending_response (env_show e) sid
            else unknown_session e sid, st1))"

definition handle_close_birth :: "'h server_env \<Rightarrow> uuid \<Rightarrow> uuid \<Rightarrow> daemon_state \<Rightarrow> response \<times> daemon_state" where
  "handle_close_birth e client sid st =
    (case session_of st sid of
       Some s \<Rightarrow>
        if (managed s \<and> \<not> host_close_fenced (hook_store st) sid s (Some client))
          \<or> (\<not> managed s \<and> birth_client s \<noteq> Some client)
        then (birth_rejected_response (env_show e) sid, st)
        else (case kill (env_closer e) sid st of
          (True, st1) \<Rightarrow> (Killed sid, st1)
        | (False, st1) \<Rightarrow> (close_pending_response (env_show e) sid, st1))
     | None \<Rightarrow>
        (case map_of (birth_tombstones st) sid of
           Some creator \<Rightarrow>
             if creator = client \<or> host_unknown_close_fence (hook_store st) sid client \<noteq> None
             then (Killed sid, st) else (birth_rejected_response (env_show e) sid, st)
         | None \<Rightarrow>
             if \<not> at_capacity st then
               (case host_unknown_close_fence (hook_store st) sid client of
                  None \<Rightarrow> (close_pending_response (env_show e) sid, st)
                | Some c \<Rightarrow>
                    if Option.bind (hook_store st) (\<lambda>l. hook_birth_consumed l c) = Some False
                    then (Killed sid, st\<lparr>birth_tombstones := AList.update sid client (birth_tombstones st)\<rparr>)
                    else (close_pending_response (env_show e) sid, st))
             else (close_pending_response (env_show e) sid, st)))"

fun handle_request_for_client :: "'h server_env \<Rightarrow> uuid \<Rightarrow> request \<Rightarrow> daemon_state \<Rightarrow> response \<times> daemon_state" where
  "handle_request_for_client e client (Hello v t c) st = (ErrorResponse (bytes_of ''handshake repetido''), st)"
| "handle_request_for_client e client (Spawn sp desired) st = handle_spawn e client sp desired st"
| "handle_request_for_client e client (Attach sid) st = handle_attach e client sid st"
| "handle_request_for_client e client (Write sid data) st = (case write_to sid data st of
      (True, st1) \<Rightarrow> (Sessions (session_ids st1), st1) | (False, st1) \<Rightarrow> (unknown_session e sid, st1))"
| "handle_request_for_client e client (request.Resize sid cols rows) st =
    (case resize_in_registry (env_resized e) sid cols rows st of
      (True, st1) \<Rightarrow> (Sessions (session_ids st1), st1) | (False, st1) \<Rightarrow> (unknown_session e sid, st1))"
| "handle_request_for_client e client (Kill sid) st = handle_kill e client sid st"
| "handle_request_for_client e client (CloseBirth sid) st = handle_close_birth e client sid st"
| "handle_request_for_client e client (SetPriority p) st =
    (let st1 = st\<lparr>priority_session := p\<rparr>;
         st2 = (if env_scheduler e \<and> \<not> scheduler_poisoned st1 then st1\<lparr>scheduler_priority := p\<rparr> else st1)
     in (Sessions (session_ids st2), st2))"
| "handle_request_for_client e client ListSessions st = (Sessions (session_ids st), st)"
| "handle_request_for_client e client (ReconcileLive ids) st =
    (case reconcile_live (env_closer e) client ids st of (killed, st1) \<Rightarrow> (Reconciled killed, st1))"
| "handle_request_for_client e client ShutdownIfIdle st = (ShuttingDown, st)"

end
