(* ===== verification/DaemonRegistry.thy ===== *)
theory DaemonRegistry
  imports DaemonServer
begin

text \<open>
  What the registry of the daemon guarantees: a UUID names at most one shell for ever, a client
  cannot close what it neither created nor adopted, a repeated birth is answered without a second
  shell, and reconciliation destroys only orphans. The events of the machine are the requests of all
  clients, the pump, the checkpoints, the acknowledgements of the durable host, the connections, the
  answers of the ledger and the changes that terminals make to themselves, in any order.
\<close>

section \<open>What the operations on one session leave alone\<close>

definition owner :: "daemon_session \<Rightarrow> uuid option \<times> uuid list \<times> bool" where
  "owner s = (birth_client s, adopters s, retirement_requested s)"

lemma owner_update [frame_simps]:
  "owner (s\<lparr>handle := h\<rparr>) = owner s" "owner (s\<lparr>was_alternate := b\<rparr>) = owner s"
  "owner (s\<lparr>live_repair := l\<rparr>) = owner s" "owner (s\<lparr>scrollback_dirty := b\<rparr>) = owner s"
  "owner (s\<lparr>alive := b\<rparr>) = owner s" "owner (s\<lparr>last_input_error := i\<rparr>) = owner s"
  "owner (s\<lparr>last_metadata := m\<rparr>) = owner s" "owner (s\<lparr>persist_pending := bs\<rparr>) = owner s"
  "owner (s\<lparr>persist_seq := n\<rparr>) = owner s" "owner (s\<lparr>retirement_captured := b\<rparr>) = owner s"
  "owner (s\<lparr>retirement_draining := b\<rparr>) = owner s" "owner (s\<lparr>retirement_final_captured := b\<rparr>) = owner s"
  "owner (s\<lparr>spec := sp\<rparr>) = owner s" "owner (s\<lparr>snapshot := bs\<rparr>) = owner s" "owner (s\<lparr>seq := n\<rparr>) = owner s"
  "owner (s\<lparr>output_ready := b\<rparr>) = owner s" "owner (refuse_live_snapshot s k now) = owner s"
  by (simp_all add: owner_def refuse_live_snapshot_def)

lemma owner_pressure [frame_simps]: "owner (set_handle_pressure s) = owner s"
  by (simp add: set_handle_pressure_def owner_def)

lemma owner_push [frame_simps]: "owner (fst (push_output_event s d)) = owner s"
  by (simp add: push_output_event_def Let_def owner_def)

lemma owner_push_case: "push_output_event s d = (t, n) \<Longrightarrow> owner t = owner s"
  using owner_push [of s d] by simp

lemma owner_record [frame_simps]: "owner (record_persist_frame s k d) = owner s"
  by (simp add: record_persist_frame_def frame_simps Let_def split: option.split)

lemma owner_chunks: "owner (fst (ingest_chunks cs (s, ev, out))) = owner s"
  by (induction cs "(s, ev, out)" arbitrary: s ev out rule: ingest_chunks.induct)
    (auto simp: frame_simps Let_def split: prod.splits dest: owner_push_case)

lemma owner_frames: "ingest_frames fs (s, ev, out) = (t, ev', out') \<Longrightarrow> owner t = owner s"
proof (induction fs arbitrary: s ev out)
  case Nil
  then show ?case by simp
next
  case (Cons f fs)
  let ?s = "record_persist_frame s (frame_kind f) (frame_payload f)"
  show ?case
  proof (cases "frame_kind f = Output")
    case True
    let ?cs = "chunks RAW_OUTPUT_CHUNK_BYTES (frame_payload f)"
    obtain a b c where r: "ingest_chunks ?cs (?s, ev, out) = (a, b, c)" by (metis prod_cases3)
    have "owner a = owner s" using owner_chunks [of ?cs ?s ev out] by (simp add: r frame_simps)
    then show ?thesis using Cons.prems Cons.IH [of a b c] True r by (simp add: Let_def)
  next
    case False
    then show ?thesis using Cons.prems Cons.IH [of ?s ev out] by (simp add: Let_def frame_simps)
  qed
qed

lemma owner_ingest: "ingest_pty_frames v s fs = (t, ev) \<Longrightarrow> owner t = owner s"
  by (auto simp: ingest_pty_frames_def Let_def frame_simps split: prod.splits if_splits
      dest!: owner_frames owner_push_case)

lemma owner_restore: "restore_events b snap (s, out) = (t, ev) \<Longrightarrow> owner t = owner s"
  by (auto simp: restore_events_def Let_def split: prod.splits if_splits dest!: owner_push_case)

lemma owner_restore_pair: "restore_events b snap (ingest_pty_frames v s fs) = (t, ev) \<Longrightarrow> owner t = owner s"
  by (cases "ingest_pty_frames v s fs") (metis owner_restore owner_ingest)

lemma owner_metadata: "push_metadata sid cs s = (t, ev) \<Longrightarrow> owner t = owner s"
  by (induction cs arbitrary: s t ev) (auto simp: Let_def split: prod.splits dest!: owner_push_case)

lemma owner_reports:
  "report_input_error sid v s = (t, ev) \<Longrightarrow> owner t = owner s"
  "report_metadata sid v s = (t, ev) \<Longrightarrow> owner t = owner s"
  by (auto simp: report_input_error_def report_metadata_def Let_def frame_simps
      split: option.splits if_splits dest!: owner_metadata)

lemmas owner_dests = owner_restore_pair owner_ingest owner_restore owner_reports

lemma owner_attach:
  assumes "attach_boundary ser v sid limit now s = (r, t)"
  shows "owner t = owner s"
  using assms unfolding attach_boundary_def
  by (auto simp: Let_def frame_simps split: if_splits option.splits sum.splits prod.splits dest!: owner_dests)

lemma owner_checkpoint:
  assumes "checkpoint_session ser v sid limit now s = (t, tgt, ev, refuse)"
  shows "owner t = owner s"
  using assms unfolding checkpoint_session_def
  by (auto simp: Let_def frame_simps split: if_splits option.splits sum.splits prod.splits dest!: owner_dests)

lemma owner_pump:
  assumes "pump_session ser v sid limit now n s p = (t, ev, refuse, drained)"
  shows "owner t = owner s"
  using assms unfolding pump_session_def
  by (auto simp: Let_def frame_simps split: if_splits option.splits sum.splits prod.splits dest!: owner_dests)

lemma owner_capture_steps:
  "capture_prefix s p = (b, t, q) \<Longrightarrow> owner t = owner s"
  "capture_drain closer s p = (b, t, q) \<Longrightarrow> owner t = owner s"
  "capture_tail complete s p = (t, q) \<Longrightarrow> owner t = owner s"
  by (auto simp: capture_prefix_def capture_drain_def capture_tail_def Let_def frame_simps
      split: prod.splits if_splits sum.splits)

lemma owner_capture_step: "capture_step closer c s = (d, t) \<Longrightarrow> owner t = owner s"
  by (cases c) (auto simp: capture_step_def frame_simps split: option.splits prod.splits
      dest: owner_capture_steps)

lemma owner_capture_from: "owner (capture_from r c s) = owner s"
proof (induction r c s rule: capture_from.induct)
  case (1 r c s)
  obtain d t where st: "capture_step (closer_starts r) c (s\<lparr>handle := map_option (reader_meanwhile r c) (handle s)\<rparr>) = (d, t)"
    by fastforce
  have "owner t = owner s" using owner_capture_step [OF st] by (simp add: frame_simps)
  then show ?case using 1 [OF st [symmetric]] st by (subst capture_from.simps) (simp split: option.split)
qed

lemma owner_capture [frame_simps]: "owner (capture_retirement closer s) = owner s"
  by (simp add: capture_retirement_def owner_capture_from split: option.split)

lemma owner_resize [frame_simps]: "owner (resize_session s cols rows changed) = owner s"
  by (simp add: resize_session_def Let_def frame_simps)

section \<open>What the operations on the registry leave alone\<close>

text \<open>
  \<open>quiet A\<close>: same sessions, same births, same ledger; outside \<open>A\<close> the sessions also have the same
  adopters and are retired or not as before.
\<close>

definition quiet :: "uuid set \<Rightarrow> daemon_state \<Rightarrow> daemon_state \<Rightarrow> bool" where
  "quiet A st st' \<longleftrightarrow> map fst (sessions st') = map fst (sessions st)
     \<and> birth_tombstones st' = birth_tombstones st \<and> started st' = started st \<and> hook_store st' = hook_store st
     \<and> (\<forall>k. map_option birth_client (session_of st' k) = map_option birth_client (session_of st k))
     \<and> (\<forall>k. k \<notin> A \<longrightarrow> map_option owner (session_of st' k) = map_option owner (session_of st k))"

lemma quiet_refl [simp, intro]: "quiet A st st"
  by (simp add: quiet_def)

lemma quiet_trans: "quiet A st t \<Longrightarrow> quiet A t u \<Longrightarrow> quiet A st u"
  by (simp add: quiet_def)

lemma quiet_mono: "quiet A st t \<Longrightarrow> A \<subseteq> B \<Longrightarrow> quiet B st t"
  by (auto simp: quiet_def)

lemma quiet_same:
  "sessions t = sessions st \<Longrightarrow> birth_tombstones t = birth_tombstones st \<Longrightarrow> started t = started st
    \<Longrightarrow> hook_store t = hook_store st \<Longrightarrow> quiet A st t"
  by (simp add: quiet_def session_of_def)

lemma session_of_put:
  "session_of (put_session sid s st) k = (if k = sid then map_option (\<lambda>_. s) (session_of st sid) else session_of st k)"
  by (simp add: session_of_def put_session_def map_of_al_modify)

lemma quiet_put_birth:
  assumes "session_of st sid = Some s" and "birth_client s' = birth_client s" and "sid \<in> A"
  shows "quiet A st (put_session sid s' st)"
  using assms by (auto simp: quiet_def session_of_put) (simp_all add: put_session_def)

lemma quiet_put_owner:
  assumes "session_of st sid = Some s" and "owner s' = owner s"
  shows "quiet A st (put_session sid s' st)"
  using assms by (auto simp: quiet_def session_of_put owner_def) (simp_all add: put_session_def)

lemma quiet_put_trans:
  assumes "session_of st sid = Some s" and "owner s' = owner s" and "quiet A (put_session sid s' st) u"
  shows "quiet A st u"
  by (rule quiet_trans [OF quiet_put_owner [OF assms(1,2)] assms(3)])

lemma registry_fields [simp]:
  "sessions (broadcast es st) = sessions st" "birth_tombstones (broadcast es st) = birth_tombstones st"
  "started (broadcast es st) = started st" "hook_store (broadcast es st) = hook_store st"
  "session_claimants (broadcast es st) = session_claimants st"
  "sessions (disconnect_session_subscribers sid st) = sessions st"
  "birth_tombstones (disconnect_session_subscribers sid st) = birth_tombstones st"
  "started (disconnect_session_subscribers sid st) = started st"
  "hook_store (disconnect_session_subscribers sid st) = hook_store st"
  "session_claimants (disconnect_session_subscribers sid st) = session_claimants st"
  by (simp_all add: broadcast_def disconnect_session_subscribers_def split: prod.split)

lemma registry_disconnect_all [simp]:
  "sessions (disconnect_all is st) = sessions st" "birth_tombstones (disconnect_all is st) = birth_tombstones st"
  "started (disconnect_all is st) = started st" "hook_store (disconnect_all is st) = hook_store st"
  by (induction "is" arbitrary: st) (simp_all add: disconnect_all_def)

lemma session_of_fields [simp]:
  "session_of (broadcast es st) = session_of st"
  "session_of (disconnect_session_subscribers sid st) = session_of st"
  by (simp_all add: session_of_def fun_eq_iff)

lemma pump_loop_quiet: "pump_loop e is n st = (ev, rf, t) \<Longrightarrow> quiet {} st t"
proof (induction "is" arbitrary: n st ev rf t)
  case Nil
  then show ?case by simp
next
  case (Cons i "is")
  show ?case
  proof (cases "session_of st i = None \<or> handle (the (session_of st i)) = None")
    case True
    then show ?thesis using Cons by (auto split: option.splits)
  next
    case False
    then obtain s p where s: "session_of st i = Some s" "handle s = Some p" by auto
    show ?thesis
    proof (cases "retirement_requested s")
      case True
      then have "quiet {} (put_session i (capture_retirement (env_closer e) s) st) t"
        using Cons s by simp
      then show ?thesis by (rule quiet_put_trans [OF s(1) owner_capture])
    next
      case False
      let ?b = "if priority_session st = Some i then n else 0"
      obtain s' e1 r d where ps: "pump_session (env_serializer e) (env_screen e i) i (snapshot_line_limit st)
          (env_clock e) ?b s p = (s', e1, r, d)" by (metis prod_cases4)
      let ?n = "if priority_session st = Some i then n - d else n"
      obtain e2 r2 t2 where lp: "pump_loop e is ?n (put_session i s' st) = (e2, r2, t2)"
        by (metis prod_cases3)
      have "t = t2" using Cons.prems s False ps lp by (simp add: Let_def split: if_splits)
      then have "quiet {} (put_session i s' st) t" using Cons.IH [OF lp] by simp
      then show ?thesis by (rule quiet_put_trans [OF s(1) owner_pump [OF ps]])
    qed
  qed
qed

lemma pump_output_quiet: "pump_output e st = (ev, t) \<Longrightarrow> quiet {} st t"
proof -
  assume a: "pump_output e st = (ev, t)"
  let ?n = "if priority_session st \<noteq> None then INTERACTIVE_BYTE_BUDGET else 0"
  obtain e1 rf u where l: "pump_loop e (pump_order (sessions st) (priority_session st)) ?n st = (e1, rf, u)"
    by (metis prod_cases3)
  have "t = disconnect_all rf u" using a l by (simp add: pump_output_def)
  then have "quiet {} u t" by (simp add: quiet_same)
  with pump_loop_quiet [OF l] show ?thesis by (rule quiet_trans)
qed

lemma checkpoint_loop_quiet: "checkpoint_loop e is st = (tg, ev, rf, t) \<Longrightarrow> quiet {} st t"
proof (induction "is" arbitrary: st tg ev rf t)
  case Nil
  then show ?case by simp
next
  case (Cons i "is")
  show ?case
  proof (cases "session_of st i")
    case None
    then show ?thesis using Cons by simp
  next
    case (Some s)
    obtain s' g e1 r where cs: "checkpoint_session (env_serializer e) (env_screen e i) i
        (snapshot_line_limit st) (env_clock e) s = (s', g, e1, r)" by (metis prod_cases4)
    obtain g2 e2 r2 t2 where lp: "checkpoint_loop e is (put_session i s' st) = (g2, e2, r2, t2)"
      by (metis prod_cases4)
    have "t = t2" using Cons.prems Some cs lp by (simp add: Let_def)
    then have "quiet {} (put_session i s' st) t" using Cons.IH [OF lp] by simp
    then show ?thesis by (rule quiet_put_trans [OF Some owner_checkpoint [OF cs]])
  qed
qed

lemma take_dirty_quiet: "take_dirty_scrollback_targets e st = (tg, t) \<Longrightarrow> quiet {} st t"
proof -
  assume a: "take_dirty_scrollback_targets e st = (tg, t)"
  obtain g ev rf u where l: "checkpoint_loop e (map fst (sessions st)) st = (g, ev, rf, u)"
    by (metis prod_cases4)
  have "t = broadcast ev (disconnect_all rf u)" using a l by (simp add: take_dirty_scrollback_targets_def)
  then have "quiet {} u t" by (simp add: quiet_same)
  with checkpoint_loop_quiet [OF l] show ?thesis by (rule quiet_trans)
qed

section \<open>Closing sessions\<close>

lemma request_retirement_birth [simp]:
  "birth_client (request_retirement closer s) = birth_client s"
proof -
  have "birth_client (capture_retirement closer u) = birth_client u" for u
    using owner_capture [of closer u] by (simp add: owner_def)
  then show ?thesis by (simp add: request_retirement_def mark_retirement_def Let_def)
qed

text \<open>What a successful kill leaves of the registry.\<close>

definition removed :: "uuid \<Rightarrow> daemon_session \<Rightarrow> daemon_state \<Rightarrow> daemon_state \<Rightarrow> bool" where
  "removed sid s st t \<longleftrightarrow> sessions t = AList.delete sid (al_modify sid (\<lambda>_. s) (sessions st))
     \<and> birth_tombstones t = (case birth_client s of
          Some c \<Rightarrow> AList.update sid c (birth_tombstones st) | None \<Rightarrow> birth_tombstones st)
     \<and> started t = started st \<and> hook_store t = hook_store st"

lemma remove_session_removed: "removed sid s st (remove_session sid s (put_session sid s st))"
  by (simp add: removed_def remove_session_def put_session_def Let_def split: option.split)

lemma kill_cases:
  assumes "kill closer sid st = (b, t)"
  shows "(\<not> b \<and> quiet {sid} st t)
    \<or> (b \<and> (\<exists>s. session_of st sid = Some s \<and> retirement_complete (request_retirement closer s)
          \<and> (managed s \<longrightarrow> host_close_fenced (hook_store st) sid s None)
          \<and> removed sid (request_retirement closer s) st t))"
proof (cases "session_of st sid")
  case None
  then show ?thesis using assms by (simp add: kill_def)
next
  case (Some s)
  have q: "quiet {sid} st (put_session sid (request_retirement closer s) st)"
    by (rule quiet_put_birth [OF Some]) simp_all
  show ?thesis
    using assms Some q remove_session_removed [of sid "request_retirement closer s" st]
    by (auto simp: kill_def Let_def split: if_splits)
qed

section \<open>The invariant of births\<close>

definition registry_inv :: "daemon_state \<Rightarrow> bool" where
  "registry_inv st \<longleftrightarrow> distinct_keys (sessions st) \<and> distinct_keys (birth_tombstones st)
     \<and> (\<forall>k. session_of st k \<noteq> None \<longrightarrow> map_of (birth_tombstones st) k = None)
     \<and> length (sessions st) + length (birth_tombstones st) \<le> MAX_BIRTH_IDENTITIES
     \<and> (\<forall>k s. session_of st k = Some s \<longrightarrow> birth_client s \<noteq> None)
     \<and> distinct (started st)
     \<and> (\<forall>k \<in> set (started st). session_of st k \<noteq> None \<or> map_of (birth_tombstones st) k \<noteq> None)"

lemma quiet_known: "quiet A st t \<Longrightarrow> session_of t k = None \<longleftrightarrow> session_of st k = None"
  by (metis quiet_def map_option_is_None)

lemma quiet_inv:
  assumes "registry_inv st" and "quiet A st t"
  shows "registry_inv t"
proof -
  have b: "birth_client s \<noteq> None" if "session_of t k = Some s" for k s
  proof -
    have "map_option birth_client (session_of st k) = Some (birth_client s)"
      using assms(2) that unfolding quiet_def by (metis option.simps(9))
    then show ?thesis using assms(1) unfolding registry_inv_def by (metis map_option_eq_Some)
  qed
  have "distinct_keys (sessions t)" "length (sessions t) = length (sessions st)"
    using assms unfolding quiet_def registry_inv_def distinct_keys_def by (metis, metis length_map)
  then show ?thesis
    using assms b quiet_known [OF assms(2)] unfolding registry_inv_def quiet_def by simp
qed

lemma session_of_removed:
  "removed sid s st t \<Longrightarrow> session_of t k = (if k = sid then None else session_of st k)"
  by (simp add: removed_def session_of_def al.look_del_if map_of_al_modify)

lemma removed_inv:
  assumes i: "registry_inv st" and s: "session_of st sid = Some s'" and r: "removed sid s st t"
    and b: "birth_client s = birth_client s'"
  shows "registry_inv t"
proof -
  obtain c where c: "birth_client s = Some c"
    using i s b unfolding registry_inv_def by (metis not_None_eq)
  have k: "map_of (sessions st) sid \<noteq> None" using s by (simp add: session_of_def)
  have len: "length (sessions t) + 1 = length (sessions st)"
    using r k i length_al_delete [of "al_modify sid (\<lambda>_. s) (sessions st)" sid]
    by (simp add: removed_def registry_inv_def map_of_al_modify)
  have tomb: "birth_tombstones t = AList.update sid c (birth_tombstones st)" using r c by (simp add: removed_def)
  have "distinct_keys (sessions t)"
    using r i by (simp add: removed_def registry_inv_def al.wf_del)
  moreover have "distinct_keys (birth_tombstones t)"
    using i tomb by (simp add: registry_inv_def al.wf_put)
  moreover have "length (sessions t) + length (birth_tombstones t) \<le> MAX_BIRTH_IDENTITIES"
    using i len length_al_update [of sid c "birth_tombstones st"] by (simp add: tomb registry_inv_def)
  moreover have "started t = started st" using r by (simp add: removed_def)
  ultimately show ?thesis
    using i unfolding registry_inv_def tomb session_of_removed [OF r] al.look_put_if by simp
qed

lemma kill_inv: "registry_inv st \<Longrightarrow> kill closer sid st = (b, t) \<Longrightarrow> registry_inv t"
  using kill_cases [of closer sid st b t] by (auto intro: quiet_inv removed_inv)

lemma kill_all_inv: "registry_inv st \<Longrightarrow> kill_all closer is st = (ks, t) \<Longrightarrow> registry_inv t"
  by (induction "is" arbitrary: st ks t) (auto split: prod.splits dest: kill_inv)

lemma kill_other:
  assumes "kill closer sid st = (b, t)" and "k \<noteq> sid"
  shows "map_option owner (session_of t k) = map_option owner (session_of st k)"
  using kill_cases [OF assms(1)] assms(2) by (auto simp: quiet_def session_of_removed)

lemma kill_all_other:
  "kill_all closer is st = (ks, t) \<Longrightarrow> k \<notin> set is
    \<Longrightarrow> map_option owner (session_of t k) = map_option owner (session_of st k)"
  by (induction "is" arbitrary: st ks t) (auto split: prod.splits dest: kill_other)

section \<open>Births\<close>

definition born :: "uuid \<Rightarrow> uuid \<Rightarrow> daemon_session \<Rightarrow> daemon_state \<Rightarrow> daemon_state \<Rightarrow> bool" where
  "born client sid s st t \<longleftrightarrow>
     sessions t = al_modify sid (\<lambda>s. s\<lparr>birth_client := Some client\<rparr>) (AList.update sid s (sessions st))
     \<and> birth_tombstones t = birth_tombstones st \<and> hook_store t = hook_store st
     \<and> (started t = started st \<or> started t = started st @ [sid])"

lemma session_of_born:
  "born client sid s st t \<Longrightarrow>
    session_of t k = (if k = sid then Some (s\<lparr>birth_client := Some client\<rparr>) else session_of st k)"
  by (simp add: born_def session_of_def map_of_al_modify al.look_put_if)

lemma born_inv:
  assumes i: "registry_inv st" and n: "session_of st sid = None" "map_of (birth_tombstones st) sid = None"
    and c: "\<not> at_capacity st" and b: "born client sid s st t"
  shows "registry_inv t"
proof -
  have "distinct_keys (sessions t)" using i b by (simp add: registry_inv_def born_def al.wf_put)
  moreover have "length (sessions t) + length (birth_tombstones t) \<le> MAX_BIRTH_IDENTITIES"
    using c b length_al_update [of sid s "sessions st"] by (simp add: at_capacity_def born_def)
  moreover have "sid \<notin> set (started st)"
    using i n unfolding registry_inv_def by blast
  then have "distinct (started t) \<and> (\<forall>k \<in> set (started t). session_of t k \<noteq> None \<or> map_of (birth_tombstones t) k \<noteq> None)"
    using i b unfolding registry_inv_def session_of_born [OF b] born_def by auto
  ultimately show ?thesis
    using i b n unfolding registry_inv_def session_of_born [OF b] born_def by simp
qed

lemma spawn_cases:
  assumes "spawn_with_pty e sp desired st = (r, t)"
  shows "((\<exists>m. r = Inl m) \<and> t = st)
    \<or> (\<exists>sid s p. r = Inr sid \<and> t = register_session e sid sp p st
        \<and> (case desired of Some i \<Rightarrow> i = sid \<and> session_of st i = None | None \<Rightarrow> sid = env_fresh e))"
  using assms by (auto simp: spawn_with_pty_def split: sum.splits option.splits if_splits)

lemma registered_born:
  "\<exists>s. born client sid s st (record_birth client sid (register_session e sid sp p st))"
  by (auto simp: born_def record_birth_def register_session_def Let_def)

lemma spawn_born:
  assumes "spawn_with_pty e sp desired st = (r, u)"
  shows "(case r of Inl m \<Rightarrow> u = st
    | Inr sid \<Rightarrow> (\<exists>s. born client sid s st (record_birth client sid u))
        \<and> (case desired of Some i \<Rightarrow> sid = i \<and> session_of st i = None | None \<Rightarrow> sid = env_fresh e))"
  using spawn_cases [OF assms] registered_born by (auto split: option.splits)

lemma inserted_born:
  "born client sid (new_session sp) st (record_birth client sid (insert_session sid sp st))"
  by (simp add: born_def record_birth_def insert_session_def Let_def)

text \<open>A birth under the identifier it asks for, or under a fresh one.\<close>

definition fresh_for :: "'h server_env \<Rightarrow> daemon_state \<Rightarrow> bool" where
  "fresh_for e st \<longleftrightarrow> session_of st (env_fresh e) = None \<and> map_of (birth_tombstones st) (env_fresh e) = None"

lemma spawn_handled:
  assumes "handle_spawn e client sp desired st = (r, t)"
  shows "t = st \<or> (\<exists>sid s. born client sid s st t \<and> \<not> at_capacity st
      \<and> (case desired of Some i \<Rightarrow> sid = i \<and> session_of st i = None \<and> map_of (birth_tombstones st) i = None
         | None \<Rightarrow> sid = env_fresh e))"
proof -
  let ?sp = "sp\<lparr>hook_owner := Some client\<rparr>"
  have ins: "\<exists>s. born client i s st (record_birth client i (insert_session i ?sp st))" for i
    using inserted_born by blast
  show ?thesis
  proof (cases desired)
    case None
    show ?thesis
      using assms ins [of "env_fresh e"]
      by (cases "spawn_with_pty e ?sp None st")
        (auto simp: handle_spawn_def Let_def None split: if_splits sum.splits dest!: spawn_born [of _ _ _ _ _ _ client])
  next
    case (Some i)
    show ?thesis
      using assms ins [of i]
      by (cases "spawn_with_pty e ?sp (Some i) st")
        (auto simp: handle_spawn_def Let_def Some split: if_splits sum.splits option.splits
          dest!: spawn_born [of _ _ _ _ _ _ client])
  qed
qed

lemma spawn_inv:
  assumes "registry_inv st" and "handle_spawn e client sp desired st = (r, t)"
    and "desired = None \<Longrightarrow> fresh_for e st"
  shows "registry_inv t"
  using spawn_handled [OF assms(2)] assms(1,3)
  by (cases desired) (auto simp: fresh_for_def intro: born_inv)

lemma attach_quiet:
  assumes "handle_attach e client sid st = (r, t)"
  shows "quiet {sid} st t"
proof (cases "session_of st sid")
  case None
  then show ?thesis using assms by (simp add: handle_attach_def)
next
  case (Some s)
  let ?s = "s\<lparr>adopters := List.insert client (adopters s)\<rparr>"
  obtain b s' where ab: "attach_boundary (env_serializer e) (env_screen e sid) sid (snapshot_line_limit st)
      (env_clock e) ?s = (b, s')" by fastforce
  have "birth_client s' = birth_client s" using owner_attach [OF ab] by (simp add: owner_def)
  then have q: "quiet {sid} st (put_session sid s' st)" by (rule quiet_put_birth [OF Some]) simp
  have "t = st \<or> quiet {sid} (put_session sid s' st) t"
    using assms Some ab by (auto simp: handle_attach_def Let_def intro!: quiet_same split: if_splits sum.splits prod.splits)
  then show ?thesis using q by (auto intro: quiet_trans)
qed

lemma attach_adopts:
  assumes "handle_attach e client sid st = (r, t)" and "session_of st sid = Some s"
  shows "\<exists>s'. session_of t sid = Some s'
    \<and> (owner s' = owner s \<or> owner s' = owner (s\<lparr>adopters := List.insert client (adopters s)\<rparr>))"
proof -
  let ?s = "s\<lparr>adopters := List.insert client (adopters s)\<rparr>"
  obtain b s' where ab: "attach_boundary (env_serializer e) (env_screen e sid) sid (snapshot_line_limit st)
      (env_clock e) ?s = (b, s')" by fastforce
  have "session_of (put_session sid s' st) sid = Some s'" using assms(2) by (simp add: session_of_put)
  moreover have "t = st \<or> quiet {} (put_session sid s' st) t"
    using assms ab by (auto simp: handle_attach_def Let_def intro!: quiet_same split: if_splits sum.splits prod.splits)
  then have "t = st \<or> map_option owner (session_of t sid) = map_option owner (session_of (put_session sid s' st) sid)"
    by (auto simp: quiet_def)
  ultimately show ?thesis using owner_attach [OF ab] assms(2) by auto
qed

lemma write_quiet: "write_to sid d st = (b, t) \<Longrightarrow> quiet {} st t"
  by (auto simp: write_to_def intro: quiet_same split: option.splits if_splits)

lemma resize_quiet: "resize_in_registry ch sid c r st = (b, t) \<Longrightarrow> quiet {} st t"
  by (auto simp: resize_in_registry_def owner_resize intro: quiet_put_owner split: option.splits if_splits)

lemma reconcile_split:
  assumes "reconcile_live closer client live st = (ks, t)"
  obtains st1 orphans killed where "st1 = st\<lparr>session_claimants := reclaim client live st\<rparr>"
    and "orphans = filter (orphan st1 client live) (map fst (sessions st1))"
    and "kill_all closer orphans st1 = (killed, t)" and "ks = sort killed"
  using assms by (auto simp: reconcile_live_def Let_def split: prod.splits)

lemma tombstone_inv:
  assumes "registry_inv st" and "session_of st sid = None" and "\<not> at_capacity st"
  shows "registry_inv (st\<lparr>birth_tombstones := AList.update sid c (birth_tombstones st)\<rparr>)"
  using assms length_al_update [of sid c "birth_tombstones st"]
  by (auto simp: registry_inv_def at_capacity_def session_of_def al.wf_put al.look_put_if)

lemma close_birth_inv:
  assumes "registry_inv st" and "handle_close_birth e client sid st = (r, t)"
  shows "registry_inv t"
proof -
  have "t = st \<or> (\<exists>b. kill (env_closer e) sid st = (b, t))
      \<or> (session_of st sid = None \<and> \<not> at_capacity st
          \<and> t = st\<lparr>birth_tombstones := AList.update sid client (birth_tombstones st)\<rparr>)"
    using assms(2) by (auto simp: handle_close_birth_def split: option.splits if_splits prod.splits bool.splits)
  then show ?thesis using assms(1) kill_inv tombstone_inv by metis
qed

section \<open>The machine of the registry\<close>

datatype 'h server_event =
    Request "'h server_env" uuid request
  | Pump "'h server_env" | CheckpointBoundary "'h server_env"
  | Acked uuid nat | PersistFailed uuid | FinishRetirements retirement_env
  | ClientConnected uuid | ClientGone uuid nat
  | Subscribed uuid uuid bool | Unsubscribed uuid
  | LedgerChanged "hook_ledger option" | TerminalChanged uuid pty

definition on_session :: "uuid \<Rightarrow> (daemon_session \<Rightarrow> daemon_session) \<Rightarrow> daemon_state \<Rightarrow> daemon_state" where
  "on_session sid f st = (case session_of st sid of None \<Rightarrow> st | Some s \<Rightarrow> put_session sid (f s) st)"

definition request_admitted :: "'h server_env \<Rightarrow> request \<Rightarrow> daemon_state \<Rightarrow> bool" where
  "request_admitted e req st \<longleftrightarrow> (case req of Spawn sp None \<Rightarrow> fresh_for e st | _ \<Rightarrow> True)"

fun server_act :: "daemon_state \<Rightarrow> 'h server_event \<Rightarrow> daemon_state" where
  "server_act st (Request e client req) =
     (if request_admitted e req st then snd (handle_request_for_client e client req st) else st)"
| "server_act st (Pump e) = (case pump_output e st of (events, t) \<Rightarrow> broadcast events t)"
| "server_act st (CheckpointBoundary e) = snd (take_dirty_scrollback_targets e st)"
| "server_act st (Acked sid n) = on_session sid (\<lambda>s. acknowledge_persisted s n) st"
| "server_act st (PersistFailed sid) = on_session sid (\<lambda>s. s\<lparr>scrollback_dirty := True\<rparr>) st"
| "server_act st (FinishRetirements closer) = finish_acknowledged_retirements closer st"
| "server_act st (ClientConnected c) = client_connected c st"
| "server_act st (ClientGone c now) = client_disconnected c now st"
| "server_act st (Subscribed conn sid socket) = subscribe conn sid socket st"
| "server_act st (Unsubscribed conn) = unsubscribe conn st"
| "server_act st (LedgerChanged l) = st\<lparr>hook_store := l\<rparr>"
| "server_act st (TerminalChanged sid p) = on_session sid (\<lambda>s. s\<lparr>handle := map_option (\<lambda>_. p) (handle s)\<rparr>) st"

definition server_run :: "nat \<Rightarrow> 'h server_event list \<Rightarrow> daemon_state" where
  "server_run now es = foldl server_act (new_state now) es"

lemma on_session_quiet:
  assumes "\<And>s. owner (f s) = owner s"
  shows "quiet A st (on_session sid f st)"
  using assms by (auto simp: on_session_def intro: quiet_put_owner split: option.split)

lemma on_session_inv: "(\<And>s. owner (f s) = owner s) \<Longrightarrow> registry_inv st \<Longrightarrow> registry_inv (on_session sid f st)"
  by (rule quiet_inv [OF _ on_session_quiet])

lemma owner_ack [frame_simps]: "owner (acknowledge_persisted s n) = owner s"
  by (simp add: acknowledge_persisted_def Let_def frame_simps)

lemma handled_inv:
  assumes "registry_inv st" and "handle_request_for_client e client req st = (r, t)" and "request_admitted e req st"
  shows "registry_inv t"
proof (cases req)
  case (Spawn sp d)
  then show ?thesis
    using assms spawn_inv [of st e client sp d r t] by (auto simp: request_admitted_def split: option.splits)
next
  case (Attach sid)
  then show ?thesis using assms by (auto intro: quiet_inv attach_quiet)
next
  case (Write sid d)
  then obtain b where "write_to sid d st = (b, t)" using assms(2) by (auto split: prod.splits bool.splits)
  then show ?thesis by (rule quiet_inv [OF assms(1) write_quiet])
next
  case (Resize sid c h)
  then obtain b where "resize_in_registry (env_resized e) sid c h st = (b, t)"
    using assms(2) by (auto split: prod.splits bool.splits)
  then show ?thesis by (rule quiet_inv [OF assms(1) resize_quiet])
next
  case (Kill sid)
  then have "t = st \<or> (\<exists>b. kill (env_closer e) sid st = (b, t))"
    using assms(2) by (auto simp: handle_kill_def split: option.splits if_splits prod.splits bool.splits)
  then show ?thesis using assms(1) kill_inv by metis
next
  case (CloseBirth sid)
  then show ?thesis using assms(1,2) close_birth_inv [of st e client sid r t] by simp
next
  case (SetPriority p)
  then have "quiet {} st t" using assms(2) by (auto simp: Let_def intro!: quiet_same split: if_splits)
  then show ?thesis by (rule quiet_inv [OF assms(1)])
next
  case (ReconcileLive ids)
  then obtain ks where "reconcile_live (env_closer e) client ids st = (ks, t)"
    using assms(2) by (auto split: prod.splits)
  then obtain st1 os kl where "st1 = st\<lparr>session_claimants := reclaim client ids st\<rparr>"
      "kill_all (env_closer e) os st1 = (kl, t)"
    using reconcile_split by metis
  moreover have "quiet {} st (st\<lparr>session_claimants := reclaim client ids st\<rparr>)" by (rule quiet_same) simp_all
  ultimately show ?thesis using assms(1) quiet_inv kill_all_inv by metis
qed (use assms in simp_all)

lemma connection_quiet: "quiet {} st (client_connected c st)" "quiet {} st (client_disconnected c now st)"
    "quiet {} st (subscribe conn sid b st)" "quiet {} st (unsubscribe conn st)"
  by (auto simp: client_connected_def client_disconnected_def subscribe_def unsubscribe_def Let_def
      intro!: quiet_same split: option.split)

lemma finish_inv: "registry_inv st \<Longrightarrow> registry_inv (finish_acknowledged_retirements closer st)"
  unfolding finish_acknowledged_retirements_def by (metis kill_all_inv prod.collapse)

lemma server_inv_act: "registry_inv st \<Longrightarrow> registry_inv (server_act st ev)"
proof (cases ev)
  case (Request e c req)
  then show "registry_inv st \<Longrightarrow> ?thesis"
    by (auto intro: handled_inv [of st e c req "fst (handle_request_for_client e c req st)"])
next
  case (Pump e)
  obtain es t where p: "pump_output e st = (es, t)" by fastforce
  have "quiet {} t (broadcast es t)" by (rule quiet_same) simp_all
  then show "registry_inv st \<Longrightarrow> ?thesis"
    using Pump p quiet_inv [OF _ pump_output_quiet [OF p]] quiet_inv by auto
next
  case (CheckpointBoundary e)
  obtain tg t where p: "take_dirty_scrollback_targets e st = (tg, t)" by fastforce
  then show "registry_inv st \<Longrightarrow> ?thesis"
    using CheckpointBoundary quiet_inv [OF _ take_dirty_quiet [OF p]] by simp
next
  case (LedgerChanged l)
  then show "registry_inv st \<Longrightarrow> ?thesis" by (simp add: registry_inv_def session_of_def)
qed (auto simp: frame_simps intro: quiet_inv connection_quiet finish_inv intro!: on_session_inv)

lemma server_inv_start: "registry_inv (new_state now)"
  by (simp add: registry_inv_def new_state_def distinct_keys_def session_of_def)

interpretation registry: guarded_machine "new_state now" server_act registry_inv for now
  by unfold_locales (rule server_inv_start, rule server_inv_act)

lemma server_run_inv: "registry_inv (server_run now es)"
  unfolding server_run_def by (rule registry.run_inv)

text \<open>
  C10: A UUID names at most one shell, for ever. In every state that the daemon can reach, no UUID has
  been given to two shells, every UUID that ever named a shell is still registered or has a
  tombstone, never both, every session has a recorded creator, and sessions and tombstones together
  stay within the capacity of 8192 identities.\<close>
theorem one_shell_per_uuid:
  "distinct (started (server_run now es))
   \<and> set (started (server_run now es))
       \<subseteq> fst ` set (sessions (server_run now es)) \<union> fst ` set (birth_tombstones (server_run now es))
   \<and> fst ` set (sessions (server_run now es)) \<inter> fst ` set (birth_tombstones (server_run now es)) = {}
   \<and> None \<notin> birth_client ` snd ` set (sessions (server_run now es))
   \<and> length (sessions (server_run now es)) + length (birth_tombstones (server_run now es)) \<le> 8192"
proof -
  let ?st = "server_run now es"
  have i: "registry_inv ?st" by (rule server_run_inv)
  have k: "k \<in> fst ` set m \<longleftrightarrow> map_of m k \<noteq> None" for k :: uuid and m :: "(uuid \<times> 'b) list"
    by (simp add: map_of_eq_None_iff)
  have "birth_client s \<noteq> None" if s: "s \<in> snd ` set (sessions ?st)" for s
  proof -
    obtain k where "(k, s) \<in> set (sessions ?st)" using s by auto
    then have "session_of ?st k = Some s"
      using i al_in_set unfolding registry_inv_def session_of_def by metis
    then show ?thesis using i unfolding registry_inv_def by blast
  qed
  then have b: "None \<notin> birth_client ` snd ` set (sessions ?st)" by (metis imageE)
  have j: "\<forall>k \<in> set (started ?st). map_of (sessions ?st) k \<noteq> None \<or> map_of (birth_tombstones ?st) k \<noteq> None"
      "\<forall>k. map_of (sessions ?st) k \<noteq> None \<longrightarrow> map_of (birth_tombstones ?st) k = None"
      "distinct (started ?st)" "length (sessions ?st) + length (birth_tombstones ?st) \<le> 8192"
    using i unfolding registry_inv_def MAX_BIRTH_IDENTITIES_def session_of_def by blast+
  have "x \<in> fst ` set (sessions ?st) \<union> fst ` set (birth_tombstones ?st)" if "x \<in> set (started ?st)" for x
    using bspec [OF j(1) that] unfolding Un_iff k .
  moreover have "x \<notin> fst ` set (birth_tombstones ?st)" if "x \<in> fst ` set (sessions ?st)" for x
    using j(2) that unfolding k by metis
  ultimately show ?thesis using j(3,4) b by (meson disjoint_iff subsetI)
qed

section \<open>Tombstones are permanent\<close>

definition buried :: "uuid \<Rightarrow> daemon_state \<Rightarrow> bool" where
  "buried k st \<longleftrightarrow> map_of (birth_tombstones st) k \<noteq> None"

lemma quiet_buried: "quiet A st t \<Longrightarrow> buried k st \<Longrightarrow> buried k t"
  by (simp add: quiet_def buried_def)

lemma kill_buried: "kill closer sid st = (b, t) \<Longrightarrow> buried k st \<Longrightarrow> buried k t"
  using kill_cases [of closer sid st b t]
  by (auto simp: quiet_def removed_def buried_def al.look_put_if split: option.splits)

lemma kill_all_buried: "kill_all closer is st = (ks, t) \<Longrightarrow> buried k st \<Longrightarrow> buried k t"
  by (induction "is" arbitrary: st ks t) (auto split: prod.splits dest: kill_buried)

lemma spawn_buried: "handle_spawn e c sp d st = (r, t) \<Longrightarrow> buried k st \<Longrightarrow> buried k t"
  using spawn_handled [of e c sp d st r t] by (auto simp: born_def buried_def)

lemma close_birth_buried: "handle_close_birth e c sid st = (r, t) \<Longrightarrow> buried k st \<Longrightarrow> buried k t"
  by (auto simp: handle_close_birth_def buried_def [of k "st\<lparr>birth_tombstones := b\<rparr>" for b] al.look_put_if
      split: option.splits if_splits prod.splits bool.splits dest: kill_buried) (simp_all add: buried_def)

lemma handled_buried:
  assumes "handle_request_for_client e client req st = (r, t)" and "buried k st"
  shows "buried k t"
proof (cases req)
  case (Kill sid)
  then have "t = st \<or> (\<exists>b. kill (env_closer e) sid st = (b, t))"
    using assms(1) by (auto simp: handle_kill_def split: option.splits if_splits prod.splits bool.splits)
  then show ?thesis using assms(2) kill_buried by metis
next
  case (ReconcileLive ids)
  then obtain ks where "reconcile_live (env_closer e) client ids st = (ks, t)"
    using assms(1) by (auto split: prod.splits)
  then obtain os kl where "kill_all (env_closer e) os (st\<lparr>session_claimants := reclaim client ids st\<rparr>) = (kl, t)"
    using reconcile_split by metis
  then show ?thesis using kill_all_buried assms(2) by (simp add: buried_def)
next
  case (Attach sid)
  then show ?thesis using assms quiet_buried [OF attach_quiet [of e client sid st r t]] by simp
next
  case (Write sid d)
  then show ?thesis using assms quiet_buried by (auto split: prod.splits bool.splits dest!: write_quiet)
next
  case (Resize sid c h)
  then show ?thesis using assms quiet_buried by (auto split: prod.splits bool.splits dest!: resize_quiet)
next
  case (Spawn sp d)
  then show ?thesis using assms spawn_buried by (metis handle_request_for_client.simps(2))
next
  case (CloseBirth sid)
  then show ?thesis using assms close_birth_buried by (metis handle_request_for_client.simps(7))
qed (use assms in \<open>auto simp: Let_def buried_def\<close>)

lemma on_session_buried: "(\<And>s. owner (f s) = owner s) \<Longrightarrow> buried k st \<Longrightarrow> buried k (on_session sid f st)"
  by (rule quiet_buried [OF on_session_quiet])

lemma server_act_buried:
  assumes "buried k st"
  shows "buried k (server_act st ev)"
proof (cases ev)
  case (Request e c req)
  then show ?thesis using assms handled_buried [of e c req st _ _ k] by (auto simp: prod_eq_iff)
next
  case (Pump e)
  obtain es t where p: "pump_output e st = (es, t)" by fastforce
  then show ?thesis using Pump quiet_buried [OF pump_output_quiet [OF p] assms] by (simp add: buried_def)
next
  case (CheckpointBoundary e)
  obtain tg t where p: "take_dirty_scrollback_targets e st = (tg, t)" by fastforce
  then show ?thesis using CheckpointBoundary quiet_buried [OF take_dirty_quiet [OF p] assms] by simp
next
  case (FinishRetirements closer)
  then show ?thesis using assms kill_all_buried
    by (simp add: finish_acknowledged_retirements_def) (metis prod.collapse)
qed (use assms in \<open>auto intro: quiet_buried connection_quiet intro!: on_session_buried simp: frame_simps\<close>,
     simp add: buried_def)

lemma server_acts_buried: "buried k st \<Longrightarrow> buried k (foldl server_act st fs)"
  by (induction fs arbitrary: st) (simp_all add: server_act_buried)

text \<open>
  C15: A closed birth stays closed. Once a UUID has a tombstone, no later sequence of requests, pumps,
  crashes of clients or changes of the ledger ever registers a session under it again, and a late
  birth for it is rejected without any effect, whoever sends it.\<close>
theorem closed_birth_stays_closed:
  assumes "map_of (birth_tombstones (server_run now es)) k \<noteq> None"
  shows "session_of (server_run now (es @ fs)) k = None
    \<and> handle_request_for_client e client (Spawn sp (Some k)) (server_run now (es @ fs))
        = (birth_rejected_response (env_show e) k, server_run now (es @ fs))"
proof -
  have "buried k (server_run now (es @ fs))"
    using assms server_acts_buried [of k "server_run now es" fs] by (simp add: buried_def server_run_def)
  then show ?thesis
    using server_run_inv [of now "es @ fs"] unfolding registry_inv_def buried_def
    by (auto simp: handle_spawn_def Let_def)
qed

section \<open>Authority over sessions\<close>

lemma claimed_quiet: "quiet {} st (st\<lparr>session_claimants := c\<rparr>)"
  by (rule quiet_same) simp_all

lemma quiet_owner: "quiet A st t \<Longrightarrow> k \<notin> A \<Longrightarrow> map_option owner (session_of t k) = map_option owner (session_of st k)"
  by (simp add: quiet_def)

lemma born_owner: "born c sid s st t \<Longrightarrow> k \<noteq> sid \<Longrightarrow> session_of t k = session_of st k"
  by (simp add: session_of_born)

lemma session_claimants_of [simp]: "session_of (st\<lparr>session_claimants := c\<rparr>) = session_of st"
  by (simp add: session_of_def fun_eq_iff)

text \<open>
  C17: A client cannot close what is not its own. Take a registered session that some client created
  and that this client neither created nor adopted; if the session is managed, suppose that the
  ledger holds no close fence of this client for it (a client with such a fence may close it). Then
  the session survives every request of the client: it is not removed, its retirement does not
  start, its creator stays, and its adopters stay unless the request attaches the client to it, which
  makes the client one of them; in particular reconciling a list that omits it leaves it alone. (A
  spawn without an identity is given one that is not in use.)\<close>
theorem foreign_sessions_survive:
  assumes s: "session_of st sid = Some s" and b: "birth_client s \<noteq> None"
    and foreign: "\<not> client_may_close s client"
    and fence: "managed s \<longrightarrow> \<not> host_close_fenced (hook_store st) sid s (Some client)"
    and fresh: "request_admitted e req st"
    and r: "handle_request_for_client e client req st = (resp, t)"
  shows "\<exists>s'. session_of t sid = Some s' \<and> birth_client s' = birth_client s
    \<and> retirement_requested s' = retirement_requested s
    \<and> (adopters s' = adopters s \<or> (req = Attach sid \<and> adopters s' = List.insert client (adopters s)))"
proof (cases "req = Attach sid")
  case True
  then obtain s' where "session_of t sid = Some s'"
      "owner s' = owner s \<or> owner s' = owner (s\<lparr>adopters := List.insert client (adopters s)\<rparr>)"
    using attach_adopts [of e client sid st resp t s] r s by auto
  then show ?thesis using True by (auto simp: owner_def)
next
  case req: False
  have "map_option owner (session_of t sid) = map_option owner (session_of st sid)"
  proof (cases req)
    case (Spawn sp d)
    then have "t = st \<or> (\<exists>i u. born client i u st t \<and> i \<noteq> sid)"
      using r s fresh spawn_handled [of e client sp d st resp t]
      by (auto simp: request_admitted_def fresh_for_def split: option.splits)
    then show ?thesis using born_owner by metis
  next
    case (Attach i)
    then show ?thesis using r req quiet_owner [OF attach_quiet [of e client i st resp t], of sid] by simp
  next
    case (Write i d)
    then show ?thesis using r by (auto split: prod.splits bool.splits dest!: write_quiet intro: quiet_owner)
  next
    case (Resize i c h)
    then show ?thesis using r by (auto split: prod.splits bool.splits dest!: resize_quiet intro: quiet_owner)
  next
    case (Kill i)
    have "t = st \<or> (\<exists>b. kill (env_closer e) i st = (b, t)) \<and> i \<noteq> sid"
      using r s foreign Kill by (auto simp: handle_kill_def split: option.splits if_splits prod.splits bool.splits)
    then show ?thesis using kill_other by metis
  next
    case (CloseBirth i)
    have "t = st \<or> (\<exists>b. kill (env_closer e) i st = (b, t)) \<and> i \<noteq> sid \<or> sessions t = sessions st"
      using r s foreign fence CloseBirth
      by (auto simp: handle_close_birth_def client_may_close_def split: option.splits if_splits prod.splits bool.splits)
    then show ?thesis using kill_other unfolding session_of_def by metis
  next
    case (SetPriority p)
    then show ?thesis using r by (auto simp: Let_def session_of_def)
  next
    case (ReconcileLive ids)
    obtain ks where "reconcile_live (env_closer e) client ids st = (ks, t)"
      using r ReconcileLive by (auto split: prod.splits)
    then obtain st1 os kl where k: "st1 = st\<lparr>session_claimants := reclaim client ids st\<rparr>"
        "os = filter (orphan st1 client ids) (map fst (sessions st1))" "kill_all (env_closer e) os st1 = (kl, t)"
      using reconcile_split by metis
    have "sid \<notin> set os" using k(1,2) s b foreign by (simp add: orphan_def)
    then show ?thesis using kill_all_other [OF k(3)] k(1) by simp
  qed (use r in auto)
  then show ?thesis using s by (auto simp: owner_def)
qed

section \<open>Repeated births\<close>


section \<open>Reconciliation\<close>

lemma kill_known:
  "kill closer sid st = (b, t) \<Longrightarrow> session_of t k = None \<longleftrightarrow> session_of st k = None \<or> (b \<and> k = sid)"
  using kill_cases [of closer sid st b t] by (auto simp: quiet_known session_of_removed split: if_splits)

lemma kill_all_known:
  "kill_all closer is st = (ks, t) \<Longrightarrow>
    set ks \<subseteq> set is \<and> (\<forall>k. session_of t k = None \<longleftrightarrow> session_of st k = None \<or> k \<in> set ks)"
proof (induction "is" arbitrary: st ks t)
  case Nil
  then show ?case by simp
next
  case (Cons i "is")
  obtain b u where k: "kill closer i st = (b, u)" by fastforce
  obtain ks' t' where a: "kill_all closer is u = (ks', t')" by fastforce
  have "ks = (if b then i # ks' else ks')" "t = t'" using Cons.prems k a by simp_all
  then show ?case using Cons.IH [OF a] kill_known [OF k] by (auto split: if_splits)
qed

definition claimants :: "(uuid \<times> uuid list) list \<Rightarrow> uuid \<Rightarrow> uuid list" where
  "claimants cl k = (case map_of cl k of Some cs \<Rightarrow> cs | None \<Rightarrow> [])"

lemma claimants_claim: "set (claimants cl k) \<subseteq> set (claimants (claim_session i client cl) k)"
  by (auto simp: claimants_def claim_session_def al.look_put_if split: option.split)

lemma claimants_reclaim:
  assumes "c \<in> set (claimants (session_claimants st) k)" and "c \<noteq> client"
  shows "c \<in> set (claimants (reclaim client live st) k)"
proof -
  let ?f = "\<lambda>cl i. if may_adopt_live st client i then claim_session i client cl else cl"
  have "map_of (map (\<lambda>(i, cs). (i, if i \<in> set live then cs else removeAll client cs)) m) k
      = map_option (\<lambda>cs. if k \<in> set live then cs else removeAll client cs) (map_of m k)" for m :: "(uuid \<times> uuid list) list"
    by (induction m) auto
  then have 1: "c \<in> set (claimants (map (\<lambda>(i, cs). (i, if i \<in> set live then cs else removeAll client cs))
      (session_claimants st)) k)"
    using assms by (auto simp: claimants_def split: option.splits)
  have "c \<in> set (claimants cl k) \<Longrightarrow> c \<in> set (claimants (foldl ?f cl is) k)" for cl "is"
  proof (induction "is" arbitrary: cl)
    case (Cons a "is")
    then show ?case using claimants_claim [of cl k a client] by auto
  qed simp
  with 1 show ?thesis by (simp add: reclaim_def)
qed

text \<open>
  C40: Reconciliation destroys only orphans. The answer lists, in order, exactly the sessions that are
  gone; none of them is in the list of live sessions, none is claimed by another client that is
  still connected, and none was created by a client without being the reconciling client's own or
  adopted by it.\<close>
theorem reconcile_kills_only_orphans:
  assumes r: "reconcile_live closer client live st = (killed, t)"
  shows "sorted killed
    \<and> (\<forall>k. (session_of st k \<noteq> None \<and> session_of t k = None) = (k \<in> set killed))
    \<and> (\<forall>k \<in> set killed. k \<notin> set live
        \<and> (\<forall>c \<in> set (claimants (session_claimants st) k). c = client \<or> map_of (client_connections st) c = None)
        \<and> (\<exists>s. session_of st k = Some s \<and> (birth_client s = None \<or> client_may_close s client)))"
proof -
  obtain st1 os kl where k: "st1 = st\<lparr>session_claimants := reclaim client live st\<rparr>"
      "os = filter (orphan st1 client live) (map fst (sessions st1))"
      "kill_all closer os st1 = (kl, t)" "killed = sort kl"
    using reconcile_split [OF r] by metis
  have s1: "session_of st1 = session_of st" "client_connections st1 = client_connections st"
      "session_claimants st1 = reclaim client live st"
    using k(1) by simp_all
  have os: "\<exists>s. session_of st x = Some s" "orphan st1 client live x" if "x \<in> set os" for x
    using that k(1,2) by (auto simp: session_of_def) (metis domD domIff fst_conv imageI map_of_eq_None_iff)
  have known: "set kl \<subseteq> set os" "session_of t x = None \<longleftrightarrow> session_of st x = None \<or> x \<in> set kl" for x
    using kill_all_known [OF k(3)] s1 by auto
  have claims: "c = client \<or> map_of (client_connections st) c = None"
    if "x \<in> set kl" "c \<in> set (claimants (session_claimants st) x)" for x c
  proof (rule ccontr)
    assume "\<not> ?thesis"
    then have c: "c \<noteq> client" "map_of (client_connections st) c \<noteq> None" by auto
    have "c \<in> set (claimants (session_claimants st1) x)"
      using claimants_reclaim [OF that(2) c(1)] s1(3) by simp
    then have "claimed_by_connected st1 x"
      using c(2) s1(2) unfolding claimed_by_connected_def claimants_def
      by (cases "map_of (session_claimants st1) x") (auto simp: list_ex_iff)
    then show False using os(2) known(1) that(1) unfolding orphan_def by blast
  qed
  have own: "x \<notin> set live \<and> (\<exists>s. session_of st x = Some s \<and> (birth_client s = None \<or> client_may_close s client))"
    if x: "x \<in> set kl" for x
  proof -
    have "x \<in> set os" using known(1) x by blast
    then obtain s where "session_of st x = Some s" "orphan st1 client live x" using os by blast
    then show ?thesis using s1(1) by (simp add: orphan_def)
  qed
  show ?thesis
    using known claims own k(4) os(1) by auto
qed

section \<open>Concrete runs\<close>

definition demo_ledger :: hook_ledger where
  "demo_ledger = \<lparr>hook_close_claim = (\<lambda>r c. Some \<lparr>claim_key = \<lparr>key_workspace = 1, key_panel = 2, key_leaf = 3\<rparr>,
      claim_runtime = r, claim_generation = None, claim_epoch = 0, claim_owner = c, claim_phase = AuthorizedBirth,
      require_binding = False\<rparr>), hook_birth_consumed = (\<lambda>_. Some False)\<rparr>"

definition demo_closing :: retirement_env where
  "demo_closing = \<lparr>closer_starts = True, reader_meanwhile = (\<lambda>_ p. p)\<rparr>"

definition demo_env :: "unit server_env" where
  "demo_env = \<lparr>env_serializer = (\<lambda>_. Some []),
     env_screen = (\<lambda>_. \<lparr>view_metadata_attaching = [], view_metadata = [], view_export = (\<lambda>_. Some []), view_text = [],
        view_input_error = None, view_semantic_ready = False\<rparr>),
     env_clock = 0, env_closer = demo_closing, env_resized = False, env_fresh = 77, env_history_dir = False,
     env_load = (\<lambda>_ _. Inr ()), env_spawn = (\<lambda>_ _ _. Inl []), env_scheduler = False, env_show = (\<lambda>_. []),
     env_details = (\<lambda>_. [])\<rparr>"

text \<open>Two clients with one session each.\<close>

definition demo_state :: daemon_state where
  "demo_state = (new_state 0)\<lparr>
     sessions := [(5, (new_session default_spec)\<lparr>birth_client := Some 1\<rparr>),
                  (6, (new_session default_spec)\<lparr>birth_client := Some 2\<rparr>)],
     client_connections := [(1, 1), (2, 1)], session_claimants := [(5, [1]), (6, [2])]\<rparr>"

lemmas demo_registry = demo_state_def demo_env_def new_state_def session_of_def new_session_def managed_def
  default_spec_def host_target_from_spec_def client_may_close_def

definition demo_close :: "unit server_event list" where
  "demo_close = [LedgerChanged (Some demo_ledger), Request demo_env 1 (CloseBirth 9)]"

theorem closed_birth_stays_closed_witness:
  "session_of (server_run 0 (demo_close @ [Pump demo_env])) 9 = None"
proof -
  have "map_of (birth_tombstones (server_run 0 demo_close)) 9 \<noteq> None"
    by (simp add: demo_close_def server_run_def request_admitted_def handle_close_birth_def demo_registry
        at_capacity_def MAX_BIRTH_IDENTITIES_def host_unknown_close_fence_def demo_ledger_def)
  from closed_birth_stays_closed [OF this] show ?thesis by blast
qed

theorem foreign_sessions_survive_witness:
  "session_of (snd (handle_request_for_client demo_env 1 (Kill 6) demo_state)) 6 \<noteq> None"
  using foreign_sessions_survive [of demo_state 6 "(new_session default_spec)\<lparr>birth_client := Some 2\<rparr>" 1 demo_env
      "Kill 6" "fst (handle_request_for_client demo_env 1 (Kill 6) demo_state)"
      "snd (handle_request_for_client demo_env 1 (Kill 6) demo_state)"]
  by (auto simp: demo_registry request_admitted_def)


theorem reconcile_kills_only_orphans_witness:
  "fst (reconcile_live demo_closing 1 [] demo_state) = [5] \<and> session_of (snd (reconcile_live demo_closing 1 [] demo_state)) 5 = None"
proof -
  have f: "fst (reconcile_live demo_closing 1 [] demo_state) = [5]"
    by (simp add: reconcile_live_def reclaim_def orphan_def claimed_by_connected_def kill_def Let_def
        request_retirement_def mark_retirement_def capture_start_def capture_retirement_def retirement_complete_def demo_registry put_session_def al_modify_def)
  then have "reconcile_live demo_closing 1 [] demo_state = ([5], snd (reconcile_live demo_closing 1 [] demo_state))"
    by (metis prod.collapse)
  from reconcile_kills_only_orphans [OF this] f show ?thesis by auto
qed

end
