(* ===== verification/DaemonDelivery.thy ===== *)
theory DaemonDelivery
  imports DaemonRegistry "HOL-Library.Multiset"
begin

text \<open>
  How the daemon talks to its clients: the order of the pump, the bounded queues of the
  subscribers, the accounting of connections behind the idle shutdown, and the loop that serves one
  connection, from the handshake to its end.
\<close>

section \<open>The order of the pump\<close>

lemma position_Some: "position x xs = Some n \<Longrightarrow> n < length xs \<and> xs ! n = x"
  by (induction xs arbitrary: n) (auto split: if_splits)

lemma position_None: "position x xs = None \<longleftrightarrow> x \<notin> set xs"
  by (induction xs) auto

lemma mset_swap_positions: "i < length xs \<Longrightarrow> j < length xs \<Longrightarrow> mset (swap_positions xs i j) = mset xs"
  unfolding swap_positions_def using mset_swap [of j xs i] by simp

lemma hd_swap_positions: "n < length xs \<Longrightarrow> hd (swap_positions xs 0 n) = xs ! n"
  by (cases xs; cases n) (auto simp: swap_positions_def)

text \<open>
  The pump serves every session exactly once and the focused one first. Its order is a
  permutation of the registered sessions that begins with the priority session when that session is
  registered; without a registered priority the order is ascending.\<close>
theorem pump_order_serves_all:
  "mset (pump_order ss priority) = mset (map fst ss)
   \<and> (if \<exists>p \<in> fst ` set ss. priority = Some p then Some (hd (pump_order ss priority)) = priority
      else sorted (pump_order ss priority))"
proof (cases priority)
  case None
  then show ?thesis by (simp add: pump_order_def Let_def)
next
  case (Some p)
  show ?thesis
  proof (cases "position p (sort (map fst ss))")
    case None
    then have "p \<notin> fst ` set ss" using position_None [of p "sort (map fst ss)"] by simp
    then show ?thesis using Some None by (simp add: pump_order_def Let_def)
  next
    case pos: (Some n)
    have n: "n < length (map fst ss)" "sort (map fst ss) ! n = p"
      using position_Some [OF pos] by simp_all
    have "p \<in> fst ` set ss" using n nth_mem [of n "sort (map fst ss)"] by simp
    moreover have "hd (swap_positions (sort (map fst ss)) 0 n) = p"
      using n hd_swap_positions [of n "sort (map fst ss)"] by simp
    moreover have "mset (swap_positions (sort (map fst ss)) 0 n) = mset (map fst ss)"
      using n(1) mset_swap_positions [of 0 "sort (map fst ss)" n] by (cases ss) simp_all
    ultimately show ?thesis using Some pos by (simp add: pump_order_def Let_def)
  qed
qed

text \<open>The remaining sessions are not in ascending order: the swap displaces the smallest identifier.\<close>

lemma pump_order_swaps:
  "pump_order [(1, s), (2, s), (3, s)] (Some 3) = [3, 2, 1]"
  by (simp add: pump_order_def swap_positions_def)

section \<open>Delivery\<close>

definition addressed :: "uuid \<Rightarrow> response list \<Rightarrow> response list" where
  "addressed sid es = filter (\<lambda>e. event_session_id e = None \<or> event_session_id e = Some sid) es"

lemma offer_events_spec:
  "offer_events sid es ch =
    (if addressed sid es = [] then (Sent, ch)
     else if \<not> receiver_alive ch then (Disconnected, ch)
     else if length (queued ch) + length (addressed sid es) \<le> SUBSCRIBER_QUEUE_CAPACITY
     then (Sent, ch\<lparr>queued := queued ch @ addressed sid es\<rparr>)
     else (Full, ch\<lparr>queued := queued ch @ take (SUBSCRIBER_QUEUE_CAPACITY - length (queued ch)) (addressed sid es)\<rparr>))"
proof (induction es arbitrary: ch)
  case Nil
  then show ?case by (simp add: addressed_def)
next
  case (Cons e es)
  show ?case
  proof (cases "event_session_id e \<noteq> None \<and> event_session_id e \<noteq> Some sid")
    case True
    then have "addressed sid (e # es) = addressed sid es" by (auto simp: addressed_def)
    then show ?thesis using True Cons [of ch] by simp
  next
    case False
    then have a: "addressed sid (e # es) = e # addressed sid es" by (auto simp: addressed_def)
    show ?thesis
    proof (cases "receiver_alive ch \<and> length (queued ch) < SUBSCRIBER_QUEUE_CAPACITY")
      case True
      then have d: "SUBSCRIBER_QUEUE_CAPACITY - length (queued ch)
          = Suc (SUBSCRIBER_QUEUE_CAPACITY - Suc (length (queued ch)))" by (simp add: Suc_diff_Suc)
      show ?thesis using False True Cons [of "ch\<lparr>queued := queued ch @ [e]\<rparr>"]
        by (auto simp: try_send_def a d)
    next
      case full: False
      then show ?thesis using False by (auto simp: try_send_def a)
    qed
  qed
qed

lemma retain_subscribers_spec:
  assumes "distinct (map sub_connection ss)" and "retain_subscribers es ss chs = (kept, chs', shut)"
  shows "kept = filter (\<lambda>s. fst (offer_events (sub_session s) es (channel_of chs (sub_connection s))) = Sent) ss
    \<and> (\<forall>c. map_of chs' c = (case filter (\<lambda>s. sub_connection s = c) ss of
          [] \<Rightarrow> map_of chs c
        | s # _ \<Rightarrow> map_option (\<lambda>ch. snd (offer_events (sub_session s) es ch)) (map_of chs c)))
    \<and> set shut \<subseteq> set (map sub_connection ss) - set (map sub_connection kept)"
  using assms
proof (induction ss arbitrary: chs kept chs' shut)
  case Nil
  then show ?case by simp
next
  case (Cons s ss)
  let ?c = "sub_connection s"
  obtain r ch where o: "offer_events (sub_session s) es (channel_of chs ?c) = (r, ch)" by fastforce
  let ?chs = "al_modify ?c (\<lambda>_. ch) chs"
  obtain k2 c2 x2 where rec: "retain_subscribers es ss ?chs = (k2, c2, x2)" by (metis prod_cases3)
  have d: "distinct (map sub_connection ss)" "?c \<notin> sub_connection ` set ss" using Cons.prems(1) by auto
  have out: "kept = (if r = Sent then s # k2 else k2)" "chs' = c2"
      "shut = (if r = Full \<and> sub_socket s then ?c # x2 else x2)"
    using Cons.prems(2) by (simp_all add: o rec)
  note ih = Cons.IH [OF d(1) rec]
  have other: "channel_of ?chs c = channel_of chs c" if "c \<noteq> ?c" for c
    using that by (simp add: channel_of_def map_of_al_modify)
  have "channel_of ?chs (sub_connection x) = channel_of chs (sub_connection x)" if "x \<in> set ss" for x
    using that d(2) by (intro other) (metis imageI)
  then have k2: "k2 = filter (\<lambda>s. fst (offer_events (sub_session s) es (channel_of chs (sub_connection s))) = Sent) ss"
    unfolding conjunct1 [OF ih] by (intro filter_cong refl) simp
  have none: "filter (\<lambda>s. sub_connection s = ?c) ss = []"
    unfolding filter_empty_conv using d(2) by (metis imageI)
  have "map_of chs' c = (case filter (\<lambda>s. sub_connection s = c) (s # ss) of
          [] \<Rightarrow> map_of chs c
        | s # _ \<Rightarrow> map_option (\<lambda>ch. snd (offer_events (sub_session s) es ch)) (map_of chs c))" for c
  proof (cases "c = ?c")
    case True
    have "map_of c2 ?c = map_of ?chs ?c" using ih none by simp
    then show ?thesis
      using True o by (cases "map_of chs ?c") (simp_all add: out(2) map_of_al_modify channel_of_def)
  next
    case False
    then have e: "map_of ?chs c = map_of chs c" by (simp add: map_of_al_modify)
    have "map_of c2 c = (case filter (\<lambda>s. sub_connection s = c) ss of
          [] \<Rightarrow> map_of ?chs c
        | s # _ \<Rightarrow> map_option (\<lambda>ch. snd (offer_events (sub_session s) es ch)) (map_of ?chs c))"
      using ih by blast
    then show ?thesis using False unfolding out(2) e by simp
  qed
  moreover have "set shut \<subseteq> set (map sub_connection (s # ss)) - set (map sub_connection kept)"
  proof -
    have "set x2 \<subseteq> sub_connection ` set ss - sub_connection ` set k2" "sub_connection ` set k2 \<subseteq> sub_connection ` set ss"
      using conjunct2 [OF conjunct2 [OF ih]] unfolding k2 by (simp_all add: image_subset_iff)
    then show ?thesis using d(2) by (cases r) (auto simp: out)
  qed
  ultimately show ?case using k2 o by (simp add: out(1))
qed

lemma filter_unique:
  assumes "distinct (map f xs)" and "x \<in> set xs"
  shows "filter (\<lambda>y. f y = f x) xs = [x]"
  using assms
proof (induction xs)
  case (Cons a xs)
  show ?case
  proof (cases "x = a")
    case True
    then have "filter (\<lambda>y. f y = f x) xs = []"
      unfolding filter_empty_conv using Cons.prems by (simp add: image_iff) metis
    then show ?thesis using True by simp
  next
    case False
    then have "f a \<noteq> f x" using Cons.prems by (simp add: image_iff)
    then show ?thesis using False Cons by simp
  qed
qed simp

text \<open>
  Events reach exactly their session's subscribers. With one subscription per connection, a
  broadcast appends to the queue of a subscriber the events addressed to its session (or to none),
  in order and nothing else; the subscription survives exactly when all of them fit into the 64
  places of a live queue, otherwise the events that fit are queued and it is dropped. Queues that
  no subscriber owns are untouched.\<close>
theorem broadcast_delivers_own_events:
  assumes d: "distinct (map sub_connection (subscribers st))"
    and s: "s \<in> set (subscribers st)"
    and ch: "map_of (channels st) (sub_connection s) = Some ch"
    and live: "receiver_alive ch" and room: "length (queued ch) \<le> 64"
  shows "map_of (channels (broadcast es st)) (sub_connection s)
      = Some (ch\<lparr>queued := take 64 (queued ch @ addressed (sub_session s) es)\<rparr>)
    \<and> (s \<in> set (subscribers (broadcast es st)) \<longleftrightarrow> length (queued ch @ addressed (sub_session s) es) \<le> 64)
    \<and> (\<forall>c. c \<notin> sub_connection ` set (subscribers st) \<longrightarrow>
          map_of (channels (broadcast es st)) c = map_of (channels st) c)"
proof -
  obtain kept chs shut where r: "retain_subscribers es (subscribers st) (channels st) = (kept, chs, shut)"
    by (metis prod_cases3)
  have b: "subscribers (broadcast es st) = kept" "channels (broadcast es st) = chs"
    by (simp_all add: broadcast_def r)
  note spec = retain_subscribers_spec [OF d r]
  have "filter (\<lambda>x. sub_connection x = sub_connection s) (subscribers st) = [s]"
    by (rule filter_unique [OF d s])
  then have "map_of chs (sub_connection s) = Some (snd (offer_events (sub_session s) es ch))"
    using conjunct1 [OF conjunct2 [OF spec]] ch by simp
  moreover have "s \<in> set kept \<longleftrightarrow> fst (offer_events (sub_session s) es ch) = Sent"
    using conjunct1 [OF spec] s ch by (simp add: channel_of_def)
  moreover have "map_of chs c = map_of (channels st) c" if "c \<notin> sub_connection ` set (subscribers st)" for c
  proof -
    have "filter (\<lambda>x. sub_connection x = c) (subscribers st) = []"
      unfolding filter_empty_conv using that by (metis imageI)
    then show ?thesis using conjunct1 [OF conjunct2 [OF spec]] by simp
  qed
  ultimately show ?thesis
    using live room unfolding b by (auto simp: offer_events_spec SUBSCRIBER_QUEUE_CAPACITY_def)
qed

text \<open>The invariant behind it: one subscription per connection, queues within their capacity.\<close>

definition delivery_inv :: "daemon_state \<Rightarrow> bool" where
  "delivery_inv st \<longleftrightarrow> distinct (map sub_connection (subscribers st))
     \<and> list_all (\<lambda>(c, ch). length (queued ch) \<le> SUBSCRIBER_QUEUE_CAPACITY) (channels st)"

lemma subscribe_delivery: "delivery_inv st \<Longrightarrow> delivery_inv (subscribe conn sid b st)"
  by (auto simp: delivery_inv_def subscribe_def distinct_map_filter)

lemma unsubscribe_delivery: "delivery_inv st \<Longrightarrow> delivery_inv (unsubscribe conn st)"
  by (auto simp: delivery_inv_def unsubscribe_def distinct_map_filter)

lemma disconnect_delivery: "delivery_inv st \<Longrightarrow> delivery_inv (disconnect_session_subscribers sid st)"
  by (auto simp: delivery_inv_def disconnect_session_subscribers_def distinct_map_filter)

lemma offer_events_bounded:
  "length (queued ch) \<le> SUBSCRIBER_QUEUE_CAPACITY
    \<Longrightarrow> length (queued (snd (offer_events sid es ch))) \<le> SUBSCRIBER_QUEUE_CAPACITY"
  by (simp add: offer_events_spec)

lemma retain_bounded:
  "list_all (\<lambda>(c, ch). length (queued ch) \<le> SUBSCRIBER_QUEUE_CAPACITY) chs
    \<Longrightarrow> retain_subscribers es ss chs = (kept, chs', shut)
    \<Longrightarrow> list_all (\<lambda>(c, ch). length (queued ch) \<le> SUBSCRIBER_QUEUE_CAPACITY) chs'"
proof (induction ss arbitrary: chs kept chs' shut)
  case Nil
  then show ?case by simp
next
  case (Cons s ss)
  let ?c = "channel_of chs (sub_connection s)"
  obtain r ch where o: "offer_events (sub_session s) es ?c = (r, ch)" by fastforce
  obtain k2 c2 x2 where rec: "retain_subscribers es ss (al_modify (sub_connection s) (\<lambda>_. ch) chs) = (k2, c2, x2)"
    by (metis prod_cases3)
  have "length (queued ?c) \<le> SUBSCRIBER_QUEUE_CAPACITY"
    using Cons.prems(1) by (auto simp: channel_of_def list_all_iff split: option.split dest: map_of_SomeD)
  then have "length (queued ch) \<le> SUBSCRIBER_QUEUE_CAPACITY"
    using offer_events_bounded [of ?c "sub_session s" es] by (simp add: o)
  then have "list_all (\<lambda>(c, ch). length (queued ch) \<le> SUBSCRIBER_QUEUE_CAPACITY)
      (al_modify (sub_connection s) (\<lambda>_. ch) chs)"
    using Cons.prems(1) by (auto simp: list_all_iff al_modify_def split: if_splits)
  from Cons.IH [OF this rec] show ?case using Cons.prems(2) by (simp add: o rec)
qed

lemma broadcast_delivery:
  assumes "delivery_inv st"
  shows "delivery_inv (broadcast es st)"
proof -
  obtain kept chs shut where r: "retain_subscribers es (subscribers st) (channels st) = (kept, chs, shut)"
    by (metis prod_cases3)
  have d: "distinct (map sub_connection (subscribers st))" using assms by (simp add: delivery_inv_def)
  show ?thesis
    using assms retain_bounded [OF _ r] conjunct1 [OF retain_subscribers_spec [OF d r]]
    by (simp add: delivery_inv_def broadcast_def r distinct_map_filter)
qed

section \<open>Accounting of connections\<close>

definition total :: "(uuid \<times> nat) list \<Rightarrow> nat" where
  "total m = sum_list (map snd m)"

lemma total_delete: "distinct_keys m \<Longrightarrow> map_of m k = Some n \<Longrightarrow> total (AList.delete k m) + n = total m"
  by (induction m) (auto simp: total_def distinct_keys_def delete_absent split: if_splits)

lemma total_update:
  "distinct_keys m \<Longrightarrow> total (AList.update k v m) + (case map_of m k of Some n \<Rightarrow> n | None \<Rightarrow> 0) = total m + v"
  by (induction m) (auto simp: total_def distinct_keys_def split: option.splits)

lemma total_modify: "distinct_keys m \<Longrightarrow> map_of m k = Some n \<Longrightarrow> total (al_modify k (\<lambda>_. v) m) + n = total m + v"
proof (induction m)
  case (Cons a m)
  obtain b x where a: "a = (b, x)" by fastforce
  have "al_modify k (\<lambda>_. v) m = m" if "k \<notin> fst ` set m"
    using that by (induction m) (auto simp: al_modify_def)
  then show ?case using Cons
    by (cases "k = b") (auto simp: a total_def distinct_keys_def al_modify_def)
qed simp

definition connections_inv :: "daemon_state \<Rightarrow> bool" where
  "connections_inv st \<longleftrightarrow> distinct_keys (client_connections st) \<and> clients st = total (client_connections st)
     \<and> (\<forall>c n. map_of (client_connections st) c = Some n \<longrightarrow> 0 < n)
     \<and> (idle_since st = None \<longleftrightarrow> 0 < clients st)"

lemma total_member: "map_of m k = Some n \<Longrightarrow> n \<le> total m"
  by (induction m) (auto simp: total_def split: if_splits)

lemma connected_inv:
  assumes "connections_inv st" and "clients st < USIZE_TOP"
  shows "connections_inv (client_connected c st)"
proof -
  let ?n = "case map_of (client_connections st) c of Some n \<Rightarrow> n | None \<Rightarrow> 0"
  have n: "?n \<le> total (client_connections st)" by (auto split: option.split intro: total_member)
  have d: "distinct_keys (client_connections st)" "clients st = total (client_connections st)"
    using assms(1) by (simp_all add: connections_inv_def)
  have e: "min (?n + 1) USIZE_TOP = ?n + 1" "min (clients st + 1) USIZE_TOP = clients st + 1"
    using n d assms(2) by auto
  have "total (AList.update c (?n + 1) (client_connections st)) = total (client_connections st) + 1"
    using total_update [OF d(1), of c "?n + 1"] by simp
  then show ?thesis
    using assms(1) d unfolding connections_inv_def client_connected_def e
    by (auto simp: al.wf_put al.look_put_if split: if_splits)
qed

lemma disconnected_inv:
  assumes "connections_inv st" and "map_of (client_connections st) c = Some n"
  shows "connections_inv (client_disconnected c now st)"
proof -
  have d: "distinct_keys (client_connections st)" "clients st = total (client_connections st)" "0 < n"
    using assms by (auto simp: connections_inv_def)
  have n: "n \<le> clients st" using total_member [OF assms(2)] d(2) by simp
  show ?thesis
  proof (cases "n = 1")
    case True
    have "total (AList.delete c (client_connections st)) = clients st - 1"
      using total_delete [OF d(1) assms(2)] d(2) True by simp
    then show ?thesis
      using assms d n True by (auto simp: connections_inv_def client_disconnected_def Let_def al.wf_del
          al.look_del_if split: if_splits)
  next
    case False
    then have "1 < n" using d(3) by simp
    moreover have "total (al_modify c (\<lambda>_. n - 1) (client_connections st)) = clients st - 1"
      using total_modify [OF d(1) assms(2), of "n - 1"] d(2,3) by simp
    ultimately show ?thesis
      using assms d n by (auto simp: connections_inv_def client_disconnected_def Let_def
          map_of_al_modify split: if_splits)
  qed
qed

section \<open>The network side of every operation\<close>

definition net :: "daemon_state \<Rightarrow> subscriber list \<times> (uuid \<times> channel) list \<times> (uuid \<times> nat) list \<times> nat \<times> nat option" where
  "net st = (subscribers st, channels st, client_connections st, clients st, idle_since st)"

text \<open>An operation on sessions only broadcasts and disconnects.\<close>

inductive net_steps :: "daemon_state \<Rightarrow> daemon_state \<Rightarrow> bool" where
  same: "net t = net st \<Longrightarrow> net_steps st t"
| event: "net_steps st t \<Longrightarrow> net_steps st (broadcast es t)"
| hangup: "net_steps st t \<Longrightarrow> net_steps st (disconnect_session_subscribers sid t)"
| frame: "net_steps st t \<Longrightarrow> net u = net t \<Longrightarrow> net_steps st u"

lemma net_refl [simp, intro]: "net_steps st st"
  by (rule same) simp

lemma net_broadcast_cong: "net t = net u \<Longrightarrow> net (broadcast es t) = net (broadcast es u)"
  by (simp add: net_def broadcast_def split: prod.split)

lemma net_disconnect_cong:
  "net t = net u \<Longrightarrow> net (disconnect_session_subscribers sid t) = net (disconnect_session_subscribers sid u)"
  by (simp add: net_def disconnect_session_subscribers_def)

lemma net_trans: "net_steps t u \<Longrightarrow> net_steps st t \<Longrightarrow> net_steps st u"
  by (induction rule: net_steps.induct) (auto intro: net_steps.intros)

lemma connections_broadcast: "connections_inv (broadcast es t) = connections_inv t"
  by (cases "retain_subscribers es (subscribers t) (channels t)") (simp add: connections_inv_def broadcast_def)

lemma connections_disconnect: "connections_inv (disconnect_session_subscribers sid t) = connections_inv t"
  by (simp add: connections_inv_def disconnect_session_subscribers_def)

lemma net_inv_cong:
  assumes "net t = net st"
  shows "delivery_inv t = delivery_inv st" "connections_inv t = connections_inv st"
proof -
  have "subscribers t = subscribers st" "channels t = channels st" "client_connections t = client_connections st"
      "clients t = clients st" "idle_since t = idle_since st"
    using assms by (simp_all only: net_def prod.inject)
  then show "delivery_inv t = delivery_inv st" "connections_inv t = connections_inv st"
    by (simp_all only: delivery_inv_def connections_inv_def)
qed

lemma net_steps_inv:
  "net_steps st t \<Longrightarrow> delivery_inv st \<and> connections_inv st \<Longrightarrow> delivery_inv t \<and> connections_inv t"
proof (induction rule: net_steps.induct)
  case (same t st)
  then show ?case using net_inv_cong by blast
next
  case (event st t es)
  then show ?case using broadcast_delivery connections_broadcast by blast
next
  case (hangup st t sid)
  then show ?case using disconnect_delivery connections_disconnect by blast
next
  case (frame st t u)
  then show ?case using net_inv_cong by blast
qed

lemma net_put [simp]: "net (put_session sid s st) = net st"
  by (simp add: net_def put_session_def)

lemma net_updates [simp]:
  "net (st\<lparr>session_claimants := c\<rparr>) = net st" "net (st\<lparr>priority_session := p\<rparr>) = net st"
  "net (st\<lparr>scheduler_priority := p\<rparr>) = net st" "net (st\<lparr>pty_input := i\<rparr>) = net st"
  "net (st\<lparr>birth_tombstones := b\<rparr>) = net st" "net (st\<lparr>hook_store := l\<rparr>) = net st"
  by (simp_all add: net_def)

lemma net_disconnect_all: "net_steps st t \<Longrightarrow> net_steps st (disconnect_all is t)"
  by (induction "is" arbitrary: t) (auto simp: disconnect_all_def intro: hangup)

lemma net_remove: "net_steps st (remove_session sid s st)"
proof -
  let ?st1 = "st\<lparr>sessions := AList.delete sid (sessions st)\<rparr>"
  let ?st2 = "case birth_client s of
      Some creator \<Rightarrow> ?st1\<lparr>birth_tombstones := AList.update sid creator (birth_tombstones ?st1)\<rparr> | None \<Rightarrow> ?st1"
  let ?st3 = "disconnect_session_subscribers sid (broadcast [ExitEvent sid] ?st2)"
  have "net_steps st ?st2" by (rule same) (simp add: net_def split: option.split)
  then have "net_steps st ?st3" by (intro hangup event)
  moreover have "net (remove_session sid s st) = net ?st3"
    unfolding remove_session_def Let_def by (simp split: if_split)
  ultimately show ?thesis by (rule frame)
qed

lemma net_kill: "kill closer sid st = (b, t) \<Longrightarrow> net_steps st t"
proof -
  assume k: "kill closer sid st = (b, t)"
  have p: "net_steps st (put_session sid s st)" for s by (rule same) simp
  show ?thesis
  proof (cases "session_of st sid")
    case None
    then show ?thesis using k by (simp add: kill_def)
  next
    case (Some s)
    let ?s = "request_retirement closer s"
    have "net_steps st (remove_session sid ?s (put_session sid ?s st))" by (rule net_trans [OF net_remove p])
    then show ?thesis using k Some p [of ?s] by (simp add: kill_def Let_def split: if_splits)
  qed
qed

lemma net_kill_all: "kill_all closer is st = (ks, t) \<Longrightarrow> net_steps st t"
  by (induction "is" arbitrary: st ks t) (auto split: prod.splits, metis net_trans net_kill)

lemma net_pump_loop: "pump_loop e is n st = (ev, rf, t) \<Longrightarrow> net t = net st"
proof (induction "is" arbitrary: n st ev rf t)
  case (Cons i "is")
  then show ?case by (auto simp: Let_def split: option.splits if_splits prod.splits)
qed simp

lemma net_checkpoint_loop: "checkpoint_loop e is st = (tg, ev, rf, t) \<Longrightarrow> net t = net st"
proof (induction "is" arbitrary: st tg ev rf t)
  case (Cons i "is")
  then show ?case by (auto simp: Let_def split: option.splits prod.splits)
qed simp

lemma net_pump: "pump_output e st = (ev, t) \<Longrightarrow> net_steps st t"
  by (auto simp: pump_output_def split: prod.splits dest!: net_pump_loop intro: net_disconnect_all same)

lemma net_checkpoint: "take_dirty_scrollback_targets e st = (tg, t) \<Longrightarrow> net_steps st t"
  by (auto simp: take_dirty_scrollback_targets_def split: prod.splits dest!: net_checkpoint_loop
      intro: event net_disconnect_all same)

lemma net_spawn:
  assumes "handle_spawn e client sp d st = (r, t)"
  shows "net_steps st t"
proof -
  have reg: "net (record_birth c i u) = net u" "net (register_session e i sq p u) = net u"
      "net (insert_session i sq u) = net u" for c i e sq p u
    by (simp_all add: net_def record_birth_def register_session_def insert_session_def Let_def)
  have "net u = net st" if "spawn_with_pty e sq d' st = (r', u)" for sq d' r' u
    using spawn_cases [OF that] reg by auto
  then have "net t = net st"
    using assms reg by (auto simp: handle_spawn_def Let_def split: option.splits if_splits prod.splits sum.splits)
  then show ?thesis by (rule same)
qed

lemma net_attach:
  assumes "handle_attach e client sid st = (r, t)"
  shows "net_steps st t"
proof -
  have p: "net_steps st (put_session sid s st)" for s by (rule same) simp
  have "net_steps st ((broadcast es (put_session sid s st))\<lparr>session_claimants := c\<rparr>)" for es s c
    by (rule frame [OF event [OF p]]) (simp add: net_def)
  then show ?thesis using assms hangup [OF p]
    by (auto simp: handle_attach_def Let_def split: option.splits if_splits prod.splits sum.splits)
qed

lemma net_request:
  assumes "handle_request_for_client e client req st = (r, t)"
  shows "net_steps st t"
proof (cases req)
  case (Kill sid)
  then show ?thesis using assms
    by (auto simp: handle_kill_def split: option.splits if_splits prod.splits bool.splits intro: net_kill)
next
  case (CloseBirth sid)
  then show ?thesis using assms
    by (auto simp: handle_close_birth_def split: option.splits if_splits prod.splits bool.splits
        intro: net_kill same)
next
  case (ReconcileLive ids)
  obtain ks where "reconcile_live (env_closer e) client ids st = (ks, t)"
    using assms ReconcileLive by (auto split: prod.splits)
  then obtain st1 os kl where "st1 = st\<lparr>session_claimants := reclaim client ids st\<rparr>"
      "kill_all (env_closer e) os st1 = (kl, t)"
    using reconcile_split by metis
  moreover have "net_steps st (st\<lparr>session_claimants := reclaim client ids st\<rparr>)" by (rule same) simp
  ultimately show ?thesis using net_trans [OF net_kill_all] by metis
qed (use assms in \<open>auto simp: write_to_def resize_in_registry_def Let_def
      split: option.splits if_splits prod.splits bool.splits intro: net_spawn net_attach same\<close>)

section \<open>Queues, counts and the idle shutdown\<close>

text \<open>Beside the events of the registry: a handshake opens a queue, the writer thread takes from it and ends.\<close>

datatype 'h net_event = OnRegistry "'h server_event" | ChannelOpened uuid | EventWritten uuid | WriterStopped uuid

definition open_channel :: "uuid \<Rightarrow> daemon_state \<Rightarrow> daemon_state" where
  "open_channel conn st = st\<lparr>channels := AList.update conn \<lparr>queued = [], receiver_alive = True\<rparr> (channels st)\<rparr>"

text \<open>A client leaves only after it came, and no more than 2^64 - 1 connections are open at once.\<close>

definition net_admitted :: "daemon_state \<Rightarrow> 'h server_event \<Rightarrow> bool" where
  "net_admitted st ev = (case ev of
      ClientConnected c \<Rightarrow> clients st < USIZE_TOP
    | ClientGone c now \<Rightarrow> map_of (client_connections st) c \<noteq> None
    | _ \<Rightarrow> True)"

fun net_act :: "daemon_state \<Rightarrow> 'h net_event \<Rightarrow> daemon_state" where
  "net_act st (OnRegistry ev) = (if net_admitted st ev then server_act st ev else st)"
| "net_act st (ChannelOpened conn) = open_channel conn st"
| "net_act st (EventWritten conn) = st\<lparr>channels := al_modify conn (\<lambda>ch. ch\<lparr>queued := tl (queued ch)\<rparr>) (channels st)\<rparr>"
| "net_act st (WriterStopped conn) = st\<lparr>channels := al_modify conn (\<lambda>ch. ch\<lparr>receiver_alive := False\<rparr>) (channels st)\<rparr>"

definition net_run :: "nat \<Rightarrow> 'h net_event list \<Rightarrow> daemon_state" where
  "net_run now es = foldl net_act (new_state now) es"

definition net_inv :: "daemon_state \<Rightarrow> bool" where
  "net_inv st \<longleftrightarrow> delivery_inv st \<and> connections_inv st"

lemma net_on_session: "net_steps st (on_session sid f st)"
  by (auto simp: on_session_def intro: same split: option.split)

lemma net_finish: "net_steps st (finish_acknowledged_retirements closer st)"
  unfolding finish_acknowledged_retirements_def by (metis net_kill_all prod.collapse)

lemma connection_delivery: "delivery_inv (client_connected c st) = delivery_inv st"
    "delivery_inv (client_disconnected c now st) = delivery_inv st"
    "connections_inv (subscribe conn sid b st) = connections_inv st"
    "connections_inv (unsubscribe conn st) = connections_inv st"
  by (simp_all add: delivery_inv_def connections_inv_def client_connected_def client_disconnected_def
      subscribe_def unsubscribe_def Let_def split: option.split)

lemma net_server_inv:
  assumes "net_inv st" and "net_admitted st ev"
  shows "net_inv (server_act st ev)"
proof (cases ev)
  case (Request e c req)
  have "net_steps st (snd (handle_request_for_client e c req st))"
    by (rule net_request [of e c req st "fst (handle_request_for_client e c req st)"]) simp
  then show ?thesis using Request assms(1) net_steps_inv by (auto simp: net_inv_def)
next
  case (Pump e)
  obtain es t where p: "pump_output e st = (es, t)" by fastforce
  show ?thesis using Pump assms(1) net_steps_inv [OF event [OF net_pump [OF p]]] by (simp add: net_inv_def p)
next
  case (CheckpointBoundary e)
  obtain tg t where p: "take_dirty_scrollback_targets e st = (tg, t)" by fastforce
  show ?thesis using CheckpointBoundary assms(1) net_steps_inv [OF net_checkpoint [OF p]] by (simp add: net_inv_def p)
next
  case (ClientConnected c)
  then show ?thesis using assms connected_inv by (simp add: net_inv_def net_admitted_def connection_delivery)
next
  case (ClientGone c now)
  then obtain n where "map_of (client_connections st) c = Some n" using assms(2) by (auto simp: net_admitted_def)
  then show ?thesis using ClientGone assms(1) disconnected_inv by (simp add: net_inv_def connection_delivery)
next
  case (Subscribed conn sid b)
  then show ?thesis using assms(1) subscribe_delivery by (simp add: net_inv_def connection_delivery)
next
  case (Unsubscribed conn)
  then show ?thesis using assms(1) unsubscribe_delivery by (simp add: net_inv_def connection_delivery)
next
  case (FinishRetirements closer)
  show ?thesis using FinishRetirements assms(1) net_steps_inv [OF net_finish] by (simp add: net_inv_def)
next
  case (LedgerChanged l)
  have "net_steps st (st\<lparr>hook_store := l\<rparr>)" by (rule same) simp
  from net_steps_inv [OF this] show ?thesis using LedgerChanged assms(1) by (simp add: net_inv_def)
next
  case (Acked sid n)
  show ?thesis using Acked assms(1) net_steps_inv [OF net_on_session] by (simp add: net_inv_def)
next
  case (PersistFailed sid)
  show ?thesis using PersistFailed assms(1) net_steps_inv [OF net_on_session] by (simp add: net_inv_def)
next
  case (TerminalChanged sid p)
  show ?thesis using TerminalChanged assms(1) net_steps_inv [OF net_on_session] by (simp add: net_inv_def)
qed

lemma bounded_modify:
  assumes "list_all (\<lambda>(c, ch). length (queued ch) \<le> n) chs" and "\<And>ch. length (queued (f ch)) \<le> length (queued ch)"
  shows "list_all (\<lambda>(c, ch). length (queued ch) \<le> n) (al_modify k f chs)"
  using assms(1)
proof (induction chs)
  case (Cons a chs)
  then show ?case using le_trans [OF assms(2)] by (cases a) (auto simp: al_modify_def)
qed (simp add: al_modify_def)

lemma bounded_update:
  "list_all (\<lambda>(c, ch). length (queued ch) \<le> n) chs \<Longrightarrow> length (queued ch) \<le> n
    \<Longrightarrow> list_all (\<lambda>(c, ch). length (queued ch) \<le> n) (AList.update k ch chs)"
  by (induction chs) auto

lemma net_act_inv: "net_inv st \<Longrightarrow> net_inv (net_act st ev)"
proof (cases ev)
  case (OnRegistry e)
  then show "net_inv st \<Longrightarrow> ?thesis" by (auto intro: net_server_inv)
qed (auto simp: net_inv_def delivery_inv_def connections_inv_def open_channel_def intro: bounded_modify bounded_update)

lemma net_start: "net_inv (new_state now)"
  by (simp add: net_inv_def delivery_inv_def connections_inv_def new_state_def distinct_keys_def total_def)

interpretation network: guarded_machine "new_state now" net_act net_inv for now
  by unfold_locales (rule net_start, rule net_act_inv)

lemma net_run_inv: "net_inv (net_run now es)"
  unfolding net_run_def by (rule network.run_inv)

text \<open>
  C23: Slow consumers cannot grow the daemon, and clients are counted exactly. In every reachable
  state every event queue holds at most 64 events, a connection has at most one subscription, the
  number of clients is the sum of the open connections of all instances, and the idle clock runs
  exactly when nobody is connected.\<close>
theorem queues_and_clients_bounded:
  "list_all (\<lambda>(c, ch). length (queued ch) \<le> 64) (channels (net_run now es))
   \<and> distinct (map sub_connection (subscribers (net_run now es)))
   \<and> clients (net_run now es) = sum_list (map snd (client_connections (net_run now es)))
   \<and> (idle_since (net_run now es) = None) = (0 < clients (net_run now es))"
  using net_run_inv [of now es]
  unfolding net_inv_def delivery_inv_def connections_inv_def total_def SUBSCRIBER_QUEUE_CAPACITY_def by blast

text \<open>
  The daemon never exits under a running shell. In every reachable state the shutdown condition,
  even when a client has asked for it, implies that no session is registered; and without such a
  request it implies that no instance has an open connection and that the adoption timeout of two
  minutes has passed since the last one left.\<close>
theorem shutdown_only_when_abandoned:
  assumes "should_shutdown_with_request clock asked (net_run now es)"
  shows "sessions (net_run now es) = []
    \<and> (asked \<or> (client_connections (net_run now es) = []
        \<and> (\<exists>since. idle_since (net_run now es) = Some since \<and> 120000 \<le> clock - since)))"
proof -
  let ?st = "net_run now es"
  have c: "clients ?st = total (client_connections ?st)" "distinct_keys (client_connections ?st)"
      "\<forall>c n. map_of (client_connections ?st) c = Some n \<longrightarrow> 0 < n"
    using net_run_inv [of now es] unfolding net_inv_def connections_inv_def by blast+
  have "client_connections ?st = []" if "clients ?st = 0"
  proof (cases "client_connections ?st")
    case (Cons a m)
    obtain k n where a: "a = (k, n)" by fastforce
    have "0 < n" using c(3) Cons a by (metis fst_conv map_of_Cons_code(2))
    then show ?thesis using c(1) that Cons a by (simp add: total_def)
  qed simp
  then show ?thesis
    using assms by (auto simp: should_shutdown_with_request_def should_shutdown_def ADOPTION_TIMEOUT_def
        split: if_splits option.splits)
qed

end
