(* ===== verification/DaemonConnection.thy ===== *)
theory DaemonConnection
  imports DaemonDelivery
begin

text \<open>
  The loop that serves one connection (\<open>serve_connection\<close> of \<open>src/src/daemon/server.rs\<close>), from the
  handshake to the cleanup, and the cycle of the pump thread. A line is what the reader of the
  protocol makes of it; each line comes with the surroundings in which it is handled. What is written
  directly to the socket is collected in \<open>conn_replies\<close>.
\<close>

section \<open>One connection\<close>

datatype conn_input = Frame request | Unreadable | BrokenLine | EndOfStream

record connection =
  conn_id :: uuid
  conn_client :: "uuid option"
  conn_open :: bool
  conn_replies :: "response list"
  conn_shutdown :: bool

definition new_connection :: "uuid \<Rightarrow> connection" where
  "new_connection conn = \<lparr>conn_id = conn, conn_client = None, conn_open = True, conn_replies = [], conn_shutdown = False\<rparr>"

definition refuse :: "bytes \<Rightarrow> bool \<Rightarrow> connection \<Rightarrow> connection" where
  "refuse m stay c = c\<lparr>conn_replies := conn_replies c @ [ErrorResponse m], conn_open := stay\<rparr>"

definition welcome_response :: "daemon_state \<Rightarrow> response" where
  "welcome_response st = Welcome PROTOCOL_VERSION True True (hook_store st \<noteq> None)"

definition queue_response :: "uuid \<Rightarrow> response \<Rightarrow> daemon_state \<Rightarrow> bool \<times> daemon_state" where
  "queue_response conn r st = (case try_send (channel_of (channels st) conn) r of
     (res, ch) \<Rightarrow> (res = Sent, st\<lparr>channels := al_modify conn (\<lambda>_. ch) (channels st)\<rparr>))"

fun attach_target :: "request \<Rightarrow> uuid option" where
  "attach_target (Attach sid) = Some sid"
| "attach_target _ = None"

fun is_attached :: "response \<Rightarrow> bool" where
  "is_attached (Attached i s q al rdy g t) = True"
| "is_attached _ = False"

text \<open>The branch without a client: only a handshake is understood.\<close>

definition serve_handshake :: "bytes \<Rightarrow> request \<Rightarrow> connection \<Rightarrow> daemon_state \<Rightarrow> connection \<times> daemon_state" where
  "serve_handshake token req c st = (case req of
      Hello version provided client \<Rightarrow>
        if handshake_ok version provided token
        then let st1 = open_channel (conn_id c) (client_connected client st)
             in (c\<lparr>conn_client := Some client, conn_replies := conn_replies c @ [welcome_response st1]\<rparr>, st1)
        else (refuse (bytes_of ''handshake rechazado'') False c, st)
    | _ \<Rightarrow> (refuse (bytes_of ''falta el handshake'') False c, st))"

text \<open>A snapshot is queued first; only then is the connection subscribed.\<close>

definition queue_attached :: "uuid \<Rightarrow> bool \<Rightarrow> request \<Rightarrow> response \<Rightarrow> daemon_state \<Rightarrow> bool \<times> daemon_state" where
  "queue_attached conn socket req r st =
    (if is_attached r then
       (case attach_target req of
          None \<Rightarrow> (False, st)
        | Some sid \<Rightarrow> (case queue_response conn r st of
            (ok, st1) \<Rightarrow> (ok, if ok then subscribe conn sid socket st1 else st1)))
     else (False, st))"

text \<open>The branch of a client: the response goes through the queue, after the subscription.\<close>

definition serve_request :: "'h server_env \<Rightarrow> bool \<Rightarrow> uuid \<Rightarrow> request \<Rightarrow> connection \<Rightarrow> daemon_state
    \<Rightarrow> connection \<times> daemon_state" where
  "serve_request e socket client req c st =
    (let (r, st1) = handle_request_for_client e client req st;
         (delivered, st2) = queue_attached (conn_id c) socket req r st1;
         (sent, st3) = (if delivered then (True, st2) else queue_response (conn_id c) r st2)
     in if \<not> sent then (c\<lparr>conn_open := False\<rparr>, st3\<lparr>closed_sockets := closed_sockets st3 @ [conn_id c]\<rparr>)
        else if req = ShutdownIfIdle \<and> sessions st3 = []
        then (c\<lparr>conn_open := False, conn_shutdown := True\<rparr>, st3)
        else (c, st3))"

definition serve_line :: "bytes \<Rightarrow> bool \<Rightarrow> 'h server_env \<Rightarrow> conn_input \<Rightarrow> connection \<Rightarrow> daemon_state
    \<Rightarrow> connection \<times> daemon_state" where
  "serve_line token socket e i c st = (case i of
      EndOfStream \<Rightarrow> (c\<lparr>conn_open := False\<rparr>, st)
    | BrokenLine \<Rightarrow> (refuse (bytes_of ''l'' @ [0xC3, 0xAD] @ bytes_of ''nea del protocolo inv'' @ [0xC3, 0xA1]
          @ bytes_of ''lida o demasiado grande'') False c, st)
    | Unreadable \<Rightarrow> (refuse (bytes_of ''mensaje ilegible'') True c, st)
    | Frame req \<Rightarrow> (case conn_client c of
          None \<Rightarrow> serve_handshake token req c st
        | Some client \<Rightarrow> serve_request e socket client req c st))"

fun serve_loop :: "bytes \<Rightarrow> bool \<Rightarrow> ('h server_env \<times> conn_input) list \<Rightarrow> connection \<Rightarrow> daemon_state
    \<Rightarrow> connection \<times> daemon_state" where
  "serve_loop token socket [] c st = (c, st)"
| "serve_loop token socket ((e, i) # is) c st =
    (if \<not> conn_open c then (c, st)
     else case serve_line token socket e i c st of (c', st') \<Rightarrow> serve_loop token socket is c' st')"

definition finish_connection :: "nat \<Rightarrow> connection \<times> daemon_state \<Rightarrow> connection \<times> daemon_state" where
  "finish_connection now r = (case r of (c, st) \<Rightarrow> (case conn_client c of
      None \<Rightarrow> (c, st)
    | Some client \<Rightarrow> (c, client_disconnected client now (unsubscribe (conn_id c) st))))"

definition serve_connection :: "bytes \<Rightarrow> bool \<Rightarrow> ('h server_env \<times> conn_input) list \<Rightarrow> uuid \<Rightarrow> nat \<Rightarrow> daemon_state
    \<Rightarrow> connection \<times> daemon_state" where
  "serve_connection token socket inputs conn now st =
     finish_connection now (serve_loop token socket inputs (new_connection conn) st)"

section \<open>The handshake is a gate\<close>

fun valid_hello :: "bytes \<Rightarrow> conn_input \<Rightarrow> bool" where
  "valid_hello token (Frame (Hello v provided client)) = handshake_ok v provided token"
| "valid_hello token _ = False"

fun is_error :: "response \<Rightarrow> bool" where
  "is_error (ErrorResponse m) = True"
| "is_error _ = False"

lemma handshake_refused:
  "conn_client c = None \<Longrightarrow> \<not> valid_hello token i \<Longrightarrow> serve_line token socket e i c st = (c', st')
    \<Longrightarrow> st' = st \<and> conn_client c' = None
      \<and> (list_all is_error (conn_replies c) \<longrightarrow> list_all is_error (conn_replies c'))"
  by (cases i) (auto simp: serve_line_def serve_handshake_def refuse_def split: request.splits if_splits)

lemma loop_refused:
  "conn_client c = None \<Longrightarrow> list_all (\<lambda>(e, i). \<not> valid_hello token i) is
    \<Longrightarrow> list_all is_error (conn_replies c) \<Longrightarrow> serve_loop token socket is c st = (c', st')
    \<Longrightarrow> st' = st \<and> conn_client c' = None \<and> list_all is_error (conn_replies c')"
proof (induction "is" arbitrary: c st)
  case (Cons a "is")
  obtain e i where a: "a = (e, i)" by fastforce
  obtain c1 st1 where l: "serve_line token socket e i c st = (c1, st1)" by fastforce
  show ?case
  proof (cases "conn_open c")
    case True
    then show ?thesis
      using Cons.prems Cons.IH [of c1 st1] handshake_refused [OF Cons.prems(1) _ l] by (simp add: a l)
  next
    case False
    then show ?thesis using Cons.prems by (simp add: a)
  qed
qed simp

text \<open>
  C28: Nothing happens before the handshake. A connection that never presents the current protocol
  version with the daemon's token, whatever lines it sends, in whatever surroundings, leaves the
  whole registry untouched: no session, client, subscription or queue changes, and all it is ever
  sent are error messages.\<close>
theorem unauthenticated_connection_is_inert:
  assumes "list_all (\<lambda>(e, i). \<not> valid_hello token i) inputs"
  shows "snd (serve_connection token socket inputs conn now st) = st
    \<and> list_all is_error (conn_replies (fst (serve_connection token socket inputs conn now st)))"
proof -
  obtain c t where l: "serve_loop token socket inputs (new_connection conn) st = (c, t)" by fastforce
  have "t = st \<and> conn_client c = None \<and> list_all is_error (conn_replies c)"
    by (rule loop_refused [OF _ assms _ l]) (simp_all add: new_connection_def)
  then show ?thesis by (simp add: serve_connection_def finish_connection_def l)
qed

section \<open>A connection leaves no trace\<close>

definition clients_of :: "daemon_state \<Rightarrow> nat \<times> (uuid \<times> nat) list" where
  "clients_of st = (clients st, client_connections st)"

lemma net_steps_clients: "net_steps st t \<Longrightarrow> clients_of t = clients_of st"
proof (induction rule: net_steps.induct)
  case (event st t es)
  then show ?case by (cases "retain_subscribers es (subscribers t) (channels t)") (simp add: clients_of_def broadcast_def)
qed (simp_all add: clients_of_def net_def disconnect_session_subscribers_def)

lemma clients_of_fields [simp]:
  "clients_of (subscribe conn sid b st) = clients_of st" "clients_of (unsubscribe conn st) = clients_of st"
  "clients_of (open_channel conn st) = clients_of st"
  "clients_of (st\<lparr>closed_sockets := x\<rparr>) = clients_of st" "clients_of (st\<lparr>channels := y\<rparr>) = clients_of st"
  by (simp_all add: clients_of_def subscribe_def unsubscribe_def open_channel_def)

lemma queue_response_clients: "queue_response conn r st = (b, t) \<Longrightarrow> clients_of t = clients_of st"
  by (auto simp: queue_response_def split: prod.splits)

lemma served_clients:
  assumes "serve_request e socket client req c st = (c', t)"
  shows "clients_of t = clients_of st \<and> conn_client c' = conn_client c \<and> conn_id c' = conn_id c"
proof -
  obtain r st1 where h: "handle_request_for_client e client req st = (r, st1)" by fastforce
  have 1: "clients_of st1 = clients_of st" by (rule net_steps_clients [OF net_request [OF h]])
  obtain d st2 where q: "queue_attached (conn_id c) socket req r st1 = (d, st2)" by fastforce
  have 2: "clients_of st2 = clients_of st1"
    using q by (auto simp: queue_attached_def split: if_splits option.splits prod.splits dest!: queue_response_clients)
  obtain s st3 where w: "(if d then (True, st2) else queue_response (conn_id c) r st2) = (s, st3)" by fastforce
  have 3: "clients_of st3 = clients_of st2" using w by (auto split: if_splits dest!: queue_response_clients)
  show ?thesis
    using assms 1 2 3 unfolding serve_request_def h q w Let_def prod.case by (auto split: if_splits)
qed

text \<open>While a client is authenticated, its connection is counted once more than before.\<close>

definition counted :: "daemon_state \<Rightarrow> connection \<Rightarrow> daemon_state \<Rightarrow> bool" where
  "counted st0 c st \<longleftrightarrow> clients_of st
     = (case conn_client c of None \<Rightarrow> clients_of st0 | Some client \<Rightarrow> clients_of (client_connected client st0))"

lemma counted_cong: "clients_of t = clients_of st \<Longrightarrow> clients_of (client_connected cl t) = clients_of (client_connected cl st)"
  by (simp add: clients_of_def client_connected_def)

lemma line_counted:
  assumes "counted st0 c st" and "serve_line token socket e i c st = (c', t)"
  shows "counted st0 c' t \<and> conn_id c' = conn_id c"
proof (cases "\<exists>req client. i = Frame req \<and> conn_client c = Some client")
  case True
  then obtain req client where r: "i = Frame req" "conn_client c = Some client" by blast
  then have "serve_request e socket client req c st = (c', t)" using assms(2) by (simp add: serve_line_def)
  from served_clients [OF this] show ?thesis using assms(1) by (simp add: counted_def)
next
  case False
  then show ?thesis
    using assms counted_cong [of st st0]
    by (cases i) (auto simp: counted_def serve_line_def serve_handshake_def refuse_def Let_def
        split: option.splits request.splits if_splits)
qed

lemma loop_counted:
  "counted st0 c st \<Longrightarrow> serve_loop token socket is c st = (c', t) \<Longrightarrow> counted st0 c' t \<and> conn_id c' = conn_id c"
proof (induction "is" arbitrary: c st)
  case (Cons a "is")
  obtain e i where a: "a = (e, i)" by fastforce
  obtain c1 st1 where l: "serve_line token socket e i c st = (c1, st1)" by fastforce
  show ?case
    using Cons.prems Cons.IH [of c1 st1] line_counted [OF Cons.prems(1) l] by (simp add: a l split: if_splits)
qed simp

text \<open>
  A connection leaves no trace. From a state whose connections are counted correctly, serving
  any sequence of lines to the end, authenticated or not, whatever requests were handled, leaves the
  number of clients and the count of every instance as they were, and the connection has no
  subscription left.\<close>
theorem connection_leaves_no_trace:
  assumes i: "connections_inv st" and room: "clients st < USIZE_TOP"
    and free: "conn \<notin> sub_connection ` set (subscribers st)"
    and r: "serve_connection token socket inputs conn now st = (c, t)"
  shows "clients t = clients st
    \<and> (\<forall>k. map_of (client_connections t) k = map_of (client_connections st) k)
    \<and> (conn_client c \<noteq> None \<longrightarrow> conn \<notin> sub_connection ` set (subscribers t))"
proof -
  obtain c1 u where l: "serve_loop token socket inputs (new_connection conn) st = (c1, u)" by fastforce
  have k: "counted st c1 u" "conn_id c1 = conn"
    using loop_counted [OF _ l, of st] by (simp_all add: counted_def new_connection_def)
  show ?thesis
  proof (cases "conn_client c1")
    case None
    then show ?thesis using r k by (simp add: serve_connection_def finish_connection_def l counted_def clients_of_def)
  next
    case (Some client)
    let ?n = "case map_of (client_connections st) client of Some n \<Rightarrow> n | None \<Rightarrow> 0"
    have t: "t = client_disconnected client now (unsubscribe conn u)" "c = c1"
      using r k(2) Some by (simp_all add: serve_connection_def finish_connection_def l)
    have n: "?n \<le> clients st"
      using i by (auto simp: connections_inv_def split: option.split intro: total_member)
    have pos: "map_of (client_connections st) client = Some m \<Longrightarrow> 0 < m" for m
      using i by (simp add: connections_inv_def)
    have v: "clients u = clients st + 1" "map_of (client_connections u) = (map_of (client_connections st))(client \<mapsto> ?n + 1)"
      using k(1) Some room n by (simp_all add: counted_def clients_of_def client_connected_def al.look_put min_def)
    have "conn \<notin> sub_connection ` set (subscribers t)"
      by (auto simp: t client_disconnected_def unsubscribe_def Let_def split: option.split)
    moreover have "clients t = clients st"
      by (simp add: t client_disconnected_def unsubscribe_def Let_def v split: option.split)
    moreover have "map_of (client_connections t) x = map_of (client_connections st) x" for x
      using v pos by (cases "map_of (client_connections st) client")
        (auto simp: t client_disconnected_def unsubscribe_def Let_def al.look_del map_of_al_modify)
    ultimately show ?thesis by blast
  qed
qed

section \<open>The cycle of the pump thread\<close>

text \<open>
  One turn: events are broadcast, checkpoints are captured when due, incremental batches are taken
  (when a checkpoint is due, only those of retiring sessions). The targets are persisted without the
  lock; then the acknowledgements and failures come back.
\<close>

definition cycle_capture :: "'h server_env \<Rightarrow> bool \<Rightarrow> daemon_state
    \<Rightarrow> scrollback_target list \<times> incremental_target list \<times> daemon_state" where
  "cycle_capture e checkpoint_due st =
    (let (events, st1) = pump_output e st;
         st2 = (if events \<noteq> [] then broadcast events st1 else st1);
         (targets, st3) = (if checkpoint_due then take_dirty_scrollback_targets e st2 else ([], st2));
         incremental = (if checkpoint_due
           then filter (\<lambda>t. case session_of st3 (inc_session t) of None \<Rightarrow> False | Some s \<Rightarrow> retirement_requested s)
                  (incremental_scrollback_targets st3)
           else incremental_scrollback_targets st3)
     in (targets, incremental, st3))"

definition apply_acknowledgements :: "(uuid \<times> nat) list \<Rightarrow> uuid list \<Rightarrow> daemon_state \<Rightarrow> daemon_state" where
  "apply_acknowledgements acks failed st =
     foldl (\<lambda>t i. on_session i (\<lambda>s. s\<lparr>scrollback_dirty := True\<rparr>) t)
       (foldl (\<lambda>t (i, n). on_session i (\<lambda>s. acknowledge_persisted s n) t) st acks) failed"

text \<open>A session never has two batches in flight in one turn: its two targets exclude each other.\<close>

lemma checkpoint_target_not_retiring:
  "checkpoint_session ser v sid limit now s = (t, Some g, ev, b) \<Longrightarrow> \<not> retirement_requested s"
  by (auto simp: checkpoint_session_def Let_def split: option.splits if_splits prod.splits sum.splits)

section \<open>Concrete connections\<close>

definition demo_lines :: "(unit server_env \<times> conn_input) list" where
  "demo_lines = [(demo_env, Frame ListSessions), (demo_env, Unreadable), (demo_env, Frame (Kill 5))]"

theorem unauthenticated_connection_is_inert_witness:
  "snd (serve_connection [1] True demo_lines 100 0 demo_state) = demo_state"
proof -
  have "list_all (\<lambda>(e, i). \<not> valid_hello [1] i) demo_lines" by (simp add: demo_lines_def)
  from unauthenticated_connection_is_inert [OF this] show ?thesis by blast
qed

definition demo_session_lines :: "(unit server_env \<times> conn_input) list" where
  "demo_session_lines = [(demo_env, Frame (Hello PROTOCOL_VERSION [1] 8)), (demo_env, Frame ListSessions), (demo_env, EndOfStream)]"

theorem connection_leaves_no_trace_witness:
  "clients (snd (serve_connection [1] True demo_session_lines 100 0 (new_state 0))) = 0"
proof -
  have "connections_inv (new_state 0)" using net_start [of 0] by (simp add: net_inv_def)
  moreover have "clients (new_state 0) < USIZE_TOP" "100 \<notin> sub_connection ` set (subscribers (new_state 0))"
    by (simp_all add: new_state_def USIZE_TOP_def)
  ultimately show ?thesis
    using connection_leaves_no_trace [of "new_state 0" 100 "[1]" True demo_session_lines 0] prod.collapse
    by (metis new_state_def daemon_state.select_convs(6))
qed

text \<open>An abandoned daemon that has waited long enough.\<close>

theorem shutdown_only_when_abandoned_witness:
  "sessions (net_run 0 ([] :: unit net_event list)) = []"
  using shutdown_only_when_abandoned [of 120000 False 0 "[] :: unit net_event list"]
  by (simp add: net_run_def new_state_def should_shutdown_with_request_def should_shutdown_def ADOPTION_TIMEOUT_def)

definition demo_broadcast :: daemon_state where
  "demo_broadcast = (new_state 0)\<lparr>subscribers := [\<lparr>sub_connection = 1, sub_session = 5, sub_socket = True\<rparr>,
      \<lparr>sub_connection = 2, sub_session = 6, sub_socket = True\<rparr>],
    channels := [(1, \<lparr>queued = [], receiver_alive = True\<rparr>), (2, \<lparr>queued = [], receiver_alive = True\<rparr>)]\<rparr>"

theorem broadcast_delivers_own_events_witness:
  "map_of (channels (broadcast [ExitEvent 5, ExitEvent 6] demo_broadcast)) 1
    = Some \<lparr>queued = [ExitEvent 5], receiver_alive = True\<rparr>"
  using broadcast_delivers_own_events [of demo_broadcast "\<lparr>sub_connection = 1, sub_session = 5, sub_socket = True\<rparr>"
      "\<lparr>queued = [], receiver_alive = True\<rparr>" "[ExitEvent 5, ExitEvent 6]"]
  by (simp add: demo_broadcast_def addressed_def)

theorem pump_order_serves_all_witness:
  "hd (pump_order (sessions demo_state) (Some 6)) = 6"
  using pump_order_serves_all [of "sessions demo_state" "Some 6"] by (simp add: demo_state_def)

end
