(* ===== verification/Broker.thy ===== *)
theory Broker
  imports Utf8
begin

text \<open>
  The collaboration broker (\<open>src/src/collab/broker.rs\<close>, \<open>src/src/collab/auth.rs\<close>): shared sessions,
  joins with their throttled password verification, approval by the host, the WebSocket relay,
  presence and cleanup. A sender is the identifier of its connection, whose bounded outbox is part of
  the state. The two clocks (\<open>Instant\<close> and UTC, in milliseconds), random tokens and identifiers, the
  PHC parser and Argon2, and the decoder of envelopes are parameters. A join runs in two phases with
  the verification between them, a socket is authenticated and then registered: jobs and upgrades
  that are under way are kept in the state, so that anything may happen in between.
\<close>

section \<open>Secrets\<close>

text \<open>\<open>constant_time_str_eq\<close>: the accumulated difference of the lengths and of every common position.\<close>

unbundle bit_operations_syntax

fun diff_bytes :: "nat \<Rightarrow> bytes \<Rightarrow> bytes \<Rightarrow> nat" where
  "diff_bytes d (x # xs) (y # ys) = diff_bytes (d OR unat (x XOR y)) xs ys"
| "diff_bytes d _ _ = d"

definition constant_time_str_eq :: "bytes \<Rightarrow> bytes \<Rightarrow> bool" where
  "constant_time_str_eq a b \<longleftrightarrow> diff_bytes (length a XOR length b) a b = 0"

definition MIN_PASSPHRASE_LEN :: nat where "MIN_PASSPHRASE_LEN = 8"
definition MAX_PASSPHRASE_BYTES :: nat where "MAX_PASSPHRASE_BYTES = 1024"
definition MAX_PASSPHRASE_HASH_BYTES :: nat where "MAX_PASSPHRASE_HASH_BYTES = 512"

definition normalize_optional_passphrase :: "bytes \<Rightarrow> bytes option" where
  "normalize_optional_passphrase raw = (if trim raw = [] then None else Some (trim raw))"

datatype auth_error = PassphraseTooLong | PassphraseTooShort | HashTooLong | HashUnparsable
  | UnsupportedAlgorithm | ParametersUnparsable | ParametersDiffer | OutputLength | SaltMissing
  | SaltUnparsable | SaltTooShort

definition validate_passphrase :: "bytes \<Rightarrow> auth_error + unit" where
  "validate_passphrase p =
    and_then (reject_if (length p > MAX_PASSPHRASE_BYTES) PassphraseTooLong) (\<lambda>_.
      reject_if (length (chars p) < MIN_PASSPHRASE_LEN) PassphraseTooShort)"

text \<open>What the PHC parser of the \<open>argon2\<close> crate returns.\<close>

record phc =
  phc_algorithm :: string
  phc_version :: "nat option"
  phc_params :: "(nat \<times> nat \<times> nat \<times> bytes \<times> bytes) option"
  phc_output :: "bytes option"
  phc_salt :: "bytes option option"

definition validate_passphrase_hash :: "(bytes \<Rightarrow> phc option) \<Rightarrow> bytes \<Rightarrow> auth_error + phc" where
  "validate_passphrase_hash parse hash =
    and_then (reject_if (length hash > MAX_PASSPHRASE_HASH_BYTES) HashTooLong) (\<lambda>_.
    and_then (ok_or HashUnparsable (parse hash)) (\<lambda>h.
    and_then (reject_if (phc_algorithm h \<noteq> ''argon2id'' \<or> phc_version h \<noteq> Some 19) UnsupportedAlgorithm) (\<lambda>_.
    and_then (ok_or ParametersUnparsable (phc_params h)) (\<lambda>(m, t, p, keyid, data).
    and_then (reject_if (\<not> (m = 19 * 1024 \<and> t = 2 \<and> p = 1 \<and> keyid = [] \<and> data = [])) ParametersDiffer) (\<lambda>_.
    and_then (reject_if (map_option length (phc_output h) \<noteq> Some 32) OutputLength) (\<lambda>_.
    and_then (ok_or SaltMissing (phc_salt h)) (\<lambda>salt.
    and_then (ok_or SaltUnparsable salt) (\<lambda>bs.
    and_then (reject_if (length bs < 16) SaltTooShort) (\<lambda>_. Inr h)))))))))"

definition verify_passphrase ::
    "(bytes \<Rightarrow> phc option) \<Rightarrow> (phc \<Rightarrow> bytes \<Rightarrow> bool) \<Rightarrow> bytes \<Rightarrow> bytes \<Rightarrow> auth_error + bool" where
  "verify_passphrase parse argon2 hash passphrase =
    and_then (validate_passphrase_hash parse hash) (\<lambda>h.
    and_then (reject_if (length passphrase > MAX_PASSPHRASE_BYTES) PassphraseTooLong) (\<lambda>_.
      Inr (argon2 h passphrase)))"

section \<open>State\<close>

definition HEARTBEAT_TIMEOUT :: nat where "HEARTBEAT_TIMEOUT = 30000"
definition HOST_RECONNECT_GRACE :: nat where "HOST_RECONNECT_GRACE = 20000"
definition GUEST_RECONNECT_GRACE :: nat where "GUEST_RECONNECT_GRACE = 45000"
definition PENDING_JOIN_TTL :: nat where "PENDING_JOIN_TTL = 120000"
definition DENIED_GUEST_TTL :: nat where "DENIED_GUEST_TTL = 30000"
definition JOIN_BACKOFF_MAX_SECS :: nat where "JOIN_BACKOFF_MAX_SECS = 30"
definition OUTBOUND_QUEUE_CAPACITY :: nat where "OUTBOUND_QUEUE_CAPACITY = 512"
definition MAX_SHARE_SESSIONS :: nat where "MAX_SHARE_SESSIONS = 128"
definition MAX_TRUSTED_DEVICES :: nat where "MAX_TRUSTED_DEVICES = 128"
definition MAX_PASSWORD_VERIFICATIONS :: nat where "MAX_PASSWORD_VERIFICATIONS = 2"
definition MAX_DISPLAY_NAME_LEN :: nat where "MAX_DISPLAY_NAME_LEN = 64"
definition MAX_DEVICE_ID_LEN :: nat where "MAX_DEVICE_ID_LEN = 128"
definition MAX_INVITE_SECRET_LEN :: nat where "MAX_INVITE_SECRET_LEN = 128"
definition MAX_PASSPHRASE_LEN :: nat where "MAX_PASSPHRASE_LEN = 1024"

datatype guest_connection_state = Pending | Approved | Connected | Disconnected | Denied

datatype session_role = HostRole | GuestRole

datatype control_message = ConnectedAs session_role "uuid option"
  | JoinRequested uuid bytes bytes nat
  | JoinApproved uuid | JoinDenied uuid
  | Presence "(uuid \<times> bytes \<times> nat \<times> guest_connection_state) list"
  | HostDisconnected | HostReconnected | SessionEnded | ControlError bytes

datatype out_message = Control control_message | Relayed bytes | PongBack bytes

record outbox =
  outgoing :: "out_message list"
  reader_present :: bool

record trusted_device =
  last_display_name :: bytes
  last_seen_at :: nat

record guest =
  guest_token :: bytes
  display_name :: bytes
  device_id :: bytes
  joined_at :: nat
  approved :: bool
  guest_state :: guest_connection_state
  guest_tx :: "uuid option"
  guest_connection :: "uuid option"
  guest_seen :: nat
  guest_disconnected_at :: "nat option"

record share_session =
  invite_secret :: bytes
  invite_expires_at :: "nat option"
  passphrase_hash :: "bytes option"
  host_token :: bytes
  host_tx :: "uuid option"
  host_connection :: "uuid option"
  host_seen :: nat
  host_disconnected_at :: "nat option"
  failed_join_attempts :: nat
  join_locked_until :: "nat option"
  trusted_devices :: "(bytes \<times> trusted_device) list"
  guests :: "(uuid \<times> guest) list"

datatype stream_auth = AuthHost | AuthGuest uuid

record join_body =
  body_name :: bytes
  body_secret :: bytes
  body_device :: bytes
  body_passphrase :: "bytes option"

record join_job =
  job_session :: uuid
  job_body :: join_body
  job_hash :: "bytes option"
  job_permit :: bool

record broker =
  shares :: "(uuid \<times> share_session) list"
  outboxes :: "(uuid \<times> outbox) list"
  slots :: nat
  loopback_only :: bool
  jobs :: "(uuid \<times> join_job) list"
  upgrades :: "(uuid \<times> uuid \<times> stream_auth) list"
  sockets :: "(uuid \<times> uuid \<times> stream_auth) list"

text \<open>What the surroundings answer: the clocks, fresh identifiers and tokens, the external parsers.\<close>

record broker_env =
  env_now :: nat
  env_utc :: nat
  env_id :: uuid
  env_token :: bytes
  env_parse :: "bytes \<Rightarrow> phc option"
  env_argon2 :: "phc \<Rightarrow> bytes \<Rightarrow> bool"
  env_envelope :: "bytes \<Rightarrow> (uuid \<times> stream_auth) option"
  env_control_char :: "bytes \<Rightarrow> bool"

section \<open>Outboxes\<close>

text \<open>\<open>try_send\<close> on the bounded channel of a connection; a failure is ignored.\<close>

definition post :: "uuid \<Rightarrow> out_message \<Rightarrow> (uuid \<times> outbox) list \<Rightarrow> (uuid \<times> outbox) list" where
  "post c m obs = al_modify c (\<lambda>ob. if reader_present ob \<and> length (outgoing ob) < OUTBOUND_QUEUE_CAPACITY
      then ob\<lparr>outgoing := outgoing ob @ [m]\<rparr> else ob) obs"

definition post_to :: "uuid option \<Rightarrow> out_message \<Rightarrow> (uuid \<times> outbox) list \<Rightarrow> (uuid \<times> outbox) list" where
  "post_to tx m obs = (case tx of None \<Rightarrow> obs | Some c \<Rightarrow> post c m obs)"

definition post_all :: "uuid option list \<Rightarrow> out_message \<Rightarrow> (uuid \<times> outbox) list \<Rightarrow> (uuid \<times> outbox) list" where
  "post_all txs m obs = foldl (\<lambda>q tx. post_to tx m q) obs txs"

definition guest_senders :: "share_session \<Rightarrow> uuid option list" where
  "guest_senders s = map (\<lambda>(g, r). guest_tx r) (guests s)"

definition broadcast_presence :: "share_session \<Rightarrow> (uuid \<times> outbox) list \<Rightarrow> (uuid \<times> outbox) list" where
  "broadcast_presence s obs =
    (let m = Control (Presence (map (\<lambda>(g, r). (g, display_name r, joined_at r, guest_state r)) (guests s)))
     in post_all (guest_senders s) m (post_to (host_tx s) m obs))"

definition notify_host_disconnected :: "share_session \<Rightarrow> (uuid \<times> outbox) list \<Rightarrow> (uuid \<times> outbox) list" where
  "notify_host_disconnected s = post_all (guest_senders s) (Control HostDisconnected)"

definition notify_host_reconnected :: "share_session \<Rightarrow> (uuid \<times> outbox) list \<Rightarrow> (uuid \<times> outbox) list" where
  "notify_host_reconnected s = post_all (guest_senders s) (Control HostReconnected)"

definition notify_session_ended :: "share_session \<Rightarrow> (uuid \<times> outbox) list \<Rightarrow> (uuid \<times> outbox) list" where
  "notify_session_ended s = post_all (guest_senders s) (Control SessionEnded)"

section \<open>Guests\<close>

definition may_relay :: "guest \<Rightarrow> bool" where
  "may_relay g \<longleftrightarrow> approved g \<and> guest_state g \<in> {Approved, Connected}"

definition connect :: "uuid \<Rightarrow> nat \<Rightarrow> guest \<Rightarrow> guest option" where
  "connect c now g =
    (if guest_state g = Denied then None
     else Some (g\<lparr>guest_tx := Some c, guest_connection := Some c, guest_seen := now, guest_disconnected_at := None,
       guest_state := (if approved g then Connected else Pending)\<rparr>))"

definition disconnect :: "nat \<Rightarrow> guest \<Rightarrow> guest" where
  "disconnect now g =
    (let h = g\<lparr>guest_tx := None, guest_connection := None, guest_disconnected_at := Some now\<rparr> in
     if guest_state h = Denied then h
     else h\<lparr>guest_state := (if approved h then Disconnected else Pending)\<rparr>)"

definition active_guest_count :: "share_session \<Rightarrow> nat" where
  "active_guest_count s = length (filter (\<lambda>(i, g). guest_state g \<noteq> Denied) (guests s))"

definition register_failed_join_attempt :: "nat \<Rightarrow> share_session \<Rightarrow> share_session" where
  "register_failed_join_attempt now s =
    (let n = min (failed_join_attempts s + 1) (2 ^ 32 - 1);
         delay_secs = min (2 ^ min (n - 1) 5) JOIN_BACKOFF_MAX_SECS
     in s\<lparr>failed_join_attempts := n, join_locked_until := Some (now + 1000 * delay_secs)\<rparr>)"

section \<open>Sessions\<close>

datatype status = FORBIDDEN | BAD_REQUEST | GONE | UNAUTHORIZED | NOT_FOUND | TOO_MANY_REQUESTS
  | CONFLICT | INTERNAL_SERVER_ERROR

type_synonym api_error = "status \<times> string"

definition find_share :: "uuid \<Rightarrow> broker \<Rightarrow> api_error + share_session" where
  "find_share sid b = ok_or (NOT_FOUND, ''Session not found'') (map_of (shares b) sid)"

definition put_share :: "uuid \<Rightarrow> share_session \<Rightarrow> broker \<Rightarrow> broker" where
  "put_share sid s b = b\<lparr>shares := al_modify sid (\<lambda>_. s) (shares b)\<rparr>"

record create_body =
  create_secret :: bytes
  create_expires :: "nat option"
  create_hash :: "bytes option"
  create_devices :: "(bytes \<times> trusted_device) list"

definition valid_device :: "bytes \<times> trusted_device \<Rightarrow> bool" where
  "valid_device d \<longleftrightarrow> fst d \<noteq> [] \<and> length (fst d) \<le> MAX_DEVICE_ID_LEN
     \<and> length (last_display_name (snd d)) \<le> MAX_DISPLAY_NAME_LEN"

definition new_share :: "broker_env \<Rightarrow> create_body \<Rightarrow> share_session" where
  "new_share e body = \<lparr>invite_secret = create_secret body, invite_expires_at = create_expires body,
     passphrase_hash = create_hash body, host_token = env_token e, host_tx = None, host_connection = None,
     host_seen = env_now e, host_disconnected_at = Some (env_now e), failed_join_attempts = 0,
     join_locked_until = None,
     trusted_devices = foldl (\<lambda>m (k, d). AList.update k d m) [] (create_devices body), guests = []\<rparr>"

definition create_share_session :: "broker_env \<Rightarrow> bool option \<Rightarrow> create_body \<Rightarrow> broker
    \<Rightarrow> (api_error + (uuid \<times> bytes)) \<times> broker" where
  "create_share_session e peer_loopback body b =
    (case and_then (reject_if (loopback_only b \<and> peer_loopback \<noteq> Some True)
              (FORBIDDEN, ''Session creation is restricted to the local host'')) (\<lambda>_.
          and_then (reject_if (create_secret body = [] \<or> length (create_secret body) > MAX_INVITE_SECRET_LEN
              \<or> length (create_devices body) > MAX_TRUSTED_DEVICES \<or> \<not> list_all valid_device (create_devices body))
              (BAD_REQUEST, ''Invalid session parameters'')) (\<lambda>_.
          and_then (case create_hash body of None \<Rightarrow> Inr ()
              | Some h \<Rightarrow> map_err (\<lambda>_. (BAD_REQUEST, ''Unsupported passphrase hash policy''))
                  (and_then (validate_passphrase_hash (env_parse e) h) (\<lambda>_. Inr ()))) (\<lambda>_.
            reject_if (MAX_SHARE_SESSIONS \<le> length (shares b)) (TOO_MANY_REQUESTS, ''Session capacity reached'')))) of
       Inl err \<Rightarrow> (Inl err, b)
     | Inr _ \<Rightarrow> (Inr (env_id e, env_token e), b\<lparr>shares := AList.update (env_id e) (new_share e body) (shares b)\<rparr>))"

section \<open>Joining\<close>

definition validate_join_access :: "nat \<Rightarrow> share_session \<Rightarrow> join_body \<Rightarrow> api_error + unit" where
  "validate_join_access utc s body =
    and_then (reject_if (case invite_expires_at s of None \<Rightarrow> False | Some t \<Rightarrow> t \<le> utc) (GONE, ''Invite expired'')) (\<lambda>_.
    and_then (reject_if (\<not> constant_time_str_eq (invite_secret s) (body_secret body))
        (UNAUTHORIZED, ''Invalid invite secret'')) (\<lambda>_.
      reject_if (3 \<le> active_guest_count s) (BAD_REQUEST, ''Participant limit reached'')))"

definition sanitize_join_request :: "broker_env \<Rightarrow> join_body \<Rightarrow> string + join_body" where
  "sanitize_join_request e body =
    (let name = trim (body_name body) in
     and_then (reject_if (name = []) ''Display name is required'') (\<lambda>_.
     and_then (reject_if (length name > MAX_DISPLAY_NAME_LEN) ''Display name too long'') (\<lambda>_.
     and_then (reject_if (list_ex (\<lambda>c. env_control_char e c \<or> c = [0]) (chars name))
         ''Display name contains invalid characters'') (\<lambda>_.
     and_then (reject_if (length (body_device body) > MAX_DEVICE_ID_LEN) ''Device id too long'') (\<lambda>_.
     and_then (reject_if (length (body_secret body) > MAX_INVITE_SECRET_LEN) ''Invite secret too long'') (\<lambda>_.
     and_then (reject_if (case body_passphrase body of None \<Rightarrow> False | Some p \<Rightarrow> length p > MAX_PASSPHRASE_LEN)
         ''Passphrase too long'') (\<lambda>_. Inr (body\<lparr>body_name := name\<rparr>))))))))"

text \<open>The first phase; a successful result holds the policy to verify and whether a slot is taken.\<close>

definition prepare_join :: "broker_env \<Rightarrow> uuid \<Rightarrow> join_body \<Rightarrow> broker
    \<Rightarrow> (api_error + (bytes option \<times> bool)) \<times> broker" where
  "prepare_join e sid body b =
    (case find_share sid b of
       Inl err \<Rightarrow> (Inl err, b)
     | Inr s \<Rightarrow>
        if (case join_locked_until s of None \<Rightarrow> False | Some t \<Rightarrow> t > env_now e)
        then (Inl (TOO_MANY_REQUESTS, ''Join temporarily throttled''), b)
        else (case validate_join_access (env_utc e) s body of
          Inl err \<Rightarrow> (Inl err, b)
        | Inr _ \<Rightarrow>
            if passphrase_hash s = None then (Inr (None, False), b)
            else if body_passphrase body = None
            then (Inl (UNAUTHORIZED, ''Session passphrase required''),
                  put_share sid (register_failed_join_attempt (env_now e) s) b)
            else if slots b = 0 then (Inl (TOO_MANY_REQUESTS, ''Password verification capacity reached''), b)
            else (Inr (passphrase_hash s, True),
                  (put_share sid (s\<lparr>join_locked_until := Some (env_now e + 1000)\<rparr>) b)\<lparr>slots := slots b - 1\<rparr>)))"

definition new_guest :: "broker_env \<Rightarrow> join_body \<Rightarrow> bool \<Rightarrow> guest" where
  "new_guest e body auto = \<lparr>guest_token = env_token e, display_name = body_name body, device_id = body_device body,
     joined_at = env_utc e, approved = auto, guest_state = (if auto then Approved else Pending), guest_tx = None,
     guest_connection = None, guest_seen = env_now e, guest_disconnected_at = None\<rparr>"

definition admit_guest :: "broker_env \<Rightarrow> join_body \<Rightarrow> share_session \<Rightarrow> share_session \<times> bool" where
  "admit_guest e body s =
    (let auto = map_of (trusted_devices s) (body_device body) \<noteq> None in
     (s\<lparr>failed_join_attempts := 0, join_locked_until := None,
        trusted_devices := al_modify (body_device body)
          (\<lambda>d. d\<lparr>last_display_name := body_name body, last_seen_at := env_utc e\<rparr>) (trusted_devices s),
        guests := AList.update (env_id e) (new_guest e body auto) (guests s)\<rparr>, auto))"

definition finish_join :: "broker_env \<Rightarrow> uuid \<Rightarrow> join_body \<Rightarrow> bytes option \<Rightarrow> bool \<Rightarrow> broker
    \<Rightarrow> (api_error + (uuid \<times> bytes \<times> bool)) \<times> broker" where
  "finish_join e sid body verified_hash verified b =
    (case find_share sid b of
       Inl err \<Rightarrow> (Inl err, b)
     | Inr s \<Rightarrow>
        (case and_then (validate_join_access (env_utc e) s body) (\<lambda>_.
           reject_if (passphrase_hash s \<noteq> verified_hash) (CONFLICT, ''Session policy changed; retry join'')) of
          Inl err \<Rightarrow> (Inl err, b)
        | Inr _ \<Rightarrow>
            if \<not> verified then (Inl (UNAUTHORIZED, ''Invalid session passphrase''),
                put_share sid (register_failed_join_attempt (env_now e) s) b)
            else (case admit_guest e body s of (t, auto) \<Rightarrow>
              (Inr (env_id e, env_token e, auto),
               (put_share sid t b)\<lparr>outboxes :=
                  (if auto then broadcast_presence t (outboxes b)
                   else post_to (host_tx t)
                     (Control (JoinRequested (env_id e) (body_name body) (body_device body) (env_utc e)))
                     (broadcast_presence t (outboxes b)))\<rparr>))))"

section \<open>The host's decisions\<close>

text \<open>Every request of the host carries the token of the session.\<close>

definition host_share :: "uuid \<Rightarrow> bytes \<Rightarrow> broker \<Rightarrow> api_error + share_session" where
  "host_share sid token b = and_then (find_share sid b) (\<lambda>s.
     and_then (reject_if (\<not> constant_time_str_eq (host_token s) token) (UNAUTHORIZED, ''Invalid host token''))
       (\<lambda>_. Inr s))"

definition rotate_invite :: "uuid \<Rightarrow> bytes \<Rightarrow> bytes \<Rightarrow> nat option \<Rightarrow> broker \<Rightarrow> (api_error + unit) \<times> broker" where
  "rotate_invite sid token secret expires b =
    (case host_share sid token b of
       Inl err \<Rightarrow> (Inl err, b)
     | Inr s \<Rightarrow> (Inr (), put_share sid (s\<lparr>invite_secret := secret, invite_expires_at := expires,
         failed_join_attempts := 0, join_locked_until := None\<rparr>) b))"

definition put_guest :: "uuid \<Rightarrow> guest \<Rightarrow> share_session \<Rightarrow> share_session" where
  "put_guest g r s = s\<lparr>guests := al_modify g (\<lambda>_. r) (guests s)\<rparr>"

definition host_guest :: "uuid \<Rightarrow> bytes \<Rightarrow> uuid \<Rightarrow> broker \<Rightarrow> api_error + (share_session \<times> guest)" where
  "host_guest sid token g b = and_then (host_share sid token b) (\<lambda>s.
     and_then (ok_or (NOT_FOUND, ''Guest not found'') (map_of (guests s) g)) (\<lambda>r. Inr (s, r)))"

definition approve_join :: "broker_env \<Rightarrow> uuid \<Rightarrow> bytes \<Rightarrow> uuid \<Rightarrow> broker \<Rightarrow> (api_error + unit) \<times> broker" where
  "approve_join e sid token g b =
    (case and_then (host_guest sid token g b) (\<lambda>(s, r).
        and_then (reject_if (guest_state r = Denied) (GONE, ''Join request was revoked'')) (\<lambda>_. Inr (s, r))) of
       Inl err \<Rightarrow> (Inl err, b)
     | Inr (s, r) \<Rightarrow>
        let r' = r\<lparr>approved := True, guest_state := Approved, guest_disconnected_at := None, guest_seen := env_now e\<rparr>;
            t = put_guest g r' s
        in (Inr (), (put_share sid t b)\<lparr>outboxes :=
              broadcast_presence t (post_to (guest_tx r') (Control (JoinApproved g)) (outboxes b))\<rparr>))"

definition deny_join :: "broker_env \<Rightarrow> uuid \<Rightarrow> bytes \<Rightarrow> uuid \<Rightarrow> broker \<Rightarrow> (api_error + unit) \<times> broker" where
  "deny_join e sid token g b =
    (case host_guest sid token g b of
       Inl err \<Rightarrow> (Inl err, b)
     | Inr (s, r) \<Rightarrow>
        let r' = r\<lparr>approved := False, guest_state := Denied, guest_disconnected_at := Some (env_now e)\<rparr>;
            t = put_guest g r' s
        in (Inr (), (put_share sid t b)\<lparr>outboxes :=
              broadcast_presence t (post_to (guest_tx r') (Control (JoinDenied g)) (outboxes b))\<rparr>))"

definition end_share_session :: "uuid \<Rightarrow> bytes \<Rightarrow> broker \<Rightarrow> (api_error + unit) \<times> broker" where
  "end_share_session sid token b =
    (case host_share sid token b of
       Inl err \<Rightarrow> (Inl err, b)
     | Inr s \<Rightarrow> (Inr (), b\<lparr>shares := AList.delete sid (shares b), outboxes := notify_session_ended s (outboxes b)\<rparr>))"

section \<open>Streams\<close>

definition stream_auth_of :: "uuid \<Rightarrow> string \<Rightarrow> bytes \<Rightarrow> broker \<Rightarrow> api_error + stream_auth" where
  "stream_auth_of sid role token b =
    and_then (reject_if (role \<noteq> ''host'' \<and> role \<noteq> ''guest'') (BAD_REQUEST, ''Invalid role'')) (\<lambda>_.
    and_then (find_share sid b) (\<lambda>s.
      if role = ''host'' then
        and_then (reject_if (\<not> constant_time_str_eq (host_token s) token) (UNAUTHORIZED, ''Invalid token'')) (\<lambda>_. Inr AuthHost)
      else map_err (\<lambda>_. (UNAUTHORIZED, ''Invalid token'')) (ok_or ()
        (map_option (\<lambda>(g, r). AuthGuest g)
          (find (\<lambda>(g, r). guest_state r \<noteq> Denied \<and> constant_time_str_eq (guest_token r) token) (guests s))))))"

text \<open>The first part of \<open>handle_socket\<close>: registration of the connection under its authority.\<close>

definition attach_auth :: "nat \<Rightarrow> uuid \<Rightarrow> stream_auth \<Rightarrow> share_session \<Rightarrow> share_session option" where
  "attach_auth now c auth s = (case auth of
      AuthHost \<Rightarrow> Some (s\<lparr>host_disconnected_at := None, host_tx := Some c, host_connection := Some c, host_seen := now\<rparr>)
    | AuthGuest g \<Rightarrow> (case map_of (guests s) g of
        None \<Rightarrow> None
      | Some r \<Rightarrow> (case connect c now r of None \<Rightarrow> None | Some r' \<Rightarrow> Some (put_guest g r' s))))"

definition pending_requests :: "share_session \<Rightarrow> out_message list" where
  "pending_requests s = List.map_filter (\<lambda>(g, r).
     if \<not> approved r \<and> guest_state r = Pending
     then Some (Control (JoinRequested g (display_name r) (device_id r) (joined_at r))) else None) (guests s)"

definition open_outbox :: "uuid \<Rightarrow> (uuid \<times> outbox) list \<Rightarrow> (uuid \<times> outbox) list" where
  "open_outbox c obs = AList.update c \<lparr>outgoing = [], reader_present = True\<rparr> obs"

definition register_socket :: "nat \<Rightarrow> uuid \<Rightarrow> uuid \<Rightarrow> stream_auth \<Rightarrow> broker \<Rightarrow> bool \<times> broker" where
  "register_socket now c sid auth b =
    (case map_of (shares b) sid of
       None \<Rightarrow> (False, b)
     | Some s \<Rightarrow> (case attach_auth now c auth s of
         None \<Rightarrow> (False, b)
       | Some t \<Rightarrow>
          let obs = open_outbox c (outboxes b);
              obs1 = (if auth = AuthHost \<and> host_disconnected_at s \<noteq> None then notify_host_reconnected t obs else obs);
              obs2 = broadcast_presence t obs1;
              obs3 = (if auth = AuthHost then foldl (\<lambda>q m. post c m q) obs2 (pending_requests t) else obs2);
              obs4 = post c (Control (case auth of
                  AuthHost \<Rightarrow> ConnectedAs HostRole None | AuthGuest g \<Rightarrow> ConnectedAs GuestRole (Some g))) obs3;
              obs5 = (case auth of AuthHost \<Rightarrow> obs4 | AuthGuest g \<Rightarrow>
                  (case map_of (guests t) g of
                     Some r \<Rightarrow> if may_relay r then post c (Control (JoinApproved g)) obs4 else obs4
                   | None \<Rightarrow> obs4))
          in (True, (put_share sid t b)\<lparr>outboxes := obs5\<rparr>)))"

definition validate_relay_envelope :: "broker_env \<Rightarrow> uuid \<Rightarrow> stream_auth \<Rightarrow> bytes \<Rightarrow> string + unit" where
  "validate_relay_envelope e sid auth payload =
    and_then (ok_or ''Invalid collaboration envelope'' (env_envelope e payload)) (\<lambda>(session_id, sender_id).
    and_then (reject_if (session_id \<noteq> sid) ''Envelope session does not match the authenticated stream'') (\<lambda>_.
      reject_if (sender_id \<noteq> auth) ''Envelope sender does not match the authenticated stream''))"

definition relay_payload :: "uuid \<Rightarrow> stream_auth \<Rightarrow> bytes \<Rightarrow> broker \<Rightarrow> broker" where
  "relay_payload sid auth payload b =
    (case map_of (shares b) sid of
       None \<Rightarrow> b
     | Some s \<Rightarrow> (case auth of
         AuthHost \<Rightarrow> b\<lparr>outboxes := post_all (map (\<lambda>(g, r). if may_relay r then guest_tx r else None) (guests s))
             (Relayed payload) (outboxes b)\<rparr>
       | AuthGuest g \<Rightarrow> (case map_of (guests s) g of
           None \<Rightarrow> b
         | Some r \<Rightarrow> if \<not> may_relay r then b
             else b\<lparr>outboxes := post_to (host_tx s) (Relayed payload) (outboxes b)\<rparr>)))"

definition mark_connection_activity :: "nat \<Rightarrow> uuid \<Rightarrow> stream_auth \<Rightarrow> uuid \<Rightarrow> broker \<Rightarrow> broker" where
  "mark_connection_activity now sid auth c b =
    (case map_of (shares b) sid of
       None \<Rightarrow> b
     | Some s \<Rightarrow> (case auth of
         AuthHost \<Rightarrow> if host_connection s = Some c then put_share sid (s\<lparr>host_seen := now\<rparr>) b else b
       | AuthGuest g \<Rightarrow> (case map_of (guests s) g of
           None \<Rightarrow> b
         | Some r \<Rightarrow> if guest_connection r = Some c
             then put_share sid (put_guest g (r\<lparr>guest_seen := now\<rparr>) s) b else b)))"

definition handle_disconnect :: "nat \<Rightarrow> uuid \<Rightarrow> stream_auth \<Rightarrow> uuid \<Rightarrow> broker \<Rightarrow> broker" where
  "handle_disconnect now sid auth c b =
    (case map_of (shares b) sid of
       None \<Rightarrow> b
     | Some s \<Rightarrow> (case auth of
         AuthHost \<Rightarrow>
           if host_connection s \<noteq> Some c then b
           else let t = s\<lparr>host_tx := None, host_connection := None, host_disconnected_at := Some now\<rparr>
                in (put_share sid t b)\<lparr>outboxes := notify_host_disconnected t (outboxes b)\<rparr>
       | AuthGuest g \<Rightarrow> (case map_of (guests s) g of
           None \<Rightarrow> b\<lparr>outboxes := broadcast_presence s (outboxes b)\<rparr>
         | Some r \<Rightarrow>
             if guest_connection r \<noteq> Some c then b
             else let t = put_guest g (disconnect now r) s
                  in (put_share sid t b)\<lparr>outboxes := broadcast_presence t (outboxes b)\<rparr>)))"

datatype ws_message = WsBinary bytes | WsText bytes | WsClose | WsPing bytes | WsPong

text \<open>One message of the loop of \<open>handle_socket\<close>; the result says whether the loop goes on.\<close>

definition handle_message :: "broker_env \<Rightarrow> uuid \<Rightarrow> stream_auth \<Rightarrow> uuid \<Rightarrow> ws_message \<Rightarrow> broker \<Rightarrow> bool \<times> broker" where
  "handle_message e sid auth c m b0 =
    (let b = mark_connection_activity (env_now e) sid auth c b0 in
     case m of
       WsBinary payload \<Rightarrow> (case validate_relay_envelope e sid auth payload of
           Inl err \<Rightarrow> (False, b\<lparr>outboxes := post c (Control (ControlError (bytes_of err))) (outboxes b)\<rparr>)
         | Inr _ \<Rightarrow> (True, relay_payload sid auth payload b))
     | WsText _ \<Rightarrow> (False, b\<lparr>outboxes := post c (Control (ControlError
           (bytes_of ''Client text frames are not allowed''))) (outboxes b)\<rparr>)
     | WsClose \<Rightarrow> (False, b)
     | WsPing payload \<Rightarrow>
         ((case map_of (outboxes b) c of None \<Rightarrow> False
            | Some ob \<Rightarrow> reader_present ob \<and> length (outgoing ob) < OUTBOUND_QUEUE_CAPACITY),
          b\<lparr>outboxes := post c (PongBack payload) (outboxes b)\<rparr>)
     | WsPong \<Rightarrow> (True, b))"

section \<open>Cleanup\<close>

text \<open>The guests that \<open>retain\<close> keeps.\<close>

definition keep_guest :: "nat \<Rightarrow> guest \<Rightarrow> bool" where
  "keep_guest now g =
    (if guest_state g = Denied
     then (case guest_disconnected_at g of Some at \<Rightarrow> now - at \<le> DENIED_GUEST_TTL | None \<Rightarrow> False)
     else if guest_state g = Pending \<and> guest_tx g = None then now - guest_seen g \<le> PENDING_JOIN_TTL
     else if guest_state g = Disconnected \<and> guest_tx g = None
     then (case guest_disconnected_at g of Some at \<Rightarrow> now - at \<le> GUEST_RECONNECT_GRACE | None \<Rightarrow> False)
     else True)"

definition silent :: "nat \<Rightarrow> guest \<Rightarrow> bool" where
  "silent now g \<longleftrightarrow> guest_tx g \<noteq> None \<and> now - guest_seen g > HEARTBEAT_TIMEOUT"

text \<open>One session: itself afterwards, the outboxes, and whether it has ended.\<close>

definition cleanup_share :: "nat \<Rightarrow> share_session \<Rightarrow> (uuid \<times> outbox) list
    \<Rightarrow> share_session \<times> (uuid \<times> outbox) list \<times> bool" where
  "cleanup_share now s obs =
    (let host_silent = (host_tx s \<noteq> None \<and> now - host_seen s > HEARTBEAT_TIMEOUT);
         s1 = (if host_silent then s\<lparr>host_tx := None, host_connection := None,
                 host_disconnected_at := (if host_disconnected_at s = None then Some now else host_disconnected_at s)\<rparr>
               else s);
         obs1 = (if host_silent \<and> host_disconnected_at s = None then notify_host_disconnected s1 obs else obs);
         changed = list_ex (\<lambda>(g, r). silent now r) (guests s1);
         s2 = s1\<lparr>guests := map (\<lambda>(g, r). (g, if silent now r then disconnect now r else r)) (guests s1)\<rparr>;
         s3 = s2\<lparr>guests := al_retain (\<lambda>g r. keep_guest now r) (guests s2)\<rparr>;
         obs2 = (if changed \<or> length (guests s3) \<noteq> length (guests s2) then broadcast_presence s3 obs1 else obs1);
         ended = (case host_disconnected_at s3 of Some at \<Rightarrow> now - at > HOST_RECONNECT_GRACE | None \<Rightarrow> False)
     in (s3, obs2, ended))"

text \<open>The loop over the sessions; the ended ones are collected and notified after it.\<close>

fun cleanup_loop :: "nat \<Rightarrow> (uuid \<times> share_session) list \<Rightarrow> (uuid \<times> outbox) list
    \<Rightarrow> (uuid \<times> share_session) list \<times> (uuid \<times> outbox) list \<times> share_session list" where
  "cleanup_loop now [] obs = ([], obs, [])"
| "cleanup_loop now ((sid, s) # ss) obs =
    (case cleanup_share now s obs of (t, obs1, ended) \<Rightarrow>
      (case cleanup_loop now ss obs1 of (kept, obs2, gone) \<Rightarrow>
        (if ended then (kept, obs2, t # gone) else ((sid, t) # kept, obs2, gone))))"

definition cleanup_expired_sessions :: "nat \<Rightarrow> broker \<Rightarrow> broker" where
  "cleanup_expired_sessions now b =
    (case cleanup_loop now (shares b) (outboxes b) of (kept, obs, gone) \<Rightarrow>
       b\<lparr>shares := kept, outboxes := foldl (\<lambda>q s. notify_session_ended s q) obs gone\<rparr>)"

end
