(* ===== verification/BrokerSafety.thy ===== *)
theory BrokerSafety
  imports Broker "HOL-Library.Sublist"
begin

text \<open>
  The broker as a machine over all interleavings of its requests, joins under verification, sockets
  and cleanups, and what bounds it: participants, sessions and password verifications.
\<close>

unbundle bit_operations_syntax

section \<open>Secrets\<close>

lemma nat_xor_zero: "(a :: nat) XOR b = 0 \<longleftrightarrow> a = b"
  by (auto simp: bit_eq_iff bit_simps)

lemma diff_bytes_zero: "diff_bytes d a b = 0 \<longleftrightarrow> d = 0 \<and> take (length b) a = take (length a) b"
  by (induction d a b rule: diff_bytes.induct) (auto simp: or_eq_0_iff unat_eq_zero word_xor_zero_iff)

lemma constant_time_str_eq_iff [simp]: "constant_time_str_eq a b \<longleftrightarrow> a = b"
  by (auto simp: constant_time_str_eq_def diff_bytes_zero nat_xor_zero)

section \<open>The machine\<close>

text \<open>
  Every access to the shared registry, at the granularity of its lock. \<open>JoinBegin\<close> and \<open>Upgrade\<close> are
  the first halves, \<open>JoinEnd\<close> and \<open>Register\<close> the second; identifiers of jobs and connections name
  what is under way.
\<close>

datatype broker_event =
    Create broker_env "bool option" create_body
  | JoinBegin broker_env uuid uuid join_body | JoinEnd broker_env uuid | JoinCancelled uuid
  | Rotate uuid bytes bytes "nat option"
  | Approve broker_env uuid bytes uuid | Deny broker_env uuid bytes uuid | Finish uuid bytes
  | Upgrade uuid uuid string bytes | Register broker_env uuid | Message broker_env uuid ws_message
  | Dropped broker_env uuid | Cleanup broker_env | Written uuid | ReaderGone uuid

text \<open>The verification of a job; \<open>None\<close> stands for the panic of its two \<open>expect\<close>s.\<close>

definition job_verified :: "broker_env \<Rightarrow> join_job \<Rightarrow> (auth_error + bool) option" where
  "job_verified e j = (case job_hash j of
      None \<Rightarrow> Some (Inr True)
    | Some h \<Rightarrow> (case body_passphrase (job_body j) of
        None \<Rightarrow> None
      | Some p \<Rightarrow> if \<not> job_permit j then None else Some (verify_passphrase (env_parse e) (env_argon2 e) h p)))"

definition drop_job :: "uuid \<Rightarrow> join_job \<Rightarrow> broker \<Rightarrow> broker" where
  "drop_job i j b = b\<lparr>jobs := AList.delete i (jobs b), slots := (if job_permit j then slots b + 1 else slots b)\<rparr>"

definition join_begin :: "broker_env \<Rightarrow> uuid \<Rightarrow> uuid \<Rightarrow> join_body \<Rightarrow> broker \<Rightarrow> broker" where
  "join_begin e i sid body b =
    (if map_of (jobs b) i \<noteq> None then b
     else case sanitize_join_request e body of
       Inl err \<Rightarrow> b
     | Inr clean \<Rightarrow> (case prepare_join e sid clean b of
         (Inl err, b1) \<Rightarrow> b1
       | (Inr (hash, permit), b1) \<Rightarrow> b1\<lparr>jobs := AList.update i
           \<lparr>job_session = sid, job_body = clean, job_hash = hash, job_permit = permit\<rparr> (jobs b1)\<rparr>))"

definition join_end :: "broker_env \<Rightarrow> uuid \<Rightarrow> broker \<Rightarrow> broker" where
  "join_end e i b = (case map_of (jobs b) i of
      None \<Rightarrow> b
    | Some j \<Rightarrow> (case job_verified e j of
        Some (Inr ok) \<Rightarrow> snd (finish_join e (job_session j) (job_body j) (job_hash j) ok (drop_job i j b))
      | _ \<Rightarrow> drop_job i j b))"

definition socket_closed :: "broker_env \<Rightarrow> uuid \<Rightarrow> broker \<Rightarrow> broker" where
  "socket_closed e c b = (case map_of (sockets b) c of
      None \<Rightarrow> b
    | Some (sid, auth) \<Rightarrow> handle_disconnect (env_now e) sid auth c (b\<lparr>sockets := AList.delete c (sockets b)\<rparr>))"

fun broker_act :: "broker \<Rightarrow> broker_event \<Rightarrow> broker" where
  "broker_act b (Create e peer body) = snd (create_share_session e peer body b)"
| "broker_act b (JoinBegin e i sid body) = join_begin e i sid body b"
| "broker_act b (JoinEnd e i) = join_end e i b"
| "broker_act b (JoinCancelled i) = (case map_of (jobs b) i of None \<Rightarrow> b | Some j \<Rightarrow> drop_job i j b)"
| "broker_act b (Rotate sid token secret expires) = snd (rotate_invite sid token secret expires b)"
| "broker_act b (Approve e sid token g) = snd (approve_join e sid token g b)"
| "broker_act b (Deny e sid token g) = snd (deny_join e sid token g b)"
| "broker_act b (Finish sid token) = snd (end_share_session sid token b)"
| "broker_act b (Upgrade c sid role token) = (case stream_auth_of sid role token b of
      Inl err \<Rightarrow> b | Inr auth \<Rightarrow> b\<lparr>upgrades := AList.update c (sid, auth) (upgrades b)\<rparr>)"
| "broker_act b (Register e c) = (case map_of (upgrades b) c of
      None \<Rightarrow> b
    | Some (sid, auth) \<Rightarrow> (case register_socket (env_now e) c sid auth (b\<lparr>upgrades := AList.delete c (upgrades b)\<rparr>) of
        (ok, b1) \<Rightarrow> if ok then b1\<lparr>sockets := AList.update c (sid, auth) (sockets b1)\<rparr> else b1))"
| "broker_act b (Message e c m) = (case map_of (sockets b) c of
      None \<Rightarrow> b
    | Some (sid, auth) \<Rightarrow> (case handle_message e sid auth c m b of
        (go, b1) \<Rightarrow> if go then b1 else socket_closed e c b1))"
| "broker_act b (Dropped e c) = socket_closed e c b"
| "broker_act b (Cleanup e) = cleanup_expired_sessions (env_now e) b"
| "broker_act b (Written c) = b\<lparr>outboxes := al_modify c (\<lambda>ob. ob\<lparr>outgoing := tl (outgoing ob)\<rparr>) (outboxes b)\<rparr>"
| "broker_act b (ReaderGone c) = b\<lparr>outboxes := al_modify c (\<lambda>ob. ob\<lparr>reader_present := False\<rparr>) (outboxes b)\<rparr>"

definition new_broker :: "bool \<Rightarrow> broker" where
  "new_broker loopback = \<lparr>shares = [], outboxes = [], slots = MAX_PASSWORD_VERIFICATIONS,
     loopback_only = loopback, jobs = [], upgrades = [], sockets = []\<rparr>"

definition broker_run :: "bool \<Rightarrow> broker_event list \<Rightarrow> broker" where
  "broker_run loopback es = foldl broker_act (new_broker loopback) es"

section \<open>The invariant\<close>

definition guest_ok :: "guest \<Rightarrow> bool" where
  "guest_ok g \<longleftrightarrow> approved g = (guest_state g \<in> {Approved, Connected, Disconnected})"

definition share_ok :: "share_session \<Rightarrow> bool" where
  "share_ok s \<longleftrightarrow> distinct_keys (guests s) \<and> active_guest_count s \<le> 3 \<and> list_all (\<lambda>(g, r). guest_ok r) (guests s)"

definition permits :: "(uuid \<times> join_job) list \<Rightarrow> nat" where
  "permits js = length (filter (\<lambda>(i, j). job_permit j) js)"

definition job_ready :: "join_job \<Rightarrow> bool" where
  "job_ready j \<longleftrightarrow> (case job_hash j of None \<Rightarrow> True | Some h \<Rightarrow> body_passphrase (job_body j) \<noteq> None \<and> job_permit j)"

definition broker_inv :: "broker \<Rightarrow> bool" where
  "broker_inv b \<longleftrightarrow> distinct_keys (shares b) \<and> length (shares b) \<le> MAX_SHARE_SESSIONS
     \<and> list_all (\<lambda>(i, s). share_ok s) (shares b)
     \<and> distinct_keys (jobs b) \<and> slots b + permits (jobs b) = MAX_PASSWORD_VERIFICATIONS
     \<and> list_all (\<lambda>(i, j). job_ready j) (jobs b)"

lemma list_all_look: "list_all (\<lambda>(k, v). P v) m \<Longrightarrow> map_of m k = Some v \<Longrightarrow> P v"
  by (induction m) (auto split: if_splits)

lemma list_all_update: "list_all (\<lambda>(k, v). P v) m \<Longrightarrow> P v \<Longrightarrow> list_all (\<lambda>(k, v). P v) (AList.update k v m)"
  by (induction m) auto

lemma list_all_modify:
  "list_all (\<lambda>(k, v). P v) m \<Longrightarrow> (\<And>v. P v \<Longrightarrow> P (f v)) \<Longrightarrow> list_all (\<lambda>(k, v). P v) (al_modify k f m)"
  by (induction m) (auto simp: al_modify_def split: if_splits)

lemma list_all_delete: "list_all (\<lambda>(k, v). P v) m \<Longrightarrow> list_all (\<lambda>(k, v). P v) (AList.delete k m)"
  by (induction m) auto

lemma list_all_retain: "list_all (\<lambda>(k, v). P v) m \<Longrightarrow> list_all (\<lambda>(k, v). P v) (al_retain Q m)"
  by (induction m) (auto simp: al_retain_def)

lemma put_share_inv: "broker_inv b \<Longrightarrow> share_ok s \<Longrightarrow> broker_inv (put_share sid s b)"
  by (simp add: broker_inv_def put_share_def list_all_modify)

lemma outboxes_inv [simp]:
  "broker_inv (b\<lparr>outboxes := q\<rparr>) = broker_inv b" "broker_inv (b\<lparr>upgrades := u\<rparr>) = broker_inv b"
  "broker_inv (b\<lparr>sockets := w\<rparr>) = broker_inv b"
  by (simp_all add: broker_inv_def)

lemma find_share_ok: "broker_inv b \<Longrightarrow> map_of (shares b) sid = Some s \<Longrightarrow> share_ok s"
  unfolding broker_inv_def by (metis list_all_look)

lemma share_ok_fields [simp]:
  "share_ok (s\<lparr>invite_secret := a\<rparr>) = share_ok s" "share_ok (s\<lparr>invite_expires_at := c\<rparr>) = share_ok s"
  "share_ok (s\<lparr>failed_join_attempts := n\<rparr>) = share_ok s" "share_ok (s\<lparr>join_locked_until := l\<rparr>) = share_ok s"
  "share_ok (s\<lparr>trusted_devices := d\<rparr>) = share_ok s" "share_ok (s\<lparr>host_tx := x\<rparr>) = share_ok s"
  "share_ok (s\<lparr>host_connection := x\<rparr>) = share_ok s" "share_ok (s\<lparr>host_seen := n\<rparr>) = share_ok s"
  "share_ok (s\<lparr>host_disconnected_at := l\<rparr>) = share_ok s"
  by (simp_all add: share_ok_def active_guest_count_def)

lemma share_ok_failed [simp]: "share_ok (register_failed_join_attempt now s) = share_ok s"
  by (simp add: register_failed_join_attempt_def Let_def)

text \<open>The number of guests that are not denied.\<close>

definition active :: "(uuid \<times> guest) list \<Rightarrow> nat" where
  "active gs = length (filter (\<lambda>(i, g). guest_state g \<noteq> Denied) gs)"

lemma active_update: "active (AList.update k v m) \<le> active m + 1"
  by (induction m) (auto simp: active_def)

lemma active_modify:
  "(guest_state r = Denied \<Longrightarrow> guest_state r' = Denied) \<Longrightarrow> distinct_keys m \<Longrightarrow> map_of m k = Some r
    \<Longrightarrow> active (al_modify k (\<lambda>_. r') m) \<le> active m"
proof (induction m)
  case (Cons a m)
  obtain i x where a: "a = (i, x)" by fastforce
  have "al_modify i (\<lambda>_. r') m = m" if "i \<notin> fst ` set m"
    using that by (induction m) (auto simp: al_modify_def)
  then show ?case using Cons
    by (cases "k = i") (auto simp: a active_def distinct_keys_def al_modify_def)
qed simp

lemma put_guest_ok:
  assumes "share_ok s" and "map_of (guests s) g = Some r" and "guest_ok r'"
    and "guest_state r = Denied \<Longrightarrow> guest_state r' = Denied"
  shows "share_ok (put_guest g r' s)"
  using assms active_modify [of r r' "guests s" g] list_all_modify [where P = guest_ok and m = "guests s" and f = "\<lambda>_. r'" and k = g]
  by (simp add: share_ok_def put_guest_def active_guest_count_def active_def)

lemma guest_look: "share_ok s \<Longrightarrow> map_of (guests s) g = Some r \<Longrightarrow> guest_ok r"
  unfolding share_ok_def by (metis list_all_look)

lemma connect_ok: "guest_ok r \<Longrightarrow> connect c now r = Some r' \<Longrightarrow> guest_ok r' \<and> guest_state r \<noteq> Denied"
  by (auto simp: connect_def guest_ok_def split: if_splits)

lemma disconnect_ok: "guest_ok r \<Longrightarrow> guest_ok (disconnect now r)"
    "guest_state (disconnect now r) = Denied \<longleftrightarrow> guest_state r = Denied"
  by (auto simp: disconnect_def guest_ok_def Let_def)

lemma host_share_cases:
  "host_share sid token b = Inr s \<longleftrightarrow> map_of (shares b) sid = Some s \<and> host_token s = token"
  by (auto simp: host_share_def find_share_def result_simps)

lemma host_guest_cases:
  "host_guest sid token g b = Inr (s, r)
    \<longleftrightarrow> map_of (shares b) sid = Some s \<and> host_token s = token \<and> map_of (guests s) g = Some r"
  by (auto simp: host_guest_def host_share_cases result_simps)

lemma decision_inv:
  assumes "broker_inv b" and "map_of (shares b) sid = Some s" and "map_of (guests s) g = Some r" and "guest_ok r'"
    and "guest_state r = Denied \<Longrightarrow> guest_state r' = Denied"
  shows "broker_inv (put_share sid (put_guest g r' s) b)"
  by (rule put_share_inv [OF assms(1) put_guest_ok [OF find_share_ok [OF assms(1,2)] assms(3-5)]])

lemma approve_inv: "broker_inv b \<Longrightarrow> broker_inv (snd (approve_join e sid token g b))"
  by (auto simp: approve_join_def Let_def host_guest_cases result_simps guest_ok_def
      split: sum.split intro!: decision_inv)

lemma deny_inv: "broker_inv b \<Longrightarrow> broker_inv (snd (deny_join e sid token g b))"
  by (auto simp: deny_join_def Let_def host_guest_cases guest_ok_def split: sum.split intro!: decision_inv)

lemma rotate_inv: "broker_inv b \<Longrightarrow> broker_inv (snd (rotate_invite sid token secret expires b))"
  by (auto simp: rotate_invite_def host_share_cases split: sum.split intro!: put_share_inv dest: find_share_ok)

lemma ending_inv: "broker_inv b \<Longrightarrow> broker_inv (snd (end_share_session sid token b))"
  by (auto simp: end_share_session_def broker_inv_def al.wf_del list_all_delete split: sum.split
      intro: order.trans [OF length_delete_le])

lemma create_inv: "broker_inv b \<Longrightarrow> broker_inv (snd (create_share_session e peer body b))"
proof -
  assume b: "broker_inv b"
  have s: "share_ok (new_share e body)"
    by (simp add: share_ok_def new_share_def active_guest_count_def distinct_keys_def)
  show ?thesis
    using b s length_al_update [of "env_id e" "new_share e body" "shares b"]
    by (auto simp: create_share_session_def broker_inv_def al.wf_put list_all_update result_simps split: sum.split)
qed

lemma permits_delete: "distinct_keys js \<Longrightarrow> map_of js i = Some j
    \<Longrightarrow> permits (AList.delete i js) + (if job_permit j then 1 else 0) = permits js"
proof (induction js)
  case (Cons a js)
  obtain k x where a: "a = (k, x)" by fastforce
  have "AList.delete k js = js" if "k \<notin> fst ` set js" using that by (induction js) auto
  then show ?case using Cons by (cases "i = k") (auto simp: a permits_def distinct_keys_def)
qed simp

lemma permits_insert: "map_of js i = None
    \<Longrightarrow> permits (AList.update i j js) = permits js + (if job_permit j then 1 else 0)"
  by (induction js) (auto simp: permits_def split: if_splits)

lemma drop_job_inv: "broker_inv b \<Longrightarrow> map_of (jobs b) i = Some j \<Longrightarrow> broker_inv (drop_job i j b)"
  using permits_delete [of "jobs b" i j]
  by (auto simp: broker_inv_def drop_job_def al.wf_del list_all_delete split: if_splits)

lemma access_room: "validate_join_access utc s body = Inr u
    \<Longrightarrow> active_guest_count s < 3 \<and> body_secret body = invite_secret s
      \<and> (\<forall>t. invite_expires_at s = Some t \<longrightarrow> utc < t)"
  by (auto simp: validate_join_access_def result_simps split: option.splits)

lemma admit_ok:
  assumes "share_ok s" and "active_guest_count s < 3" and "admit_guest e body s = (t, auto)"
  shows "share_ok t"
proof -
  have "guest_ok (new_guest e body a)" for a by (simp add: guest_ok_def new_guest_def)
  then show ?thesis
    using assms active_update [of "env_id e" "new_guest e body auto" "guests s"]
    by (auto simp: admit_guest_def Let_def share_ok_def active_guest_count_def active_def al.wf_put list_all_update)
qed

lemma join_finish_inv:
  assumes b: "broker_inv b"
  shows "broker_inv (snd (finish_join e sid body h ok b))"
proof (cases "map_of (shares b) sid")
  case None
  then show ?thesis using b by (simp add: finish_join_def find_share_def)
next
  case (Some s)
  obtain t auto where a: "admit_guest e body s = (t, auto)" by fastforce
  note o = find_share_ok [OF b Some]
  show ?thesis
    using b o put_share_inv [OF b, of "register_failed_join_attempt (env_now e) s" sid]
      put_share_inv [OF b, of t sid] admit_ok [OF o _ a] access_room [of "env_utc e" s body]
    by (auto simp: finish_join_def find_share_def Some a result_simps split: sum.split)
qed

lemma join_begin_inv:
  assumes b: "broker_inv b"
  shows "broker_inv (join_begin e i sid body b)"
proof -
  have p: "broker_inv b1 \<and> jobs b1 = jobs b" if "prepare_join e sid clean b = (Inl err, b1)" for clean err b1
    using that b find_share_ok [OF b, of sid]
    by (auto simp: prepare_join_def find_share_def ok_or_def put_share_inv put_share_def [of _ _ b]
        split: option.splits if_splits sum.splits) (simp_all flip: put_share_def add: put_share_inv)
  have q: "broker_inv (b1\<lparr>jobs := AList.update i j (jobs b1)\<rparr>)"
    if "prepare_join e sid clean b = (Inr (h, permit), b1)" "map_of (jobs b) i = None" "job_permit j = permit"
      "job_hash j = h" "job_body j = clean" for clean h permit b1 j
  proof -
    have "job_ready j"
      using that by (auto simp: prepare_join_def job_ready_def split: option.splits if_splits sum.splits)
    then show ?thesis
      using that b find_share_ok [OF b, of sid] put_share_inv [OF b, of _ sid] permits_insert [of "jobs b" i j]
      by (auto simp: prepare_join_def find_share_def ok_or_def broker_inv_def put_share_def al.wf_put list_all_modify
          list_all_update split: option.splits if_splits sum.splits)
  qed
  show ?thesis
    using p q b by (auto simp: join_begin_def split: option.splits sum.splits prod.splits)
qed

lemma join_end_inv: "broker_inv b \<Longrightarrow> broker_inv (join_end e i b)"
  by (auto simp: join_end_def split: option.split sum.split intro!: join_finish_inv intro: drop_job_inv)

lemma job_verified_ready: "job_ready j \<Longrightarrow> job_verified e j \<noteq> None"
  by (auto simp: job_ready_def job_verified_def split: option.splits)

lemma attach_auth_ok: "share_ok s \<Longrightarrow> attach_auth now c auth s = Some t \<Longrightarrow> share_ok t"
  by (auto simp: attach_auth_def split: stream_auth.splits option.splits
      dest: connect_ok [OF guest_look] intro!: put_guest_ok)

lemma register_inv:
  assumes "broker_inv b" and "register_socket now c sid auth b = (ok, b1)"
  shows "broker_inv b1"
  using assms attach_auth_ok [OF find_share_ok [OF assms(1), of sid]]
  by (auto simp: register_socket_def Let_def split: option.splits intro!: put_share_inv)

lemma activity_inv:
  assumes "broker_inv b"
  shows "broker_inv (mark_connection_activity now sid auth c b)"
proof -
  have "guest_ok (r\<lparr>guest_seen := n\<rparr>) = guest_ok r" for r n by (simp add: guest_ok_def)
  then show ?thesis
    using assms by (auto simp: mark_connection_activity_def split: option.split stream_auth.split
        dest: find_share_ok guest_look intro!: put_share_inv put_guest_ok)
qed

lemma detached_inv:
  assumes "broker_inv b"
  shows "broker_inv (handle_disconnect now sid auth c b)"
  using assms by (auto simp: handle_disconnect_def Let_def disconnect_ok split: option.split stream_auth.split
      dest: find_share_ok guest_look intro!: put_share_inv put_guest_ok disconnect_ok)

lemma relay_inv: "broker_inv b \<Longrightarrow> broker_inv (relay_payload sid auth payload b)"
  by (auto simp: relay_payload_def split: option.split stream_auth.split)

lemma message_inv: "broker_inv b \<Longrightarrow> broker_inv (snd (handle_message e sid auth c m b))"
  using activity_inv [of b "env_now e" sid auth c]
  by (auto simp: handle_message_def Let_def relay_inv split: ws_message.split sum.split)

lemma closed_inv: "broker_inv b \<Longrightarrow> broker_inv (socket_closed e c b)"
  by (auto simp: socket_closed_def detached_inv split: option.split)

lemma cleanup_share_ok:
  assumes "share_ok s" and "cleanup_share now s obs = (t, obs1, ended)"
  shows "share_ok t"
proof -
  let ?f = "\<lambda>(g, r). (g, if silent now r then disconnect now r else r)"
  let ?gs = "map ?f (guests s)"
  have keys: "map fst ?gs = map fst (guests s)" by (simp add: case_prod_beta comp_def)
  have ok: "list_all (\<lambda>(g, r). guest_ok r) ?gs"
    using assms(1) disconnect_ok by (auto simp: share_ok_def list_all_iff)
  have count: "active ?gs = active (guests s)"
    by (simp add: active_def filter_map comp_def case_prod_beta disconnect_ok if_distrib [of guest_state] cong: filter_cong)
  have retain: "active (al_retain Q m) \<le> active m" for Q m
    by (induction m) (auto simp: active_def al_retain_def)
  have t: "guests t = al_retain (\<lambda>g r. keep_guest now r) ?gs"
    using assms(2) by (auto simp: cleanup_share_def Let_def)
  have d: "distinct_keys ?gs" using assms(1) keys by (simp only: share_ok_def distinct_keys_def)
  have "active (guests t) \<le> 3"
    using retain [of "\<lambda>g r. keep_guest now r" ?gs] count assms(1)
    unfolding t share_ok_def active_guest_count_def active_def by linarith
  then show ?thesis
    unfolding share_ok_def active_guest_count_def using distinct_al_retain [OF d] list_all_retain [OF ok]
    by (simp add: active_def t)
qed

lemma cleanup_loop_ok:
  "cleanup_loop now ss obs = (kept, obs1, gone) \<Longrightarrow> list_all (\<lambda>(i, s). share_ok s) ss
    \<Longrightarrow> list_all (\<lambda>(i, s). share_ok s) kept \<and> subseq (map fst kept) (map fst ss)"
proof (induction ss arbitrary: obs kept obs1 gone)
  case (Cons a ss)
  obtain i s where a: "a = (i, s)" by fastforce
  obtain t q en where c: "cleanup_share now s obs = (t, q, en)" by (metis prod_cases3)
  obtain k2 q2 g2 where r: "cleanup_loop now ss q = (k2, q2, g2)" by (metis prod_cases3)
  show ?case
    using Cons.prems Cons.IH [OF r] cleanup_share_ok [OF _ c] by (auto simp: a c r split: if_splits)
qed simp

lemma cleanup_inv:
  assumes "broker_inv b"
  shows "broker_inv (cleanup_expired_sessions now b)"
proof -
  obtain kept obs gone where r: "cleanup_loop now (shares b) (outboxes b) = (kept, obs, gone)" by (metis prod_cases3)
  have k: "list_all (\<lambda>(i, s). share_ok s) kept" "subseq (map fst kept) (map fst (shares b))"
    using cleanup_loop_ok [OF r] assms by (simp_all add: broker_inv_def)
  have "length kept \<le> length (shares b)" using list_emb_length [OF k(2)] by simp
  moreover have "distinct (map fst kept)"
    using k(2) assms unfolding broker_inv_def distinct_keys_def by (metis subseq_conv_nths distinct_nthsI)
  ultimately show ?thesis
    using assms k(1) by (simp add: cleanup_expired_sessions_def r broker_inv_def distinct_keys_def)
qed

lemma broker_act_inv: "broker_inv b \<Longrightarrow> broker_inv (broker_act b ev)"
proof (cases ev)
  case (Register e c)
  then show "broker_inv b \<Longrightarrow> ?thesis"
    by (auto split: option.split prod.split dest: register_inv [rotated])
next
  case (Message e c m)
  show "broker_inv b \<Longrightarrow> ?thesis"
    using message_inv [of b e _ _ c m] closed_inv
    by (auto simp: Message split: option.split prod.split) (metis snd_conv)+
qed (auto intro: create_inv join_begin_inv join_end_inv rotate_inv approve_inv deny_inv ending_inv closed_inv
    cleanup_inv drop_job_inv split: option.split sum.split)

lemma broker_start: "broker_inv (new_broker loopback)"
  by (simp add: broker_inv_def new_broker_def distinct_keys_def permits_def)

interpretation broker: guarded_machine "new_broker loopback" broker_act broker_inv for loopback
  by unfold_locales (rule broker_start, rule broker_act_inv)

lemma broker_run_inv: "broker_inv (broker_run loopback es)"
  unfolding broker_run_def by (rule broker.run_inv)

lemma jobs_ready: "broker_inv b \<Longrightarrow> list_all (\<lambda>(i, j). job_verified e j \<noteq> None) (jobs b)"
  unfolding broker_inv_def using job_verified_ready by (fastforce elim: list.pred_mono_strong)

text \<open>
  The broker stays within its bounds. In every state that any interleaving of requests, joins
  under verification, sockets and cleanups can reach there are at most 128 sessions, at most three
  participants per session that have not been denied, at most two password verifications at a time,
  and a guest is marked as approved exactly when its connection state is one of an approved guest.
  No join under verification can panic on a missing passphrase or permit.\<close>
theorem participants_bounded:
  "length (shares (broker_run loopback es)) \<le> 128
   \<and> list_all (\<lambda>(i, s). active_guest_count s \<le> 3
        \<and> list_all (\<lambda>(g, r). approved r = (guest_state r \<in> {Approved, Connected, Disconnected})) (guests s))
      (shares (broker_run loopback es))
   \<and> length (filter (\<lambda>(i, j). job_permit j) (jobs (broker_run loopback es))) \<le> 2
   \<and> list_all (\<lambda>(i, j). job_verified e j \<noteq> None) (jobs (broker_run loopback es))"
  using broker_run_inv [of loopback es] jobs_ready [OF broker_run_inv, of e loopback es]
  by (auto simp: broker_inv_def share_ok_def guest_ok_def MAX_SHARE_SESSIONS_def MAX_PASSWORD_VERIFICATIONS_def
      permits_def list_all_iff)

end
