(* ===== verification/BrokerAuthority.thy ===== *)
theory BrokerAuthority
  imports BrokerSafety
begin

text \<open>
  Who can approve a guest and where relayed data may go. A step of the broker is calm when no guest
  appears, is approved or is readmitted by it; every step is calm except the host's approval and the
  end of a join whose secret and passphrase were verified.
\<close>

section \<open>Who can approve a guest\<close>

definition guest_view :: "broker \<Rightarrow> uuid \<Rightarrow> uuid \<Rightarrow> guest option" where
  "guest_view b sid g = Option.bind (map_of (shares b) sid) (\<lambda>s. map_of (guests s) g)"

text \<open>No guest appears, is approved or is readmitted.\<close>

definition calm_guest :: "guest option \<Rightarrow> guest option \<Rightarrow> bool" where
  "calm_guest x y \<longleftrightarrow> (\<forall>r'. y = Some r' \<longrightarrow> (\<exists>r. x = Some r \<and> (approved r' \<longrightarrow> approved r)
      \<and> (guest_state r = Denied \<longrightarrow> guest_state r' = Denied)))"

definition calm :: "broker \<Rightarrow> broker \<Rightarrow> bool" where
  "calm b b1 \<longleftrightarrow> (\<forall>sid g. calm_guest (guest_view b sid g) (guest_view b1 sid g))"

lemma calm_guest_refl [simp]: "calm_guest x x" "calm_guest x None"
  by (simp_all add: calm_guest_def)

lemma calm_guest_trans: "calm_guest x y \<Longrightarrow> calm_guest y z \<Longrightarrow> calm_guest x z"
  unfolding calm_guest_def by metis

lemma calm_refl [simp]: "calm b b"
  by (simp add: calm_def)

lemma calm_trans: "calm b c \<Longrightarrow> calm c d \<Longrightarrow> calm b d"
  unfolding calm_def by (metis calm_guest_trans)

lemma calm_same: "shares c = shares b \<Longrightarrow> calm b c"
  by (simp add: calm_def guest_view_def)

lemma guest_view_put:
  "map_of (shares b) sid = Some s \<Longrightarrow>
    guest_view (put_share sid t b) i g = (if i = sid then map_of (guests t) g else guest_view b i g)"
  by (simp add: guest_view_def put_share_def map_of_al_modify)

lemma guest_view_fields [simp]:
  "guest_view (b\<lparr>outboxes := q\<rparr>) = guest_view b" "guest_view (b\<lparr>sockets := w\<rparr>) = guest_view b"
  "guest_view (b\<lparr>upgrades := u\<rparr>) = guest_view b" "guest_view (b\<lparr>jobs := j\<rparr>) = guest_view b"
  "guest_view (b\<lparr>slots := n\<rparr>) = guest_view b" "guest_view (drop_job i jb b) = guest_view b"
  by (simp_all add: guest_view_def drop_job_def fun_eq_iff)

lemma calm_fields [simp]:
  "calm b (c\<lparr>outboxes := q\<rparr>) = calm b c" "calm b (c\<lparr>sockets := w\<rparr>) = calm b c"
  "calm b (c\<lparr>upgrades := u\<rparr>) = calm b c" "calm b (c\<lparr>jobs := j\<rparr>) = calm b c"
  "calm b (c\<lparr>slots := n\<rparr>) = calm b c" "calm b (drop_job i jb c) = calm b c"
  "calm (c\<lparr>sockets := w\<rparr>) b = calm c b" "calm (c\<lparr>upgrades := u\<rparr>) b = calm c b"
  by (simp_all add: calm_def)

lemma calm_put:
  assumes "map_of (shares b) sid = Some s" and "\<And>g. calm_guest (map_of (guests s) g) (map_of (guests t) g)"
  shows "calm b (put_share sid t b)"
  using assms(2) unfolding calm_def guest_view_put [OF assms(1)] by (simp add: guest_view_def assms(1))

lemma calm_put_same: "map_of (shares b) sid = Some s \<Longrightarrow> guests t = guests s \<Longrightarrow> calm b (put_share sid t b)"
  by (erule calm_put) (simp only: calm_guest_refl)

lemma calm_put_guest:
  assumes "map_of (shares b) sid = Some s" and "map_of (guests s) g = Some r"
    and "approved r' \<Longrightarrow> approved r" and "guest_state r = Denied \<Longrightarrow> guest_state r' = Denied"
  shows "calm b (put_share sid (put_guest g r' s) b)"
  by (rule calm_put [OF assms(1)]) (use assms(2-4) in \<open>auto simp: put_guest_def map_of_al_modify calm_guest_def\<close>)

lemma calm_create: "calm b (snd (create_share_session e peer body b))"
  by (auto simp: create_share_session_def calm_def guest_view_def al.look_put_if new_share_def split: sum.split)

lemma calm_rotate: "calm b (snd (rotate_invite sid token secret expires b))"
  by (auto simp: rotate_invite_def host_share_cases split: sum.split intro: calm_put_same)

lemma calm_deny: "calm b (snd (deny_join e sid token g b))"
  by (auto simp: deny_join_def Let_def host_guest_cases split: sum.split intro: calm_put_guest)

lemma calm_finish: "calm b (snd (end_share_session sid token b))"
  by (auto simp: end_share_session_def calm_def guest_view_def al.look_del_if split: sum.split)

lemma failed_guests [simp]: "guests (register_failed_join_attempt now s) = guests s"
  by (simp add: register_failed_join_attempt_def Let_def)

lemma calm_prepare: "prepare_join e sid body b = (r, c) \<Longrightarrow> calm b c"
  by (auto simp: prepare_join_def find_share_def ok_or_def split: option.splits sum.splits if_splits
      intro!: calm_put_same)

lemma calm_join_begin: "calm b (join_begin e i sid body b)"
  by (auto simp: join_begin_def split: sum.split prod.split dest: calm_prepare)

lemma calm_register:
  assumes "register_socket now c sid auth b = (ok, d)"
  shows "calm b d"
proof (cases "map_of (shares b) sid")
  case (Some s)
  have "calm b (put_share sid t b)" if a: "attach_auth now c auth s = Some t" for t
  proof (cases auth)
    case AuthHost
    then show ?thesis using a by (auto simp: attach_auth_def intro!: calm_put_same [OF Some])
  next
    case (AuthGuest g)
    then show ?thesis using a
      by (auto simp: attach_auth_def connect_def split: option.splits if_splits intro: calm_put_guest [OF Some])
  qed
  then show ?thesis using assms Some by (auto simp: register_socket_def Let_def split: option.splits)
qed (use assms in \<open>simp add: register_socket_def\<close>)

lemma calm_activity: "calm b (mark_connection_activity now sid auth c b)"
  by (auto simp: mark_connection_activity_def split: option.split stream_auth.split
      intro: calm_put_same calm_put_guest)

lemma calm_disconnect: "calm b (handle_disconnect now sid auth c b)"
  by (auto simp: handle_disconnect_def Let_def disconnect_def split: option.split stream_auth.split
      intro: calm_put_same calm_put_guest)

lemma calm_relay: "calm b (relay_payload sid auth payload b)"
  by (auto simp: relay_payload_def split: option.split stream_auth.split)

lemma calm_message: "calm b (snd (handle_message e sid auth c m b))"
  using calm_activity [of b "env_now e" sid auth c] calm_trans [OF calm_activity calm_relay]
  by (auto simp: handle_message_def Let_def split: ws_message.split sum.split)

lemma calm_closed: "calm b (socket_closed e c b)"
  using calm_disconnect by (auto simp: socket_closed_def split: option.split) (metis calm_fields(7))

lemma calm_cleanup_share:
  assumes "cleanup_share now s obs = (t, q, en)" and "distinct_keys (guests s)"
  shows "calm_guest (map_of (guests s) g) (map_of (guests t) g)"
proof -
  let ?gs = "map (\<lambda>(g, r). (g, if silent now r then disconnect now r else r)) (guests s)"
  have t: "guests t = al_retain (\<lambda>g r. keep_guest now r) ?gs"
    using assms(1) by (auto simp: cleanup_share_def Let_def)
  have "map_of ?gs g = map_option (\<lambda>r. if silent now r then disconnect now r else r) (map_of (guests s) g)"
    by (induction "guests s" arbitrary: s) (auto simp: map_of_map comp_def)
  moreover have "distinct_keys ?gs" using assms(2) by (simp add: distinct_keys_def case_prod_beta comp_def)
  ultimately show ?thesis
    by (cases "map_of (guests s) g") (auto simp: t map_of_al_retain calm_guest_def disconnect_def Let_def)
qed

lemma calm_cleanup_loop:
  assumes "cleanup_loop now ss obs = (kept, q, gone)" and "distinct_keys ss" and "list_all (\<lambda>(i, s). share_ok s) ss"
    and "map_of kept i = Some t"
  shows "\<exists>s. map_of ss i = Some s \<and> calm_guest (map_of (guests s) g) (map_of (guests t) g)"
  using assms
proof (induction ss arbitrary: obs kept q gone)
  case (Cons a ss)
  obtain k s where a: "a = (k, s)" by fastforce
  obtain t' q' en where c: "cleanup_share now s obs = (t', q', en)" by (metis prod_cases3)
  obtain k2 q2 g2 where r: "cleanup_loop now ss q' = (k2, q2, g2)" by (metis prod_cases3)
  have rest: "distinct_keys ss" "list_all (\<lambda>(i, s). share_ok s) ss" "distinct_keys (guests s)"
    using Cons.prems(2,3) by (auto simp: a distinct_keys_def share_ok_def)
  show ?case
  proof (cases "i = k \<and> \<not> en")
    case True
    then have "t = t'" using Cons.prems(1,4) by (auto simp: a c r)
    then show ?thesis using True calm_cleanup_share [OF c rest(3)] by (auto simp: a)
  next
    case False
    then have "map_of k2 i = Some t" using Cons.prems(1,4) by (auto simp: a c r split: if_splits)
    from Cons.IH [OF r rest(1,2) this] obtain s' where
      s': "map_of ss i = Some s'" "calm_guest (map_of (guests s') g) (map_of (guests t) g)" by blast
    moreover have "i \<noteq> k" using s'(1) Cons.prems(2) by (force simp: a distinct_keys_def dest: map_of_SomeD)
    ultimately show ?thesis by (auto simp: a)
  qed
qed simp

lemma calm_cleanup:
  assumes "broker_inv b"
  shows "calm b (cleanup_expired_sessions now b)"
proof -
  obtain kept q gone where r: "cleanup_loop now (shares b) (outboxes b) = (kept, q, gone)" by (metis prod_cases3)
  show ?thesis
    using calm_cleanup_loop [OF r] assms
    by (fastforce simp: calm_def guest_view_def cleanup_expired_sessions_def r broker_inv_def calm_guest_def
        split: bind_splits)
qed

text \<open>The steps that are not calm.\<close>

definition admits :: "broker_event \<Rightarrow> bool" where
  "admits ev = (case ev of Approve e sid token g \<Rightarrow> True | JoinEnd e i \<Rightarrow> True | _ \<Rightarrow> False)"

lemma calm_step:
  assumes "broker_inv b" and "\<not> admits ev"
  shows "calm b (broker_act b ev)"
proof (cases ev)
  case (Register e c)
  show ?thesis
    by (auto simp: Register split: option.split prod.split dest!: calm_register)
next
  case (Message e c m)
  show ?thesis
    using calm_trans [OF calm_message calm_closed] calm_message [of b e _ _ c m]
    by (auto simp: Message split: option.split prod.split) (metis snd_conv)+
next
  case (Create e peer body)
  then show ?thesis by (simp add: calm_create)
qed (use assms in \<open>auto simp: admits_def calm_join_begin calm_rotate calm_deny calm_finish calm_closed calm_cleanup
    split: option.split sum.split\<close>)

lemma approve_view:
  assumes "guest_view (snd (approve_join e sid token g b)) i h = Some r'"
  shows "guest_view b i h = Some r' \<or> (i = sid \<and> h = g \<and> (\<exists>s r. map_of (shares b) sid = Some s
    \<and> host_token s = token \<and> map_of (guests s) g = Some r \<and> guest_state r \<noteq> Denied))"
  using assms
  by (auto simp: approve_join_def Let_def host_guest_cases result_simps guest_view_put put_guest_def map_of_al_modify
      split: sum.splits if_splits) (auto simp: guest_view_def)

lemma finish_view:
  assumes "guest_view (snd (finish_join e sid body h ok b)) i g = Some r'"
  shows "guest_view b i g = Some r' \<or> (i = sid \<and> g = env_id e \<and> ok \<and> (\<exists>s u. map_of (shares b) sid = Some s
    \<and> validate_join_access (env_utc e) s body = Inr u \<and> passphrase_hash s = h
    \<and> r' = new_guest e body (map_of (trusted_devices s) (body_device body) \<noteq> None)))"
  using assms
  by (auto simp: finish_join_def find_share_def admit_guest_def Let_def result_simps guest_view_put al.look_put_if
      split: sum.splits if_splits prod.splits) (auto simp: guest_view_def)

lemma join_end_view:
  assumes "guest_view (join_end e i b) sid g = Some r'"
  shows "guest_view b sid g = Some r' \<or> (g = env_id e \<and> (\<exists>j s u. map_of (jobs b) i = Some j \<and> job_session j = sid
    \<and> job_verified e j = Some (Inr True) \<and> map_of (shares b) sid = Some s
    \<and> validate_join_access (env_utc e) s (job_body j) = Inr u \<and> passphrase_hash s = job_hash j
    \<and> r' = new_guest e (job_body j) (map_of (trusted_devices s) (body_device (job_body j)) \<noteq> None)))"
proof -
  have d: "shares (drop_job i j b) = shares b" for j by (simp add: drop_job_def)
  show ?thesis
    using assms finish_view [of e _ _ _ _ "drop_job i _ b" sid g r']
    by (auto simp: join_end_def d split: option.splits sum.splits) fastforce+
qed

lemma job_verified_with:
  "job_verified e j = Some (Inr True) \<Longrightarrow> (case job_hash j of None \<Rightarrow> True | Some h \<Rightarrow>
    (\<exists>p. body_passphrase (job_body j) = Some p \<and> verify_passphrase (env_parse e) (env_argon2 e) h p = Inr True))"
  by (auto simp: job_verified_def split: option.splits if_splits)

text \<open>
  C30: Nobody becomes an approved guest without authority. If after any reachable step a guest is
  approved who was not approved before, then the step is either the approval of exactly this guest
  by a request that carries the host's token, or the end of a join that drew this guest's identifier,
  from a device the session trusts, with the session's present invite secret and, where the session
  has a passphrase, a passphrase that was verified against the session's present hash.\<close>
theorem approval_needs_authority:
  assumes "guest_view (broker_act (broker_run loopback es) ev) sid g = Some r'" and "approved r'"
    and "map_option approved (guest_view (broker_run loopback es) sid g) \<noteq> Some True"
  shows "(\<exists>e s. ev = Approve e sid (host_token s) g \<and> map_of (shares (broker_run loopback es)) sid = Some s)
    \<or> (\<exists>e i j s. ev = JoinEnd e i \<and> g = env_id e \<and> map_of (jobs (broker_run loopback es)) i = Some j
        \<and> job_session j = sid \<and> map_of (shares (broker_run loopback es)) sid = Some s
        \<and> body_secret (job_body j) = invite_secret s
        \<and> map_of (trusted_devices s) (body_device (job_body j)) \<noteq> None
        \<and> (case passphrase_hash s of None \<Rightarrow> True | Some h \<Rightarrow> (\<exists>p. body_passphrase (job_body j) = Some p
             \<and> verify_passphrase (env_parse e) (env_argon2 e) h p = Inr True)))"
    (is "?host \<or> ?join")
proof (cases "admits ev")
  case False
  then show ?thesis
    using calm_step [OF broker_run_inv False, of loopback es] assms
    by (auto simp: calm_def calm_guest_def) (metis option.simps(9))
next
  case True
  then consider (approve) e i token h where "ev = Approve e i token h" | (join) e i where "ev = JoinEnd e i"
    by (auto simp: admits_def split: broker_event.splits)
  then show ?thesis
  proof cases
    case approve
    then show ?thesis using assms approve_view [of e i token h _ sid g r'] by fastforce
  next
    case join
    have "guest_view (broker_run loopback es) sid g \<noteq> Some r'" using assms(2,3) by auto
    then obtain j s u where j: "map_of (jobs (broker_run loopback es)) i = Some j" "job_session j = sid" "g = env_id e"
      "job_verified e j = Some (Inr True)" "map_of (shares (broker_run loopback es)) sid = Some s"
      "validate_join_access (env_utc e) s (job_body j) = Inr u" "passphrase_hash s = job_hash j"
      "r' = new_guest e (job_body j) (map_of (trusted_devices s) (body_device (job_body j)) \<noteq> None)"
      using join_end_view [of e i "broker_run loopback es" sid g r'] assms(1) join by auto
    have "map_of (trusted_devices s) (body_device (job_body j)) \<noteq> None"
      using assms(2) j(8) by (simp add: new_guest_def)
    then have ?join
      using j join access_room [OF j(6)] job_verified_with [OF j(4)] by (intro exI conjI) auto
    then show ?thesis ..
  qed
qed

text \<open>A guest that has been turned away, or is not there.\<close>

definition refused :: "guest option \<Rightarrow> bool" where
  "refused x = (case x of None \<Rightarrow> True | Some r \<Rightarrow> guest_state r = Denied)"

definition draws_other :: "uuid \<Rightarrow> broker_event \<Rightarrow> bool" where
  "draws_other g ev = (case ev of JoinEnd e i \<Rightarrow> env_id e \<noteq> g | _ \<Rightarrow> True)"

lemma refused_step:
  assumes "broker_inv b" and "refused (guest_view b sid g)" and "draws_other g ev"
  shows "refused (guest_view (broker_act b ev) sid g)"
proof (cases "admits ev")
  case False
  then show ?thesis
    using calm_step [OF assms(1) False] assms(2)
    by (fastforce simp: calm_def calm_guest_def refused_def split: option.split option.splits)
next
  case True
  have "guest_state r = Denied" if "guest_view (broker_act b ev) sid g = Some r" for r
    using True assms(2,3) that approve_view [of _ _ _ _ b sid g r] join_end_view [of _ _ b sid g r]
    by (fastforce simp: admits_def draws_other_def refused_def guest_view_def split: broker_event.splits)
  then show ?thesis by (auto simp: refused_def split: option.split)
qed

lemma run_append: "broker_run loopback (es @ fs) = foldl broker_act (broker_run loopback es) fs"
  by (simp add: broker_run_def)

lemma refused_run: "refused (guest_view (broker_run loopback es) sid g) \<Longrightarrow> list_all (draws_other g) fs
    \<Longrightarrow> refused (guest_view (broker_run loopback (es @ fs)) sid g)"
proof (induction fs rule: rev_induct)
  case (snoc ev fs)
  then show ?case
    using refused_step [OF broker_run_inv, of loopback "es @ fs"] by (simp add: run_append)
qed simp

text \<open>
  C34: A denial is final. Once a guest has been denied, no later sequence of requests, reconnections,
  joins, approvals and cleanups makes it anything but denied or gone, as long as no later join draws
  its identifier again, and its token opens no stream.\<close>
theorem deny_is_final:
  assumes "guest_view (broker_run loopback es) sid g = Some r" and "guest_state r = Denied"
    and "list_all (draws_other g) fs"
  shows "refused (guest_view (broker_run loopback (es @ fs)) sid g)
    \<and> stream_auth_of sid role token (broker_run loopback (es @ fs)) \<noteq> Inr (AuthGuest g)"
proof -
  have r: "refused (guest_view (broker_run loopback (es @ fs)) sid g)"
    using refused_run [of loopback es sid g fs] assms by (simp add: refused_def)
  have "False" if a: "stream_auth_of sid role token (broker_run loopback (es @ fs)) = Inr (AuthGuest g)"
  proof -
    obtain s x where s: "map_of (shares (broker_run loopback (es @ fs))) sid = Some s"
      "(g, x) \<in> set (guests s)" "guest_state x \<noteq> Denied"
      using a by (auto simp: stream_auth_of_def result_simps find_share_def find_Some_iff split: if_splits)
        (metis nth_mem)
    then have "map_of (guests s) g = Some x"
      using find_share_ok [OF broker_run_inv s(1)] by (simp add: share_ok_def distinct_keys_def)
    then show False using r s by (simp add: refused_def guest_view_def)
  qed
  then show ?thesis using r by blast
qed

end
