(* ===== verification/BrokerRelay.thy ===== *)
theory BrokerRelay
  imports BrokerAuthority
begin

text \<open>
  Where relayed data may go: only a binary message of an authenticated socket queues any, and only
  between the host and guests that may relay. Then the throttle of failed joins, what cleanup leaves
  behind, and a session lived through as an example, which the witnesses use.
\<close>

section \<open>Relayed data\<close>

definition relays :: "(uuid \<times> outbox) list \<Rightarrow> uuid \<Rightarrow> bytes list" where
  "relays q c = (case map_of q c of None \<Rightarrow> []
    | Some ob \<Rightarrow> List.map_filter (\<lambda>m. case m of Relayed p \<Rightarrow> Some p | _ \<Rightarrow> None) (outgoing ob))"

text \<open>Nothing is relayed: no payload is queued more often than before.\<close>

definition hushed :: "(uuid \<times> outbox) list \<Rightarrow> (uuid \<times> outbox) list \<Rightarrow> bool" where
  "hushed q q1 \<longleftrightarrow> (\<forall>c p. count_list (relays q1 c) p \<le> count_list (relays q c) p)"

lemma hushed_refl [simp]: "hushed q q"
  by (simp add: hushed_def)

lemma hushed_trans: "hushed p q \<Longrightarrow> hushed q r \<Longrightarrow> hushed p r"
  unfolding hushed_def by (meson order.trans)

lemma hushed_post_trans [intro]: "hushed p q \<Longrightarrow> (\<And>x. hushed x (f x)) \<Longrightarrow> hushed p (f q)"
  using hushed_trans by blast

lemma map_filter_snoc: "List.map_filter f (xs @ [x]) = List.map_filter f xs @ (case f x of None \<Rightarrow> [] | Some y \<Rightarrow> [y])"
  by (induction xs) (auto simp: List.map_filter_simps split: option.split)

lemma relays_post: "relays (post c m q) d =
  (case map_of q c of None \<Rightarrow> relays q d | Some ob \<Rightarrow>
    if d = c \<and> reader_present ob \<and> length (outgoing ob) < OUTBOUND_QUEUE_CAPACITY
    then relays q d @ (case m of Relayed p \<Rightarrow> [p] | _ \<Rightarrow> []) else relays q d)"
  by (auto simp: relays_def post_def map_of_al_modify map_filter_snoc split: option.split out_message.split)

lemma hushed_post [simp]: "hushed q (post c (Control m) q)" "hushed q (post c (PongBack v) q)"
  by (auto simp: hushed_def relays_post split: option.split)

lemma hushed_post_to [simp]: "hushed q (post_to tx (Control m) q)"
  by (simp add: post_to_def split: option.split)

lemma hushed_fold:
  assumes "\<And>x q. hushed q (f q x)"
  shows "hushed q (foldl f q xs)"
  by (induction xs arbitrary: q) (auto intro: hushed_trans [OF assms])

lemma hushed_post_all [simp]: "hushed q (post_all txs (Control m) q)"
  unfolding post_all_def by (rule hushed_fold) simp

lemma hushed_notify [simp]: "hushed q (broadcast_presence s q)" "hushed q (notify_host_disconnected s q)"
    "hushed q (notify_host_reconnected s q)" "hushed q (notify_session_ended s q)"
  by (auto simp: broadcast_presence_def notify_host_disconnected_def notify_host_reconnected_def
      notify_session_ended_def Let_def intro: hushed_trans [OF hushed_post_to])

lemma hushed_open: "hushed q (open_outbox c q)"
  by (auto simp: hushed_def relays_def open_outbox_def al.look_put_if List.map_filter_simps)

lemma hushed_modify:
  assumes "\<And>ob. outgoing (f ob) = outgoing ob \<or> outgoing (f ob) = tl (outgoing ob)"
  shows "hushed q (al_modify c f q)"
proof -
  have "count_list (List.map_filter h (tl xs)) p \<le> count_list (List.map_filter h xs) p"
    for h :: "out_message \<Rightarrow> bytes option" and xs p
    by (cases xs) (auto simp: List.map_filter_simps split: option.split)
  then show ?thesis
    using assms by (auto simp: hushed_def relays_def map_of_al_modify split: option.split) (metis order.refl)
qed

text \<open>A payload that is relayed reaches the outboxes it is posted to, and no other.\<close>

lemma relays_post_to:
  "relays (post_to tx (Relayed p) q) c = relays q c \<or> tx = Some c"
  "p' \<noteq> p \<Longrightarrow> count_list (relays (post_to tx (Relayed p) q) c) p' = count_list (relays q c) p'"
  by (auto simp: post_to_def relays_post split: option.split)

lemma post_all_Cons: "post_all (tx # txs) m q = post_all txs m (post_to tx m q)"
  by (simp add: post_all_def)

lemma relays_post_all:
  "relays (post_all txs (Relayed p) q) c = relays q c \<or> Some c \<in> set txs"
  "p' \<noteq> p \<Longrightarrow> count_list (relays (post_all txs (Relayed p) q) c) p' = count_list (relays q c) p'"
proof (induction txs arbitrary: q)
  case (Cons tx txs)
  { case 1 show ?case
      using Cons.IH(1) [of "post_to tx (Relayed p) q"] relays_post_to(1) [of tx p q c]
      by (auto simp: post_all_Cons) }
  { case 2 then show ?case
      by (simp add: post_all_Cons Cons.IH(2) relays_post_to(2)) }
qed (auto simp: post_all_def)

section \<open>Steps that relay nothing\<close>

lemma hushed_decisions:
  "hushed (outboxes b) (outboxes (snd (approve_join e sid token g b)))"
  "hushed (outboxes b) (outboxes (snd (deny_join e sid token g b)))"
  "hushed (outboxes b) (outboxes (snd (end_share_session sid token b)))"
  "hushed (outboxes b) (outboxes (snd (rotate_invite sid token secret expires b)))"
  "hushed (outboxes b) (outboxes (snd (create_share_session e peer body b)))"
  by (auto simp: approve_join_def deny_join_def end_share_session_def rotate_invite_def create_share_session_def
      put_share_def Let_def split: sum.split intro: hushed_trans [OF hushed_post_to])

lemma hushed_finish_join: "hushed (outboxes b) (outboxes (snd (finish_join e sid body h ok b)))"
  by (auto simp: finish_join_def put_share_def split: sum.split prod.split
      intro: hushed_trans [OF hushed_notify(1)])

lemma hushed_join_end: "hushed (outboxes b) (outboxes (join_end e i b))"
  using hushed_finish_join [of "drop_job i _ b"]
  by (auto simp: join_end_def drop_job_def split: option.split sum.split)

lemma prepare_outboxes: "prepare_join e sid body b = (r, c) \<Longrightarrow> outboxes c = outboxes b"
  by (auto simp: prepare_join_def put_share_def split: sum.splits if_splits)

lemma hushed_join_begin: "hushed (outboxes b) (outboxes (join_begin e i sid body b))"
  by (auto simp: join_begin_def split: sum.split prod.split dest: prepare_outboxes)

lemma hushed_requests: "hushed q (foldl (\<lambda>q m. post c m q) q (pending_requests t))"
proof -
  have "list_all (\<lambda>m. \<exists>k. m = Control k) (pending_requests t)"
    by (auto simp: pending_requests_def list_all_iff List.map_filter_def split: if_splits)
  moreover have "hushed q (foldl (\<lambda>q m. post c m q) q ms)" if "list_all (\<lambda>m. \<exists>k. m = Control k) ms" for ms
    using that by (induction ms arbitrary: q) (auto intro: hushed_trans [OF hushed_post(1)])
  ultimately show ?thesis by blast
qed

lemma hushed_register:
  assumes "register_socket now c sid auth b = (ok, d)"
  shows "hushed (outboxes b) (outboxes d)"
proof (cases "map_of (shares b) sid")
  case (Some s)
  show ?thesis
  proof (cases "attach_auth now c auth s")
    case (Some t)
    note defs = register_socket_def Let_def \<open>map_of (shares b) sid = Some s\<close> Some option.case
    define q1 where "q1 = (if auth = AuthHost \<and> host_disconnected_at s \<noteq> None
      then notify_host_reconnected t (open_outbox c (outboxes b)) else open_outbox c (outboxes b))"
    define q2 where "q2 = (if auth = AuthHost
      then foldl (\<lambda>q m. post c m q) (broadcast_presence t q1) (pending_requests t) else broadcast_presence t q1)"
    define q3 where "q3 = post c (Control (case auth of
      AuthHost \<Rightarrow> ConnectedAs HostRole None | AuthGuest g \<Rightarrow> ConnectedAs GuestRole (Some g))) q2"
    have "hushed (outboxes b) q1" using hushed_trans [OF hushed_open hushed_notify(3)] by (simp add: q1_def hushed_open)
    moreover have "hushed q1 q2" using hushed_trans [OF hushed_notify(1) hushed_requests] by (simp add: q2_def)
    moreover have "hushed q2 q3" by (simp add: q3_def)
    ultimately have q: "hushed (outboxes b) q3" using hushed_trans by blast
    have "outboxes d = (case auth of AuthHost \<Rightarrow> q3 | AuthGuest g \<Rightarrow> (case map_of (guests t) g of
        Some r \<Rightarrow> if may_relay r then post c (Control (JoinApproved g)) q3 else q3 | None \<Rightarrow> q3))"
      using assms unfolding defs q3_def q2_def q1_def by auto
    then show ?thesis
      using hushed_trans [OF q] q by (auto split: stream_auth.split option.split)
  qed (use assms Some in \<open>simp add: register_socket_def\<close>)
qed (use assms in \<open>simp add: register_socket_def\<close>)

lemma activity_outboxes [simp]: "outboxes (mark_connection_activity now sid auth c b) = outboxes b"
  by (simp add: mark_connection_activity_def put_share_def split: option.split stream_auth.split)

lemma hushed_closed: "hushed (outboxes b) (outboxes (socket_closed e c b))"
  by (auto simp: socket_closed_def handle_disconnect_def put_share_def Let_def split: option.split stream_auth.split)

lemma hushed_cleanup_share: "cleanup_share now s q = (t, q1, en) \<Longrightarrow> hushed q q1"
  by (auto simp: cleanup_share_def Let_def split: if_splits intro: hushed_trans [OF hushed_notify(2)])

lemma hushed_cleanup_loop: "cleanup_loop now ss q = (kept, q1, gone) \<Longrightarrow> hushed q q1"
proof (induction ss arbitrary: q kept q1 gone)
  case (Cons a ss)
  obtain k s where a: "a = (k, s)" by fastforce
  obtain t q' en where c: "cleanup_share now s q = (t, q', en)" by (metis prod_cases3)
  obtain k2 q2 g2 where r: "cleanup_loop now ss q' = (k2, q2, g2)" by (metis prod_cases3)
  show ?case
    using Cons.prems Cons.IH [OF r] hushed_trans [OF hushed_cleanup_share [OF c]]
    by (auto simp: a c r split: if_splits)
qed simp

lemma hushed_cleanup: "hushed (outboxes b) (outboxes (cleanup_expired_sessions now b))"
proof -
  obtain kept q gone where r: "cleanup_loop now (shares b) (outboxes b) = (kept, q, gone)" by (metis prod_cases3)
  show ?thesis
    using hushed_trans [OF hushed_cleanup_loop [OF r] hushed_fold [of "\<lambda>q s. notify_session_ended s q"]]
    by (simp add: cleanup_expired_sessions_def r)
qed

text \<open>The other messages of a socket, and a payload whose envelope is refused.\<close>

lemma hushed_message:
  "hushed (outboxes b) (outboxes (snd (handle_message e sid auth c m b)))
    \<or> (\<exists>p. m = WsBinary p \<and> env_envelope e p = Some (sid, auth))"
  by (auto simp: handle_message_def validate_relay_envelope_def Let_def result_simps
      split: ws_message.split sum.split)

lemma hushed_step:
  assumes "\<not> (\<exists>e c p sid auth. ev = Message e c (WsBinary p) \<and> map_of (sockets b) c = Some (sid, auth)
    \<and> env_envelope e p = Some (sid, auth))"
  shows "hushed (outboxes b) (outboxes (broker_act b ev))"
proof (cases ev)
  case (Register e c)
  show ?thesis
    using hushed_register [of "env_now e" c] by (fastforce simp: Register split: option.split prod.split)
next
  case (Message e c m)
  show ?thesis
  proof (cases "map_of (sockets b) c")
    case (Some a)
    obtain sid auth where a: "a = (sid, auth)" by fastforce
    have "hushed (outboxes b) (outboxes (snd (handle_message e sid auth c m b)))"
      using assms hushed_message [of b e sid auth c m] by (auto simp: Message Some a)
    then show ?thesis
      using hushed_trans [OF _ hushed_closed] by (fastforce simp: Message Some a split: prod.split)
  qed (simp add: Message)
qed (auto intro: hushed_decisions hushed_join_begin hushed_join_end hushed_closed hushed_cleanup hushed_modify
    simp: drop_job_def split: option.split sum.split)

text \<open>Activity changes no more of a session than when its members were last seen.\<close>

lemma activity_share:
  assumes "map_of (shares (mark_connection_activity now sid auth c b)) sid = Some t"
  shows "\<exists>s. map_of (shares b) sid = Some s \<and> host_tx t = host_tx s
    \<and> (\<forall>g. map_option (\<lambda>r. (may_relay r, guest_tx r)) (map_of (guests t) g)
         = map_option (\<lambda>r. (may_relay r, guest_tx r)) (map_of (guests s) g))"
  using assms
  by (auto simp: mark_connection_activity_def put_share_def put_guest_def map_of_al_modify may_relay_def
      split: option.splits stream_auth.splits if_splits)

definition may_reach :: "share_session \<Rightarrow> stream_auth \<Rightarrow> uuid \<Rightarrow> bool" where
  "may_reach s auth c = (case auth of
      AuthHost \<Rightarrow> list_ex (\<lambda>(g, r). may_relay r \<and> guest_tx r = Some c) (guests s)
    | AuthGuest g \<Rightarrow> host_tx s = Some c \<and> (case map_of (guests s) g of None \<Rightarrow> False | Some r \<Rightarrow> may_relay r))"

lemma relay_reaches:
  assumes "count_list (relays (outboxes (relay_payload sid auth payload b)) c) p > count_list (relays (outboxes b) c) p"
  shows "p = payload \<and> (\<exists>s. map_of (shares b) sid = Some s \<and> may_reach s auth c)"
proof (cases "map_of (shares b) sid")
  case (Some s)
  show ?thesis
  proof (cases auth)
    case AuthHost
    let ?txs = "map (\<lambda>(g, r). if may_relay r then guest_tx r else None) (guests s)"
    have "outboxes (relay_payload sid auth payload b) = post_all ?txs (Relayed payload) (outboxes b)"
      by (simp add: relay_payload_def Some AuthHost)
    then have less: "count_list (relays (outboxes b) c) p < count_list (relays (post_all ?txs (Relayed payload) (outboxes b)) c) p"
      using assms by simp
    then have "p = payload"
      using relays_post_all(2) [of p payload ?txs "outboxes b" c] by (cases "p = payload") auto
    moreover have "Some c \<in> set ?txs"
      using relays_post_all(1) [of ?txs payload "outboxes b" c] less by (elim disjE) simp_all
    ultimately have "p = payload \<and> Some c \<in> set ?txs" ..
    moreover then obtain g r where "(g, r) \<in> set (guests s)" "may_relay r" "guest_tx r = Some c"
      by (auto split: if_splits)
    ultimately show ?thesis by (auto simp: Some AuthHost may_reach_def list_ex_iff intro: bexI [of _ "(g, r)"])
  next
    case (AuthGuest g)
    then show ?thesis
      using assms relays_post_to(1) [of "host_tx s" payload "outboxes b" c]
        relays_post_to(2) [of p payload "host_tx s" "outboxes b" c]
      by (auto simp: relay_payload_def Some may_reach_def split: option.splits if_splits)
  qed
qed (use assms in \<open>simp add: relay_payload_def\<close>)

text \<open>
  C31: Data is relayed only with authority. If after any reachable step a payload waits more often in
  the outbox of a connection than before, then the step is a binary message with exactly this payload
  on an authenticated socket, its envelope names the session and the sender that the socket was
  authenticated as, and the receiver is the connection of a guest that may relay when the host sends,
  or the host's connection when a guest that may relay sends.\<close>
theorem relay_is_authorised:
  assumes "count_list (relays (outboxes (broker_act (broker_run loopback es) ev)) c) p
    > count_list (relays (outboxes (broker_run loopback es)) c) p"
  shows "\<exists>e d sid auth s. ev = Message e d (WsBinary p) \<and> map_of (sockets (broker_run loopback es)) d = Some (sid, auth)
    \<and> env_envelope e p = Some (sid, auth) \<and> map_of (shares (broker_run loopback es)) sid = Some s
    \<and> may_reach s auth c"
proof -
  let ?b = "broker_run loopback es"
  obtain e d p' sid auth where ev: "ev = Message e d (WsBinary p')" "map_of (sockets ?b) d = Some (sid, auth)"
    "env_envelope e p' = Some (sid, auth)"
    using hushed_step [of ev ?b] assms unfolding hushed_def by (metis not_le)
  let ?b1 = "mark_connection_activity (env_now e) sid auth d ?b"
  have "broker_act ?b ev = relay_payload sid auth p' ?b1"
    using ev by (simp add: handle_message_def validate_relay_envelope_def ok_or_def reject_if_def)
  then have p: "p = p'" "\<exists>t. map_of (shares ?b1) sid = Some t \<and> may_reach t auth c"
    using relay_reaches [where b = ?b1 and sid = sid and auth = auth and payload = p' and p = p and c = c] assms by auto
  then obtain t where t: "map_of (shares ?b1) sid = Some t" "may_reach t auth c" by blast
  obtain s where s: "map_of (shares ?b) sid = Some s" "host_tx t = host_tx s"
    "\<And>g. map_option (\<lambda>r. (may_relay r, guest_tx r)) (map_of (guests t) g)
       = map_option (\<lambda>r. (may_relay r, guest_tx r)) (map_of (guests s) g)"
    using activity_share [OF t(1)] by blast
  have "distinct_keys (guests t)"
    using find_share_ok [OF activity_inv [OF broker_run_inv] t(1)] by (simp add: share_ok_def)
  have "may_reach s auth c"
  proof (cases auth)
    case AuthHost
    then obtain g r where "(g, r) \<in> set (guests t)" "may_relay r" "guest_tx r = Some c"
      using t(2) by (auto simp: may_reach_def list_ex_iff)
    then have "map_option (\<lambda>r. (may_relay r, guest_tx r)) (map_of (guests s) g) = Some (True, Some c)"
      using s(3) [of g] \<open>distinct_keys (guests t)\<close> by (simp add: distinct_keys_def)
    then show ?thesis by (fastforce simp: AuthHost may_reach_def list_ex_iff dest: map_of_SomeD)
  next
    case (AuthGuest g)
    then show ?thesis
      using t(2) s(2) s(3) [of g] by (cases "map_of (guests s) g") (auto simp: may_reach_def split: option.splits)
  qed
  then show ?thesis using ev p(1) s(1) by blast
qed

section \<open>The throttle of failed joins\<close>

fun failed_joins :: "nat list \<Rightarrow> share_session \<Rightarrow> share_session" where
  "failed_joins [] s = s"
| "failed_joins (now # ts) s = failed_joins ts (register_failed_join_attempt now s)"

text \<open>
  The throttle backs off exponentially to half a minute. After \<open>n\<close> failed attempts in a row, fewer
  than \<open>2 ^ 32\<close>, the session has counted them, and the last one at \<open>now\<close> locks joins until
  \<open>min (2 ^ min (n - 1) 5) 30\<close> seconds later: a join before that is refused as throttled and changes
  nothing at all.\<close>
theorem failed_joins_back_off:
  assumes "failed_join_attempts s = 0" and "length ts + 1 < 2 ^ 32"
    and "map_of (shares b) sid = Some (failed_joins (ts @ [now]) s)"
    and "env_now e < now + 1000 * min (2 ^ min (length ts) 5) 30"
  shows "failed_join_attempts (failed_joins (ts @ [now]) s) = length ts + 1
    \<and> prepare_join e sid body b = (Inl (TOO_MANY_REQUESTS, ''Join temporarily throttled''), b)"
proof -
  have snoc: "failed_joins (ts @ [now]) s = register_failed_join_attempt now (failed_joins ts s)"
    by (induction ts arbitrary: s) auto
  have "failed_join_attempts (failed_joins ts s) = failed_join_attempts s + length ts"
    if "failed_join_attempts s + length ts < 2 ^ 32" for s
    using that by (induction ts arbitrary: s) (auto simp: register_failed_join_attempt_def Let_def)
  then have "failed_join_attempts (failed_joins ts s) = length ts" using assms(1,2) by simp
  then show ?thesis
    using assms(2-4)
    by (simp add: snoc prepare_join_def find_share_def ok_or_def register_failed_join_attempt_def Let_def
        JOIN_BACKOFF_MAX_SECS_def)
qed

section \<open>Cleanup\<close>

text \<open>
  A guest that was approved without a connection, by its device or by the host, is kept by every
  cleanup: none of the three rules for guests without a connection speaks of the state \<open>Approved\<close>.\<close>

definition unattended :: "guest \<Rightarrow> bool" where
  "unattended r \<longleftrightarrow> guest_state r = Approved \<and> guest_tx r = None"

lemma unattended_kept: "unattended r \<Longrightarrow> keep_guest now r \<and> \<not> silent now r"
  by (simp add: unattended_def keep_guest_def silent_def)

lemma unattended_share:
  assumes "cleanup_share now s q = (t, q1, en)" and "distinct_keys (guests s)" and "map_of (guests s) g = Some r"
    and "unattended r"
  shows "map_of (guests t) g = Some r"
proof -
  let ?gs = "map (\<lambda>(g, r). (g, if silent now r then disconnect now r else r)) (guests s)"
  have t: "guests t = al_retain (\<lambda>g r. keep_guest now r) ?gs"
    using assms(1) by (auto simp: cleanup_share_def Let_def)
  have "map_of ?gs g = Some r"
    using assms(3) unattended_kept [OF assms(4), of now]
    by (induction "guests s" arbitrary: s) (auto simp: map_of_map comp_def)
  moreover have "distinct_keys ?gs" using assms(2) by (simp add: distinct_keys_def case_prod_beta comp_def)
  ultimately show ?thesis using unattended_kept [OF assms(4), of now] by (simp add: t map_of_al_retain)
qed

lemma unattended_loop:
  "cleanup_loop now ss q = (kept, q1, gone) \<Longrightarrow> distinct_keys ss \<Longrightarrow> list_all (\<lambda>(i, s). share_ok s) ss
    \<Longrightarrow> map_of ss i = Some s \<Longrightarrow> map_of (guests s) g = Some r \<Longrightarrow> unattended r
    \<Longrightarrow> case map_of kept i of None \<Rightarrow> True | Some t \<Rightarrow> map_of (guests t) g = Some r"
proof (induction ss arbitrary: q kept q1 gone)
  case (Cons a ss)
  obtain k u where a: "a = (k, u)" by fastforce
  obtain t q' en where c: "cleanup_share now u q = (t, q', en)" by (metis prod_cases3)
  obtain k2 q2 g2 where l: "cleanup_loop now ss q' = (k2, q2, g2)" by (metis prod_cases3)
  have rest: "distinct_keys ss" "list_all (\<lambda>(i, s). share_ok s) ss" "distinct_keys (guests u)"
    using Cons.prems(2,3) by (auto simp: a distinct_keys_def share_ok_def)
  have sub: "fst ` set k2 \<subseteq> fst ` set ss"
    using cleanup_loop_ok [OF l rest(2)] by (metis list.set_map notin_set_nthsI subseq_conv_nths subsetI)
  show ?case
  proof (cases "i = k")
    case True
    then have "map_of k2 i = None" using sub Cons.prems(2) by (auto simp: a distinct_keys_def map_of_eq_None_iff)
    then show ?thesis
      using True Cons.prems(1,4-6) unattended_share [OF c rest(3)] by (auto simp: a c l split: if_splits)
  next
    case False
    then have "map_of kept i = map_of k2 i" using Cons.prems(1) by (auto simp: a c l split: if_splits)
    then show ?thesis using Cons.IH [OF l rest(1,2)] Cons.prems(4-6) False by (simp add: a)
  qed
qed simp

lemma unattended_cleanup:
  assumes "broker_inv b" and "guest_view b sid g = Some r" and "unattended r"
    and "map_of (shares (cleanup_expired_sessions now b)) sid \<noteq> None"
  shows "guest_view (cleanup_expired_sessions now b) sid g = Some r"
proof -
  obtain kept q gone where l: "cleanup_loop now (shares b) (outboxes b) = (kept, q, gone)" by (metis prod_cases3)
  obtain s where s: "map_of (shares b) sid = Some s" "map_of (guests s) g = Some r"
    using assms(2) by (auto simp: guest_view_def split: bind_splits)
  show ?thesis
    using unattended_loop [OF l _ _ s assms(3)] assms(1,4)
    by (auto simp: guest_view_def cleanup_expired_sessions_def l broker_inv_def)
qed

lemma cleanup_ended:
  assumes "broker_inv b" and "map_of (shares b) sid = None"
  shows "map_of (shares (cleanup_expired_sessions now b)) sid = None"
proof -
  obtain kept q gone where l: "cleanup_loop now (shares b) (outboxes b) = (kept, q, gone)" by (metis prod_cases3)
  then have "subseq (map fst kept) (map fst (shares b))"
    using cleanup_loop_ok [OF l] assms(1) by (simp add: broker_inv_def)
  then have "fst ` set kept \<subseteq> fst ` set (shares b)"
    by (metis list.set_map notin_set_nthsI subseq_conv_nths subsetI)
  then show ?thesis using assms(2) by (auto simp: cleanup_expired_sessions_def l map_of_eq_None_iff)
qed

text \<open>
  C39: An approval that is never used is never cleaned up. A guest that is approved and has no
  connection is still there, unchanged, after any number of cleanups at any times, as long as its
  session is: unlike a guest that is pending, denied or disconnected it keeps its place among the three
  participants until the host denies it or the session ends.\<close>
theorem unused_approval_is_kept:
  assumes "guest_view (broker_run loopback es) sid g = Some r" and "guest_state r = Approved" and "guest_tx r = None"
  shows "map_of (shares (broker_run loopback (es @ map Cleanup envs))) sid = None
    \<or> guest_view (broker_run loopback (es @ map Cleanup envs)) sid g = Some r"
proof (induction envs rule: rev_induct)
  case (snoc e envs)
  have "broker_inv (broker_run loopback (es @ map Cleanup envs))" by (rule broker_run_inv)
  note step = cleanup_ended [OF this] unattended_cleanup [OF this]
  have "broker_run loopback (es @ map Cleanup (envs @ [e]))
      = cleanup_expired_sessions (env_now e) (broker_run loopback (es @ map Cleanup envs))"
    by (simp add: run_append)
  then show ?case using snoc step assms(2,3) by (metis unattended_def)
qed (use assms(1) in simp)

end
