(* ===== verification/BrokerDemo.thy ===== *)
theory BrokerDemo
  imports BrokerRelay
begin

text \<open>
  A shared session lived through: it is created with a trusted device, the device joins and is
  approved, the host and the guest open their streams, the guest sends a payload and is denied. The
  theorems about the broker are applied along it.
\<close>

definition demo_broker_env :: "uuid \<Rightarrow> bytes \<Rightarrow> broker_env" where
  "demo_broker_env i token = \<lparr>env_now = 0, env_utc = 0, env_id = i, env_token = token, env_parse = (\<lambda>_. None),
     env_argon2 = (\<lambda>_ _. False), env_envelope = (\<lambda>p. Some (1, AuthGuest 2)), env_control_char = (\<lambda>_. False)\<rparr>"

definition demo_body :: join_body where
  "demo_body = \<lparr>body_name = [97], body_secret = [5], body_device = [9], body_passphrase = None\<rparr>"

definition demo_joining :: "broker_event list" where
  "demo_joining = [Create (demo_broker_env 1 [10]) None \<lparr>create_secret = [5], create_expires = None, create_hash = None,
       create_devices = [([9], \<lparr>last_display_name = [], last_seen_at = 0\<rparr>)]\<rparr>,
     JoinBegin (demo_broker_env 0 []) 100 1 demo_body]"

definition demo_streams :: "broker_event list" where
  "demo_streams = [JoinEnd (demo_broker_env 2 [20]) 100, Upgrade 50 1 ''host'' [10], Register (demo_broker_env 0 []) 50,
     Upgrade 60 1 ''guest'' [20], Register (demo_broker_env 0 []) 60]"

lemmas demo_requests = create_share_session_def reject_if_def valid_device_def new_share_def MAX_SHARE_SESSIONS_def
  MAX_TRUSTED_DEVICES_def MAX_DEVICE_ID_LEN_def MAX_DISPLAY_NAME_LEN_def MAX_INVITE_SECRET_LEN_def MAX_PASSPHRASE_LEN_def
  sanitize_join_request_def trim_def trim_chars_def is_whitespace_def chars_def utf8_chars.simps Let_def join_begin_def
  prepare_join_def find_share_def ok_or_def validate_join_access_def active_guest_count_def new_broker_def

definition demo_share :: share_session where
  "demo_share = \<lparr>invite_secret = [5], invite_expires_at = None, passphrase_hash = None, host_token = [10],
     host_tx = None, host_connection = None, host_seen = 0, host_disconnected_at = Some 0, failed_join_attempts = 0,
     join_locked_until = None, trusted_devices = [([9], \<lparr>last_display_name = [], last_seen_at = 0\<rparr>)], guests = []\<rparr>"

lemma demo_joining_state:
  "broker_run False demo_joining = (new_broker False)\<lparr>shares := [(1, demo_share)],
     jobs := [(100, \<lparr>job_session = 1, job_body = demo_body, job_hash = None, job_permit = False\<rparr>)]\<rparr>"
  by (simp add: broker_run_def demo_joining_def demo_broker_env_def demo_body_def demo_share_def demo_requests)

definition demo_guest :: guest where
  "demo_guest = new_guest (demo_broker_env 2 [20]) demo_body True"

lemmas demo_ends = join_end_def job_verified_def drop_job_def finish_join_def find_share_def ok_or_def reject_if_def
  validate_join_access_def active_guest_count_def admit_guest_def Let_def put_share_def broadcast_presence_def
  post_to_def post_all_def guest_senders_def al_modify_def

lemma demo_joined_state:
  "broker_run False (demo_joining @ [JoinEnd (demo_broker_env 2 [20]) 100]) = (new_broker False)\<lparr>shares := [(1, demo_share
     \<lparr>trusted_devices := [([9], \<lparr>last_display_name = [97], last_seen_at = 0\<rparr>)], guests := [(2, demo_guest)]\<rparr>)]\<rparr>"
  by (simp add: run_append demo_joining_state demo_ends demo_share_def demo_guest_def new_guest_def demo_body_def
      demo_broker_env_def new_broker_def)

lemma approval_needs_authority_witness:
  "(\<exists>e s. JoinEnd (demo_broker_env 2 [20]) 100 = Approve e 1 (host_token s) 2
      \<and> map_of (shares (broker_run False demo_joining)) 1 = Some s)
    \<or> (\<exists>e i j s. JoinEnd (demo_broker_env 2 [20]) 100 = JoinEnd e i \<and> 2 = env_id e
        \<and> map_of (jobs (broker_run False demo_joining)) i = Some j
        \<and> job_session j = 1 \<and> map_of (shares (broker_run False demo_joining)) 1 = Some s
        \<and> body_secret (job_body j) = invite_secret s
        \<and> map_of (trusted_devices s) (body_device (job_body j)) \<noteq> None
        \<and> (case passphrase_hash s of None \<Rightarrow> True | Some h \<Rightarrow> (\<exists>p. body_passphrase (job_body j) = Some p
             \<and> verify_passphrase (env_parse e) (env_argon2 e) h p = Inr True)))"
proof (rule approval_needs_authority)
  show "guest_view (broker_act (broker_run False demo_joining) (JoinEnd (demo_broker_env 2 [20]) 100)) 1 2 = Some demo_guest"
    using demo_joined_state by (simp add: run_append guest_view_def)
  show "approved demo_guest" by (simp add: demo_guest_def new_guest_def)
  show "map_option approved (guest_view (broker_run False demo_joining) 1 2) \<noteq> Some True"
    by (simp add: demo_joining_state guest_view_def demo_share_def)
qed

lemmas demo_sockets = stream_auth_of_def find_share_def ok_or_def reject_if_def map_err_def register_socket_def
  attach_auth_def connect_def put_guest_def pending_requests_def List.map_filter_simps open_outbox_def may_relay_def
  notify_host_reconnected_def broadcast_presence_def post_to_def post_all_def guest_senders_def post_def al_modify_def
  put_share_def Let_def OUTBOUND_QUEUE_CAPACITY_def

text \<open>Both streams are open and the presence of the guest has been announced twice to the host.\<close>

definition demo_live :: broker where
  "demo_live = (new_broker False)\<lparr>shares := [(1, demo_share\<lparr>host_tx := Some 50, host_connection := Some 50,
       host_disconnected_at := None, trusted_devices := [([9], \<lparr>last_display_name = [97], last_seen_at = 0\<rparr>)],
       guests := [(2, demo_guest\<lparr>guest_state := Connected, guest_tx := Some 60, guest_connection := Some 60\<rparr>)]\<rparr>)],
     outboxes := [(50, \<lparr>outgoing = [Control (Presence [(2, [97], 0, Approved)]), Control (ConnectedAs HostRole None),
         Control (Presence [(2, [97], 0, Connected)])], reader_present = True\<rparr>),
       (60, \<lparr>outgoing = [Control (Presence [(2, [97], 0, Connected)]), Control (ConnectedAs GuestRole (Some 2)),
         Control (JoinApproved 2)], reader_present = True\<rparr>)],
     sockets := [(50, 1, AuthHost), (60, 1, AuthGuest 2)]\<rparr>"

lemma demo_live_state: "broker_run False (demo_joining @ demo_streams) = demo_live"
proof -
  have step: "broker_run False (demo_joining @ demo_streams)
    = foldl broker_act (broker_run False (demo_joining @ [JoinEnd (demo_broker_env 2 [20]) 100])) (tl demo_streams)"
    by (simp add: run_append demo_streams_def)
  show ?thesis unfolding step demo_joined_state by (simp add: demo_streams_def demo_sockets demo_share_def demo_guest_def
      new_guest_def demo_body_def demo_broker_env_def new_broker_def demo_live_def)
qed

lemmas demo_live_eval = demo_live_def demo_share_def demo_guest_def new_guest_def demo_body_def demo_broker_env_def
  new_broker_def

lemma relay_is_authorised_witness:
  "\<exists>e d sid auth s. Message (demo_broker_env 0 []) 60 (WsBinary [7]) = Message e d (WsBinary [7])
    \<and> map_of (sockets (broker_run False (demo_joining @ demo_streams))) d = Some (sid, auth)
    \<and> env_envelope e [7] = Some (sid, auth)
    \<and> map_of (shares (broker_run False (demo_joining @ demo_streams))) sid = Some s \<and> may_reach s auth 50"
proof (rule relay_is_authorised)
  show "count_list (relays (outboxes (broker_act (broker_run False (demo_joining @ demo_streams))
        (Message (demo_broker_env 0 []) 60 (WsBinary [7])))) 50) [7]
    > count_list (relays (outboxes (broker_run False (demo_joining @ demo_streams))) 50) [7]"
    unfolding demo_live_state
    by (simp add: demo_live_eval handle_message_def mark_connection_activity_def validate_relay_envelope_def
        relay_payload_def relays_def demo_sockets)
qed

lemma deny_is_final_witness:
  "refused (guest_view (broker_run False ((demo_joining @ demo_streams @ [Deny (demo_broker_env 0 []) 1 [10] 2])
      @ [Approve (demo_broker_env 0 []) 1 [10] 2])) 1 2)
    \<and> stream_auth_of 1 ''guest'' [20] (broker_run False ((demo_joining @ demo_streams @ [Deny (demo_broker_env 0 []) 1 [10] 2])
      @ [Approve (demo_broker_env 0 []) 1 [10] 2])) \<noteq> Inr (AuthGuest 2)"
proof (rule deny_is_final)
  have state: "broker_run False (demo_joining @ demo_streams @ [Deny (demo_broker_env 0 []) 1 [10] 2])
      = broker_act demo_live (Deny (demo_broker_env 0 []) 1 [10] 2)"
    by (simp add: run_append flip: demo_live_state)
  show "guest_view (broker_run False (demo_joining @ demo_streams @ [Deny (demo_broker_env 0 []) 1 [10] 2])) 1 2
      = Some (demo_guest\<lparr>guest_state := Denied, approved := False, guest_disconnected_at := Some 0, guest_tx := Some 60,
          guest_connection := Some 60\<rparr>)"
    unfolding state by (simp add: demo_live_eval deny_join_def host_guest_def host_share_def guest_view_def demo_sockets)
qed (simp_all add: draws_other_def)

lemma failed_joins_back_off_witness:
  "failed_join_attempts (failed_joins ([] @ [0]) demo_share) = length ([] :: nat list) + 1
    \<and> prepare_join (demo_broker_env 0 []) 1 demo_body ((new_broker False)\<lparr>shares := [(1, failed_joins ([] @ [0]) demo_share)]\<rparr>)
      = (Inl (TOO_MANY_REQUESTS, ''Join temporarily throttled''),
         (new_broker False)\<lparr>shares := [(1, failed_joins ([] @ [0]) demo_share)]\<rparr>)"
  by (rule failed_joins_back_off) (simp_all add: demo_share_def demo_broker_env_def)

lemma unused_approval_is_kept_witness:
  "map_of (shares (broker_run False ((demo_joining @ [JoinEnd (demo_broker_env 2 [20]) 100]) @ map Cleanup [demo_broker_env 0 []]))) 1 = None
    \<or> guest_view (broker_run False ((demo_joining @ [JoinEnd (demo_broker_env 2 [20]) 100]) @ map Cleanup [demo_broker_env 0 []])) 1 2
      = Some demo_guest"
  by (rule unused_approval_is_kept) (simp_all add: demo_joined_state guest_view_def demo_guest_def new_guest_def)

end
