(* ===== verification/InputWriter.thy ===== *)
theory InputWriter
  imports Prelude "HOL-Library.Sublist"
begin

text \<open>
  The bounded input queue of a terminal (\<open>src/src/terminal/input_writer.rs\<close>): callers hand over whole
  inputs under a lock, one worker takes them out and writes them to the operating system, which may
  accept a part, ask to try again or fail. The worker is a state machine whose every phase is one
  access to the lock or one call of the writer, so that a close may fall between any two of them; the
  answers of the writer are inputs. The last section of the state is a history: the bytes accepted,
  less those that a final message cancelled, and the bytes the writer took.
\<close>

section \<open>State\<close>

definition MAX_INPUT_BYTES :: nat where "MAX_INPUT_BYTES = 2 * 1024 * 1024"

text \<open>The message of the last failure.\<close>

datatype input_error = InvalidInput | BrokenPipe | WouldBlock | WriteFailed | Recorded bytes

datatype writer_answer = Wrote nat | Interrupted | Failed

text \<open>
  Where the worker is: before the queue, before it looks whether the queue was closed, in the call of
  \<open>write\<close> (or of \<open>flush\<close>, once the offset is at the end), in \<open>retry_input\<close> before and after its wait, back
  from the batch with its result (\<open>None\<close> for an error), and ended.
\<close>

datatype worker_phase = Idle | Checking bytes nat | Calling bytes nat | Retrying bytes nat | Pausing bytes nat
  | Returning bytes "bool option" | Ended

record writer_state =
  pending :: "bytes list"
  buffered :: nat
  closed :: bool
  finishing :: bool
  input_failure :: "input_error option"
  phase :: worker_phase
  handles :: nat
  accepted :: bytes
  delivered :: bytes

definition new_writer :: writer_state where
  "new_writer = \<lparr>pending = [], buffered = 0, closed = False, finishing = False, input_failure = None,
     phase = Idle, handles = 1, accepted = [], delivered = []\<rparr>"

section \<open>Callers\<close>

definition enqueue_failure :: "bytes \<Rightarrow> writer_state \<Rightarrow> input_error option" where
  "enqueue_failure bs s =
    (if length bs > MAX_INPUT_BYTES then Some InvalidInput
     else if closed s \<or> finishing s then Some BrokenPipe
     else if length bs > MAX_INPUT_BYTES - buffered s then Some WouldBlock
     else None)"

definition enqueue :: "bytes \<Rightarrow> writer_state \<Rightarrow> (input_error + unit) \<times> writer_state" where
  "enqueue bs s =
    (if bs = [] then (Inr (), s)
     else case enqueue_failure bs s of
       Some err \<Rightarrow> (Inl err, s\<lparr>input_failure := Some err\<rparr>)
     | None \<Rightarrow> (Inr (), s\<lparr>buffered := buffered s + length bs, pending := pending s @ [bs], accepted := accepted s @ bs\<rparr>))"

definition check_open :: "writer_state \<Rightarrow> input_error + unit" where
  "check_open s = (if closed s \<or> finishing s then Inl BrokenPipe else Inr ())"

definition record_error :: "bytes \<Rightarrow> writer_state \<Rightarrow> writer_state" where
  "record_error message s = s\<lparr>input_failure := Some (Recorded message)\<rparr>"

definition enqueue_final :: "bytes \<Rightarrow> writer_state \<Rightarrow> (input_error + unit) \<times> writer_state" where
  "enqueue_final bs s =
    (if closed s then (Inl BrokenPipe, s)
     else let queued = sum_list (map length (pending s))
       in (Inr (), s\<lparr>buffered := buffered s - queued + length bs, pending := [bs], finishing := True,
            accepted := take (length (accepted s) - queued) (accepted s) @ bs\<rparr>))"

definition close_input :: "writer_state \<Rightarrow> writer_state" where
  "close_input s = s\<lparr>closed := True, pending := [], buffered := 0\<rparr>"

definition finished :: "writer_state \<Rightarrow> bool" where
  "finished s \<longleftrightarrow> phase s = Ended"

text \<open>The references to the shared state: one of every handle, and the worker's until it has ended.\<close>

definition strong_count :: "writer_state \<Rightarrow> nat" where
  "strong_count s = handles s + (if finished s then 0 else 1)"

definition drop_handle :: "writer_state \<Rightarrow> writer_state" where
  "drop_handle s = (let t = (if strong_count s \<le> 2 \<and> \<not> finishing s then close_input s else s)
     in t\<lparr>handles := handles s - 1\<rparr>)"

section \<open>The worker\<close>

text \<open>The head of \<open>run_input_worker\<close>: waiting, returning, or taking the next input.\<close>

definition next_input :: "writer_state \<Rightarrow> writer_state" where
  "next_input s =
    (if closed s \<or> (finishing s \<and> pending s = []) then s\<lparr>phase := Ended\<rparr>
     else case pending s of
       [] \<Rightarrow> s
     | bs # rest \<Rightarrow> s\<lparr>pending := rest, phase := Checking bs 0\<rparr>)"

text \<open>The answer of \<open>write\<close>, which never takes more than it was given, or of \<open>flush\<close> at the end of the input.\<close>

definition writer_answered :: "bytes \<Rightarrow> nat \<Rightarrow> writer_answer \<Rightarrow> writer_state \<Rightarrow> writer_state" where
  "writer_answered bs at answer s =
    (case answer of
       Interrupted \<Rightarrow> s\<lparr>phase := Retrying bs at\<rparr>
     | Failed \<Rightarrow> s\<lparr>phase := Returning bs None\<rparr>
     | Wrote n \<Rightarrow>
         if length bs \<le> at then s\<lparr>phase := Returning bs (Some True)\<rparr>
         else let m = min n (length bs - at) in
           if m = 0 then s\<lparr>phase := Returning bs None\<rparr>
           else s\<lparr>phase := Checking bs (at + m), delivered := delivered s @ take m (drop at bs)\<rparr>)"

definition batch_returned :: "bytes \<Rightarrow> bool option \<Rightarrow> writer_state \<Rightarrow> writer_state" where
  "batch_returned bs result s =
    (let t = s\<lparr>buffered := buffered s - length bs\<rparr> in
     case result of
       None \<Rightarrow> t\<lparr>input_failure := Some WriteFailed, pending := [], buffered := 0, closed := True, phase := Ended\<rparr>
     | Some False \<Rightarrow> t\<lparr>phase := Ended\<rparr>
     | Some True \<Rightarrow> t\<lparr>phase := Idle\<rparr>)"

definition worker_step :: "writer_answer \<Rightarrow> writer_state \<Rightarrow> writer_state" where
  "worker_step answer s =
    (case phase s of
       Idle \<Rightarrow> next_input s
     | Checking bs at \<Rightarrow> if closed s then s\<lparr>phase := Returning bs (Some False)\<rparr> else s\<lparr>phase := Calling bs at\<rparr>
     | Calling bs at \<Rightarrow> writer_answered bs at answer s
     | Retrying bs at \<Rightarrow> if closed s then s\<lparr>phase := Returning bs (Some False)\<rparr> else s\<lparr>phase := Pausing bs at\<rparr>
     | Pausing bs at \<Rightarrow> if closed s then s\<lparr>phase := Returning bs (Some False)\<rparr> else s\<lparr>phase := Checking bs at\<rparr>
     | Returning bs result \<Rightarrow> batch_returned bs result s
     | Ended \<Rightarrow> s)"

datatype input_event = Enqueue bytes | EnqueueFinal bytes | RecordError bytes | CloseInput | CloneHandle
  | DropHandle | WorkerStep writer_answer

fun input_act :: "writer_state \<Rightarrow> input_event \<Rightarrow> writer_state" where
  "input_act s (Enqueue bs) = snd (enqueue bs s)"
| "input_act s (EnqueueFinal bs) = snd (enqueue_final bs s)"
| "input_act s (RecordError message) = record_error message s"
| "input_act s CloseInput = close_input s"
| "input_act s CloneHandle = s\<lparr>handles := handles s + 1\<rparr>"
| "input_act s DropHandle = drop_handle s"
| "input_act s (WorkerStep answer) = worker_step answer s"

definition input_run :: "input_event list \<Rightarrow> writer_state" where
  "input_run es = foldl input_act new_writer es"

end
