(* ===== verification/InputDelivery.thy ===== *)
theory InputDelivery
  imports InputWriter
begin

text \<open>
  What the input queue promises: it refines a pipe of bytes, its budget is exact, a writer that takes
  something in every call gets everything that was accepted, and after a close the worker ends.
\<close>

section \<open>The invariant\<close>

text \<open>The input in the worker's hands, and what of it the writer has not taken yet.\<close>

definition in_flight :: "worker_phase \<Rightarrow> bytes" where
  "in_flight p = (case p of Checking bs at \<Rightarrow> bs | Calling bs at \<Rightarrow> bs | Retrying bs at \<Rightarrow> bs | Pausing bs at \<Rightarrow> bs
    | Returning bs result \<Rightarrow> bs | _ \<Rightarrow> [])"

definition unwritten :: "worker_phase \<Rightarrow> bytes" where
  "unwritten p = (case p of Checking bs at \<Rightarrow> drop at bs | Calling bs at \<Rightarrow> drop at bs | Retrying bs at \<Rightarrow> drop at bs
    | Pausing bs at \<Rightarrow> drop at bs | _ \<Rightarrow> [])"

definition failing :: "worker_phase \<Rightarrow> bool" where
  "failing p = (case p of Returning bs result \<Rightarrow> result = None | _ \<Rightarrow> False)"

definition held :: "writer_state \<Rightarrow> nat" where
  "held s = length (in_flight (phase s)) + sum_list (map length (pending s))"

definition phase_ok :: "bool \<Rightarrow> bool \<Rightarrow> worker_phase \<Rightarrow> bool" where
  "phase_ok shut final p = (case p of Returning bs result \<Rightarrow> result = Some False \<longrightarrow> shut
    | Ended \<Rightarrow> shut \<or> final | _ \<Rightarrow> True)"

definition input_inv :: "writer_state \<Rightarrow> bool" where
  "input_inv s \<longleftrightarrow>
     (\<exists>lost. accepted s = delivered s @ unwritten (phase s) @ lost @ concat (pending s)
       \<and> (closed s \<or> failing (phase s) \<or> lost = []))
     \<and> (if closed s then buffered s = 0 \<and> pending s = [] else buffered s = held s)
     \<and> (finishing s \<or> buffered s \<le> MAX_INPUT_BYTES)
     \<and> phase_ok (closed s) (finishing s) (phase s)"

lemma input_invI:
  assumes "accepted s = delivered s @ unwritten (phase s) @ lost @ concat (pending s)"
    and "closed s \<or> failing (phase s) \<or> lost = []"
    and "if closed s then buffered s = 0 \<and> pending s = [] else buffered s = held s"
    and "finishing s \<or> buffered s \<le> MAX_INPUT_BYTES"
    and "phase_ok (closed s) (finishing s) (phase s)"
  shows "input_inv s"
  using assms unfolding input_inv_def by blast

lemma input_invE:
  assumes "input_inv s"
  obtains lost where "accepted s = delivered s @ unwritten (phase s) @ lost @ concat (pending s)"
    and "closed s \<or> failing (phase s) \<or> lost = []"
    and "if closed s then buffered s = 0 \<and> pending s = [] else buffered s = held s"
    and "finishing s \<or> buffered s \<le> MAX_INPUT_BYTES"
    and "phase_ok (closed s) (finishing s) (phase s)"
  using assms unfolding input_inv_def by blast

lemmas phase_defs = in_flight_def unwritten_def failing_def held_def phase_ok_def

lemma handles_inv [simp]: "input_inv (s\<lparr>handles := n\<rparr>) = input_inv s" "input_inv (s\<lparr>input_failure := f\<rparr>) = input_inv s"
  by (simp_all add: input_inv_def held_def)

lemma enqueue_inv:
  assumes "input_inv s"
  shows "input_inv (snd (enqueue bs s))"
proof (cases "bs = [] \<or> enqueue_failure bs s \<noteq> None")
  case False
  obtain lost where l: "accepted s = delivered s @ unwritten (phase s) @ lost @ concat (pending s)"
    "closed s \<or> failing (phase s) \<or> lost = []" "if closed s then buffered s = 0 \<and> pending s = [] else buffered s = held s"
    "phase_ok (closed s) (finishing s) (phase s)" "finishing s \<or> buffered s \<le> MAX_INPUT_BYTES"
    using assms by (rule input_invE)
  show ?thesis
    by (rule input_invI [where lost = lost])
      (use False l in \<open>auto simp: enqueue_def enqueue_failure_def held_def split: if_splits\<close>)
qed (use assms in \<open>auto simp: enqueue_def\<close>)

lemma final_inv:
  assumes "input_inv s"
  shows "input_inv (snd (enqueue_final bs s))"
proof (cases "closed s")
  case False
  obtain lost where a: "accepted s = delivered s @ unwritten (phase s) @ lost @ concat (pending s)"
    and l: "failing (phase s) \<or> lost = []"
    using assms False by (auto simp: input_inv_def)
  have keep: "take (length (accepted s) - sum_list (map length (pending s))) (accepted s)
      = delivered s @ unwritten (phase s) @ lost"
    by (simp add: a length_concat)
  have b: "buffered s = held s" using assms False by (simp add: input_inv_def)
  show ?thesis
    by (rule input_invI [where lost = lost])
      (use assms False keep l b in \<open>auto simp: enqueue_final_def Let_def held_def input_inv_def phase_ok_def
        split: worker_phase.splits\<close>)
qed (use assms in \<open>simp add: enqueue_final_def\<close>)

lemma close_inv: "input_inv s \<Longrightarrow> input_inv (close_input s)"
  by (auto simp: input_inv_def close_input_def phase_ok_def split: worker_phase.splits)

lemma drop_inv: "input_inv s \<Longrightarrow> input_inv (drop_handle s)"
  by (simp add: drop_handle_def Let_def close_inv)

lemma next_inv:
  assumes "input_inv s" and "phase s = Idle"
  shows "input_inv (next_input s)"
  using assms by (auto simp: input_inv_def next_input_def phase_defs split: list.split)

lemma answered_inv:
  assumes "input_inv s" and "phase s = Calling bs at"
  shows "input_inv (writer_answered bs at answer s)"
proof -
  show ?thesis
  proof (cases answer)
    case (Wrote n)
    show ?thesis
    proof (cases "length bs \<le> at \<or> n = 0")
      case True
      then show ?thesis using assms Wrote
        by (auto simp: input_inv_def writer_answered_def phase_defs)
    next
      case False
      define m where "m = min n (length bs - at)"
      have cut: "take m (drop at bs) @ drop (at + m) bs @ ys = drop at bs @ ys" for ys
        by (metis append_assoc append_take_drop_id drop_drop add.commute)
      obtain lost where l: "accepted s = delivered s @ unwritten (phase s) @ lost @ concat (pending s)"
        "closed s \<or> failing (phase s) \<or> lost = []" "if closed s then buffered s = 0 \<and> pending s = [] else buffered s = held s"
        "finishing s \<or> buffered s \<le> MAX_INPUT_BYTES"
        using assms(1) by (rule input_invE)
      have t: "writer_answered bs at answer s
          = s\<lparr>phase := Checking bs (at + m), delivered := delivered s @ take m (drop at bs)\<rparr>"
        using False by (auto simp: writer_answered_def Wrote m_def Let_def)
      show ?thesis
        unfolding t
        by (rule input_invI [where lost = lost]) (use l assms(2) cut cut [of "[]"] in \<open>auto simp: phase_defs\<close>)
    qed
  qed (use assms in \<open>auto simp: input_inv_def writer_answered_def phase_defs\<close>)
qed

lemma returned_inv: "input_inv s \<Longrightarrow> phase s = Returning bs result \<Longrightarrow> input_inv (batch_returned bs result s)"
  by (auto simp: input_inv_def batch_returned_def Let_def phase_defs split: option.split bool.split if_splits)

lemma worker_inv:
  assumes "input_inv s"
  shows "input_inv (worker_step answer s)"
  using assms next_inv [OF assms] answered_inv [OF assms] returned_inv [OF assms]
  by (cases "phase s") (auto simp: worker_step_def input_inv_def phase_defs)

lemma input_act_inv: "input_inv s \<Longrightarrow> input_inv (input_act s ev)"
  by (cases ev) (simp_all add: enqueue_inv final_inv close_inv drop_inv worker_inv record_error_def)

lemma input_start: "input_inv new_writer"
  by (simp add: input_inv_def new_writer_def phase_defs)

interpretation input: guarded_machine new_writer input_act input_inv
  by unfold_locales (rule input_start, rule input_act_inv)

lemma input_run_inv: "input_inv (input_run es)"
  unfolding input_run_def by (rule input.run_inv)

section \<open>The refined pipe\<close>

text \<open>
  The abstract pipe: the whole inputs that wait, what the writer has not taken yet of the input in
  hand, what it took, whether the pipe is shut, whether its last message is in, and whether a write has
  failed. Each action has the guard under which the pipe allows it.
\<close>

record pipe =
  waiting :: "bytes list"
  in_hand :: bytes
  taken :: bytes
  shut :: bool
  last_in :: bool
  broken :: bool

datatype pipe_action = Accept bytes | Final bytes | Shut | TakeNext | Pass nat | Break | Abandon | GiveUp | Stay

fun pipe_step :: "pipe_action \<Rightarrow> pipe \<Rightarrow> pipe option" where
  "pipe_step (Accept bs) p =
     (if shut p \<or> last_in p \<or> bs = [] then None else Some (p\<lparr>waiting := waiting p @ [bs]\<rparr>))"
| "pipe_step (Final bs) p = (if shut p then None else Some (p\<lparr>waiting := [bs], last_in := True\<rparr>))"
| "pipe_step Shut p = Some (p\<lparr>waiting := [], shut := True\<rparr>)"
| "pipe_step TakeNext p =
     (case waiting p of
        [] \<Rightarrow> None
      | bs # rest \<Rightarrow> if shut p \<or> broken p \<or> in_hand p \<noteq> [] then None else Some (p\<lparr>waiting := rest, in_hand := bs\<rparr>))"
| "pipe_step (Pass n) p =
     (if n = 0 \<or> length (in_hand p) < n then None
      else Some (p\<lparr>in_hand := drop n (in_hand p), taken := taken p @ take n (in_hand p)\<rparr>))"
| "pipe_step Break p = (if broken p then None else Some (p\<lparr>in_hand := [], broken := True\<rparr>))"
| "pipe_step Abandon p = (if shut p then Some (p\<lparr>in_hand := []\<rparr>) else None)"
| "pipe_step GiveUp p =
     (if broken p then Some (p\<lparr>waiting := [], shut := True, broken := False\<rparr>) else None)"
| "pipe_step Stay p = Some p"

text \<open>The pipe that a state of the queue stands for, with every input that waits in it.\<close>

definition pipe_of :: "writer_state \<Rightarrow> pipe" where
  "pipe_of s = \<lparr>waiting = pending s, in_hand = unwritten (phase s), taken = delivered s, shut = closed s,
     last_in = finishing s, broken = failing (phase s)\<rparr>"

text \<open>The action that an operation with its result, or a step of the worker with the writer's answer, is.\<close>

fun action_of :: "input_event \<Rightarrow> writer_state \<Rightarrow> pipe_action" where
  "action_of (Enqueue bs) s = (if bs \<noteq> [] \<and> fst (enqueue bs s) = Inr () then Accept bs else Stay)"
| "action_of (EnqueueFinal bs) s = (if fst (enqueue_final bs s) = Inr () then Final bs else Stay)"
| "action_of (RecordError m) s = Stay"
| "action_of CloseInput s = Shut"
| "action_of CloneHandle s = Stay"
| "action_of DropHandle s = (if strong_count s \<le> 2 \<and> \<not> finishing s then Shut else Stay)"
| "action_of (WorkerStep answer) s =
     (case phase s of
        Idle \<Rightarrow> if closed s \<or> pending s = [] then Stay else TakeNext
      | Calling bs at \<Rightarrow>
          (case answer of
             Wrote n \<Rightarrow> if length bs \<le> at then Stay else if n = 0 then Break else Pass (min n (length bs - at))
           | Interrupted \<Rightarrow> Stay
           | Failed \<Rightarrow> Break)
      | Returning bs result \<Rightarrow> if result = None then GiveUp else Stay
      | Ended \<Rightarrow> Stay
      | _ \<Rightarrow> if closed s then Abandon else Stay)"

lemma pipe_caller:
  assumes "\<nexists>answer. ev = WorkerStep answer"
  shows "pipe_step (action_of ev s) (pipe_of s) = Some (pipe_of (input_act s ev))"
proof (cases ev)
  case (Enqueue bs)
  then show ?thesis
    by (cases "enqueue_failure bs s") (auto simp: enqueue_def enqueue_failure_def pipe_of_def split: if_splits)
qed (use assms in \<open>auto simp: enqueue_final_def drop_handle_def close_input_def record_error_def pipe_of_def Let_def\<close>)

lemma pipe_next:
  "phase s = Idle \<Longrightarrow> pipe_step (action_of (WorkerStep answer) s) (pipe_of s) = Some (pipe_of (next_input s))"
  by (cases "pending s") (auto simp: next_input_def pipe_of_def phase_defs)

lemma pipe_answered:
  assumes "phase s = Calling bs at"
  shows "pipe_step (action_of (WorkerStep answer) s) (pipe_of s) = Some (pipe_of (writer_answered bs at answer s))"
proof (cases "\<exists>n. answer = Wrote n \<and> at < length bs \<and> 0 < n")
  case True
  then obtain n where n: "answer = Wrote n" "at < length bs" "0 < n" by blast
  define m where "m = min n (length bs - at)"
  have "writer_answered bs at answer s
      = s\<lparr>phase := Checking bs (at + m), delivered := delivered s @ take m (drop at bs)\<rparr>"
    using n by (simp add: writer_answered_def m_def Let_def)
  then show ?thesis using assms n by (auto simp: pipe_of_def phase_defs m_def add.commute)
next
  case False
  then show ?thesis using assms
    by (cases answer) (auto simp: writer_answered_def pipe_of_def phase_defs)
qed

lemma pipe_returned:
  "phase s = Returning bs result
    \<Longrightarrow> pipe_step (action_of (WorkerStep answer) s) (pipe_of s) = Some (pipe_of (batch_returned bs result s))"
  by (auto simp: batch_returned_def pipe_of_def phase_defs Let_def split: option.split bool.split)

lemma pipe_worker:
  "pipe_step (action_of (WorkerStep answer) s) (pipe_of s) = Some (pipe_of (worker_step answer s))"
proof (cases "(\<exists>bs at. phase s = Calling bs at) \<or> phase s = Idle \<or> (\<exists>bs r. phase s = Returning bs r)")
  case True
  then show ?thesis
    using pipe_next [of s answer] pipe_answered [of s _ _ answer] pipe_returned [of s _ _ answer]
    by (elim disjE exE) (simp_all add: worker_step_def del: action_of.simps)
next
  case False
  then show ?thesis by (cases "phase s") (auto simp: worker_step_def pipe_of_def phase_defs)
qed

lemma pipe_simulation: "pipe_step (action_of ev s) (pipe_of s) = Some (pipe_of (input_act s ev))"
  using pipe_caller [of ev s] pipe_worker by (cases "\<exists>answer. ev = WorkerStep answer") auto

text \<open>
  C36: The queue refines a pipe with its cancellations. Read every state as a pipe of the inputs that
  wait, the rest of the input in hand and the bytes taken. Then in every reachable state each operation
  and each step of the worker is the action \<open>action_of\<close> of the pipe, and the pipe allows it: an enqueue
  that reports success puts its whole input behind those that wait, one that fails changes nothing; a
  final message takes the place of all that wait; a close, and the drop of the last handle unless a
  final message is in, cancels all that wait and shuts the pipe; the worker takes the first of them
  only when nothing is in hand and passes on exactly the bytes that the writer took, from the front;
  a failed write loses the rest of the input in hand, after which the worker cancels all that wait and
  shuts the pipe; and the rest in hand is otherwise abandoned only after the pipe was shut.\<close>
theorem input_refines_pipe:
  "pipe_step (action_of ev (input_run es)) (pipe_of (input_run es)) = Some (pipe_of (input_run (es @ [ev])))"
  using pipe_simulation [of ev "input_run es"] by (simp add: input_run_def)

section \<open>The budget\<close>

text \<open>
  The budget of the queue is exact. In every reachable state an input is accepted exactly when it
  is empty or the queue is open and the bytes that wait or are being written leave room for the whole
  of it within two mebibytes; a refused input leaves everything but the error message as it was, and
  before the final message no more than two mebibytes are ever held.\<close>
theorem input_budget_is_exact:
  "(fst (enqueue bs (input_run es)) = Inr ()
      \<longleftrightarrow> bs = [] \<or> (\<not> closed (input_run es) \<and> \<not> finishing (input_run es)
            \<and> held (input_run es) + length bs \<le> 2 * 1024 * 1024))
   \<and> (fst (enqueue bs (input_run es)) = Inr ()
       \<or> (\<exists>err. snd (enqueue bs (input_run es)) = (input_run es)\<lparr>input_failure := Some err\<rparr>))
   \<and> (closed (input_run es) \<or> finishing (input_run es) \<or> held (input_run es) \<le> 2 * 1024 * 1024)"
proof -
  have "if closed (input_run es) then buffered (input_run es) = 0 \<and> pending (input_run es) = []
        else buffered (input_run es) = held (input_run es)"
    and "finishing (input_run es) \<or> buffered (input_run es) \<le> MAX_INPUT_BYTES"
    using input_run_inv [of es] unfolding input_inv_def by blast+
  then show ?thesis
    by (auto simp: enqueue_def enqueue_failure_def MAX_INPUT_BYTES_def split: if_splits option.splits)
qed

section \<open>Progress\<close>

text \<open>An upper bound of the steps that the worker needs for an input, and for all of them.\<close>

definition phase_work :: "worker_phase \<Rightarrow> nat" where
  "phase_work p = (case p of Idle \<Rightarrow> 0 | Checking bs at \<Rightarrow> 2 * (length bs - at) + 3 | Calling bs at \<Rightarrow> 2 * (length bs - at) + 2
    | Retrying bs at \<Rightarrow> 2 * (length bs - at) + 5 | Pausing bs at \<Rightarrow> 2 * (length bs - at) + 4 | Returning bs r \<Rightarrow> 1 | Ended \<Rightarrow> 0)"

definition work :: "writer_state \<Rightarrow> nat" where
  "work s = phase_work (phase s) + sum_list (map (\<lambda>bs. 2 * length bs + 4) (pending s))"

definition healthy :: "writer_state \<Rightarrow> bool" where
  "healthy s \<longleftrightarrow> input_inv s \<and> \<not> closed s \<and> \<not> failing (phase s) \<and> phase s \<noteq> Ended"

lemma healthy_step:
  assumes "healthy s" and "0 < n" and "0 < work s"
  shows "healthy (worker_step (Wrote n) s) \<and> work (worker_step (Wrote n) s) < work s
    \<and> accepted (worker_step (Wrote n) s) = accepted s \<and> finishing (worker_step (Wrote n) s) = finishing s"
proof -
  have i: "input_inv (worker_step (Wrote n) s)" using assms(1) worker_inv by (simp add: healthy_def)
  have ok: "phase_ok (closed s) (finishing s) (phase s)" using assms(1) unfolding healthy_def input_inv_def by blast
  show ?thesis
  proof (cases "phase s")
    case (Calling bs at)
    then show ?thesis using assms i
      by (auto simp: healthy_def worker_step_def work_def phase_work_def writer_answered_def Let_def failing_def)
  next
    case (Returning bs result)
    then obtain "result = Some True" using assms(1) ok by (cases result) (auto simp: healthy_def failing_def phase_ok_def)
    then show ?thesis using assms i Returning
      by (auto simp: healthy_def worker_step_def work_def phase_work_def batch_returned_def Let_def failing_def)
  next
    case Idle
    then show ?thesis using assms i
      by (auto simp: healthy_def worker_step_def work_def phase_work_def next_input_def failing_def split: list.splits)
  qed (use assms i in \<open>auto simp: healthy_def worker_step_def work_def phase_work_def failing_def\<close>)
qed

lemma drained_delivered: "healthy s \<Longrightarrow> work s = 0 \<Longrightarrow> phase s = Idle \<and> pending s = [] \<and> delivered s = accepted s"
  by (auto simp: healthy_def input_inv_def work_def phase_work_def unwritten_def failing_def
      split: worker_phase.splits)

lemma worker_drained:
  assumes "healthy s" and "work s = 0"
  shows "worker_step a s = (if finishing s then s\<lparr>phase := Ended\<rparr> else s)"
  using drained_delivered [OF assms] assms(1) by (auto simp: worker_step_def next_input_def healthy_def)

lemma worker_ended: "phase s = Ended \<Longrightarrow> foldl input_act s (map WorkerStep as) = s"
  by (induction as) (simp_all add: worker_step_def)

lemma healthy_drains:
  "healthy s \<Longrightarrow> list_all (\<lambda>n. 0 < n) ns \<Longrightarrow> work s < length ns \<Longrightarrow>
    foldl input_act s (map (\<lambda>n. WorkerStep (Wrote n)) ns) = t \<Longrightarrow>
    delivered t = accepted s \<and> pending t = [] \<and> finished t = finishing s"
proof (induction ns arbitrary: s)
  case (Cons n ns)
  have n: "0 < n" "list_all (\<lambda>n. 0 < n) ns" using Cons.prems(2) by simp_all
  show ?case
  proof (cases "0 < work s")
    case True
    note st = healthy_step [OF Cons.prems(1) n(1) True]
    then show ?thesis
      using Cons.IH [of "worker_step (Wrote n) s"] n(2) Cons.prems(3,4) by simp
  next
    case False
    then have w: "work s = 0" by simp
    note d = drained_delivered [OF Cons.prems(1) w]
    have "foldl input_act s (map (\<lambda>n. WorkerStep (Wrote n)) (n # ns)) = (if finishing s then s\<lparr>phase := Ended\<rparr> else s)"
    proof (cases "finishing s")
      case True
      then show ?thesis
        using worker_ended [of "s\<lparr>phase := Ended\<rparr>" "map Wrote ns"] worker_drained [OF Cons.prems(1) w]
        by (simp add: comp_def)
    next
      case False
      have "foldl input_act s (map (\<lambda>n. WorkerStep (Wrote n)) ns) = s" for ns
        using worker_drained [OF Cons.prems(1) w] False by (induction ns) simp_all
      then show ?thesis using False by metis
    qed
    then have t: "t = (if finishing s then s\<lparr>phase := Ended\<rparr> else s)" using Cons.prems(4) by metis
    show ?thesis unfolding t using d by (simp add: finished_def)
  qed
qed simp

text \<open>
  C37: Accepted input arrives. If the queue is open in a reachable state, no write has failed and the
  worker is alive, and from then on every call of the writer takes at least one byte, then after more
  worker steps than \<open>2 * len + 4\<close> for each waiting input and the rest of the present one everything that
  was accepted has been delivered in order and nothing waits; after a final message the worker has
  ended, too.\<close>
theorem accepted_input_arrives:
  assumes "\<not> closed (input_run es)" and "\<not> failing (phase (input_run es))" and "\<not> finished (input_run es)"
    and "list_all (\<lambda>n. 0 < n) ns" and "work (input_run es) < length ns"
  shows "delivered (input_run (es @ map (\<lambda>n. WorkerStep (Wrote n)) ns)) = accepted (input_run es)
    \<and> pending (input_run (es @ map (\<lambda>n. WorkerStep (Wrote n)) ns)) = []
    \<and> finished (input_run (es @ map (\<lambda>n. WorkerStep (Wrote n)) ns)) = finishing (input_run es)"
proof (rule healthy_drains [OF _ assms(4,5)])
  show "healthy (input_run es)" using assms input_run_inv by (simp add: healthy_def finished_def)
qed (simp add: input_run_def)

text \<open>
  A close stops the worker. Once the queue is closed, three steps of the worker end it, whatever
  the writer answers to the call that may be under way; it takes no further input.\<close>
theorem close_ends_worker:
  assumes "closed s" and "3 \<le> length answers"
  shows "finished (foldl input_act s (map WorkerStep answers))"
proof -
  obtain a1 a2 a3 rest where a: "answers = a1 # a2 # a3 # rest"
    using assms(2) by (auto simp: numeral_3_eq_3 Suc_le_length_iff)
  have "finished (worker_step a3 (worker_step a2 (worker_step a1 s)))"
    using assms(1)
    by (cases "phase s"; cases a1)
      (auto simp: finished_def worker_step_def next_input_def writer_answered_def batch_returned_def Let_def
        split: option.split bool.split)
  then show ?thesis by (simp add: a finished_def worker_ended)
qed

section \<open>Examples\<close>

lemma accepted_input_arrives_witness:
  "delivered (input_run ([Enqueue [1, 2], EnqueueFinal [3]] @ map (\<lambda>n. WorkerStep (Wrote n)) (replicate 7 1))) = [3]"
proof -
  have s: "input_run [Enqueue [1, 2], EnqueueFinal [3]]
      = new_writer\<lparr>pending := [[3]], buffered := 1, finishing := True, accepted := [3]\<rparr>"
    by (simp add: input_run_def enqueue_def enqueue_failure_def enqueue_final_def new_writer_def MAX_INPUT_BYTES_def)
  show ?thesis
    using accepted_input_arrives [of "[Enqueue [1, 2], EnqueueFinal [3]]" "replicate 7 1"]
    by (simp add: s new_writer_def failing_def finished_def work_def phase_work_def list_all_iff)
qed

lemma close_ends_worker_witness:
  "finished (foldl input_act (close_input (new_writer\<lparr>phase := Calling [1, 2] 1, buffered := 2\<rparr>))
    (map WorkerStep [Interrupted, Wrote 1, Wrote 1]))"
  by (rule close_ends_worker) (simp_all add: close_input_def)

end
