(* ===== verification/AgentStatus.thy ===== *)
theory AgentStatus
  imports Utf8
begin

text \<open>
  The in-band channel of agents (\<open>src/src/terminal/agent_status.rs\<close>): the reader of a pseudo terminal
  takes the operating system commands 9999 (agent status) and 7 (working directory) out of the byte
  stream, across any split into chunks, and a daemon writes them again for a client that attaches. The
  JSON decoder and printer are parameters.
\<close>

section \<open>Reports\<close>

definition OSC_CODE_AGENT_STATUS :: nat where "OSC_CODE_AGENT_STATUS = 9999"
definition OSC_CODE_CWD :: nat where "OSC_CODE_CWD = 7"
definition MAX_PAYLOAD_BYTES :: nat where "MAX_PAYLOAD_BYTES = 64 * 1024"
definition MAX_TOOL_CHARS :: nat where "MAX_TOOL_CHARS = 160"
definition MAX_PROMPT_CHARS :: nat where "MAX_PROMPT_CHARS = 16384"
definition MAX_CODE_DIGITS :: nat where "MAX_CODE_DIGITS = 6"

datatype agent_status_state = Working | Blocked | Waiting | Finished

record agent_report =
  report_state :: agent_status_state
  report_tool :: "bytes option"
  report_prompt :: "bytes option"
  received_at_ms :: int

record agent_payload =
  payload_state :: "bytes option"
  payload_tool :: "bytes option"
  payload_prompt :: "bytes option"
  payload_age :: nat

definition clamp_field :: "bytes option \<Rightarrow> nat \<Rightarrow> bytes option" where
  "clamp_field value max_chars = (case value of None \<Rightarrow> None | Some v \<Rightarrow>
     let t = trim v in
     if t = [] then None
     else (case utf8_chars t of None \<Rightarrow> Some t
       | Some cs \<Rightarrow> if length cs \<le> max_chars then Some t else Some (concat (take max_chars cs))))"

definition to_ascii_lowercase :: "bytes \<Rightarrow> bytes" where
  "to_ascii_lowercase = map (\<lambda>b. if 0x41 \<le> b \<and> b \<le> 0x5A then b + 0x20 else b)"

definition state_named :: "bytes \<Rightarrow> agent_status_state option" where
  "state_named name =
    (if name \<in> {bytes_of ''working'', bytes_of ''running'', bytes_of ''busy''} then Some Working
     else if name \<in> {bytes_of ''blocked'', bytes_of ''approval'', bytes_of ''permission''} then Some Blocked
     else if name \<in> {bytes_of ''waiting'', bytes_of ''input'', bytes_of ''needs_input''} then Some Waiting
     else if name \<in> {bytes_of ''done'', bytes_of ''idle'', bytes_of ''complete'', bytes_of ''finished''} then Some Finished
     else None)"

text \<open>\<open>now_ms.saturating_sub\<close> of an \<open>i64\<close>, where the age is clamped to the largest \<open>i64\<close>.\<close>

definition received_at :: "int \<Rightarrow> nat \<Rightarrow> int" where
  "received_at now age = max (- (2 ^ 63)) (now - min (int age) (2 ^ 63 - 1))"

definition parse_agent_status_payload :: "(bytes \<Rightarrow> agent_payload option) \<Rightarrow> bytes \<Rightarrow> int \<Rightarrow> agent_report option" where
  "parse_agent_status_payload decode bs now =
    Option.bind (decode bs) (\<lambda>p. Option.bind (payload_state p) (\<lambda>name.
      Option.bind (state_named (to_ascii_lowercase (trim name))) (\<lambda>st.
        Some \<lparr>report_state = st, report_tool = clamp_field (payload_tool p) MAX_TOOL_CHARS,
          report_prompt = clamp_field (payload_prompt p) MAX_PROMPT_CHARS,
          received_at_ms = received_at now (payload_age p)\<rparr>)))"

definition parse_osc7_cwd :: "bytes \<Rightarrow> bytes option" where
  "parse_osc7_cwd bs =
    (if \<not> utf8_ok bs then None
     else let text = trim bs in
       if text = [] then None
       else case strip_prefix (bytes_of ''file://'') text of
         Some rest \<Rightarrow> (let path = dropWhile (\<lambda>b. b \<noteq> 0x2F) rest in if path = [] then None else Some path)
       | None \<Rightarrow> if hd text = 0x2F then Some text else None)"

definition is_digit :: "u8 \<Rightarrow> bool" where
  "is_digit b \<longleftrightarrow> 0x30 \<le> b \<and> b \<le> 0x39"

definition parse_code :: "bytes \<Rightarrow> nat option" where
  "parse_code digits = (if digits = [] then None else
     let n = foldl (\<lambda>n b. 10 * n + unat (b - 0x30)) 0 digits in if n < 2 ^ 32 then Some n else None)"

section \<open>The stream\<close>

record status_stream =
  osc_seq :: bytes
  osc_code :: "nat option"
  expect_st :: bool
  osc_payload :: bytes
  truncated :: bool

definition new_stream :: status_stream where
  "new_stream = \<lparr>osc_seq = [], osc_code = None, expect_st = False, osc_payload = [], truncated = False\<rparr>"

text \<open>What a chunk gives: the clean bytes, the reports and the directories.\<close>

record osc_output =
  osc_clean :: bytes
  osc_reports :: "agent_report list"
  osc_cwds :: "bytes list"

definition emit :: "bytes \<Rightarrow> osc_output \<Rightarrow> osc_output" where
  "emit bs out = out\<lparr>osc_clean := osc_clean out @ bs\<rparr>"

definition ESC :: u8 where "ESC = 0x1B"
definition BEL :: u8 where "BEL = 0x07"

definition classify_seq :: "status_stream \<Rightarrow> osc_output \<Rightarrow> status_stream \<times> osc_output" where
  "classify_seq s out =
    (let seq = osc_seq s; body = drop 2 seq in
     if length seq = 1 then (s, out)
     else if seq ! 1 \<noteq> 0x5D then
       (if last seq = ESC then (s\<lparr>osc_seq := [ESC]\<rparr>, emit (butlast seq) out)
        else (s\<lparr>osc_seq := []\<rparr>, emit seq out))
     else case dropWhile is_digit body of
       [] \<Rightarrow> if length body > MAX_CODE_DIGITS then (s\<lparr>osc_seq := []\<rparr>, emit seq out) else (s, out)
     | b # _ \<Rightarrow>
         if b = 0x3B \<and> parse_code (butlast body) \<in> {Some OSC_CODE_AGENT_STATUS, Some OSC_CODE_CWD}
         then (s\<lparr>osc_seq := [], osc_code := parse_code (butlast body), osc_payload := [], truncated := False\<rparr>, out)
         else (s\<lparr>osc_seq := []\<rparr>, emit seq out))"

definition finish_payload :: "(bytes \<Rightarrow> agent_payload option) \<Rightarrow> int \<Rightarrow> nat \<Rightarrow> status_stream \<Rightarrow> osc_output
    \<Rightarrow> status_stream \<times> osc_output" where
  "finish_payload decode now code s out =
    (s\<lparr>osc_code := None, truncated := False, osc_payload := []\<rparr>,
     if truncated s \<or> osc_payload s = [] then out
     else if code = OSC_CODE_AGENT_STATUS then
       (case parse_agent_status_payload decode (osc_payload s) now of
          Some r \<Rightarrow> out\<lparr>osc_reports := osc_reports out @ [r]\<rparr> | None \<Rightarrow> out)
     else if code = OSC_CODE_CWD then
       (case parse_osc7_cwd (osc_payload s) of
          Some c \<Rightarrow> out\<lparr>osc_cwds := osc_cwds out @ [c]\<rparr> | None \<Rightarrow> out)
     else out)"

definition payload_byte :: "(bytes \<Rightarrow> agent_payload option) \<Rightarrow> int \<Rightarrow> u8 \<Rightarrow> nat \<Rightarrow> status_stream \<Rightarrow> osc_output
    \<Rightarrow> status_stream \<times> osc_output" where
  "payload_byte decode now b code s out =
    (if b = BEL then finish_payload decode now code s out
     else if b = ESC then
       (case finish_payload decode now code s out of (t, out1) \<Rightarrow> (t\<lparr>expect_st := True\<rparr>, out1))
     else if length (osc_payload s) < MAX_PAYLOAD_BYTES then (s\<lparr>osc_payload := osc_payload s @ [b]\<rparr>, out)
     else (s\<lparr>truncated := True\<rparr>, out))"

text \<open>One turn of the loop of \<open>process\<close>.\<close>

definition osc_byte :: "(bytes \<Rightarrow> agent_payload option) \<Rightarrow> int \<Rightarrow> status_stream \<times> osc_output \<Rightarrow> u8
    \<Rightarrow> status_stream \<times> osc_output" where
  "osc_byte decode now so b = (case so of (s, out) \<Rightarrow>
     if expect_st s then
       (if b = 0x5C then (s\<lparr>expect_st := False\<rparr>, out)
        else classify_seq (s\<lparr>expect_st := False, osc_seq := osc_seq s @ [ESC, b]\<rparr>) out)
     else case osc_code s of
       Some code \<Rightarrow> payload_byte decode now b code s out
     | None \<Rightarrow>
         if osc_seq s \<noteq> [] then classify_seq (s\<lparr>osc_seq := osc_seq s @ [b]\<rparr>) out
         else if b = ESC then (s\<lparr>osc_seq := [b]\<rparr>, out)
         else (s, emit [b] out))"

definition no_output :: osc_output where
  "no_output = \<lparr>osc_clean = [], osc_reports = [], osc_cwds = []\<rparr>"

definition process :: "(bytes \<Rightarrow> agent_payload option) \<Rightarrow> status_stream \<Rightarrow> bytes \<Rightarrow> int
    \<Rightarrow> status_stream \<times> osc_output" where
  "process decode s chunk now =
    (if osc_seq s = [] \<and> osc_code s = None \<and> \<not> expect_st s \<and> ESC \<notin> set chunk then (s, emit chunk no_output)
     else foldl (osc_byte decode now) (s, no_output) chunk)"

section \<open>Writing the metadata again\<close>

text \<open>\<open>char::is_control\<close>: the Unicode category Cc.\<close>

definition is_control :: "bytes \<Rightarrow> bool" where
  "is_control ch \<longleftrightarrow> (let c = char_code ch in c \<le> 31 \<or> (127 \<le> c \<and> c \<le> 159))"

fun state_name :: "agent_status_state \<Rightarrow> bytes" where
  "state_name Working = bytes_of ''working''"
| "state_name Blocked = bytes_of ''blocked''"
| "state_name Waiting = bytes_of ''waiting''"
| "state_name Finished = bytes_of ''done''"

definition report_age :: "int option \<Rightarrow> agent_report \<Rightarrow> nat" where
  "report_age now r = (case now of None \<Rightarrow> 0
     | Some n \<Rightarrow> nat (max (min (n - received_at_ms r) (2 ^ 63 - 1)) 0))"

definition report_payload :: "int option \<Rightarrow> agent_report \<Rightarrow> agent_payload" where
  "report_payload now r = \<lparr>payload_state = Some (state_name (report_state r)), payload_tool = report_tool r,
     payload_prompt = report_prompt r, payload_age = report_age now r\<rparr>"

definition osc :: "string \<Rightarrow> bytes \<Rightarrow> bytes" where
  "osc code payload = [ESC, 0x5D] @ bytes_of code @ [0x3B] @ payload @ [BEL]"

definition metadata_osc :: "(agent_payload \<Rightarrow> int \<Rightarrow> bytes) \<Rightarrow> bytes option \<Rightarrow> agent_report option \<Rightarrow> bytes \<Rightarrow> int option
    \<Rightarrow> bytes" where
  "metadata_osc render cwd report title now =
    osc ''2'' (concat (take 1024 (filter (\<lambda>c. \<not> is_control c) (chars title))))
    @ (case cwd of None \<Rightarrow> []
       | Some dir \<Rightarrow> if list_ex is_control (chars dir) then [] else osc ''7'' dir)
    @ (case report of None \<Rightarrow> []
       | Some r \<Rightarrow> osc ''9999'' (render (report_payload now r) (received_at_ms r)))"

end
