(* ===== verification/AgentStream.thy ===== *)
theory AgentStream
  imports AgentStatus
begin

text \<open>
  The interception of agent metadata does not depend on how the stream is split into chunks, keeps a
  bounded amount of it, and reads back what the daemon writes.
\<close>

section \<open>Chunks\<close>

definition join_output :: "osc_output \<Rightarrow> osc_output \<Rightarrow> osc_output" where
  "join_output a b = \<lparr>osc_clean = osc_clean a @ osc_clean b, osc_reports = osc_reports a @ osc_reports b,
     osc_cwds = osc_cwds a @ osc_cwds b\<rparr>"

lemma join_no_output [simp]: "join_output out no_output = out" "join_output no_output out = out"
  by (simp_all add: join_output_def no_output_def)

lemma join_assoc: "join_output (join_output a b) c = join_output a (join_output b c)"
  by (simp add: join_output_def)

definition add_output :: "osc_output \<Rightarrow> status_stream \<times> osc_output \<Rightarrow> status_stream \<times> osc_output" where
  "add_output a so = (case so of (s, out) \<Rightarrow> (s, join_output a out))"

lemma emit_join: "emit bs (join_output a out) = join_output a (emit bs out)"
  by (simp add: emit_def join_output_def)

lemma classify_join: "classify_seq s (join_output a out) = add_output a (classify_seq s out)"
  by (cases "dropWhile is_digit (drop 2 (osc_seq s))") (auto simp: classify_seq_def add_output_def emit_join Let_def simp del: dropWhile_eq_Nil_conv)

lemma finish_join: "finish_payload decode now code s (join_output a out) = add_output a (finish_payload decode now code s out)"
  by (auto simp: finish_payload_def add_output_def join_output_def split: option.split)

lemma osc_byte_join: "osc_byte decode now (s, join_output a out) b = add_output a (osc_byte decode now (s, out) b)"
  by (auto simp: osc_byte_def payload_byte_def classify_join finish_join emit_join add_output_def split: option.split prod.split)

lemma osc_fold_join:
  "foldl (osc_byte decode now) (s, join_output a out) bs = add_output a (foldl (osc_byte decode now) (s, out) bs)"
proof (induction bs arbitrary: s out)
  case (Cons b bs)
  then show ?case
    by (cases "osc_byte decode now (s, out) b") (simp add: osc_byte_join add_output_def split: prod.split)
qed (simp add: add_output_def)

definition at_rest :: "status_stream \<Rightarrow> bool" where
  "at_rest s \<longleftrightarrow> osc_seq s = [] \<and> osc_code s = None \<and> \<not> expect_st s"

lemma osc_fold_plain:
  "at_rest s \<Longrightarrow> ESC \<notin> set bs \<Longrightarrow> foldl (osc_byte decode now) (s, out) bs = (s, emit bs out)"
  by (induction bs arbitrary: out) (auto simp: osc_byte_def at_rest_def emit_def)

text \<open>The fast path is no different.\<close>

lemma process_fold: "process decode s chunk now = foldl (osc_byte decode now) (s, no_output) chunk"
  by (simp add: process_def osc_fold_plain at_rest_def)

fun process_all :: "(bytes \<Rightarrow> agent_payload option) \<Rightarrow> status_stream \<Rightarrow> bytes list \<Rightarrow> int \<Rightarrow> status_stream \<times> osc_output" where
  "process_all decode s [] now = (s, no_output)"
| "process_all decode s (c # cs) now = (case process decode s c now of (t, out) \<Rightarrow>
     add_output out (process_all decode t cs now))"

lemma process_append:
  "process decode s (a @ b) now = (case process decode s a now of (t, out) \<Rightarrow> add_output out (process decode t b now))"
proof (cases "process decode s a now")
  case (Pair t out)
  then show ?thesis
    using osc_fold_join [of decode now t out no_output b] by (simp add: process_fold)
qed

lemma process_all_eq: "process_all decode s chunks now = process decode s (concat chunks) now"
proof (induction chunks arbitrary: s)
  case (Cons c cs)
  show ?case by (simp add: Cons.IH process_append)
qed (simp add: process_fold)

text \<open>
  C35: The split of the stream does not matter. Feeding any sequence of chunks one after the other
  gives the same clean bytes, the same reports, the same directories and the same state as feeding
  their concatenation at once, from any state of the stream.\<close>
theorem chunks_do_not_matter: "process_all decode s chunks now = process decode s (concat chunks) now"
  by (rule process_all_eq)

section \<open>What is retained\<close>

definition stream_ok :: "status_stream \<Rightarrow> bool" where
  "stream_ok s \<longleftrightarrow> length (osc_payload s) \<le> MAX_PAYLOAD_BYTES
     \<and> (osc_seq s = [] \<or> osc_seq s = [ESC] \<or> (\<exists>ds. osc_seq s = ESC # 0x5D # ds \<and> list_all is_digit ds
          \<and> length ds \<le> MAX_CODE_DIGITS))
     \<and> (expect_st s \<or> osc_code s \<noteq> None \<longrightarrow> osc_seq s = []) \<and> (expect_st s \<longrightarrow> osc_code s = None)"

lemma classify_ok:
  assumes "stream_ok s" and "\<not> expect_st s" and "osc_code s = None"
    and "osc_seq s \<noteq> [] \<or> b = ESC"
  shows "stream_ok (fst (classify_seq (s\<lparr>osc_seq := osc_seq s @ [b]\<rparr>) out))"
proof -
  have dig: "dropWhile is_digit (ds @ [b]) = (if is_digit b then [] else [b])" if "list_all is_digit ds" for ds
    using that by (induction ds) auto
  consider "osc_seq s = []" | "osc_seq s = [ESC]"
    | ds where "osc_seq s = ESC # 0x5D # ds" "list_all is_digit ds" "length ds \<le> MAX_CODE_DIGITS"
    using assms(1) by (auto simp: stream_ok_def)
  then show ?thesis
  proof cases
    case 3
    then show ?thesis
      using assms(1-3) dig [OF 3(2)]
      by (auto simp: classify_seq_def stream_ok_def Let_def MAX_PAYLOAD_BYTES_def split: if_splits)
  qed (use assms in \<open>auto simp: classify_seq_def stream_ok_def Let_def\<close>)
qed

lemma finish_ok: "stream_ok s \<Longrightarrow> osc_code s = Some c \<Longrightarrow> stream_ok (fst (finish_payload decode now code s out))"
  by (simp add: finish_payload_def stream_ok_def)

lemma osc_byte_ok:
  assumes "stream_ok s"
  shows "stream_ok (fst (osc_byte decode now (s, out) b))"
proof (cases "expect_st s")
  case True
  then have q: "osc_seq s = []" using assms by (simp add: stream_ok_def)
  show ?thesis
    using True q assms
    by (auto simp: osc_byte_def classify_seq_def stream_ok_def Let_def)
next
  case False
  show ?thesis
  proof (cases "osc_code s")
    case (Some code)
    then show ?thesis
      using False assms finish_ok [OF assms Some]
      by (auto simp: osc_byte_def payload_byte_def finish_payload_def stream_ok_def)
  next
    case None
    then show ?thesis
      using False assms classify_ok [OF assms False None, of b out]
      by (auto simp: osc_byte_def) (simp add: stream_ok_def)
  qed
qed

lemma process_ok: "stream_ok s \<Longrightarrow> stream_ok (fst (process decode s chunk now))"
  unfolding process_fold
proof (induction chunk rule: rev_induct)
  case (snoc b bs)
  then show ?case
    using osc_byte_ok [of "fst (foldl (osc_byte decode now) (s, no_output) bs)"] by (metis foldl_Cons foldl_Nil foldl_append prod.collapse)
qed simp

text \<open>
  The stream retains little. Whatever chunks have been fed, it keeps at most the escape, the
  bracket and six digits of an unclassified sequence and at most 64 kilobytes of a payload, never
  both an unclassified sequence and an open payload.\<close>
theorem retained_bytes_bounded:
  "length (osc_seq (fst (process_all decode new_stream chunks now))) \<le> 8
   \<and> length (osc_payload (fst (process_all decode new_stream chunks now))) \<le> 64 * 1024
   \<and> (osc_code (fst (process_all decode new_stream chunks now)) = None
      \<or> osc_seq (fst (process_all decode new_stream chunks now)) = [])"
proof -
  have "stream_ok new_stream" by (simp add: stream_ok_def new_stream_def)
  from process_ok [OF this, of decode "concat chunks" now] show ?thesis
    unfolding process_all_eq [symmetric]
    by (auto simp: stream_ok_def MAX_PAYLOAD_BYTES_def MAX_CODE_DIGITS_def)
qed

section \<open>Reading back\<close>

text \<open>No byte of a character that is no control character ends a sequence.\<close>

lemma wide_char_bytes: "1 < utf8_width bs \<Longrightarrow> b \<in> set (take (utf8_width bs) bs) \<Longrightarrow> 0x80 \<le> b"
  by (rule bytes4_cases [of bs]) (auto simp: cont_byte_def word_le_nat_alt word_less_nat_alt split: if_splits)

lemma control_free_bytes:
  "utf8_chars bs = Some cs \<Longrightarrow> list_all (\<lambda>c. \<not> is_control c) cs \<Longrightarrow> b \<in> set bs \<Longrightarrow> b \<noteq> ESC \<and> b \<noteq> BEL"
proof (induction bs arbitrary: cs rule: utf8_chars.induct)
  case (1 bs)
  then have ne: "bs \<noteq> []" by auto
  let ?w = "utf8_width bs"
  have w: "0 < ?w" using 1(2) ne by (subst (asm) utf8_chars.simps) (auto split: if_splits)
  then obtain ds where ds: "utf8_chars (drop ?w bs) = Some ds" "cs = take ?w bs # ds"
    using 1(2) by (auto simp: utf8_chars_step)
  have "b \<in> set (take ?w bs) \<or> b \<in> set (drop ?w bs)" using 1(4) by (metis Un_iff append_take_drop_id set_append)
  then show ?case
  proof
    assume b: "b \<in> set (take ?w bs)"
    show ?thesis
    proof (cases "1 < ?w")
      case True
      then show ?thesis using wide_char_bytes [OF True b] by (auto simp: ESC_def BEL_def)
    next
      case False
      then have "take ?w bs = [b]" using w b ne by (cases bs) (auto simp: le_Suc_eq not_less)
      then show ?thesis using 1(3) ds(2) by (auto simp: is_control_def ESC_def BEL_def)
    qed
  next
    assume "b \<in> set (drop ?w bs)"
    then show ?thesis using 1(1) [OF ne _ ds(1)] w 1(3) ds(2) by simp
  qed
qed

definition quiet_byte :: "u8 \<Rightarrow> bool" where
  "quiet_byte b \<longleftrightarrow> b \<noteq> ESC \<and> b \<noteq> BEL"

lemma clean_title_quiet:
  "list_all quiet_byte (concat (take n (filter (\<lambda>c. \<not> is_control c) (chars title))))"
proof (cases "utf8_chars title")
  case (Some cs)
  have "b \<noteq> ESC \<and> b \<noteq> BEL" if "c \<in> set cs" "\<not> is_control c" "b \<in> set c" for b c
  proof -
    have "utf8_chars bs = Some ds \<Longrightarrow> c \<in> set ds \<Longrightarrow> utf8_chars c = Some [c]" for bs ds
    proof (induction bs arbitrary: ds rule: utf8_chars.induct)
      case (1 bs)
      then have ne: "bs \<noteq> []" by auto
      let ?w = "utf8_width bs"
      have w: "0 < ?w" using 1(2) ne by (subst (asm) utf8_chars.simps) (auto split: if_splits)
      then obtain es where es: "utf8_chars (drop ?w bs) = Some es" "ds = take ?w bs # es"
        using 1(2) by (auto simp: utf8_chars_step)
      have "utf8_width (take ?w bs) = ?w"
        by (rule bytes4_cases [of bs]) (simp_all split: if_splits)
      then have "utf8_chars (take ?w bs) = Some [take ?w bs]"
        using w by (simp add: utf8_chars_step)
      then show ?case using 1(1) [OF ne _ es(1)] w 1(3) es(2) by auto
    qed
    then show ?thesis using control_free_bytes [of c "[c]" b] Some that by auto
  qed
  then have "quiet_byte b" if "c \<in> set cs" "\<not> is_control c" "b \<in> set c" for b c
    using that by (simp add: quiet_byte_def)
  then show ?thesis by (fastforce simp: list_all_iff chars_def Some dest!: in_set_takeD)
qed (simp add: chars_def)

lemma osc_payload_run:
  "list_all quiet_byte bs \<Longrightarrow> length (osc_payload s) + length bs \<le> MAX_PAYLOAD_BYTES \<Longrightarrow> osc_code s = Some code
    \<Longrightarrow> \<not> expect_st s \<Longrightarrow> foldl (osc_byte decode now) (s, out) bs = (s\<lparr>osc_payload := osc_payload s @ bs\<rparr>, out)"
proof (induction bs arbitrary: s)
  case (Cons b bs)
  then have "osc_byte decode now (s, out) b = (s\<lparr>osc_payload := osc_payload s @ [b]\<rparr>, out)"
    by (simp add: osc_byte_def payload_byte_def quiet_byte_def)
  then show ?case using Cons.IH [of "s\<lparr>osc_payload := osc_payload s @ [b]\<rparr>"] Cons.prems by simp
qed simp

lemmas osc_prefix = osc_def osc_byte_def classify_seq_def Let_def is_digit_def parse_code_def new_stream_def ESC_def
  MAX_CODE_DIGITS_def OSC_CODE_AGENT_STATUS_def OSC_CODE_CWD_def bytes_of_def byte_of_char_def emit_def

lemma title_passes:
  assumes "list_all quiet_byte bs"
  shows "foldl (osc_byte decode now) (new_stream, out) (osc ''2'' bs) = (new_stream, emit (osc ''2'' bs) out)"
proof -
  let ?pre = "[ESC, 0x5D] @ bytes_of ''2'' @ [0x3B]"
  have plain: "foldl (osc_byte decode now) (new_stream, o1) (bs @ [BEL]) = (new_stream, emit (bs @ [BEL]) o1)" for o1
    by (rule osc_fold_plain) (use assms in \<open>auto simp: list_all_iff quiet_byte_def ESC_def BEL_def at_rest_def new_stream_def\<close>)
  have pre: "foldl (osc_byte decode now) (new_stream, out) ?pre = (new_stream, emit ?pre out)"
    by (simp add: osc_prefix)
  have "foldl (osc_byte decode now) (new_stream, out) (?pre @ (bs @ [BEL]))
      = foldl (osc_byte decode now) (foldl (osc_byte decode now) (new_stream, out) ?pre) (bs @ [BEL])"
    by (rule foldl_append)
  then have "foldl (osc_byte decode now) (new_stream, out) (?pre @ (bs @ [BEL])) = (new_stream, emit (bs @ [BEL]) (emit ?pre out))"
    unfolding pre plain .
  then show ?thesis by (simp add: osc_def emit_def)
qed

lemma code_captured:
  "foldl (osc_byte decode now) (new_stream, out) ([ESC, 0x5D] @ bytes_of ''7'' @ [0x3B])
    = (new_stream\<lparr>osc_code := Some OSC_CODE_CWD\<rparr>, out)"
  "foldl (osc_byte decode now) (new_stream, out) ([ESC, 0x5D] @ bytes_of ''9999'' @ [0x3B])
    = (new_stream\<lparr>osc_code := Some OSC_CODE_AGENT_STATUS\<rparr>, out)"
  by (simp_all add: osc_prefix)

lemma payload_captured:
  assumes pre: "foldl (osc_byte decode now) (new_stream, out) ([ESC, 0x5D] @ bytes_of name @ [0x3B])
      = (new_stream\<lparr>osc_code := Some code\<rparr>, out)"
    and "list_all quiet_byte bs" and "length bs \<le> MAX_PAYLOAD_BYTES"
  shows "foldl (osc_byte decode now) (new_stream, out) (osc name bs)
    = (new_stream, snd (finish_payload decode now code (new_stream\<lparr>osc_code := Some code, osc_payload := bs\<rparr>) out))"
proof -
  let ?pre = "[ESC, 0x5D] @ bytes_of name @ [0x3B]"
  have "foldl (osc_byte decode now) (new_stream, out) (?pre @ (bs @ [BEL]))
      = foldl (osc_byte decode now) (foldl (osc_byte decode now) (new_stream, out) ?pre) (bs @ [BEL])"
    by (rule foldl_append)
  also have "\<dots> = osc_byte decode now (new_stream\<lparr>osc_code := Some code, osc_payload := bs\<rparr>, out) BEL"
    unfolding pre using osc_payload_run [of bs "new_stream\<lparr>osc_code := Some code\<rparr>" code] assms(2,3)
    by (simp add: new_stream_def)
  finally show ?thesis
    by (simp add: osc_def osc_byte_def payload_byte_def finish_payload_def new_stream_def)
qed

lemma named_state: "state_named (to_ascii_lowercase (trim (state_name st))) = Some st"
  by (cases st) (simp_all add: state_named_def to_ascii_lowercase_def trim_def trim_chars_def utf8_chars.simps
      bytes_of_def byte_of_char_def is_whitespace_def Let_def)

lemma report_age_back:
  assumes "received_at_ms r \<le> now" and "now - received_at_ms r < 2 ^ 63" and "- (2 ^ 63) \<le> received_at_ms r"
  shows "received_at now (report_age (Some now) r) = received_at_ms r"
  using assms by (simp add: received_at_def report_age_def)

text \<open>A directory that the shell may have reported, and fields that have been clamped already.\<close>

definition reported_cwd :: "bytes \<Rightarrow> bool" where
  "reported_cwd dir \<longleftrightarrow> utf8_ok dir \<and> \<not> list_ex is_control (chars dir) \<and> trim dir = dir \<and> dir \<noteq> [] \<and> hd dir = 0x2F
     \<and> length dir \<le> MAX_PAYLOAD_BYTES"

definition clamped_report :: "agent_report \<Rightarrow> bool" where
  "clamped_report r \<longleftrightarrow> clamp_field (report_tool r) MAX_TOOL_CHARS = report_tool r
     \<and> clamp_field (report_prompt r) MAX_PROMPT_CHARS = report_prompt r"

lemma cwd_read_back: "reported_cwd dir \<Longrightarrow> parse_osc7_cwd dir = Some dir"
  by (cases dir) (auto simp: reported_cwd_def parse_osc7_cwd_def strip_prefix_def bytes_of_def byte_of_char_def Let_def)

text \<open>
  What the daemon writes is read back. The metadata that is written for a client, with any
  title, a directory as a shell reports it and a report whose fields are clamped, passes through the
  stream of the client as follows: only the title, without its control characters, stays in the
  output, and exactly this directory and exactly this report come out, with the time at which it was
  received, provided that what the JSON printer writes for this report has no control byte and at
  most 64 kilobytes, and that the decoder reads what the printer wrote.\<close>
theorem metadata_reads_back:
  assumes "reported_cwd dir" and "clamped_report r"
    and "received_at_ms r \<le> now" and "now - received_at_ms r < 2 ^ 63" and "- (2 ^ 63) \<le> received_at_ms r"
    and "decode (render (report_payload (Some now) r) (received_at_ms r)) = Some (report_payload (Some now) r)"
    and "list_all quiet_byte (render (report_payload (Some now) r) (received_at_ms r))"
    and "render (report_payload (Some now) r) (received_at_ms r) \<noteq> []"
    and "length (render (report_payload (Some now) r) (received_at_ms r)) \<le> 64 * 1024"
  shows "\<exists>clean_title. list_all quiet_byte clean_title \<and>
    process decode new_stream (metadata_osc render (Some dir) (Some r) title (Some now)) now
      = (new_stream, \<lparr>osc_clean = osc ''2'' clean_title, osc_reports = [r], osc_cwds = [dir]\<rparr>)"
proof -
  let ?t = "concat (take 1024 (filter (\<lambda>c. \<not> is_control c) (chars title)))"
  let ?json = "render (report_payload (Some now) r) (received_at_ms r)"
  let ?fold = "foldl (osc_byte decode now)"
  have dir: "list_all quiet_byte dir" "length dir \<le> MAX_PAYLOAD_BYTES" "dir \<noteq> []"
    using assms(1) control_free_bytes [of dir "chars dir"] unfolding list_all_iff list_ex_iff reported_cwd_def
    by (auto simp: utf8_ok_def chars_def quiet_byte_def) blast+
  have report: "parse_agent_status_payload decode ?json now = Some r"
    using assms(2-6)
    by (simp add: parse_agent_status_payload_def named_state clamped_report_def report_age_back report_payload_def)
  have "metadata_osc render (Some dir) (Some r) title (Some now) = osc ''2'' ?t @ (osc ''7'' dir @ osc ''9999'' ?json)"
    using assms(1) by (simp add: metadata_osc_def reported_cwd_def)
  then have "process decode new_stream (metadata_osc render (Some dir) (Some r) title (Some now)) now
      = ?fold (?fold (?fold (new_stream, no_output) (osc ''2'' ?t)) (osc ''7'' dir)) (osc ''9999'' ?json)"
    by (simp add: process_fold)
  also have "\<dots> = ?fold (?fold (new_stream, emit (osc ''2'' ?t) no_output) (osc ''7'' dir)) (osc ''9999'' ?json)"
    by (simp only: title_passes [OF clean_title_quiet])
  also have "\<dots> = ?fold (new_stream, (emit (osc ''2'' ?t) no_output)\<lparr>osc_cwds := [dir]\<rparr>) (osc ''9999'' ?json)"
    unfolding payload_captured [OF code_captured(1) dir(1,2)]
    using dir(3) cwd_read_back [OF assms(1)]
    by (simp add: finish_payload_def new_stream_def OSC_CODE_CWD_def OSC_CODE_AGENT_STATUS_def emit_def no_output_def)
  also have "\<dots> = (new_stream, (emit (osc ''2'' ?t) no_output)\<lparr>osc_cwds := [dir], osc_reports := [r]\<rparr>)"
    unfolding payload_captured [OF code_captured(2) assms(7) assms(9) [folded MAX_PAYLOAD_BYTES_def]]
    using assms(8) report by (simp add: finish_payload_def new_stream_def emit_def no_output_def)
  finally show ?thesis
    using clean_title_quiet [of 1024 title] by (intro exI [of _ ?t]) (simp add: emit_def no_output_def)
qed

definition demo_report :: agent_report where
  "demo_report = \<lparr>report_state = Waiting, report_tool = None, report_prompt = None, received_at_ms = 5\<rparr>"

lemma metadata_reads_back_witness:
  "\<exists>clean_title. list_all quiet_byte clean_title \<and>
    process (\<lambda>j. if j = [0x7B] then Some (report_payload (Some 9) demo_report) else None) new_stream
      (metadata_osc (\<lambda>p t. [0x7B]) (Some [0x2F, 0x61]) (Some demo_report) [0x61, 0x07] (Some 9)) 9
      = (new_stream, \<lparr>osc_clean = osc ''2'' clean_title, osc_reports = [demo_report], osc_cwds = [[0x2F, 0x61]]\<rparr>)"
proof (rule metadata_reads_back)
  show "reported_cwd [0x2F, 0x61]"
    by (simp add: reported_cwd_def utf8_ok_def chars_def utf8_chars.simps is_control_def trim_def trim_chars_def
        is_whitespace_def Let_def MAX_PAYLOAD_BYTES_def)
qed (simp_all add: demo_report_def clamped_report_def clamp_field_def quiet_byte_def ESC_def BEL_def)

end
