(* ===== verification/TextOps.thy ===== *)
theory TextOps
  imports Utf8
begin

text \<open>
  More of Rust's \<open>str\<close>: the lossy decoding of a file's bytes, the search for an ASCII character,
  suffixes, the lines of a text and the parsing of a decimal number. They serve the stores that
  keep texts and numbers in files.
\<close>

section \<open>Lossy decoding\<close>

text \<open>U+FFFD, which \<open>String::from_utf8_lossy\<close> puts in the place of each maximal invalid part.\<close>

definition REPLACEMENT :: bytes where
  "REPLACEMENT = [0xEF, 0xBF, 0xBD]"

definition second_ok :: "u8 \<Rightarrow> u8 \<Rightarrow> bool" where
  "second_ok a b \<longleftrightarrow> cont_byte b
     \<and> (a = 0xE0 \<longrightarrow> 0xA0 \<le> b) \<and> (a = 0xED \<longrightarrow> b \<le> 0x9F)
     \<and> (a = 0xF0 \<longrightarrow> 0x90 \<le> b) \<and> (a = 0xF4 \<longrightarrow> b \<le> 0x8F)"

text \<open>The length of the invalid part at the head of bytes that do not start with a character.\<close>

fun bad_width :: "bytes \<Rightarrow> nat" where
  "bad_width (a # b # c # r) =
     (if 0xE0 \<le> a \<and> a \<le> 0xF4 \<and> second_ok a b then
        (if 0xF0 \<le> a \<and> cont_byte c then 3 else 2)
      else 1)"
| "bad_width [a, b] = (if 0xE0 \<le> a \<and> a \<le> 0xF4 \<and> second_ok a b then 2 else 1)"
| "bad_width _ = 1"

lemma bad_width_pos [simp]: "0 < bad_width bs"
  by (cases bs rule: bad_width.cases) auto

function from_utf8_lossy :: "bytes \<Rightarrow> bytes" where
  "from_utf8_lossy bs =
     (if bs = [] then []
      else if utf8_width bs = 0 then REPLACEMENT @ from_utf8_lossy (drop (bad_width bs) bs)
      else take (utf8_width bs) bs @ from_utf8_lossy (drop (utf8_width bs) bs))"
  by pat_completeness auto
termination
  by (relation "measure length") auto

declare from_utf8_lossy.simps [simp del]

lemma lossy_Nil [simp]: "from_utf8_lossy [] = []"
  by (simp add: from_utf8_lossy.simps)

text \<open>Lossy decoding leaves well-formed text alone and always yields well-formed text.\<close>

lemma lossy_id: "utf8_ok bs \<Longrightarrow> from_utf8_lossy bs = bs"
proof (induction bs rule: from_utf8_lossy.induct)
  case (1 bs)
  show ?case
  proof (cases "bs = []")
    case False
    then have "utf8_width bs \<noteq> 0" and "utf8_ok (drop (utf8_width bs) bs)"
      using 1(3) by (auto simp: utf8_ok_def utf8_chars.simps [of bs] split: if_splits)
    then show ?thesis using 1(2) False by (simp add: from_utf8_lossy.simps [of bs])
  qed simp
qed

lemma utf8_ok_replacement: "utf8_ok REPLACEMENT"
  by (simp add: REPLACEMENT_def utf8_ok_def utf8_chars_step cont_byte_def)

lemma utf8_width_take: "utf8_width (take (utf8_width bs) bs) = utf8_width bs"
  by (rule bytes4_cases [of bs]) (simp_all add: take_Cons')

lemma utf8_ok_head: "0 < utf8_width bs \<Longrightarrow> utf8_ok (take (utf8_width bs) bs)"
  using utf8_width_take [of bs] utf8_width_le [of bs]
  by (simp add: utf8_ok_def utf8_chars_step)

lemma lossy_ok: "utf8_ok (from_utf8_lossy bs)"
proof (induction bs rule: from_utf8_lossy.induct)
  case (1 bs)
  then show ?case
    by (simp add: from_utf8_lossy.simps [of bs] utf8_ok_append utf8_ok_replacement utf8_ok_head)
qed

section \<open>Searching\<close>

definition ESC :: u8 where
  "ESC = 0x1B"

definition NL :: u8 where
  "NL = 0x0A"

definition CR :: u8 where
  "CR = 0x0D"

text \<open>\<open>find\<close> and \<open>rfind\<close> of an ASCII character: a byte below 0x80 is never part of another one.\<close>

definition find_byte :: "u8 \<Rightarrow> bytes \<Rightarrow> nat option" where
  "find_byte b s = (if b \<in> set s then Some (length (takeWhile (\<lambda>x. x \<noteq> b) s)) else None)"

definition rfind_byte :: "u8 \<Rightarrow> bytes \<Rightarrow> nat option" where
  "rfind_byte b s =
     (if b \<in> set s then Some (length s - 1 - length (takeWhile (\<lambda>x. x \<noteq> b) (rev s))) else None)"

lemma find_byte_Some:
  assumes "find_byte b s = Some i"
  shows "i < length s" and "s ! i = b" and "b \<notin> set (take i s)"
proof -
  have i: "i = length (takeWhile (\<lambda>x. x \<noteq> b) s)" and m: "b \<in> set s"
    using assms by (auto simp: find_byte_def split: if_splits)
  show l: "i < length s"
    using m i by (metis (mono_tags, lifting) length_takeWhile_le order_le_less takeWhile_eq_all_conv takeWhile_eq_take take_all_iff le_refl)
  show "s ! i = b"
    using nth_length_takeWhile [of "\<lambda>x. x \<noteq> b" s] l i by simp
  have "take i s = takeWhile (\<lambda>x. x \<noteq> b) s"
    by (simp add: i takeWhile_eq_take [symmetric])
  then show "b \<notin> set (take i s)"
    by (auto dest: set_takeWhileD)
qed

lemma find_byte_None: "find_byte b s = None \<longleftrightarrow> b \<notin> set s"
  by (simp add: find_byte_def)

definition starts_with :: "bytes \<Rightarrow> bytes \<Rightarrow> bool" where
  "starts_with p s \<longleftrightarrow> take (length p) s = p"

definition ends_with :: "bytes \<Rightarrow> bytes \<Rightarrow> bool" where
  "ends_with p s \<longleftrightarrow> length p \<le> length s \<and> drop (length s - length p) s = p"

definition strip_suffix :: "bytes \<Rightarrow> bytes \<Rightarrow> bytes option" where
  "strip_suffix p s = (if ends_with p s then Some (take (length s - length p) s) else None)"

text \<open>\<open>or_else\<close> of an option.\<close>

definition or_else :: "'a option \<Rightarrow> 'a option \<Rightarrow> 'a option" where
  "or_else x y = (case x of None \<Rightarrow> y | Some v \<Rightarrow> Some v)"

lemma or_else_simps [simp]: "or_else None y = y" "or_else (Some v) y = Some v"
  by (simp_all add: or_else_def)

lemma ends_with_append [simp]: "ends_with p (s @ p)"
  by (simp add: ends_with_def)

lemma strip_suffix_append [simp]: "strip_suffix p (s @ p) = Some s"
  by (simp add: strip_suffix_def)

lemma ends_with_iff: "ends_with p s \<longleftrightarrow> (\<exists>t. s = t @ p)"
  by (metis append_take_drop_id ends_with_append ends_with_def)

lemma strip_suffix_Some: "strip_suffix p s = Some t \<longleftrightarrow> s = t @ p"
  by (auto simp: strip_suffix_def ends_with_iff split: if_splits)

lemma starts_with_append [simp]: "starts_with p (p @ s)"
  by (simp add: starts_with_def)

lemma starts_with_iff: "starts_with p s \<longleftrightarrow> (\<exists>t. s = p @ t)"
  by (metis append_take_drop_id starts_with_append starts_with_def)

section \<open>Lines and numbers\<close>

text \<open>\<open>split_inclusive('\n')\<close>: every piece but the last ends with its line feed.\<close>

fun split_inclusive :: "bytes \<Rightarrow> bytes list" where
  "split_inclusive [] = []"
| "split_inclusive (b # bs) =
     (if b = NL then [NL] # split_inclusive bs
      else (case split_inclusive bs of [] \<Rightarrow> [[b]] | l # ls \<Rightarrow> (b # l) # ls))"

text \<open>\<open>str::lines\<close>: a line feed is dropped, together with one carriage return before it.\<close>

definition lines :: "bytes \<Rightarrow> bytes list" where
  "lines s = map (\<lambda>l. case strip_suffix [NL] l of None \<Rightarrow> l
     | Some l' \<Rightarrow> (case strip_suffix [CR] l' of None \<Rightarrow> l' | Some l'' \<Rightarrow> l'')) (split_inclusive s)"

lemma concat_split_inclusive [simp]: "concat (split_inclusive s) = s"
  by (induction s) (auto split: list.splits)

text \<open>\<open>str::parse::<u32>\<close>: an optional plus sign, then decimal digits whose value fits.\<close>

definition is_digit :: "u8 \<Rightarrow> bool" where
  "is_digit b \<longleftrightarrow> 48 \<le> b \<and> b \<le> 57"

definition decimal :: "bytes \<Rightarrow> nat" where
  "decimal ds = foldl (\<lambda>n b. 10 * n + (unat b - 48)) 0 ds"

definition parse_u32 :: "bytes \<Rightarrow> u32 option" where
  "parse_u32 s =
     (let ds = (if s \<noteq> [] \<and> hd s = 43 then tl s else s) in
      if ds \<noteq> [] \<and> list_all is_digit ds \<and> decimal ds < 2 ^ 32 then Some (of_nat (decimal ds))
      else None)"

text \<open>The decimal form of a number.\<close>

fun show_nat :: "nat \<Rightarrow> bytes" where
  "show_nat n = (if n < 10 then [of_nat (48 + n)] else show_nat (n div 10) @ [of_nat (48 + n mod 10)])"

declare show_nat.simps [simp del]

definition blank :: "bytes \<Rightarrow> bool" where
  "blank s \<longleftrightarrow> trim s = []"

section \<open>Cutting at a boundary\<close>

text \<open>The loop with which the sources move an index to the next character boundary.\<close>

function char_boundary_from :: "bytes \<Rightarrow> nat \<Rightarrow> nat" where
  "char_boundary_from s i =
     (if i < length s \<and> \<not> is_char_boundary s i then char_boundary_from s (Suc i) else i)"
  by pat_completeness auto
termination
  by (relation "measure (\<lambda>(s, i). length s - i)") auto

declare char_boundary_from.simps [simp del]

lemma char_boundary_from_spec:
  "i \<le> length s \<Longrightarrow> i \<le> char_boundary_from s i \<and> char_boundary_from s i \<le> length s
    \<and> is_char_boundary s (char_boundary_from s i)"
proof (induction s i rule: char_boundary_from.induct)
  case (1 s i)
  show ?case
  proof (cases "i < length s \<and> \<not> is_char_boundary s i")
    case True
    then show ?thesis using 1 by (subst (1 2 3) char_boundary_from.simps) auto
  next
    case False
    then show ?thesis using 1(2)
      by (subst (1 2 3) char_boundary_from.simps) (auto simp: is_char_boundary_def)
  qed
qed

text \<open>Text stays well formed when it is cut behind an ASCII character.\<close>

lemma utf8_drop_after_ascii:
  assumes "utf8_ok s" and "k < length s" and "s ! k < 0x80"
  shows "utf8_ok (drop (Suc k) s)"
proof -
  have "\<not> cont_byte (s ! k)" using assms(3) by (simp add: cont_byte_def not_le)
  then have "is_char_boundary s k" using assms(2) by (simp add: is_char_boundary_def)
  then have "utf8_ok (drop k s)" by (rule utf8_drop_boundary [OF assms(1)])
  then show ?thesis
    using utf8_ascii [OF assms(3), of "drop (Suc k) s"] assms(2) by (simp add: Cons_nth_drop_Suc)
qed

end
