(* ===== verification/HistoryStore.thy ===== *)
theory HistoryStore
  imports ScrollbackLog TextOps
begin

text \<open>
  \<open>src/state/scrollback_store.rs\<close> and the readers of \<open>src/app.rs\<close> that go with it: the durable
  history of a leaf is a checkpoint (a text file, its generation in a binary header or, in old
  versions, in a sidecar) and an incremental log that counts only when it has the checkpoint's
  generation. The theory has the file names, the clamping of a checkpoint, the savers, the strict
  and the tolerant readers, the replay of a text and the pruning of dead leaves and panels.

  A directory of the disk is the set of its files; \<open>Uuid::simple\<close> and \<open>Uuid::parse_str\<close> (the uuid
  crate) are the parameters \<open>simple\<close> and \<open>parse\<close>. The outcome of each read, write and removal is
  chosen by the environment.
\<close>

section \<open>The disk\<close>

type_synonym path = "bytes \<times> bytes"
type_synonym disk = "(path \<times> bytes) list"

text \<open>The names \<open>read_dir\<close> lists.\<close>

definition read_dir :: "disk \<Rightarrow> bytes \<Rightarrow> bytes list" where
  "read_dir d dir = map (snd \<circ> fst) (filter (\<lambda>((p, _), _). p = dir) d)"

datatype hist_error = Io | InvalidData

text \<open>Whether the reads of a checkpoint, of a generation sidecar and of a log succeed.\<close>

record read_io =
  ckpt_ok :: bool
  gen_ok :: bool
  log_ok :: bool

definition read_optional_history_file :: "bool \<Rightarrow> disk \<Rightarrow> path \<Rightarrow> hist_error + bytes option" where
  "read_optional_history_file ok d path = (if ok then Inr (map_of d path) else Inl Io)"

text \<open>\<open>read_optional_history_bytes\<close> of \<open>app.rs\<close> is the same function.\<close>

definition read_optional_history_bytes :: "bool \<Rightarrow> disk \<Rightarrow> path \<Rightarrow> hist_error + bytes option" where
  "read_optional_history_bytes ok d path = (if ok then Inr (map_of d path) else Inl Io)"

section \<open>File names\<close>

definition MAX_PERSISTED_BYTES :: nat where
  "MAX_PERSISTED_BYTES = 4 * 1024 * 1024"

definition CHECKPOINT_MAGIC :: bytes where
  "CHECKPOINT_MAGIC = bytes_of ''TC-SCROLLBACK'' @ [0, 2]"

definition SNAPSHOT_MAGIC :: bytes where
  "SNAPSHOT_MAGIC = bytes_of ''TC-SCROLLBACK'' @ [0, 3]"

definition MAX_SNAPSHOT_CHECKPOINT_BYTES :: nat where
  "MAX_SNAPSHOT_CHECKPOINT_BYTES = 4 * 1024 * 1024"

definition DASH :: u8 where
  "DASH = 0x2D"

definition TXT :: bytes where
  "TXT = bytes_of ''.txt''"

definition MTLG :: bytes where
  "MTLG = bytes_of ''.mtlg''"

definition GEN :: bytes where
  "GEN = bytes_of ''.gen''"

definition scrollback_file_name :: "(uuid \<Rightarrow> bytes) \<Rightarrow> uuid \<Rightarrow> bytes" where
  "scrollback_file_name simple panel_id = simple panel_id @ TXT"

definition scrollback_leaf_file_name :: "(uuid \<Rightarrow> bytes) \<Rightarrow> uuid \<Rightarrow> uuid option \<Rightarrow> bytes" where
  "scrollback_leaf_file_name simple panel_id leaf_id =
     (case leaf_id of Some leaf \<Rightarrow> simple panel_id @ [DASH] @ simple leaf @ TXT
      | None \<Rightarrow> scrollback_file_name simple panel_id)"

definition scrollback_log_file_name :: "(uuid \<Rightarrow> bytes) \<Rightarrow> uuid \<Rightarrow> bytes" where
  "scrollback_log_file_name simple panel_id = simple panel_id @ MTLG"

definition scrollback_leaf_log_file_name :: "(uuid \<Rightarrow> bytes) \<Rightarrow> uuid \<Rightarrow> uuid option \<Rightarrow> bytes" where
  "scrollback_leaf_log_file_name simple panel_id leaf_id =
     (case leaf_id of Some leaf \<Rightarrow> simple panel_id @ [DASH] @ simple leaf @ MTLG
      | None \<Rightarrow> scrollback_log_file_name simple panel_id)"

definition scrollback_gen_file_name :: "(uuid \<Rightarrow> bytes) \<Rightarrow> uuid \<Rightarrow> bytes" where
  "scrollback_gen_file_name simple panel_id = simple panel_id @ GEN"

definition scrollback_leaf_gen_file_name :: "(uuid \<Rightarrow> bytes) \<Rightarrow> uuid \<Rightarrow> uuid option \<Rightarrow> bytes" where
  "scrollback_leaf_gen_file_name simple panel_id leaf_id =
     (case leaf_id of Some leaf \<Rightarrow> simple panel_id @ [DASH] @ simple leaf @ GEN
      | None \<Rightarrow> scrollback_gen_file_name simple panel_id)"

section \<open>Clamping\<close>

text \<open>A cut inside an SGR sequence moves behind the \<open>m\<close> that closes it.\<close>

definition skip_sgr :: "bytes \<Rightarrow> nat \<Rightarrow> nat" where
  "skip_sgr s start =
     (case rfind_byte ESC (take start s) of
        None \<Rightarrow> start
      | Some escape_start \<Rightarrow>
          (case find_byte 0x6D (drop escape_start s) of
             None \<Rightarrow> start
           | Some offset \<Rightarrow>
               (let escape_end = escape_start + offset + 1 in
                if escape_end > start then escape_end else start)))"

definition clamp_scrollback :: "bytes \<Rightarrow> nat \<Rightarrow> bytes" where
  "clamp_scrollback s max_bytes =
     (if length s \<le> max_bytes then s
      else
        (let start = skip_sgr s (char_boundary_from s (length s - max_bytes));
             tail = drop start s in
         (case find_byte NL tail of Some index \<Rightarrow> drop (index + 1) tail | None \<Rightarrow> tail)))"

section \<open>Saving\<close>

text \<open>
  The result of a save and the disk after it. \<open>dir_ok\<close> is \<open>create_dir_all\<close>, \<open>write_ok\<close> the atomic
  write, which leaves the old file when it fails; \<open>rm_ok\<close> is \<open>remove_file\<close>.
\<close>

record save_io =
  dir_ok :: bool
  write_ok :: bool
  rm_ok :: bool

definition write_atomic_at :: "save_io \<Rightarrow> disk \<Rightarrow> path \<Rightarrow> bytes \<Rightarrow> bool \<times> disk" where
  "write_atomic_at io d path data =
     (if \<not> dir_ok io \<or> \<not> write_ok io then (False, d) else (True, AList.update path data d))"

definition remove_at :: "bool \<Rightarrow> disk \<Rightarrow> path \<Rightarrow> disk" where
  "remove_at ok d path = (if ok then AList.delete path d else d)"

definition save_leaf_scrollback ::
  "(uuid \<Rightarrow> bytes) \<Rightarrow> save_io \<Rightarrow> disk \<Rightarrow> bytes \<Rightarrow> uuid \<Rightarrow> uuid option \<Rightarrow> bytes \<Rightarrow> bool \<times> disk" where
  "save_leaf_scrollback simple io d dir panel_id leaf_id s =
     (let name = scrollback_leaf_file_name simple panel_id leaf_id in
      if blank s then (True, remove_at (rm_ok io) d (dir, name))
      else write_atomic_at io d (dir, name) (clamp_scrollback s MAX_PERSISTED_BYTES))"

definition save_leaf_scrollback_versioned ::
  "(uuid \<Rightarrow> bytes) \<Rightarrow> save_io \<Rightarrow> disk \<Rightarrow> bytes \<Rightarrow> uuid \<Rightarrow> uuid option \<Rightarrow> u32 \<Rightarrow> bytes \<Rightarrow> bool \<times> disk" where
  "save_leaf_scrollback_versioned simple io d dir panel_id leaf_id generation s =
     write_atomic_at io d (dir, scrollback_leaf_file_name simple panel_id leaf_id)
       (CHECKPOINT_MAGIC @ u32_le generation @ clamp_scrollback s MAX_PERSISTED_BYTES)"

text \<open>The prefix of a terminal reset, RIS.\<close>

definition RIS :: bytes where
  "RIS = [ESC, 0x63]"

definition save_leaf_snapshot_versioned ::
  "(uuid \<Rightarrow> bytes) \<Rightarrow> save_io \<Rightarrow> disk \<Rightarrow> bytes \<Rightarrow> uuid \<Rightarrow> uuid option \<Rightarrow> u32 \<Rightarrow> bytes \<Rightarrow> bool \<times> disk" where
  "save_leaf_snapshot_versioned simple io d dir panel_id leaf_id generation snapshot =
     (if \<not> starts_with RIS snapshot then (False, d)
      else if length snapshot > MAX_SNAPSHOT_CHECKPOINT_BYTES then (False, d)
      else write_atomic_at io d (dir, scrollback_leaf_file_name simple panel_id leaf_id)
        (SNAPSHOT_MAGIC @ u32_le generation @ snapshot))"

definition save_scrollback ::
  "(uuid \<Rightarrow> bytes) \<Rightarrow> save_io \<Rightarrow> disk \<Rightarrow> bytes \<Rightarrow> uuid \<Rightarrow> bytes \<Rightarrow> bool \<times> disk" where
  "save_scrollback simple io d dir panel_id s =
     (let name = scrollback_file_name simple panel_id in
      if blank s then (True, remove_at (rm_ok io) d (dir, name))
      else write_atomic_at io d (dir, name) (clamp_scrollback s MAX_PERSISTED_BYTES))"

section \<open>Loading\<close>

text \<open>The decoding of a checkpoint file that could be read.\<close>

definition decode_checkpoint :: "bytes \<Rightarrow> hist_error + u32 option \<times> bytes" where
  "decode_checkpoint bs =
     (if starts_with CHECKPOINT_MAGIC bs \<or> starts_with SNAPSHOT_MAGIC bs then
        (let offset = length CHECKPOINT_MAGIC in
         if length bs < offset + 4 then Inl InvalidData
         else Inr (Some (of_le (take 4 (drop offset bs))), from_utf8_lossy (drop (offset + 4) bs)))
      else Inr (None, from_utf8_lossy bs))"

definition try_load_leaf_scrollback_checkpoint ::
  "(uuid \<Rightarrow> bytes) \<Rightarrow> read_io \<Rightarrow> disk \<Rightarrow> bytes \<Rightarrow> uuid \<Rightarrow> uuid option
     \<Rightarrow> hist_error + (u32 option \<times> bytes) option" where
  "try_load_leaf_scrollback_checkpoint simple io d dir panel_id leaf_id =
     (if \<not> ckpt_ok io then Inl Io
      else
        (case map_of d (dir, scrollback_leaf_file_name simple panel_id leaf_id) of
           None \<Rightarrow> Inr None
         | Some bs \<Rightarrow> and_then (decode_checkpoint bs) (\<lambda>c. Inr (Some c))))"

definition load_leaf_scrollback_checkpoint ::
  "(uuid \<Rightarrow> bytes) \<Rightarrow> read_io \<Rightarrow> disk \<Rightarrow> bytes \<Rightarrow> uuid \<Rightarrow> uuid option \<Rightarrow> (u32 option \<times> bytes) option" where
  "load_leaf_scrollback_checkpoint simple io d dir panel_id leaf_id =
     (case try_load_leaf_scrollback_checkpoint simple io d dir panel_id leaf_id of
        Inl _ \<Rightarrow> None | Inr c \<Rightarrow> c)"

definition load_leaf_scrollback ::
  "(uuid \<Rightarrow> bytes) \<Rightarrow> read_io \<Rightarrow> disk \<Rightarrow> bytes \<Rightarrow> uuid \<Rightarrow> uuid option \<Rightarrow> bytes option" where
  "load_leaf_scrollback simple io d dir panel_id leaf_id =
     (case load_leaf_scrollback_checkpoint simple io d dir panel_id leaf_id of
        None \<Rightarrow> None
      | Some (_, s) \<Rightarrow> if blank s then None else Some s)"

definition load_scrollback ::
  "(uuid \<Rightarrow> bytes) \<Rightarrow> read_io \<Rightarrow> disk \<Rightarrow> bytes \<Rightarrow> uuid \<Rightarrow> bytes option" where
  "load_scrollback simple io d dir panel_id = load_leaf_scrollback simple io d dir panel_id None"

definition decode_generation_sidecar :: "bytes \<Rightarrow> hist_error + u32" where
  "decode_generation_sidecar bs =
     (if length bs = 4 then Inr (of_le bs)
      else ok_or InvalidData (Option.bind (from_utf8 bs) (\<lambda>s. parse_u32 (trim s))))"

definition decode_history_generation :: "bytes \<Rightarrow> hist_error + u32" where
  "decode_history_generation bs = decode_generation_sidecar bs"

section \<open>Replay\<close>

definition replay_body :: "bytes \<Rightarrow> bytes" where
  "replay_body s =
     (if starts_with RIS s then s else concat (map (\<lambda>line. line @ [CR, NL]) (lines s)))"

text \<open>The dimmed separator; its rules are two U+2500 on each side.\<close>

definition replay_marker :: bytes where
  "replay_marker = [ESC] @ bytes_of ''[90m'' @ [0xE2, 0x94, 0x80, 0xE2, 0x94, 0x80]
     @ bytes_of '' sesi'' @ [0xC3, 0xB3] @ bytes_of ''n anterior ''
     @ [0xE2, 0x94, 0x80, 0xE2, 0x94, 0x80, ESC] @ bytes_of ''[0m'' @ [CR, NL]"

definition replay_bytes :: "bytes \<Rightarrow> bytes" where
  "replay_bytes s = replay_body s @ replay_marker"

section \<open>The history of a leaf\<close>

text \<open>The tolerant reader: whatever cannot be read counts as absent.\<close>

definition load_leaf_session ::
  "(uuid \<Rightarrow> bytes) \<Rightarrow> read_io \<Rightarrow> disk \<Rightarrow> bytes \<Rightarrow> uuid \<Rightarrow> uuid option \<Rightarrow> bytes \<times> frame list" where
  "load_leaf_session simple io d dir panel_id leaf_id =
     (let checkpoint = load_leaf_scrollback_checkpoint simple io d dir panel_id leaf_id;
          sidecar = (if gen_ok io
            then Option.bind (map_of d (dir, scrollback_leaf_gen_file_name simple panel_id leaf_id))
              (\<lambda>bs. Option.bind (from_utf8 bs) (\<lambda>s. parse_u32 (trim s)))
            else None);
          generation = (case or_else (Option.bind checkpoint fst) sidecar of None \<Rightarrow> 0 | Some g \<Rightarrow> g);
          log = (if log_ok io
            then Option.bind (map_of d (dir, scrollback_leaf_log_file_name simple panel_id leaf_id))
              read_frames
            else None);
          frames = (case log of None \<Rightarrow> []
            | Some (log_generation, fs) \<Rightarrow> if log_generation = generation then fs else []);
          body = (case checkpoint of None \<Rightarrow> [] | Some (_, s) \<Rightarrow> replay_body s) in
      (body, frames))"

record leaf_session_history =
  lsh_generation :: u32
  lsh_checkpoint :: bytes
  lsh_log_generation :: "u32 option"
  lsh_frames :: "frame list"

definition try_load_leaf_session ::
  "(uuid \<Rightarrow> bytes) \<Rightarrow> read_io \<Rightarrow> disk \<Rightarrow> bytes \<Rightarrow> uuid \<Rightarrow> uuid option
     \<Rightarrow> hist_error + leaf_session_history" where
  "try_load_leaf_session simple io d dir panel_id leaf_id =
     and_then (try_load_leaf_scrollback_checkpoint simple io d dir panel_id leaf_id) (\<lambda>checkpoint.
     and_then (case Option.bind checkpoint fst of
         Some generation \<Rightarrow> Inr generation
       | None \<Rightarrow>
           and_then (read_optional_history_file (gen_ok io) d
               (dir, scrollback_leaf_gen_file_name simple panel_id leaf_id))
             (\<lambda>sidecar. case sidecar of None \<Rightarrow> Inr 0 | Some bs \<Rightarrow> decode_generation_sidecar bs)) (\<lambda>generation.
     and_then (read_optional_history_file (log_ok io) d
         (dir, scrollback_leaf_log_file_name simple panel_id leaf_id)) (\<lambda>log.
     and_then (case log of
         Some bs \<Rightarrow>
           and_then (ok_or InvalidData (read_frames bs)) (\<lambda>(log_generation, frames).
             Inr (Some log_generation, if log_generation = generation then frames else []))
       | None \<Rightarrow> Inr (None, [])) (\<lambda>(log_generation, frames).
     Inr \<lparr>lsh_generation = generation,
          lsh_checkpoint = (case checkpoint of None \<Rightarrow> [] | Some (_, s) \<Rightarrow> replay_body s),
          lsh_log_generation = log_generation, lsh_frames = frames\<rparr>))))"

definition read_leaf_generation ::
  "(uuid \<Rightarrow> bytes) \<Rightarrow> read_io \<Rightarrow> disk \<Rightarrow> bytes \<Rightarrow> uuid \<Rightarrow> uuid option \<Rightarrow> hist_error + u32" where
  "read_leaf_generation simple io d dir panel_id leaf_id =
     and_then (try_load_leaf_scrollback_checkpoint simple io d dir panel_id leaf_id) (\<lambda>checkpoint.
       case checkpoint of
         Some (Some generation, _) \<Rightarrow> Inr generation
       | _ \<Rightarrow>
           and_then (read_optional_history_bytes (gen_ok io) d
               (dir, scrollback_leaf_gen_file_name simple panel_id leaf_id))
             (\<lambda>sidecar. case sidecar of None \<Rightarrow> Inr 0 | Some bs \<Rightarrow> decode_history_generation bs))"

definition capture_leaf_history ::
  "(uuid \<Rightarrow> bytes) \<Rightarrow> read_io \<Rightarrow> disk \<Rightarrow> bytes \<Rightarrow> uuid \<Rightarrow> uuid option
     \<Rightarrow> hist_error + (bytes \<times> frame list) option" where
  "capture_leaf_history simple io d dir panel_id leaf_id =
     and_then (try_load_leaf_scrollback_checkpoint simple io d dir panel_id leaf_id) (\<lambda>checkpoint.
     and_then (if Option.bind checkpoint fst \<noteq> None then Inr None
       else read_optional_history_bytes (gen_ok io) d
         (dir, scrollback_leaf_gen_file_name simple panel_id leaf_id)) (\<lambda>sidecar.
     and_then (case sidecar of None \<Rightarrow> Inr None
       | Some bs \<Rightarrow> and_then (decode_history_generation bs) (\<lambda>g. Inr (Some g))) (\<lambda>sidecar_generation.
     let generation = (case or_else (Option.bind checkpoint fst) sidecar_generation of
         None \<Rightarrow> 0 | Some g \<Rightarrow> g) in
     and_then (read_optional_history_bytes (log_ok io) d
         (dir, scrollback_leaf_log_file_name simple panel_id leaf_id)) (\<lambda>log.
     and_then (case log of
         Some bs \<Rightarrow>
           and_then (ok_or InvalidData (read_frames bs)) (\<lambda>(log_generation, frames).
             Inr (if log_generation = generation then frames else []))
       | None \<Rightarrow> Inr []) (\<lambda>frames.
     Inr (if checkpoint = None \<and> sidecar = None \<and> frames = [] then None
          else Some (case checkpoint of None \<Rightarrow> [] | Some (_, s) \<Rightarrow> s, frames)))))))"

section \<open>Pruning\<close>

text \<open>A file's name without its extension, and the part of it that names the panel.\<close>

definition stem_of :: "bytes \<Rightarrow> bytes" where
  "stem_of name =
     (case or_else (strip_suffix TXT name) (or_else (strip_suffix MTLG name) (strip_suffix GEN name)) of
        Some stem \<Rightarrow> stem | None \<Rightarrow> name)"

definition panel_stem_of :: "bytes \<Rightarrow> bytes" where
  "panel_stem_of name =
     (let stem = stem_of name in
      case find_byte DASH stem of Some i \<Rightarrow> take i stem | None \<Rightarrow> stem)"

text \<open>
  The loop over the entries of a directory: \<open>victim\<close> decides on the name of an entry, decoded as
  \<open>to_string_lossy\<close> does, \<open>rm\<close> is the outcome of removing it.
\<close>

fun prune_loop ::
  "(bytes \<Rightarrow> bool) \<Rightarrow> (bytes \<Rightarrow> bool) \<Rightarrow> bytes \<Rightarrow> bytes list \<Rightarrow> disk \<Rightarrow> nat \<Rightarrow> disk \<times> nat" where
  "prune_loop victim rm dir [] d removed = (d, removed)"
| "prune_loop victim rm dir (name # names) d removed =
     (if \<not> victim (from_utf8_lossy name) then prune_loop victim rm dir names d removed
      else if rm name then prune_loop victim rm dir names (AList.delete (dir, name) d) (removed + 1)
      else prune_loop victim rm dir names d removed)"

definition panel_victim :: "(uuid \<Rightarrow> bytes) \<Rightarrow> uuid list \<Rightarrow> uuid list \<Rightarrow> bytes \<Rightarrow> bool" where
  "panel_victim simple live_panel_ids known_panel_ids name =
     (let live_stems = map simple live_panel_ids;
          known_stems = map simple known_panel_ids;
          ours = ends_with TXT name \<or> ends_with MTLG name \<or> ends_with GEN name;
          panel_stem = panel_stem_of name in
      \<not> (\<not> ours \<or> panel_stem \<notin> set known_stems \<or> panel_stem \<in> set live_stems))"

definition prune_scrollback ::
  "(uuid \<Rightarrow> bytes) \<Rightarrow> bool \<Rightarrow> (bytes \<Rightarrow> bool) \<Rightarrow> disk \<Rightarrow> bytes \<Rightarrow> uuid list \<Rightarrow> uuid list \<Rightarrow> disk \<times> nat" where
  "prune_scrollback simple list_ok rm d dir live_panel_ids known_panel_ids =
     (if \<not> list_ok then (d, 0)
      else prune_loop (panel_victim simple live_panel_ids known_panel_ids) rm dir (read_dir d dir) d 0)"

text \<open>The leaf a file name of a panel belongs to.\<close>

definition leaf_of_name :: "(uuid \<Rightarrow> bytes) \<Rightarrow> (bytes \<Rightarrow> uuid option) \<Rightarrow> uuid \<Rightarrow> bytes \<Rightarrow> uuid option" where
  "leaf_of_name simple parse panel_id name =
     Option.bind (strip_prefix (simple panel_id @ [DASH]) name) (\<lambda>rest.
       Option.bind (or_else (strip_suffix TXT rest)
           (or_else (strip_suffix MTLG rest) (strip_suffix GEN rest))) parse)"

definition leaf_victim ::
  "(uuid \<Rightarrow> bytes) \<Rightarrow> (bytes \<Rightarrow> uuid option) \<Rightarrow> uuid \<Rightarrow> uuid list \<Rightarrow> uuid list \<Rightarrow> bytes \<Rightarrow> bool" where
  "leaf_victim simple parse panel_id live_leaf_ids known_leaf_ids name =
     (case leaf_of_name simple parse panel_id name of
        None \<Rightarrow> False
      | Some leaf_id \<Rightarrow> leaf_id \<in> set known_leaf_ids \<and> leaf_id \<notin> set live_leaf_ids)"

definition prune_panel_leaf_scrollback ::
  "(uuid \<Rightarrow> bytes) \<Rightarrow> (bytes \<Rightarrow> uuid option) \<Rightarrow> bool \<Rightarrow> (bytes \<Rightarrow> bool) \<Rightarrow> disk \<Rightarrow> bytes \<Rightarrow> uuid
     \<Rightarrow> uuid list \<Rightarrow> uuid list \<Rightarrow> disk \<times> nat" where
  "prune_panel_leaf_scrollback simple parse list_ok rm d dir panel_id live_leaf_ids known_leaf_ids =
     (if \<not> list_ok then (d, 0)
      else prune_loop (leaf_victim simple parse panel_id live_leaf_ids known_leaf_ids) rm dir
        (read_dir d dir) d 0)"

section \<open>All leaves of a panel\<close>

type_synonym leaf_histories = "(uuid option \<times> bytes \<times> frame list) list"

fun capture_leaves ::
  "(uuid \<Rightarrow> bytes) \<Rightarrow> (uuid option \<Rightarrow> read_io) \<Rightarrow> disk \<Rightarrow> bytes \<Rightarrow> uuid \<Rightarrow> uuid list
     \<Rightarrow> leaf_histories \<Rightarrow> hist_error + leaf_histories" where
  "capture_leaves simple io d dir panel_id [] out = Inr out"
| "capture_leaves simple io d dir panel_id (leaf # leaves) out =
     and_then (capture_leaf_history simple (io (Some leaf)) d dir panel_id (Some leaf)) (\<lambda>history.
       capture_leaves simple io d dir panel_id leaves
         (case history of None \<Rightarrow> out | Some (s, frames) \<Rightarrow> out @ [(Some leaf, s, frames)]))"

text \<open>The leaves are collected in a \<open>BTreeSet\<close>: ascending, each once.\<close>

definition leaves_of :: "(uuid \<Rightarrow> bytes) \<Rightarrow> (bytes \<Rightarrow> uuid option) \<Rightarrow> disk \<Rightarrow> bytes \<Rightarrow> uuid \<Rightarrow> uuid list" where
  "leaves_of simple parse d dir panel_id =
     sort (remdups (List.map_filter (leaf_of_name simple parse panel_id \<circ> from_utf8_lossy)
       (read_dir d dir)))"

definition collect_leaf_histories ::
  "(uuid \<Rightarrow> bytes) \<Rightarrow> (bytes \<Rightarrow> uuid option) \<Rightarrow> bool \<Rightarrow> (uuid option \<Rightarrow> read_io) \<Rightarrow> disk \<Rightarrow> bytes
     \<Rightarrow> uuid \<Rightarrow> hist_error + leaf_histories" where
  "collect_leaf_histories simple parse list_ok io d dir panel_id =
     (if \<not> list_ok then Inl Io
      else
        and_then (capture_leaves simple io d dir panel_id (leaves_of simple parse d dir panel_id) [])
          (\<lambda>out.
        and_then (capture_leaf_history simple (io None) d dir panel_id None) (\<lambda>history.
        Inr (case history of None \<Rightarrow> out | Some (s, frames) \<Rightarrow> (None, s, frames) # out))))"

section \<open>Names\<close>

text \<open>
  What the uuid crate documents: the simple form is thirty-two lower-case hexadecimal digits, and
  parsing it gives the identifier back.
\<close>

definition hex_byte :: "u8 \<Rightarrow> bool" where
  "hex_byte b \<longleftrightarrow> 48 \<le> b \<and> b \<le> 57 \<or> 97 \<le> b \<and> b \<le> 102"

definition uuid_text :: "(uuid \<Rightarrow> bytes) \<Rightarrow> (bytes \<Rightarrow> uuid option) \<Rightarrow> bool" where
  "uuid_text simple parse \<longleftrightarrow>
     (\<forall>u. length (simple u) = 32 \<and> list_all hex_byte (simple u) \<and> parse (simple u) = Some u)"

lemma uuid_text_D:
  assumes "uuid_text simple parse"
  shows "length (simple u) = 32" and "list_all hex_byte (simple u)" and "parse (simple u) = Some u"
  using assms by (simp_all add: uuid_text_def)

lemma uuid_simple_eq:
  assumes "uuid_text simple parse"
  shows "simple u = simple v \<longleftrightarrow> u = v"
  using uuid_text_D(3) [OF assms, of u] uuid_text_D(3) [OF assms, of v] by (metis option.inject)

lemma hex_not_dash: "hex_byte b \<Longrightarrow> b \<noteq> DASH"
  by (auto simp: hex_byte_def DASH_def)

lemma uuid_simple_dash:
  assumes "uuid_text simple parse"
  shows "DASH \<notin> set (simple u)"
  using uuid_text_D(2) [OF assms, of u] hex_not_dash by (auto simp: list_all_iff)

text \<open>The form the crate prints satisfies the law; parsing here accepts exactly that form.\<close>

definition hex_digit :: "nat \<Rightarrow> u8" where
  "hex_digit n = of_nat (if n < 10 then 48 + n else 87 + n)"

definition digit_value :: "u8 \<Rightarrow> nat" where
  "digit_value b = (if unat b < 58 then unat b - 48 else unat b - 87)"

fun hex_digits :: "nat \<Rightarrow> nat \<Rightarrow> bytes" where
  "hex_digits 0 n = []"
| "hex_digits (Suc k) n = hex_digits k (n div 16) @ [hex_digit (n mod 16)]"

definition hex_simple :: "uuid \<Rightarrow> bytes" where
  "hex_simple u = hex_digits 32 (unat u)"

definition hex_value :: "bytes \<Rightarrow> nat" where
  "hex_value bs = foldl (\<lambda>n b. 16 * n + digit_value b) 0 bs"

definition parse_simple :: "bytes \<Rightarrow> uuid option" where
  "parse_simple bs =
     (if length bs = 32 \<and> list_all hex_byte bs then Some (of_nat (hex_value bs)) else None)"

lemma hex_digit_ok:
  assumes "n < 16"
  shows "hex_byte (hex_digit n)" and "digit_value (hex_digit n) = n"
proof -
  have u: "unat (hex_digit n) = (if n < 10 then 48 + n else 87 + n)"
    using assms by (simp add: hex_digit_def unat_of_nat)
  then show "digit_value (hex_digit n) = n" using assms by (simp add: digit_value_def)
  show "hex_byte (hex_digit n)" using u assms by (simp add: hex_byte_def word_le_nat_alt)
qed

lemma hex_digits_ok:
  "length (hex_digits k n) = k" "list_all hex_byte (hex_digits k n)"
  "hex_value (hex_digits k n) = n mod 16 ^ k"
proof (induction k arbitrary: n)
  case (Suc k)
  case 1 show ?case using Suc by simp
  case 2 show ?case using Suc by (simp add: hex_digit_ok)
  case 3 show ?case
    using Suc(3) [of "n div 16"] by (simp add: hex_value_def hex_digit_ok mod_mult2_eq)
qed (simp_all add: hex_value_def)

lemma hex_uuid_text: "uuid_text hex_simple parse_simple"
proof -
  have "unat u < 16 ^ 32" for u :: uuid using unsigned_less [of u] by simp
  then show ?thesis
    by (simp add: uuid_text_def hex_simple_def parse_simple_def hex_digits_ok)
qed

lemma extension_lengths [simp]: "length TXT = 4" "length MTLG = 5" "length GEN = 4"
  by (simp_all add: TXT_def MTLG_def GEN_def)

lemma extension_kinds: "TXT \<noteq> GEN" "last TXT \<noteq> last MTLG" "last GEN \<noteq> last MTLG" "last TXT \<noteq> last GEN"
  by (simp_all add: TXT_def MTLG_def GEN_def bytes_of_def byte_of_char_def)

text \<open>Every name is a stem, which only the panel and the leaf determine, and an extension.\<close>

definition name_stem :: "(uuid \<Rightarrow> bytes) \<Rightarrow> uuid \<Rightarrow> uuid option \<Rightarrow> bytes" where
  "name_stem simple panel_id leaf_id =
     simple panel_id @ (case leaf_id of None \<Rightarrow> [] | Some leaf \<Rightarrow> DASH # simple leaf)"

lemma names_by_stem:
  "scrollback_leaf_file_name simple p l = name_stem simple p l @ TXT"
  "scrollback_leaf_log_file_name simple p l = name_stem simple p l @ MTLG"
  "scrollback_leaf_gen_file_name simple p l = name_stem simple p l @ GEN"
  by (simp_all add: name_stem_def scrollback_leaf_file_name_def scrollback_file_name_def
      scrollback_leaf_log_file_name_def scrollback_log_file_name_def
      scrollback_leaf_gen_file_name_def scrollback_gen_file_name_def split: option.split)

lemma name_stem_eq:
  assumes "uuid_text simple parse"
  shows "name_stem simple p l = name_stem simple p' l' \<longleftrightarrow> p = p' \<and> l = l'"
proof
  assume e: "name_stem simple p l = name_stem simple p' l'"
  have "simple p = take 32 (name_stem simple p l)" and "simple p' = take 32 (name_stem simple p' l')"
    by (simp_all add: name_stem_def uuid_text_D(1) [OF assms])
  then have "simple p = simple p'" using e by metis
  then have p: "p = p'" by (simp only: uuid_simple_eq [OF assms])
  then have "l = l'"
    using e by (auto simp: name_stem_def uuid_simple_eq [OF assms] split: option.splits)
  with p show "p = p' \<and> l = l'" by simp
qed simp

text \<open>Names of different kinds, or of different leaves, never meet.\<close>

lemma append_ext_neq: "last x \<noteq> last y \<Longrightarrow> x \<noteq> [] \<Longrightarrow> y \<noteq> [] \<Longrightarrow> s @ x \<noteq> t @ y"
  by (metis last_append)

lemma ext_nonempty [simp]: "TXT \<noteq> []" "MTLG \<noteq> []" "GEN \<noteq> []"
  by (metis extension_lengths list.size(3) zero_neq_numeral)+

lemma names_distinct:
  assumes "uuid_text simple parse"
  shows "scrollback_leaf_file_name simple p l = scrollback_leaf_file_name simple p' l' \<longleftrightarrow> p = p' \<and> l = l'"
    and "scrollback_leaf_log_file_name simple p l = scrollback_leaf_log_file_name simple p' l' \<longleftrightarrow> p = p' \<and> l = l'"
    and "scrollback_leaf_gen_file_name simple p l = scrollback_leaf_gen_file_name simple p' l' \<longleftrightarrow> p = p' \<and> l = l'"
    and "scrollback_leaf_file_name simple p l \<noteq> scrollback_leaf_log_file_name simple p' l'"
    and "scrollback_leaf_file_name simple p l \<noteq> scrollback_leaf_gen_file_name simple p' l'"
    and "scrollback_leaf_log_file_name simple p l \<noteq> scrollback_leaf_gen_file_name simple p' l'"
  by (simp_all add: names_by_stem name_stem_eq [OF assms] append_ext_neq extension_kinds
      extension_kinds [symmetric])

section \<open>What clamping keeps\<close>

lemma rfind_byte_Some:
  assumes "rfind_byte b s = Some i"
  shows "i < length s" and "s ! i = b" and "b \<notin> set (drop (Suc i) s)"
proof -
  let ?n = "length (takeWhile (\<lambda>x. x \<noteq> b) (rev s))"
  have i: "i = length s - 1 - ?n" and m: "b \<in> set s"
    using assms by (auto simp: rfind_byte_def split: if_splits)
  have f: "find_byte b (rev s) = Some ?n" using m by (simp add: find_byte_def)
  note r = find_byte_Some [OF f]
  show l: "i < length s" using i r(1) by simp
  show "s ! i = b" using r(1,2) i by (simp add: rev_nth)
  have "take ?n (rev s) = rev (drop (Suc i) s)"
    using r(1) i by (simp add: take_rev Suc_diff_Suc)
  then show "b \<notin> set (drop (Suc i) s)" using r(3) by simp
qed

lemma rfind_byte_None: "rfind_byte b s = None \<longleftrightarrow> b \<notin> set s"
  by (simp add: rfind_byte_def)

lemma skip_sgr_spec:
  assumes "start \<le> length s" and "utf8_ok s" and "utf8_ok (drop start s)"
  shows "start \<le> skip_sgr s start \<and> skip_sgr s start \<le> length s
    \<and> utf8_ok (drop (skip_sgr s start) s)"
proof (cases "rfind_byte ESC (take start s)")
  case None
  then show ?thesis using assms by (simp add: skip_sgr_def)
next
  case (Some e)
  show ?thesis
  proof (cases "find_byte 0x6D (drop e s)")
    case None
    then show ?thesis using assms Some by (simp add: skip_sgr_def)
  next
    case off: (Some n)
    note m = find_byte_Some [OF off]
    have "e + n < length s" and "s ! (e + n) = 0x6D" using m by auto
    then have "utf8_ok (drop (Suc (e + n)) s)" by (intro utf8_drop_after_ascii assms) simp_all
    then show ?thesis using assms Some off \<open>e + n < length s\<close> by (auto simp: skip_sgr_def Let_def)
  qed
qed

text \<open>After the skip no escape before the cut has its closing \<open>m\<close> behind the cut.\<close>

lemma skip_sgr_closed:
  assumes "start \<le> length s" and "i < skip_sgr s start" and "s ! i = ESC" and "0x6D \<in> set (drop i s)"
  shows "0x6D \<in> set (drop i (take (skip_sgr s start) s))"
proof -
  let ?t = "skip_sgr s start"
  have inI: "0x6D \<in> set (drop i (take j s))" if "i \<le> k" "k < j" "k < length s" "s ! k = 0x6D" for j k
  proof -
    have "drop i (take j s) ! (k - i) = 0x6D" and "k - i < length (drop i (take j s))"
      using that by (auto simp: nth_drop)
    then show ?thesis by (metis nth_mem)
  qed
  show ?thesis
  proof (cases "rfind_byte ESC (take start s)")
    case None
    have t: "?t = start" by (simp add: skip_sgr_def None)
    have "ESC \<notin> set (take start s)" using None by (simp add: rfind_byte_None)
    then show ?thesis using assms t by (metis in_set_conv_nth length_take min.absorb2 nth_take)
  next
    case (Some e)
    note r = rfind_byte_Some [OF Some]
    have e: "e < start" "s ! e = ESC" using r(1,2) assms(1) by auto
    have last: "i \<le> e" if "i < start"
    proof (rule ccontr)
      assume "\<not> i \<le> e"
      then have "drop (Suc e) (take start s) ! (i - Suc e) = ESC"
        and "i - Suc e < length (drop (Suc e) (take start s))"
        using that assms(1,3) by (auto simp: nth_drop)
      then show False using r(3) by (metis nth_mem)
    qed
    show ?thesis
    proof (cases "find_byte 0x6D (drop e s)")
      case None
      have t: "?t = start" by (simp add: skip_sgr_def Some None)
      then have "i \<le> e" using last assms(2) by simp
      obtain k where k: "k < length s - i" "drop i s ! k = 0x6D"
        using assms(4) by (metis in_set_conv_nth length_drop)
      have "\<not> e \<le> i + k"
      proof
        assume "e \<le> i + k"
        then have "drop e s ! (i + k - e) = 0x6D" and "i + k - e < length (drop e s)"
          using k by (auto simp: nth_drop)
        then show False using None by (metis find_byte_None nth_mem)
      qed
      then show ?thesis using k e(1) t by (intro inI [of "i + k"]) auto
    next
      case off: (Some n)
      note m = find_byte_Some [OF off]
      have at: "e + n < length s" "s ! (e + n) = 0x6D" using m by auto
      have t: "?t = max start (Suc (e + n))" by (simp add: skip_sgr_def Some off Let_def max_def)
      have "i \<le> e + n" using last assms(2) t by (cases "i < start") auto
      then show ?thesis using at t by (intro inI [of "e + n"]) simp_all
    qed
  qed
qed

text \<open>
  A sequence of colours at a place of a text, up to its \<open>m\<close>: an escape, a bracket and parameters. A part
  of the text that has an \<open>m\<close> or a line feed behind the escape has the whole sequence.
\<close>

definition sgr_at :: "bytes \<Rightarrow> nat \<Rightarrow> nat \<Rightarrow> bool" where
  "sgr_at s i k \<longleftrightarrow> i + 1 < k \<and> k < length s \<and> s ! i = ESC \<and> s ! (i + 1) = 0x5B \<and> s ! k = 0x6D
     \<and> list_all (\<lambda>b. 0x30 \<le> b \<and> b \<le> 0x3F) (drop (i + 2) (take k s))"

lemma sgr_inside:
  assumes "sgr_at s i k" and "i \<le> j" and "j < k"
  shows "s ! j \<noteq> 0x6D \<and> s ! j \<noteq> NL"
proof -
  consider "j = i" | "j = i + 1" | "i + 2 \<le> j" using assms(2) by linarith
  then show ?thesis
  proof cases
    case 3
    then obtain d where d: "j = i + 2 + d" using le_Suc_ex by blast
    have "drop (i + 2) (take k s) ! d = s ! j" and "d < length (drop (i + 2) (take k s))"
      using assms by (simp_all add: sgr_at_def d)
    then have "s ! j \<in> set (drop (i + 2) (take k s))" by (metis nth_mem)
    then have "0x30 \<le> s ! j \<and> s ! j \<le> 0x3F" using assms(1) by (auto simp: sgr_at_def list_all_iff)
    then show ?thesis by (auto simp: NL_def)
  qed (use assms(1) in \<open>auto simp: sgr_at_def ESC_def NL_def\<close>)
qed

lemma sgr_whole:
  assumes q: "sgr_at s i k" and s: "s = pre @ rest" and m: "0x6D \<in> set (drop i pre) \<or> NL \<in> set (drop i pre)"
  shows "k < length pre"
proof -
  obtain j where j: "j < length (drop i pre)" "drop i pre ! j = 0x6D \<or> drop i pre ! j = NL"
    using m by (metis in_set_conv_nth)
  have "s ! (i + j) = 0x6D \<or> s ! (i + j) = NL" using j by (auto simp: s nth_append)
  then have "\<not> i + j < k" using sgr_inside [OF q, of "i + j"] by auto
  then show ?thesis using j(1) by simp
qed

lemma clamp_cuts:
  assumes "utf8_ok s"
  shows "\<exists>pre. s = pre @ clamp_scrollback s n
    \<and> utf8_ok (clamp_scrollback s n) \<and> length (clamp_scrollback s n) \<le> n
    \<and> (length s \<le> n \<longrightarrow> pre = [])
    \<and> (pre = [] \<or> last pre = NL \<or> NL \<notin> set (clamp_scrollback s n))
    \<and> (\<forall>i < length pre. pre ! i = ESC \<longrightarrow> 0x6D \<in> set (drop i s)
         \<longrightarrow> 0x6D \<in> set (drop i pre) \<or> NL \<in> set (drop i pre))"
proof (cases "length s \<le> n")
  case True
  then show ?thesis using assms by (intro exI [of _ "[]"]) (simp add: clamp_scrollback_def)
next
  case False
  define c where "c = char_boundary_from s (length s - n)"
  define t where "t = skip_sgr s c"
  have c: "length s - n \<le> c" "c \<le> length s" "utf8_ok (drop c s)"
    using char_boundary_from_spec [of "length s - n" s] utf8_drop_boundary [OF assms]
    by (simp_all add: c_def)
  have t: "c \<le> t" "t \<le> length s" "utf8_ok (drop t s)"
    using skip_sgr_spec [OF c(2) assms c(3)] by (simp_all add: t_def)
  show ?thesis
  proof (cases "find_byte NL (drop t s)")
    case None
    then have "clamp_scrollback s n = drop t s"
      using False by (simp add: clamp_scrollback_def Let_def c_def t_def)
    then show ?thesis
      using None False c t skip_sgr_closed [OF c(2)]
      by (intro exI [of _ "take t s"]) (auto simp: find_byte_None t_def)
  next
    case (Some k)
    note nl = find_byte_Some [OF Some]
    have at: "t + k < length s" "s ! (t + k) = NL" using nl by auto
    have cl: "clamp_scrollback s n = drop (Suc (t + k)) s"
      using False Some by (simp add: clamp_scrollback_def Let_def c_def t_def add.commute)
    have ok: "utf8_ok (drop (Suc (t + k)) s)"
      using at by (intro utf8_drop_after_ascii assms) (simp_all add: NL_def)
    have pre: "take (Suc (t + k)) s = take (t + k) s @ [NL]"
      using at by (simp add: take_Suc_conv_app_nth)
    have "s = take (Suc (t + k)) s @ drop (Suc (t + k)) s" by simp
    moreover have "length (drop (Suc (t + k)) s) \<le> n" using False c(1) t(1) by simp
    moreover have "NL \<in> set (drop i (take (Suc (t + k)) s))" if "i < length (take (Suc (t + k)) s)" for i
      using that pre at(1) by (simp add: min_def)
    ultimately show ?thesis
      using cl ok pre False by (intro exI [of _ "take (Suc (t + k)) s"]) simp
  qed
qed

text \<open>
  C32: A checkpoint's text is clamped without damage. Every well-formed UTF-8 text is some discarded
  part followed by the clamped text, which is well-formed, within the limit and the whole text if
  that fits. If the clamped text has a line feed, then it begins where a line begins (a kept tail
  without any line feed may begin inside its line), and no sequence of colours, \<open>ESC [\<close> with its
  parameters and \<open>m\<close>, begins in the discarded part and ends in the kept one. (Other escape sequences
  may be cut.)
\<close>
theorem clamp_is_clean_suffix:
  assumes "utf8_ok s"
  shows "\<exists>pre. s = pre @ clamp_scrollback s n
    \<and> utf8_ok (clamp_scrollback s n) \<and> length (clamp_scrollback s n) \<le> n
    \<and> (length s \<le> n \<longrightarrow> pre = [])
    \<and> (NL \<in> set (clamp_scrollback s n) \<longrightarrow> pre = [] \<or> last pre = NL)
    \<and> (\<forall>i k. sgr_at s i k \<longrightarrow> i < length pre \<longrightarrow> k < length pre)"
proof -
  obtain pre where p: "s = pre @ clamp_scrollback s n"
      "utf8_ok (clamp_scrollback s n) \<and> length (clamp_scrollback s n) \<le> n \<and> (length s \<le> n \<longrightarrow> pre = [])"
      "pre = [] \<or> last pre = NL \<or> NL \<notin> set (clamp_scrollback s n)"
    and esc: "\<And>i. i < length pre \<Longrightarrow> pre ! i = ESC \<Longrightarrow> 0x6D \<in> set (drop i s)
         \<Longrightarrow> 0x6D \<in> set (drop i pre) \<or> NL \<in> set (drop i pre)"
    using clamp_cuts [OF assms, of n] by blast
  have "k < length pre" if q: "sgr_at s i k" and i: "i < length pre" for i k
  proof (rule sgr_whole [OF q p(1)])
    have "s ! i = ESC" using q by (simp add: sgr_at_def)
    moreover have "pre ! i = s ! i" using i p(1) by (metis nth_append)
    moreover have "drop i s ! (k - i) = 0x6D" and "k - i < length (drop i s)" using q by (auto simp: sgr_at_def)
    then have "0x6D \<in> set (drop i s)" by (metis nth_mem)
    ultimately show "0x6D \<in> set (drop i pre) \<or> NL \<in> set (drop i pre)" using esc [OF i] by simp
  qed
  then show ?thesis using p by blast
qed

definition demo_text :: bytes where
  "demo_text = bytes_of ''one'' @ [NL, ESC] @ bytes_of ''[31mtwo'' @ [NL] @ bytes_of ''three''"

lemma demo_text_ok: "utf8_ok demo_text"
  by (simp add: demo_text_def bytes_of_def byte_of_char_def NL_def ESC_def utf8_ascii)

theorem clamp_is_clean_suffix_witness:
  "\<exists>pre. demo_text = pre @ clamp_scrollback demo_text 11
    \<and> utf8_ok (clamp_scrollback demo_text 11) \<and> length (clamp_scrollback demo_text 11) \<le> 11
    \<and> (length demo_text \<le> 11 \<longrightarrow> pre = [])
    \<and> (NL \<in> set (clamp_scrollback demo_text 11) \<longrightarrow> pre = [] \<or> last pre = NL)
    \<and> (\<forall>i k. sgr_at demo_text i k \<longrightarrow> i < length pre \<longrightarrow> k < length pre)"
  by (rule clamp_is_clean_suffix [OF demo_text_ok])

section \<open>Reading back what was saved\<close>

lemma magic_lengths [simp]: "length CHECKPOINT_MAGIC = 15" "length SNAPSHOT_MAGIC = 15"
  by (simp_all add: CHECKPOINT_MAGIC_def SNAPSHOT_MAGIC_def)

lemma decode_versioned:
  assumes "m = CHECKPOINT_MAGIC \<or> m = SNAPSHOT_MAGIC"
  shows "decode_checkpoint (m @ u32_le g @ s) = Inr (Some g, from_utf8_lossy s)"
  using assms by (auto simp: decode_checkpoint_def Let_def u32c.enc_width u32c.dec_of_enc)

lemma try_load_saved:
  assumes "map_of d (dir, scrollback_leaf_file_name simple p l) = Some (m @ u32_le g @ s)"
    and "m = CHECKPOINT_MAGIC \<or> m = SNAPSHOT_MAGIC" and "utf8_ok s" and "ckpt_ok r"
  shows "try_load_leaf_scrollback_checkpoint simple r d dir p l = Inr (Some (Some g, s))"
  using assms by (simp add: try_load_leaf_scrollback_checkpoint_def decode_versioned lossy_id)

lemma write_atomic_at_True:
  "write_atomic_at io d path data = (True, d') \<Longrightarrow> d' = AList.update path data d"
  by (auto simp: write_atomic_at_def split: if_splits)

lemma utf8_ok_clamp: "utf8_ok s \<Longrightarrow> utf8_ok (clamp_scrollback s n)"
proof -
  assume ok: "utf8_ok s"
  define c where "c = char_boundary_from s (length s - n)"
  define t where "t = skip_sgr s c"
  have "utf8_ok (drop c s)" and "c \<le> length s"
    using char_boundary_from_spec [of "length s - n" s] utf8_drop_boundary [OF ok]
    by (simp_all add: c_def)
  then have t: "utf8_ok (drop t s)" using skip_sgr_spec [of c s] ok by (simp add: t_def)
  have "utf8_ok (drop (Suc k) (drop t s))" if "find_byte NL (drop t s) = Some k" for k
    using find_byte_Some [OF that] by (intro utf8_drop_after_ascii t) (simp_all add: NL_def)
  then show ?thesis
    using ok t by (simp add: clamp_scrollback_def Let_def c_def t_def split: option.split)
qed

text \<open>
  C20: A saved checkpoint reads back: after a successful save the strict reader returns the
  generation and the clamped text, the recovery reader replays exactly that text, and no other
  file has changed; after a failed save nothing has changed.
\<close>
theorem checkpoint_roundtrip:
  assumes "utf8_ok s" and "save_leaf_scrollback_versioned simple io d dir p l g s = (saved, d')"
    and "ckpt_ok r"
  shows "(saved \<longrightarrow> try_load_leaf_scrollback_checkpoint simple r d' dir p l
        = Inr (Some (Some g, clamp_scrollback s MAX_PERSISTED_BYTES)))
    \<and> (\<forall>path. path \<noteq> (dir, scrollback_leaf_file_name simple p l) \<longrightarrow> map_of d' path = map_of d path)
    \<and> (\<not> saved \<longrightarrow> d' = d)"
proof (cases saved)
  case True
  then have d': "d' = AList.update (dir, scrollback_leaf_file_name simple p l)
      (CHECKPOINT_MAGIC @ u32_le g @ clamp_scrollback s MAX_PERSISTED_BYTES) d"
    using assms(2) write_atomic_at_True by (simp add: save_leaf_scrollback_versioned_def)
  have "try_load_leaf_scrollback_checkpoint simple r d' dir p l
      = Inr (Some (Some g, clamp_scrollback s MAX_PERSISTED_BYTES))"
    by (rule try_load_saved [of _ _ _ _ _ CHECKPOINT_MAGIC])
      (simp_all add: d' al.look_put_same utf8_ok_clamp assms)
  then show ?thesis using True d' by (simp add: al.look_put_other)
next
  case False
  then show ?thesis
    using assms(2) by (auto simp: save_leaf_scrollback_versioned_def write_atomic_at_def split: if_splits)
qed

definition all_saves :: save_io where
  "all_saves = \<lparr>dir_ok = True, write_ok = True, rm_ok = True\<rparr>"

definition all_reads :: read_io where
  "all_reads = \<lparr>ckpt_ok = True, gen_ok = True, log_ok = True\<rparr>"

theorem checkpoint_roundtrip_witness:
  "try_load_leaf_scrollback_checkpoint (\<lambda>_. [97]) all_reads
      (snd (save_leaf_scrollback_versioned (\<lambda>_. [97]) all_saves [] [100] 1 (Some 2) 7 demo_text))
      [100] 1 (Some 2)
    = Inr (Some (Some 7, demo_text))"
proof -
  have s: "save_leaf_scrollback_versioned (\<lambda>_. [97]) all_saves [] [100] 1 (Some 2) 7 demo_text
    = (True, snd (save_leaf_scrollback_versioned (\<lambda>_. [97]) all_saves [] [100] 1 (Some 2) 7 demo_text))"
    by (simp add: save_leaf_scrollback_versioned_def write_atomic_at_def all_saves_def)
  have c: "clamp_scrollback demo_text MAX_PERSISTED_BYTES = demo_text"
    by (simp add: clamp_scrollback_def MAX_PERSISTED_BYTES_def demo_text_def bytes_of_def)
  have r: "ckpt_ok all_reads" by (simp add: all_reads_def)
  show ?thesis using checkpoint_roundtrip [OF demo_text_ok s r] c by simp
qed

end
