(* ===== verification/HistoryWorker.thy ===== *)
theory HistoryWorker
  imports HistoryStore
begin

text \<open>
  \<open>src/app/persistence_worker.rs\<close> and \<open>persist_incremental_frames\<close> of \<open>src/app.rs\<close>: the single
  thread that writes histories. It keeps the next sequence number of each log it has appended to,
  the panels whose root leaf still lives under its legacy name, and the directories whose startup
  capture failed. A job is a capture at startup, an incremental batch or a set of checkpoints; the
  saving of the layout (\<open>Job::State\<close>) does not touch histories and enters only in the queue of
  the worker.

  The environment chooses the outcome of every call to the file system and whether the write
  guard of the run is held (\<open>guard\<close>).
\<close>

section \<open>Jobs\<close>

record incremental_entry =
  ie_dir :: bytes
  ie_panel_id :: uuid
  ie_leaf_id :: "uuid option"
  ie_runtime_session_id :: uuid
  ie_frames :: bytes

record incremental_batch =
  ib_dir :: bytes
  ib_entries :: "incremental_entry list"
  ib_live_panels :: "(uuid \<times> uuid list) list"
  ib_known_panels :: "(uuid \<times> uuid list) list"

record incremental_ack =
  ack_panel_id :: uuid
  ack_leaf_id :: "uuid option"
  ack_runtime_session_id :: uuid
  ack_written_bytes :: nat

datatype full_content =
    Checkpoint (cp_text: bytes) (cp_pending_bytes: nat)
  | PendingLog bytes
  | Unavailable

record full_entry =
  fe_dir :: bytes
  fe_panel_id :: uuid
  fe_leaf_id :: "uuid option"
  fe_runtime_session_id :: uuid
  fe_content :: full_content

section \<open>The worker's state\<close>

type_synonym storage_key = "bytes \<times> uuid \<times> uuid option"

record worker =
  wk_disk :: disk
  next_sequences :: "(storage_key \<times> u64) list"
  legacy_roots :: "((bytes \<times> uuid) \<times> uuid) list"
  blocked_history_dirs :: "bytes list"

text \<open>The worker at the start of a run, over the files the earlier runs have left.\<close>

definition fresh_worker :: "disk \<Rightarrow> worker" where
  "fresh_worker d = \<lparr>wk_disk = d, next_sequences = [], legacy_roots = [], blocked_history_dirs = []\<rparr>"

text \<open>
  The outcomes of one incremental entry: the reads that find the first sequence number, the reads
  of \<open>persist_incremental_frames\<close>, the reset of the log, the append and the final \<open>metadata\<close>.
\<close>

record entry_io =
  seq_reads :: read_io
  frame_reads :: read_io
  reset_io :: save_io
  append_io :: log_io
  metadata_ok :: bool

section \<open>Incremental entries\<close>

text \<open>\<open>reset_log\<close> of \<open>scrollback_log.rs\<close>: an atomic write of an empty log.\<close>

definition reset_log :: "save_io \<Rightarrow> disk \<Rightarrow> path \<Rightarrow> u32 \<Rightarrow> bool \<times> disk" where
  "reset_log io d path generation = write_atomic_at io d path (encode_header generation)"

text \<open>\<open>append_frames\<close> on a file of the disk.\<close>

definition append_frames_at :: "log_io \<Rightarrow> disk \<Rightarrow> path \<Rightarrow> bytes \<Rightarrow> bool \<times> disk" where
  "append_frames_at io d path frames =
     (case append_frames io (map_of d path) frames of
        (result, file) \<Rightarrow>
          (result = Inr (), case file of None \<Rightarrow> d | Some data \<Rightarrow> AList.update path data d))"

text \<open>From the reset on: \<open>None\<close> is a failure, \<open>Some\<close> says whether the log should roll over.\<close>

definition write_frames ::
  "entry_io \<Rightarrow> disk \<Rightarrow> path \<Rightarrow> u32 \<Rightarrow> bool \<Rightarrow> bytes \<Rightarrow> bool option \<times> disk" where
  "write_frames io d log_path generation log_is_current frames =
     (case (if log_is_current then (True, d) else reset_log (reset_io io) d log_path generation) of
        (reset, d1) \<Rightarrow>
          if \<not> reset then (None, d1)
          else
            (case append_frames_at (append_io io) d1 log_path frames of
               (appended, d2) \<Rightarrow>
                 if \<not> appended then (None, d2)
                 else (Some ((if metadata_ok io
                     then (case map_of d2 log_path of None \<Rightarrow> 0 | Some bs \<Rightarrow> length bs) else 0)
                   > MAX_LOG_BYTES), d2)))"

definition persist_incremental_frames ::
  "(uuid \<Rightarrow> bytes) \<Rightarrow> entry_io \<Rightarrow> disk \<Rightarrow> bytes \<Rightarrow> uuid \<Rightarrow> uuid option \<Rightarrow> bytes \<Rightarrow> bool option \<times> disk" where
  "persist_incremental_frames simple io d dir panel_id leaf_id frames =
     (let log_path = (dir, scrollback_leaf_log_file_name simple panel_id leaf_id) in
      case read_leaf_generation simple (frame_reads io) d dir panel_id leaf_id of
        Inl _ \<Rightarrow> (None, d)
      | Inr generation \<Rightarrow>
          (case read_optional_history_bytes (log_ok (frame_reads io)) d log_path of
             Inl _ \<Rightarrow> (None, d)
           | Inr None \<Rightarrow> write_frames io d log_path generation False frames
           | Inr (Some bs) \<Rightarrow>
               (case read_frames bs of
                  None \<Rightarrow> (None, d)
                | Some (log_generation, _) \<Rightarrow>
                    write_frames io d log_path generation (log_generation = generation) frames)))"

text \<open>Which history an entry goes to: a legacy root is still written under its old name.\<close>

definition is_legacy_root :: "worker \<Rightarrow> bytes \<Rightarrow> uuid \<Rightarrow> uuid option \<Rightarrow> bool" where
  "is_legacy_root w dir panel_id leaf_id =
     (case leaf_id of None \<Rightarrow> False | Some leaf \<Rightarrow> map_of (legacy_roots w) (dir, panel_id) = Some leaf)"

definition storage_leaf_id :: "worker \<Rightarrow> incremental_entry \<Rightarrow> uuid option" where
  "storage_leaf_id w e =
     (if is_legacy_root w (ie_dir e) (ie_panel_id e) (ie_leaf_id e) then None else ie_leaf_id e)"

definition storage_key_of :: "worker \<Rightarrow> incremental_entry \<Rightarrow> storage_key" where
  "storage_key_of w e = (ie_dir e, ie_panel_id e, storage_leaf_id w e)"

text \<open>The number the next frame of a log gets when the worker has not appended to it yet.\<close>

definition durable_first_seq ::
  "(uuid \<Rightarrow> bytes) \<Rightarrow> read_io \<Rightarrow> disk \<Rightarrow> storage_key \<Rightarrow> u64 option" where
  "durable_first_seq simple io d k =
     (case k of (dir, panel_id, leaf_id) \<Rightarrow>
       (case read_leaf_generation simple io d dir panel_id leaf_id of
          Inl _ \<Rightarrow> None
        | Inr generation \<Rightarrow>
            (case read_optional_history_bytes (log_ok io) d
                (dir, scrollback_leaf_log_file_name simple panel_id leaf_id) of
               Inl _ \<Rightarrow> None
             | Inr None \<Rightarrow> Some 1
             | Inr (Some bs) \<Rightarrow>
                 (case read_frames bs of
                    None \<Rightarrow> None
                  | Some (log_generation, frames) \<Rightarrow>
                      if log_generation = generation then
                        (if frames = [] then Some 1 else Some (saturating_inc (frame_seq (last frames))))
                      else Some 1))))"

definition first_seq :: "(uuid \<Rightarrow> bytes) \<Rightarrow> read_io \<Rightarrow> worker \<Rightarrow> storage_key \<Rightarrow> u64 option" where
  "first_seq simple io w k =
     (case map_of (next_sequences w) k of
        Some next_seq \<Rightarrow> Some next_seq
      | None \<Rightarrow> durable_first_seq simple io (wk_disk w) k)"

definition ack_of :: "incremental_entry \<Rightarrow> nat \<Rightarrow> incremental_ack" where
  "ack_of e n = \<lparr>ack_panel_id = ie_panel_id e, ack_leaf_id = ie_leaf_id e,
     ack_runtime_session_id = ie_runtime_session_id e, ack_written_bytes = n\<rparr>"

text \<open>
  One round of the loop of \<open>persist_incremental_entries\<close>: the worker after it, whether the panel
  must roll over and the acknowledgement. \<open>continue\<close> is a round without acknowledgement.
\<close>

definition persist_entry ::
  "(uuid \<Rightarrow> bytes) \<Rightarrow> entry_io \<Rightarrow> worker \<Rightarrow> incremental_entry \<Rightarrow> worker \<times> bool \<times> incremental_ack option" where
  "persist_entry simple io w e =
     (if ie_frames e = [] then (w, False, Some (ack_of e 0))
      else
        (let key = storage_key_of w e in
         case first_seq simple (seq_reads io) w key of
           None \<Rightarrow> (w, False, None)
         | Some first \<Rightarrow>
             if first = - 1 then
               (w\<lparr>next_sequences := AList.delete key (next_sequences w)\<rparr>, True, None)
             else
               (case renumber_frames (ie_frames e) first of
                  None \<Rightarrow> (w, False, None)
                | Some (durable_frames, next_seq) \<Rightarrow>
                    (case persist_incremental_frames simple io (wk_disk w) (ie_dir e) (ie_panel_id e)
                        (storage_leaf_id w e) durable_frames of
                       (None, d) \<Rightarrow> (w\<lparr>wk_disk := d\<rparr>, False, None)
                     | (Some needs_rollover, d) \<Rightarrow>
                         (w\<lparr>wk_disk := d, next_sequences := AList.update key next_seq (next_sequences w)\<rparr>,
                          needs_rollover, Some (ack_of e (length (ie_frames e))))))))"

fun persist_incremental_entries ::
  "(uuid \<Rightarrow> bytes) \<Rightarrow> worker \<Rightarrow> (incremental_entry \<times> entry_io) list \<Rightarrow> uuid list \<Rightarrow> incremental_ack list
     \<Rightarrow> worker \<times> uuid list \<times> incremental_ack list" where
  "persist_incremental_entries simple w [] rollover acks = (w, rollover, acks)"
| "persist_incremental_entries simple w ((e, io) # es) rollover acks =
     (case persist_entry simple io w e of
        (w', roll, ack) \<Rightarrow>
          persist_incremental_entries simple w' es
            (if roll then List.insert (ie_panel_id e) rollover else rollover)
            (case ack of None \<Rightarrow> acks | Some a \<Rightarrow> acks @ [a]))"

section \<open>Checkpoints\<close>

text \<open>The outcomes of one checkpoint; \<open>rescue_io\<close> is for the entries that only carry frames.\<close>

record full_io =
  full_reads :: read_io
  full_save :: save_io
  rm_log_ok :: bool
  rm_gen_ok :: bool
  rescue_io :: entry_io

text \<open>Neither the old checkpoint's generation nor that of a log that may stay behind.\<close>

definition next_generation :: "u32 \<Rightarrow> u32 option \<Rightarrow> u32" where
  "next_generation checkpoint_generation retained_log_generation =
     (let generation = checkpoint_generation + 1 in
      if retained_log_generation = Some generation then generation + 1 else generation)"

text \<open>The caches after a checkpoint was published.\<close>

definition forget_sequences :: "worker \<Rightarrow> full_entry \<Rightarrow> worker" where
  "forget_sequences w e =
     (let w1 = w\<lparr>next_sequences :=
            AList.delete (fe_dir e, fe_panel_id e, fe_leaf_id e) (next_sequences w)\<rparr> in
      if is_legacy_root w (fe_dir e) (fe_panel_id e) (fe_leaf_id e) then
        w1\<lparr>legacy_roots := AList.delete (fe_dir e, fe_panel_id e) (legacy_roots w1),
          next_sequences := AList.delete (fe_dir e, fe_panel_id e, None) (next_sequences w1)\<rparr>
      else w1)"

definition persist_checkpoint ::
  "(uuid \<Rightarrow> bytes) \<Rightarrow> full_io \<Rightarrow> worker \<Rightarrow> full_entry \<Rightarrow> bytes \<Rightarrow> nat \<Rightarrow> worker \<times> incremental_ack option" where
  "persist_checkpoint simple io w e s pending_bytes =
     (let d = wk_disk w; dir = fe_dir e; panel_id = fe_panel_id e; leaf_id = fe_leaf_id e;
          log_path = (dir, scrollback_leaf_log_file_name simple panel_id leaf_id) in
      case read_leaf_generation simple (full_reads io) d dir panel_id leaf_id of
        Inl _ \<Rightarrow> (w, None)
      | Inr checkpoint_generation \<Rightarrow>
          (case and_then (read_optional_history_bytes (log_ok (full_reads io)) d log_path) (\<lambda>log.
               case log of None \<Rightarrow> Inr None
               | Some bs \<Rightarrow> and_then (ok_or InvalidData (read_frames bs)) (\<lambda>(g, _). Inr (Some g))) of
             Inl _ \<Rightarrow> (w, None)
           | Inr retained_log_generation \<Rightarrow>
               (case save_leaf_scrollback_versioned simple (full_save io) d dir panel_id leaf_id
                   (next_generation checkpoint_generation retained_log_generation) s of
                  (False, d1) \<Rightarrow> (w\<lparr>wk_disk := d1\<rparr>, None)
                | (True, d1) \<Rightarrow>
                    (let w1 = forget_sequences w e;
                         d2 = remove_at (rm_log_ok io) d1 log_path;
                         d3 = remove_at (rm_gen_ok io) d2
                           (dir, scrollback_leaf_gen_file_name simple panel_id leaf_id) in
                     (w1\<lparr>wk_disk := d3\<rparr>,
                      Some \<lparr>ack_panel_id = panel_id, ack_leaf_id = leaf_id,
                        ack_runtime_session_id = fe_runtime_session_id e,
                        ack_written_bytes = pending_bytes\<rparr>)))))"

text \<open>The incremental entry of a checkpoint whose grid is still being rebuilt.\<close>

definition rescue_entry :: "full_entry \<Rightarrow> bytes \<Rightarrow> incremental_entry" where
  "rescue_entry e frames = \<lparr>ie_dir = fe_dir e, ie_panel_id = fe_panel_id e, ie_leaf_id = fe_leaf_id e,
     ie_runtime_session_id = fe_runtime_session_id e, ie_frames = frames\<rparr>"

definition persist_full_entry ::
  "(uuid \<Rightarrow> bytes) \<Rightarrow> full_io \<Rightarrow> worker \<Rightarrow> full_entry \<Rightarrow> worker \<times> incremental_ack list" where
  "persist_full_entry simple io w e =
     (case fe_content e of
        Unavailable \<Rightarrow> (w, [])
      | Checkpoint s pending_bytes \<Rightarrow>
          (case persist_checkpoint simple io w e s pending_bytes of
             (w', None) \<Rightarrow> (w', []) | (w', Some ack) \<Rightarrow> (w', [ack]))
      | PendingLog frames \<Rightarrow>
          (case persist_incremental_entries simple w [(rescue_entry e frames, rescue_io io)] [] [] of
             (w', _, rescued) \<Rightarrow> (w', rescued)))"

fun persist_full_entries ::
  "(uuid \<Rightarrow> bytes) \<Rightarrow> worker \<Rightarrow> (full_entry \<times> full_io) list \<Rightarrow> incremental_ack list
     \<Rightarrow> worker \<times> incremental_ack list" where
  "persist_full_entries simple w [] acks = (w, acks)"
| "persist_full_entries simple w ((e, io) # es) acks =
     (case persist_full_entry simple io w e of
        (w', a) \<Rightarrow> persist_full_entries simple w' es (acks @ a))"

section \<open>A batch with its pruning\<close>

record prune_io =
  list_leaf_ok :: "uuid \<Rightarrow> bool"
  list_panel_ok :: bool
  rm_file :: "bytes \<Rightarrow> bool"

text \<open>Each entry with the outcomes the environment gives it.\<close>

definition with_io :: "(nat \<Rightarrow> 'io) \<Rightarrow> 'e list \<Rightarrow> ('e \<times> 'io) list" where
  "with_io ios es = zip es (map ios [0..<length es])"

text \<open>\<open>collect::<HashMap>\<close> of a list of pairs: the last value of a key wins.\<close>

definition leaves_in :: "(uuid \<times> uuid list) list \<Rightarrow> uuid \<Rightarrow> uuid list option" where
  "leaves_in panels panel = map_of (rev panels) panel"

fun prune_leaves ::
  "(uuid \<Rightarrow> bytes) \<Rightarrow> (bytes \<Rightarrow> uuid option) \<Rightarrow> prune_io \<Rightarrow> bytes \<Rightarrow> (uuid \<times> uuid list) list
     \<Rightarrow> (uuid \<times> uuid list) list \<Rightarrow> disk \<Rightarrow> disk" where
  "prune_leaves simple parse io dir known_panels [] d = d"
| "prune_leaves simple parse io dir known_panels ((panel, leaves) # rest) d =
     prune_leaves simple parse io dir known_panels rest
       (fst (prune_panel_leaf_scrollback simple parse (list_leaf_ok io panel) (rm_file io) d dir panel leaves
         (case leaves_in known_panels panel of None \<Rightarrow> [] | Some known \<Rightarrow> known)))"

definition retain_sequence :: "bytes \<Rightarrow> (uuid \<times> uuid list) list \<Rightarrow> storage_key \<Rightarrow> bool" where
  "retain_sequence batch_dir live_panels k =
     (case k of (dir, panel, leaf) \<Rightarrow>
       if dir \<noteq> batch_dir then True
       else (case leaves_in live_panels panel of
               None \<Rightarrow> False
             | Some leaves \<Rightarrow> (case leaf of None \<Rightarrow> True | Some l \<Rightarrow> l \<in> set leaves)))"

definition retain_root :: "bytes \<Rightarrow> (uuid \<times> uuid list) list \<Rightarrow> bytes \<times> uuid \<Rightarrow> uuid \<Rightarrow> bool" where
  "retain_root batch_dir live_panels k root_leaf =
     (case k of (dir, panel) \<Rightarrow>
       dir \<noteq> batch_dir
       \<or> (case leaves_in live_panels panel of None \<Rightarrow> False | Some leaves \<Rightarrow> root_leaf \<in> set leaves))"

definition prune_batch ::
  "(uuid \<Rightarrow> bytes) \<Rightarrow> (bytes \<Rightarrow> uuid option) \<Rightarrow> prune_io \<Rightarrow> worker \<Rightarrow> incremental_batch \<Rightarrow> worker" where
  "prune_batch simple parse io w batch =
     (let dir = ib_dir batch; live = ib_live_panels batch; known = ib_known_panels batch;
          d1 = prune_leaves simple parse io dir known live (wk_disk w);
          d2 = fst (prune_scrollback simple (list_panel_ok io) (rm_file io) d1 dir
            (map fst live) (map fst known)) in
      w\<lparr>wk_disk := d2,
        next_sequences := al_retain (\<lambda>k _. retain_sequence dir live k) (next_sequences w),
        legacy_roots := al_retain (retain_root dir live) (legacy_roots w)\<rparr>)"

definition persist_incremental_batch ::
  "(uuid \<Rightarrow> bytes) \<Rightarrow> (bytes \<Rightarrow> uuid option) \<Rightarrow> (nat \<Rightarrow> entry_io) \<Rightarrow> prune_io \<Rightarrow> worker
     \<Rightarrow> incremental_batch \<Rightarrow> worker \<times> uuid list \<times> incremental_ack list" where
  "persist_incremental_batch simple parse ios pio w batch =
     (case persist_incremental_entries simple w (with_io ios (ib_entries batch)) [] [] of
        (w1, rollover, acks) \<Rightarrow> (prune_batch simple parse pio w1 batch, rollover, acks))"

section \<open>One job\<close>

datatype 'st job =
    RestoreJob bytes "(uuid \<times> uuid) list"
  | StateJob 'st
  | IncrementalJob incremental_batch
  | FullJob "full_entry list"

datatype 'st completion =
    Restored "(uuid \<times> (hist_error + leaf_histories)) list"
  | StateSaved 'st bool
  | IncrementalDone "uuid list" "incremental_ack list"
  | FullDone "incremental_ack list"

record job_io =
  guard :: bool
  list_ok :: "uuid \<Rightarrow> bool"
  restore_reads :: "uuid \<Rightarrow> uuid option \<Rightarrow> read_io"
  state_ok :: bool
  entry_ios :: "nat \<Rightarrow> entry_io"
  pruning :: prune_io
  full_ios :: "nat \<Rightarrow> full_io"

text \<open>A root whose history exists only under the legacy name is remembered as such.\<close>

definition only_legacy :: "leaf_histories \<Rightarrow> uuid \<Rightarrow> bool" where
  "only_legacy histories root_leaf \<longleftrightarrow>
     None \<in> fst ` set histories \<and> Some root_leaf \<notin> fst ` set histories"

definition note_restored ::
  "bytes \<Rightarrow> uuid \<Rightarrow> uuid \<Rightarrow> hist_error + leaf_histories \<Rightarrow> worker \<Rightarrow> worker" where
  "note_restored dir panel root_leaf histories w =
     (case histories of
        Inr hs \<Rightarrow>
          if only_legacy hs root_leaf
          then w\<lparr>legacy_roots := AList.update (dir, panel) root_leaf (legacy_roots w)\<rparr> else w
      | Inl _ \<Rightarrow> w\<lparr>blocked_history_dirs := List.insert dir (blocked_history_dirs w)\<rparr>)"

fun restore_panels ::
  "(uuid \<Rightarrow> bytes) \<Rightarrow> (bytes \<Rightarrow> uuid option) \<Rightarrow> job_io \<Rightarrow> bytes \<Rightarrow> (uuid \<times> uuid) list \<Rightarrow> worker
     \<Rightarrow> worker \<times> (uuid \<times> (hist_error + leaf_histories)) list" where
  "restore_panels simple parse io dir [] w = (w, [])"
| "restore_panels simple parse io dir ((panel, root_leaf) # panels) w =
     (let histories = collect_leaf_histories simple parse (list_ok io panel) (restore_reads io panel)
            (wk_disk w) dir panel in
      case restore_panels simple parse io dir panels (note_restored dir panel root_leaf histories w) of
        (w', rest) \<Rightarrow> (w', (panel, histories) # rest))"

definition worker_job ::
  "(uuid \<Rightarrow> bytes) \<Rightarrow> (bytes \<Rightarrow> uuid option) \<Rightarrow> job_io \<Rightarrow> worker \<Rightarrow> 'st job \<Rightarrow> worker \<times> 'st completion" where
  "worker_job simple parse io w job =
     (case job of
        RestoreJob dir panels \<Rightarrow>
          (case restore_panels simple parse io dir panels w of (w', hs) \<Rightarrow> (w', Restored hs))
      | StateJob snapshot \<Rightarrow> (w, StateSaved snapshot (state_ok io))
      | IncrementalJob batch \<Rightarrow>
          if ib_dir batch \<in> set (blocked_history_dirs w) then (w, IncrementalDone [] [])
          else if guard io then
            (case persist_incremental_batch simple parse (entry_ios io) (pruning io) w batch of
               (w', rollover, acks) \<Rightarrow> (w', IncrementalDone rollover acks))
          else (w, IncrementalDone [] [])
      | FullJob entries \<Rightarrow>
          if guard io then
            (case persist_full_entries simple w (with_io (full_ios io)
                (filter (\<lambda>e. fe_dir e \<notin> set (blocked_history_dirs w)) entries)) [] of
               (w', acks) \<Rightarrow> (w', FullDone acks))
          else (w, FullDone []))"

end
