(* ===== verification/HistoryRefinement.thy ===== *)
theory HistoryRefinement
  imports HistoryWorker
begin

text \<open>
  What the persistence worker promises. The abstract history of a leaf is a text and a list of
  frame contents; the concrete one is spread over a checkpoint, a generation and a log. Every round
  of the worker is one abstract step of the leaf it addresses and none of the others, so what was
  acknowledged is restored exactly once and in order. Pruning only removes files of panels and
  leaves that are known and dead.
\<close>

section \<open>The abstract history\<close>

type_synonym contents = "(frame_kind \<times> bytes) list"
type_synonym hist = "bytes \<times> contents"

text \<open>What a restart finds, when every file can be read; \<open>None\<close> when one cannot be decoded.\<close>

definition history :: "(uuid \<Rightarrow> bytes) \<Rightarrow> disk \<Rightarrow> storage_key \<Rightarrow> hist option" where
  "history simple d k =
     (case k of (dir, panel_id, leaf_id) \<Rightarrow>
       (case capture_leaf_history simple all_reads d dir panel_id leaf_id of
          Inl _ \<Rightarrow> None
        | Inr None \<Rightarrow> Some ([], [])
        | Inr (Some (s, frames)) \<Rightarrow> Some (s, map content frames)))"

definition append_hist :: "contents \<Rightarrow> hist option \<Rightarrow> hist option" where
  "append_hist fs h = map_option (\<lambda>(s, old). (s, old @ fs)) h"

lemma append_hist_Nil [simp]: "append_hist [] h = h"
  by (cases h) (auto simp: append_hist_def)

lemma append_hist_append: "append_hist (xs @ ys) h = append_hist ys (append_hist xs h)"
  by (cases h) (auto simp: append_hist_def)

section \<open>The three files of a leaf\<close>

definition ckpt_file :: "(uuid \<Rightarrow> bytes) \<Rightarrow> storage_key \<Rightarrow> path" where
  "ckpt_file simple k = (case k of (dir, p, l) \<Rightarrow> (dir, scrollback_leaf_file_name simple p l))"

definition log_file :: "(uuid \<Rightarrow> bytes) \<Rightarrow> storage_key \<Rightarrow> path" where
  "log_file simple k = (case k of (dir, p, l) \<Rightarrow> (dir, scrollback_leaf_log_file_name simple p l))"

definition gen_file :: "(uuid \<Rightarrow> bytes) \<Rightarrow> storage_key \<Rightarrow> path" where
  "gen_file simple k = (case k of (dir, p, l) \<Rightarrow> (dir, scrollback_leaf_gen_file_name simple p l))"

lemma files_distinct:
  assumes "uuid_text simple parse"
  shows "ckpt_file simple k = ckpt_file simple k' \<longleftrightarrow> k = k'"
    and "log_file simple k = log_file simple k' \<longleftrightarrow> k = k'"
    and "gen_file simple k = gen_file simple k' \<longleftrightarrow> k = k'"
    and "ckpt_file simple k \<noteq> log_file simple k'" and "log_file simple k \<noteq> ckpt_file simple k'"
    and "ckpt_file simple k \<noteq> gen_file simple k'" and "gen_file simple k \<noteq> ckpt_file simple k'"
    and "log_file simple k \<noteq> gen_file simple k'" and "gen_file simple k \<noteq> log_file simple k'"
  by (cases k; cases k'; simp add: ckpt_file_def log_file_def gen_file_def names_distinct [OF assms]
      names_distinct(4-6) [OF assms, THEN not_sym])+

text \<open>The generation and the text that a checkpoint and a sidecar stand for.\<close>

definition gen_of :: "bytes option \<Rightarrow> bytes option \<Rightarrow> hist_error + u32" where
  "gen_of ckpt gen =
     (let sidecar = (case gen of None \<Rightarrow> Inr 0 | Some bs \<Rightarrow> decode_generation_sidecar bs) in
      case ckpt of
        None \<Rightarrow> sidecar
      | Some bs \<Rightarrow>
          and_then (decode_checkpoint bs) (\<lambda>(g, _). case g of None \<Rightarrow> sidecar | Some x \<Rightarrow> Inr x))"

definition text_of :: "bytes option \<Rightarrow> bytes" where
  "text_of ckpt = (case ckpt of None \<Rightarrow> []
     | Some bs \<Rightarrow> (case decode_checkpoint bs of Inl _ \<Rightarrow> [] | Inr (_, s) \<Rightarrow> s))"

definition tail_of :: "u32 \<Rightarrow> bytes option \<Rightarrow> frame list option" where
  "tail_of g log = (case log of None \<Rightarrow> Some []
     | Some bs \<Rightarrow> (case read_frames bs of None \<Rightarrow> None | Some (g', fs) \<Rightarrow> Some (if g' = g then fs else [])))"

text \<open>A log of the current generation is there and has these frames.\<close>

definition current_log :: "u32 \<Rightarrow> bytes option \<Rightarrow> frame list \<Rightarrow> bool" where
  "current_log g log fs \<longleftrightarrow> (\<exists>bs. log = Some bs \<and> read_frames bs = Some (g, fs))"

lemma current_log_tail: "current_log g log fs \<Longrightarrow> tail_of g log = Some fs"
  by (auto simp: current_log_def tail_of_def)

lemma all_reads_simps [simp]: "ckpt_ok all_reads" "gen_ok all_reads" "log_ok all_reads"
  by (simp_all add: all_reads_def)

lemma read_optional_True [simp]: "read_optional_history_bytes True d path = Inr (map_of d path)"
  by (simp add: read_optional_history_bytes_def)

lemma try_load_all_reads:
  "try_load_leaf_scrollback_checkpoint simple all_reads d dir p l =
     (case map_of d (ckpt_file simple (dir, p, l)) of None \<Rightarrow> Inr None
      | Some bs \<Rightarrow> and_then (decode_checkpoint bs) (\<lambda>c. Inr (Some c)))"
  by (simp add: try_load_leaf_scrollback_checkpoint_def ckpt_file_def)

lemma tail_case:
  "(case log of Some bs \<Rightarrow> and_then (ok_or InvalidData (read_frames bs))
        (\<lambda>(log_generation, frames). Inr (if log_generation = g then frames else []))
      | None \<Rightarrow> Inr []) = ok_or InvalidData (tail_of g log)"
  by (auto simp: tail_of_def ok_or_def split: option.split)

lemma history_eq:
  "history simple d k =
     (case gen_of (map_of d (ckpt_file simple k)) (map_of d (gen_file simple k)) of
        Inl _ \<Rightarrow> None
      | Inr g \<Rightarrow> map_option (\<lambda>fs. (text_of (map_of d (ckpt_file simple k)), map content fs))
          (tail_of g (map_of d (log_file simple k))))"
proof (cases k)
  case (fields dir p l)
  show ?thesis
    unfolding fields history_def prod.case capture_leaf_history_def try_load_all_reads Let_def
      all_reads_simps if_True read_optional_True and_then.simps tail_case decode_history_generation_def
      gen_of_def text_of_def
    by (auto simp: gen_file_def log_file_def ok_or_def split: option.splits sum.splits)
qed

lemma read_leaf_generation_gen_of:
  assumes "read_leaf_generation simple io d dir p l = Inr g"
  shows "gen_of (map_of d (ckpt_file simple (dir, p, l))) (map_of d (gen_file simple (dir, p, l))) = Inr g"
proof (cases "map_of d (ckpt_file simple (dir, p, l))")
  case None
  then show ?thesis
    using assms
    unfolding read_leaf_generation_def try_load_leaf_scrollback_checkpoint_def gen_of_def
      ckpt_file_def gen_file_def read_optional_history_bytes_def decode_history_generation_def
    by (auto simp: Let_def split: option.splits if_splits)
next
  case (Some bs)
  then show ?thesis
    using assms
    unfolding read_leaf_generation_def try_load_leaf_scrollback_checkpoint_def gen_of_def
      ckpt_file_def gen_file_def read_optional_history_bytes_def decode_history_generation_def
    by (cases "decode_checkpoint bs") (auto simp: Let_def split: option.splits if_splits)
qed

lemma history_cong:
  assumes "map_of d' (ckpt_file simple k) = map_of d (ckpt_file simple k)"
    and "map_of d' (gen_file simple k) = map_of d (gen_file simple k)"
    and "map_of d' (log_file simple k) = map_of d (log_file simple k)"
  shows "history simple d' k = history simple d k"
  unfolding history_eq assms ..

text \<open>A disk that differs only in one file of one leaf has the histories of the others.\<close>

lemma history_other:
  assumes "uuid_text simple parse" and "\<And>q. q \<noteq> path \<Longrightarrow> map_of d' q = map_of d q"
    and "path = log_file simple k \<or> path = ckpt_file simple k \<or> path = gen_file simple k" and "k' \<noteq> k"
  shows "history simple d' k' = history simple d k'"
proof -
  have "ckpt_file simple k' \<noteq> path" "gen_file simple k' \<noteq> path" "log_file simple k' \<noteq> path"
    using assms(3,4) files_distinct [OF assms(1)] by metis+
  then show ?thesis by (intro history_cong assms(2))
qed

section \<open>One incremental entry\<close>

text \<open>The write of a batch and its rollback both fail; a crash in the middle of a write is the same.\<close>

definition faulty :: "entry_io \<Rightarrow> bool" where
  "faulty io \<longleftrightarrow> \<not> append_ok (append_io io) \<and> \<not> rollback_len_ok (append_io io)"

lemma reset_reads: "read_frames_with_valid_len (encode_header g) = Some (g, [], 9)"
  using read_log [of "[]" g] by (simp add: encode_log_def)

lemma append_frames_at_spec:
  assumes "append_frames_at io d path (encode_frames gs) = (ok, d')" and "chained None gs"
    and "map_of d path = Some b" and "read_frames_with_valid_len b = Some (g, old, n)"
  shows "(\<forall>q. q \<noteq> path \<longrightarrow> map_of d' q = map_of d q)
    \<and> (\<exists>b' m. map_of d' path = Some b' \<and> read_frames b' = Some (g, old @ take m gs)
        \<and> (ok \<longrightarrow> m = length gs)
        \<and> (\<not> ok \<longrightarrow> m = 0 \<or> \<not> append_ok io \<and> \<not> rollback_len_ok io))"
proof -
  obtain res out where a: "append_frames io (Some b) (encode_frames gs) = (res, out)"
    by fastforce
  have ok: "ok \<longleftrightarrow> res = Inr ()" and d': "d' = (case out of None \<Rightarrow> d | Some data \<Rightarrow> AList.update path data d)"
    using assms(1,3) a by (auto simp: append_frames_at_def)
  have other: "\<forall>q. q \<noteq> path \<longrightarrow> map_of d' q = map_of d q"
    using d' by (auto simp: al.look_put split: option.splits)
  show ?thesis
  proof (cases res)
    case (Inl e)
    obtain b' kept n' where b': "out = Some b'" "read_frames_with_valid_len b' = Some (g, old @ kept, n')"
      "kept = [] \<or> e = RollbackFailed \<and> \<not> append_ok io \<and> \<not> rollback_len_ok io
         \<and> (\<exists>new m. encode_frames gs = encode_frames new \<and> chained None new \<and> continues old new
              \<and> m \<le> length new \<and> kept = take m new)"
      using failed_append_reads [OF assms(4)] a Inl by metis
    then obtain m where "kept = take m gs" "m = 0 \<or> \<not> append_ok io \<and> \<not> rollback_len_ok io"
      using encode_frames_inj [OF assms(2)] by (metis take_0)
    then show ?thesis
      using b'(1,2) ok d' other Inl by (auto simp: read_frames_def al.look_put)
  next
    case (Inr u)
    then obtain b' where out: "out = Some b'"
      using append_frames_cases [OF a assms(4)] by (cases out) auto
    obtain new where new: "encode_frames gs = encode_frames new" "chained None new" "continues old new"
      using append_frames_cases [OF a assms(4)] Inr by auto
    then have "gs = new" using encode_frames_inj [OF assms(2)] by blast
    then have "chained None (old @ gs)"
      using chained_join new(3) assms(2) sound_read [OF assms(4)] by blast
    moreover have "b' = encode_log g (old @ gs)"
      using append_extends [OF assms(4), of io "encode_frames gs" b'] a Inr out
      by (auto simp: encode_log_def)
    ultimately have "read_frames_with_valid_len b' = Some (g, old @ gs, length b')"
      using read_log by simp
    then show ?thesis
      using out ok d' other Inr by (auto simp: read_frames_def al.look_put)
  qed
qed

lemma write_atomic_at_cases:
  assumes "write_atomic_at io d path data = (ok, d')"
  shows "(ok \<longrightarrow> map_of d' path = Some data) \<and> (\<not> ok \<longrightarrow> d' = d)
    \<and> (\<forall>q. q \<noteq> path \<longrightarrow> map_of d' q = map_of d q)"
  using assms by (auto simp: write_atomic_at_def al.look_put split: if_splits)

text \<open>
  The write of a batch on a log whose frames (of the current generation) are \<open>old\<close>; when the log
  is of another generation, or absent, \<open>old\<close> is empty and the log is started anew.
\<close>

lemma write_frames_spec:
  assumes "write_frames io d path g current (encode_frames gs) = (res, d')" and "chained None gs"
    and "if current then \<exists>b. map_of d path = Some b \<and> read_frames b = Some (g, old) else old = []"
  shows "(\<forall>q. q \<noteq> path \<longrightarrow> map_of d' q = map_of d q)
    \<and> (res \<noteq> None \<longrightarrow> current_log g (map_of d' path) (old @ gs))
    \<and> (res = None \<longrightarrow> d' = d
        \<or> (\<exists>m. current_log g (map_of d' path) (old @ take m gs) \<and> (m = 0 \<or> faulty io)))"
proof -
  obtain reset d1 where r: "(if current then (True, d) else reset_log (reset_io io) d path g) = (reset, d1)"
    by fastforce
  show ?thesis
  proof (cases reset)
    case False
    then have "res = None" and "d' = d1" and "d1 = d"
      using assms(1) r write_atomic_at_cases [of "reset_io io" d path "encode_header g" reset d1]
      by (auto simp: write_frames_def reset_log_def split: if_splits)
    then show ?thesis by simp
  next
    case True
    have d1: "\<forall>q. q \<noteq> path \<longrightarrow> map_of d1 q = map_of d q"
      and b: "\<exists>b n. map_of d1 path = Some b \<and> read_frames_with_valid_len b = Some (g, old, n)"
      using assms(3) r True reset_reads
        write_atomic_at_cases [of "reset_io io" d path "encode_header g" reset d1]
      by (auto simp: reset_log_def read_frames_def split: if_splits)
    obtain ok d2 where a: "append_frames_at (append_io io) d1 path (encode_frames gs) = (ok, d2)"
      by fastforce
    have res: "d' = d2" "res \<noteq> None \<longleftrightarrow> ok"
      using assms(1) r a True by (auto simp: write_frames_def split: if_splits)
    obtain b n where bn: "map_of d1 path = Some b" "read_frames_with_valid_len b = Some (g, old, n)"
      using b by blast
    from append_frames_at_spec [OF a assms(2) bn] obtain b' m where
      "\<forall>q. q \<noteq> path \<longrightarrow> map_of d2 q = map_of d1 q" "map_of d2 path = Some b'"
      "read_frames b' = Some (g, old @ take m gs)" "ok \<longrightarrow> m = length gs"
      "\<not> ok \<longrightarrow> m = 0 \<or> \<not> append_ok (append_io io) \<and> \<not> rollback_len_ok (append_io io)" by blast
    then show ?thesis using res d1 by (auto simp: current_log_def faulty_def)
  qed
qed

text \<open>What \<open>tail_of\<close> says of the log file \<open>persist_incremental_frames\<close> reads.\<close>

lemma persist_incremental_frames_spec:
  assumes "persist_incremental_frames simple io d dir p l (encode_frames gs) = (res, d')"
    and "chained None gs"
  defines "k \<equiv> (dir, p, l)"
  shows "(\<forall>q. q \<noteq> log_file simple k \<longrightarrow> map_of d' q = map_of d q)
    \<and> (res = None \<and> d' = d
       \<or> (\<exists>g old. gen_of (map_of d (ckpt_file simple k)) (map_of d (gen_file simple k)) = Inr g
            \<and> tail_of g (map_of d (log_file simple k)) = Some old
            \<and> (res \<noteq> None \<longrightarrow> current_log g (map_of d' (log_file simple k)) (old @ gs))
            \<and> (res = None \<longrightarrow> (\<exists>m. current_log g (map_of d' (log_file simple k)) (old @ take m gs)
                 \<and> (m = 0 \<or> faulty io)))))"
proof -
  let ?path = "log_file simple k"
  have path: "?path = (dir, scrollback_leaf_log_file_name simple p l)"
    by (simp add: k_def log_file_def)
  show ?thesis
  proof (cases "read_leaf_generation simple (frame_reads io) d dir p l")
    case (Inl e)
    then show ?thesis using assms(1) by (simp add: persist_incremental_frames_def)
  next
    case (Inr g)
    have g: "gen_of (map_of d (ckpt_file simple k)) (map_of d (gen_file simple k)) = Inr g"
      using read_leaf_generation_gen_of [OF Inr] by (simp add: k_def)
    have go: ?thesis
      if w: "write_frames io d ?path g current (encode_frames gs) = (res, d')"
        and old: "tail_of g (map_of d ?path) = Some old"
        and cur: "if current then \<exists>b. map_of d ?path = Some b \<and> read_frames b = Some (g, old) else old = []"
      for current old
      using write_frames_spec [OF w assms(2) cur] g old by (metis append_Nil2 take_0)
    show ?thesis
    proof (cases "log_ok (frame_reads io)")
      case False
      then show ?thesis
        using assms(1) Inr by (simp add: persist_incremental_frames_def read_optional_history_bytes_def)
    next
      case ok: True
      show ?thesis
      proof (cases "map_of d ?path")
        case None
        then show ?thesis
          using assms(1) Inr ok path go [of False "[]"]
          by (simp add: persist_incremental_frames_def read_optional_history_bytes_def tail_of_def)
      next
        case (Some b)
        show ?thesis
        proof (cases "read_frames b")
          case None
          then show ?thesis
            using assms(1) Inr ok Some path
            by (simp add: persist_incremental_frames_def read_optional_history_bytes_def)
        next
          case r: (Some x)
          obtain g' fs where x: "x = (g', fs)" by (cases x)
          then show ?thesis
            using assms(1) Inr ok Some r path go [of "g' = g" "if g' = g then fs else []"]
            by (auto simp: persist_incremental_frames_def read_optional_history_bytes_def tail_of_def)
        qed
      qed
    qed
  qed
qed

section \<open>One round of the worker\<close>

text \<open>The frames of a batch, without the sequence numbers it came with.\<close>

definition batch_contents :: "bytes \<Rightarrow> contents" where
  "batch_contents frames =
     (case read_frames (encode_header 0 @ frames) of None \<Rightarrow> [] | Some (_, fs) \<Rightarrow> map content fs)"

lemma renumber_frames_spec:
  assumes "renumber_frames frames first = Some (out, next_seq)"
  obtains gs where "out = encode_frames gs" "chained None gs" "map content gs = batch_contents frames"
    "unat next_seq = unat first + length gs" "gs \<noteq> [] \<longrightarrow> frame_seq (hd gs) = first"
proof -
  obtain h fs where r: "read_frames (encode_header 0 @ frames) = Some (h, fs)"
    and l: "renumber_loop fs first [] = Some (out, next_seq)"
    using assms by (auto simp: renumber_frames_def split: option.splits)
  then obtain n where "read_frames_with_valid_len (encode_header 0 @ frames) = Some (h, fs, n)"
    by (auto simp: read_frames_def)
  then have "\<forall>f \<in> set fs. length (frame_payload f) < 2 ^ 32"
    using sound_read chained_bounded by blast
  from renumber_loop_spec [OF l this] obtain gs where gs: "out = encode_frames gs"
    "map content gs = map content fs" "unat next_seq = unat first + length fs"
    "fs \<noteq> [] \<longrightarrow> frame_seq (hd gs) = first" "chained None gs" by auto
  moreover have "length gs = length fs" using gs(2) by (metis length_map)
  ultimately show thesis using that [of gs] r by (auto simp: batch_contents_def)
qed

lemma history_tail:
  assumes "\<forall>q. q \<noteq> log_file simple k \<longrightarrow> map_of d' q = map_of d q" and "uuid_text simple parse"
    and "gen_of (map_of d (ckpt_file simple k)) (map_of d (gen_file simple k)) = Inr g"
    and "tail_of g (map_of d (log_file simple k)) = Some old"
    and "tail_of g (map_of d' (log_file simple k)) = Some (old @ new)"
  shows "history simple d' k = append_hist (map content new) (history simple d k)"
proof -
  have "map_of d' (ckpt_file simple k) = map_of d (ckpt_file simple k)"
    and "map_of d' (gen_file simple k) = map_of d (gen_file simple k)"
    using assms(1) files_distinct [OF assms(2)] by metis+
  then show ?thesis using assms(3-5) by (simp add: history_eq append_hist_def)
qed

text \<open>What one round does: nothing to the disk, or the write of the renumbered batch.\<close>

lemma persist_entry_cases:
  assumes "persist_entry simple io w e = (w', roll, ack)"
  defines "k \<equiv> storage_key_of w e"
  obtains (idle) "wk_disk w' = wk_disk w" "next_sequences w' = next_sequences w
        \<or> next_sequences w' = AList.delete k (next_sequences w)" "ack = None \<or> ie_frames e = []"
      "legacy_roots w' = legacy_roots w" "blocked_history_dirs w' = blocked_history_dirs w"
  | (written) first gs next_seq res where
      "first_seq simple (seq_reads io) w k = Some first" "first \<noteq> - 1"
      "renumber_frames (ie_frames e) first = Some (encode_frames gs, next_seq)" "chained None gs"
      "map content gs = batch_contents (ie_frames e)" "unat next_seq = unat first + length gs"
      "gs \<noteq> [] \<longrightarrow> frame_seq (hd gs) = first"
      "persist_incremental_frames simple io (wk_disk w) (ie_dir e) (ie_panel_id e)
         (storage_leaf_id w e) (encode_frames gs) = (res, wk_disk w')"
      "next_sequences w' = (if res = None then next_sequences w
         else AList.update k next_seq (next_sequences w))"
      "ack = (if res = None then None else Some (ack_of e (length (ie_frames e))))"
      "legacy_roots w' = legacy_roots w" "blocked_history_dirs w' = blocked_history_dirs w"
proof (cases "ie_frames e = []")
  case True
  then show thesis using assms(1) idle by (simp add: persist_entry_def)
next
  case ne: False
  show thesis
  proof (cases "first_seq simple (seq_reads io) w k")
    case None
    then show thesis using assms(1) ne idle by (simp add: persist_entry_def k_def)
  next
    case (Some first)
    show thesis
    proof (cases "first = - 1 \<or> renumber_frames (ie_frames e) first = None")
      case True
      then show thesis
        using assms(1) ne Some idle by (auto simp: persist_entry_def k_def Let_def split: if_splits)
    next
      case False
      then obtain out next_seq where rn: "renumber_frames (ie_frames e) first = Some (out, next_seq)"
        by auto
      from renumber_frames_spec [OF this] obtain gs where gs: "out = encode_frames gs"
        "chained None gs" "map content gs = batch_contents (ie_frames e)"
        "unat next_seq = unat first + length gs" "gs \<noteq> [] \<longrightarrow> frame_seq (hd gs) = first" by metis
      obtain res d where p: "persist_incremental_frames simple io (wk_disk w) (ie_dir e)
          (ie_panel_id e) (storage_leaf_id w e) (encode_frames gs) = (res, d)" by fastforce
      show thesis
        using assms(1) ne Some rn False p gs
        by (intro written [of first gs next_seq res])
          (auto simp: persist_entry_def k_def Let_def split: option.splits)
    qed
  qed
qed

text \<open>One incremental entry appends the batch's frames to its leaf, or nothing, or a prefix.\<close>

lemma batch_contents_Nil [simp]: "batch_contents [] = []"
  using reset_reads [of 0] by (simp add: batch_contents_def read_frames_def)

lemma persist_entry_refines:
  assumes "persist_entry simple io w e = (w', roll, ack)" and "uuid_text simple parse"
  defines "k \<equiv> storage_key_of w e"
  shows "(\<forall>k'. k' \<noteq> k \<longrightarrow> history simple (wk_disk w') k' = history simple (wk_disk w) k')
    \<and> (\<exists>m. history simple (wk_disk w') k
          = append_hist (take m (batch_contents (ie_frames e))) (history simple (wk_disk w) k)
        \<and> (ack \<noteq> None \<longrightarrow> m = length (batch_contents (ie_frames e)))
        \<and> (ack = None \<longrightarrow> m = 0 \<or> faulty io))"
  using assms(1)
proof (cases rule: persist_entry_cases)
  case idle
  then show ?thesis by (auto intro!: exI [of _ 0])
next
  case (written first gs next_seq res)
  let ?d = "wk_disk w'" and ?b = "batch_contents (ie_frames e)"
  have kk: "(ie_dir e, ie_panel_id e, storage_leaf_id w e) = k"
    by (simp add: k_def storage_key_of_def)
  note spec = persist_incremental_frames_spec [OF written(8,4), unfolded kk]
  have other: "\<forall>k'. k' \<noteq> k \<longrightarrow> history simple ?d k' = history simple (wk_disk w) k'"
    using spec history_other [OF assms(2), of "log_file simple k" ?d "wk_disk w" k] by blast
  show ?thesis
  proof (cases "res = None \<and> ?d = wk_disk w")
    case True
    then show ?thesis using written(10) by (auto intro!: exI [of _ 0])
  next
    case False
    with spec obtain g old where g: "gen_of (map_of (wk_disk w) (ckpt_file simple k))
          (map_of (wk_disk w) (gen_file simple k)) = Inr g"
        "tail_of g (map_of (wk_disk w) (log_file simple k)) = Some old"
      and yes: "res \<noteq> None \<longrightarrow> current_log g (map_of ?d (log_file simple k)) (old @ gs)"
      and no: "res = None \<longrightarrow> (\<exists>m. current_log g (map_of ?d (log_file simple k)) (old @ take m gs)
          \<and> (m = 0 \<or> faulty io))" by blast
    note tail = history_tail [OF conjunct1 [OF spec] assms(2) g current_log_tail]
    show ?thesis
    proof (cases "res = None")
      case True
      then obtain m where m: "current_log g (map_of ?d (log_file simple k)) (old @ take m gs)"
        "m = 0 \<or> faulty io" using no by blast
      have "history simple ?d k = append_hist (take m ?b) (history simple (wk_disk w) k)"
        unfolding written(5) [symmetric] take_map by (rule tail [OF m(1)])
      then show ?thesis using True written(10) other m(2) by auto
    next
      case False
      then have "history simple ?d k = append_hist ?b (history simple (wk_disk w) k)"
        using tail [of gs] yes written(5) by simp
      then show ?thesis using False written(10) other by (intro conjI exI [of _ "length ?b"]) auto
    qed
  qed
qed

text \<open>One checkpoint replaces the history of its leaf, or changes nothing.\<close>

lemma next_generation_fresh:
  "next_generation g log \<noteq> g" "log \<noteq> Some (next_generation g log)"
proof -
  have "(1 :: u32) \<noteq> 0" and "(1 + 1 :: u32) \<noteq> 0" by simp_all
  then show "next_generation g log \<noteq> g" and "log \<noteq> Some (next_generation g log)"
    by (auto simp: next_generation_def Let_def add.assoc)
qed

text \<open>A checkpoint that got published supersedes every file that may stay behind.\<close>

lemma published_history:
  fixes ok ok' :: bool
  assumes "uuid_text simple parse" and "utf8_ok s"
    and "map_of d1 (ckpt_file simple k) = Some (CHECKPOINT_MAGIC @ u32_le g @ s)"
    and "\<And>q. q \<noteq> ckpt_file simple k \<Longrightarrow> map_of d1 q = map_of d q"
    and "tail_of g (map_of d (log_file simple k)) = Some []"
  defines "d3 \<equiv> remove_at ok' (remove_at ok d1 (log_file simple k)) (gen_file simple k)"
  shows "history simple d3 k = Some (s, [])"
    and "k' \<noteq> k \<Longrightarrow> history simple d3 k' = history simple d k'"
proof -
  note files = files_distinct [OF assms(1)]
  have d3: "map_of d3 q = map_of d q"
    if "q \<noteq> ckpt_file simple k" "q \<noteq> log_file simple k" "q \<noteq> gen_file simple k" for q
    using that assms(4) [of q] by (cases q) (simp add: d3_def remove_at_def al.look_del)
  show "history simple d3 k' = history simple d k'" if "k' \<noteq> k"
    using that files by (intro history_cong d3) metis+
  have "map_of d3 (ckpt_file simple k) = Some (CHECKPOINT_MAGIC @ u32_le g @ s)"
    using assms(3) files by (simp add: d3_def remove_at_def al.look_del)
  moreover have "decode_checkpoint (CHECKPOINT_MAGIC @ u32_le g @ s) = Inr (Some g, s)"
    using decode_versioned lossy_id assms(2) by metis
  ultimately have c: "gen_of (map_of d3 (ckpt_file simple k)) gen = Inr g"
    "text_of (map_of d3 (ckpt_file simple k)) = s" for gen
    by (simp_all add: gen_of_def text_of_def)
  have "map_of d3 (log_file simple k) = None \<or> map_of d3 (log_file simple k) = map_of d (log_file simple k)"
    using assms(4) [OF files(5)] files by (simp add: d3_def remove_at_def al.look_del)
  then have "tail_of g (map_of d3 (log_file simple k)) = Some []"
    using assms(5) by (auto simp: tail_of_def)
  then show "history simple d3 k = Some (s, [])" by (simp add: history_eq c)
qed

text \<open>What one checkpoint does: nothing at all, or the publication of a fresh generation.\<close>

lemma persist_checkpoint_cases:
  assumes "persist_checkpoint simple io w e s n = (w', ack)"
  defines "k \<equiv> (fe_dir e, fe_panel_id e, fe_leaf_id e)"
  obtains (idle) "w' = w" "ack = None"
  | (published) g d1 where
      "tail_of g (map_of (wk_disk w) (log_file simple k)) = Some []"
      "map_of d1 (ckpt_file simple k)
         = Some (CHECKPOINT_MAGIC @ u32_le g @ clamp_scrollback s MAX_PERSISTED_BYTES)"
      "\<And>q. q \<noteq> ckpt_file simple k \<Longrightarrow> map_of d1 q = map_of (wk_disk w) q"
      "w' = (forget_sequences w e)\<lparr>wk_disk := remove_at (rm_gen_ok io)
         (remove_at (rm_log_ok io) d1 (log_file simple k)) (gen_file simple k)\<rparr>"
      "ack \<noteq> None"
proof -
  let ?d = "wk_disk w" let ?lf = "log_file simple k"
  have paths: "(fe_dir e, scrollback_leaf_log_file_name simple (fe_panel_id e) (fe_leaf_id e)) = ?lf"
    "(fe_dir e, scrollback_leaf_file_name simple (fe_panel_id e) (fe_leaf_id e)) = ckpt_file simple k"
    "(fe_dir e, scrollback_leaf_gen_file_name simple (fe_panel_id e) (fe_leaf_id e)) = gen_file simple k"
    by (simp_all add: k_def log_file_def ckpt_file_def gen_file_def)
  show thesis
  proof (cases "read_leaf_generation simple (full_reads io) ?d (fe_dir e) (fe_panel_id e) (fe_leaf_id e)")
    case (Inl err)
    then show thesis using assms(1) idle by (simp add: persist_checkpoint_def)
  next
    case (Inr g)
    let ?log = "and_then (read_optional_history_bytes (log_ok (full_reads io)) ?d ?lf) (\<lambda>log.
               case log of None \<Rightarrow> Inr None
               | Some bs \<Rightarrow> and_then (ok_or InvalidData (read_frames bs)) (\<lambda>(g, _). Inr (Some g)))"
    show thesis
    proof (cases ?log)
      case (Inl err)
      then show thesis
        using assms(1) Inr idle by (simp add: persist_checkpoint_def paths Let_def)
    next
      case r: (Inr retained)
      define g' where "g' = next_generation g retained"
      have stale: "tail_of g' (map_of ?d ?lf) = Some []"
        using r next_generation_fresh(2) [of retained g, folded g'_def]
        by (auto simp: tail_of_def read_optional_history_bytes_def result_simps
            split: option.splits if_splits)
      obtain saved d1 where sv: "save_leaf_scrollback_versioned simple (full_save io) ?d (fe_dir e)
          (fe_panel_id e) (fe_leaf_id e) g' s = (saved, d1)" by fastforce
      note wa = write_atomic_at_cases [OF sv [unfolded save_leaf_scrollback_versioned_def paths]]
      show thesis
      proof (cases saved)
        case False
        then show thesis
          using assms(1) Inr r sv wa idle
          by (simp add: persist_checkpoint_def paths Let_def g'_def)
      next
        case True
        have w': "w' = (forget_sequences w e)\<lparr>wk_disk := remove_at (rm_gen_ok io)
            (remove_at (rm_log_ok io) d1 ?lf) (gen_file simple k)\<rparr>" "ack \<noteq> None"
          using assms(1) Inr r sv True by (auto simp: persist_checkpoint_def paths Let_def g'_def)
        have "map_of d1 q = map_of ?d q" if "q \<noteq> ckpt_file simple k" for q
          using wa that by blast
        then show thesis using published [OF stale _ _ w'] wa True by blast
      qed
    qed
  qed
qed

lemma persist_checkpoint_refines:
  assumes "persist_checkpoint simple io w e s n = (w', ack)" and "uuid_text simple parse"
    and "utf8_ok s"
  defines "k \<equiv> (fe_dir e, fe_panel_id e, fe_leaf_id e)"
  shows "(\<forall>k'. k' \<noteq> k \<longrightarrow> history simple (wk_disk w') k' = history simple (wk_disk w) k')
    \<and> history simple (wk_disk w') k = (if ack = None then history simple (wk_disk w) k
        else Some (clamp_scrollback s MAX_PERSISTED_BYTES, []))"
  using assms(1)
proof (cases rule: persist_checkpoint_cases)
  case idle
  then show ?thesis by simp
next
  case (published g d1)
  note h = published_history [OF assms(2) utf8_ok_clamp [OF assms(3)] published(2,3,1), folded k_def]
  show ?thesis using h published(4,5) by (auto simp: k_def)
qed

end
