(* ===== verification/HistoryRuns.thy ===== *)
theory HistoryRuns
  imports HistoryRefinement
begin

text \<open>
  Runs of the persistence worker over any sequence of jobs and restarts, with any outcome of the
  file system. Each acknowledged batch and each acknowledged checkpoint is in the history that a
  restart restores, once and in order; what was not acknowledged is not there, except for a prefix
  of a batch whose write and rollback both failed (or were cut by a crash). Pruning touches only
  known, dead panels and leaves, and a failed capture blocks its directory.
\<close>

section \<open>Pruning\<close>

lemma prune_loop_disk:
  "map_of (fst (prune_loop victim rm dir names d n)) path =
     (if \<exists>name \<in> set names. path = (dir, name) \<and> victim (from_utf8_lossy name) \<and> rm name
      then None else map_of d path)"
  by (induction names arbitrary: d n) (auto simp: al.look_del)

lemma prune_loop_spares:
  "\<not> victim (from_utf8_lossy name) \<Longrightarrow>
   map_of (fst (prune_loop victim rm dir names d n)) (dir', name) = map_of d (dir', name)"
  by (auto simp: prune_loop_disk)

lemma prune_loop_other_dir:
  "dir' \<noteq> dir \<Longrightarrow> map_of (fst (prune_loop victim rm dir names d n)) (dir', name) = map_of d (dir', name)"
  by (auto simp: prune_loop_disk)

text \<open>The names of a leaf decode to themselves and tell their panel and their leaf.\<close>

lemma ascii_ok: "list_all (\<lambda>b. b < 0x80) bs \<Longrightarrow> utf8_ok bs"
  by (induction bs) (simp_all add: utf8_ascii)

lemma hex_ascii: "hex_byte b \<Longrightarrow> b < 0x80"
  by (auto simp: hex_byte_def word_le_nat_alt word_less_nat_alt)

lemma ext_ascii: "list_all (\<lambda>b. b < 0x80) TXT" "list_all (\<lambda>b. b < 0x80) MTLG" "list_all (\<lambda>b. b < 0x80) GEN"
  by (simp_all add: TXT_def MTLG_def GEN_def bytes_of_def byte_of_char_def)

lemma stem_ascii:
  assumes "uuid_text simple parse"
  shows "list_all (\<lambda>b. b < 0x80) (name_stem simple p l)"
  using uuid_text_D(2) [OF assms] hex_ascii
  by (auto simp: name_stem_def list_all_iff DASH_def split: option.splits)

definition extension :: "bytes \<Rightarrow> bool" where
  "extension ext \<longleftrightarrow> ext = TXT \<or> ext = MTLG \<or> ext = GEN"

lemma name_lossy:
  assumes "uuid_text simple parse" and "extension ext"
  shows "from_utf8_lossy (name_stem simple p l @ ext) = name_stem simple p l @ ext"
  using assms(2) stem_ascii [OF assms(1)] ext_ascii
  by (intro lossy_id ascii_ok) (auto simp: extension_def)

lemma ends_with_last: "ends_with p s \<Longrightarrow> p \<noteq> [] \<Longrightarrow> last s = last p"
  by (auto simp: ends_with_iff)

lemma strip_extensions:
  assumes "extension ext"
  shows "or_else (strip_suffix TXT (s @ ext)) (or_else (strip_suffix MTLG (s @ ext)) (strip_suffix GEN (s @ ext)))
    = Some s"
proof -
  have "strip_suffix a (s @ ext) = None" if "last a \<noteq> last ext" "a \<noteq> []" for a
    using ends_with_last [of a "s @ ext"] that assms by (auto simp: strip_suffix_def extension_def)
  then show ?thesis
    using assms extension_kinds by (auto simp: extension_def)
qed

lemma panel_stem_of_name:
  assumes "uuid_text simple parse" and "extension ext"
  shows "panel_stem_of (name_stem simple p l @ ext) = simple p"
proof -
  have s: "stem_of (name_stem simple p l @ ext) = name_stem simple p l"
    by (simp add: stem_of_def strip_extensions [OF assms(2)])
  show ?thesis
  proof (cases l)
    case None
    then show ?thesis
      using uuid_simple_dash [OF assms(1), of p]
      unfolding panel_stem_of_def s Let_def by (simp add: name_stem_def find_byte_def)
  next
    case (Some x)
    have "takeWhile (\<lambda>b. b \<noteq> DASH) (simple p @ DASH # simple x) = simple p"
      using uuid_simple_dash [OF assms(1), of p] by (subst takeWhile_append2) auto
    then show ?thesis
      using Some unfolding panel_stem_of_def s Let_def by (simp add: name_stem_def find_byte_def)
  qed
qed

lemma leaf_of_name_stem:
  assumes "uuid_text simple parse" and "extension ext"
  shows "leaf_of_name simple parse p' (name_stem simple p l @ ext)
    = (if p' = p then l else None)"
proof (cases "strip_prefix (simple p' @ [DASH]) (name_stem simple p l @ ext)")
  case None
  have "strip_prefix (simple p @ [DASH]) (name_stem simple p (Some x) @ ext) = Some (simple x @ ext)" for x
    by (simp add: strip_prefix_Some name_stem_def)
  then have "\<not> (p' = p \<and> l \<noteq> None)" using None by (cases l) auto
  then show ?thesis using None by (auto simp: leaf_of_name_def)
next
  case (Some rest)
  then have e: "simple p @ (case l of None \<Rightarrow> [] | Some x \<Rightarrow> DASH # simple x) @ ext = simple p' @ DASH # rest"
    by (simp add: strip_prefix_Some name_stem_def)
  then have eq: "simple p = simple p'" "(case l of None \<Rightarrow> [] | Some x \<Rightarrow> DASH # simple x) @ ext = DASH # rest"
    using uuid_text_D(1) [OF assms(1)] by (metis append_eq_append_conv)+
  then have p: "p' = p" using uuid_simple_eq [OF assms(1)] by metis
  have "hd ext \<noteq> DASH" "ext \<noteq> []"
    using assms(2)
    by (auto simp: extension_def TXT_def MTLG_def GEN_def bytes_of_def byte_of_char_def DASH_def)
  then obtain x where x: "l = Some x" "rest = simple x @ ext"
    using eq(2) by (cases l) auto
  then show ?thesis
    using Some p uuid_text_D(3) [OF assms(1)] strip_extensions [OF assms(2)] by (simp add: leaf_of_name_def)
qed

text \<open>A leaf that a batch must not prune: unknown to it, or alive.\<close>

definition spared :: "incremental_batch \<Rightarrow> storage_key \<Rightarrow> bool" where
  "spared b k =
     (case k of (dir, p, l) \<Rightarrow>
       dir \<noteq> ib_dir b
       \<or> (p \<in> fst ` set (ib_live_panels b) \<or> p \<notin> fst ` set (ib_known_panels b))
         \<and> (\<forall>(panel, leaves) \<in> set (ib_live_panels b). panel = p \<longrightarrow>
              (case l of None \<Rightarrow> True
               | Some x \<Rightarrow> x \<in> set leaves
                   \<or> x \<notin> set (case leaves_in (ib_known_panels b) p of None \<Rightarrow> [] | Some known \<Rightarrow> known))))"

lemma prune_leaves_spares:
  assumes "\<forall>(panel, leaves) \<in> set live. dir' \<noteq> dir \<or> \<not> leaf_victim simple parse panel leaves
      (case leaves_in known panel of None \<Rightarrow> [] | Some ls \<Rightarrow> ls) (from_utf8_lossy name)"
  shows "map_of (prune_leaves simple parse io dir known live d) (dir', name) = map_of d (dir', name)"
  using assms
proof (induction live arbitrary: d)
  case Nil
  then show ?case by simp
next
  case (Cons x live)
  then show ?case
    by (cases x) (auto simp: prune_panel_leaf_scrollback_def prune_loop_disk)
qed

text \<open>The three files of a spared leaf are still there.\<close>

lemma prune_batch_spares_files:
  assumes "uuid_text simple parse" and "spared b (dir, p, l)" and "extension ext"
  shows "map_of (wk_disk (prune_batch simple parse io w b)) (dir, name_stem simple p l @ ext)
    = map_of (wk_disk w) (dir, name_stem simple p l @ ext)"
proof -
  let ?n = "name_stem simple p l @ ext"
  have leaf: "\<forall>(panel, leaves) \<in> set (ib_live_panels b). dir \<noteq> ib_dir b \<or> \<not> leaf_victim simple parse panel leaves
      (case leaves_in (ib_known_panels b) panel of None \<Rightarrow> [] | Some ls \<Rightarrow> ls) (from_utf8_lossy ?n)"
  proof (clarify)
    fix panel leaves
    assume m: "(panel, leaves) \<in> set (ib_live_panels b)" and d: "dir = ib_dir b"
      and v: "leaf_victim simple parse panel leaves
        (case leaves_in (ib_known_panels b) panel of None \<Rightarrow> [] | Some ls \<Rightarrow> ls) (from_utf8_lossy ?n)"
    obtain x where x: "panel = p" "l = Some x" "x \<notin> set leaves"
      "x \<in> set (case leaves_in (ib_known_panels b) p of None \<Rightarrow> [] | Some ls \<Rightarrow> ls)"
      using v by (auto simp: leaf_victim_def name_lossy [OF assms(1,3)]
          leaf_of_name_stem [OF assms(1,3)] split: option.splits if_splits)
    then show False using assms(2) m d by (auto simp: spared_def)
  qed
  have panel: "dir \<noteq> ib_dir b \<or> \<not> panel_victim simple (map fst (ib_live_panels b))
      (map fst (ib_known_panels b)) (from_utf8_lossy ?n)"
  proof -
    have mem: "simple p \<in> set (map simple ps) \<longleftrightarrow> p \<in> set ps" for ps
      using uuid_simple_eq [OF assms(1)] by (auto simp: image_iff)
    have "p \<in> set (map fst (ib_known_panels b))" "p \<notin> set (map fst (ib_live_panels b))"
      if "panel_victim simple (map fst (ib_live_panels b)) (map fst (ib_known_panels b)) (from_utf8_lossy ?n)"
      using that unfolding panel_victim_def name_lossy [OF assms(1,3)]
        panel_stem_of_name [OF assms(1,3)] Let_def mem by blast+
    then show ?thesis using assms(2) by (auto simp: spared_def)
  qed
  show ?thesis
    using panel
    by (auto simp: prune_batch_def Let_def prune_scrollback_def prune_loop_disk
        prune_leaves_spares [OF leaf])
qed

lemma prune_batch_spares:
  assumes "uuid_text simple parse" and "spared b k"
  shows "history simple (wk_disk (prune_batch simple parse io w b)) k = history simple (wk_disk w) k"
proof (cases k)
  case (fields dir p l)
  note f = prune_batch_spares_files [OF assms(1) assms(2) [unfolded fields]]
  show ?thesis
    unfolding fields
    by (intro history_cong)
      (simp_all add: ckpt_file_def log_file_def gen_file_def names_by_stem f extension_def)
qed

section \<open>What a run asked for and what it was told\<close>

datatype request = AppendFrames contents | SaveText bytes

text \<open>A request, whether it was acknowledged and whether its write and rollback both failed.\<close>

record logged =
  lg_key :: storage_key
  lg_request :: request
  lg_acked :: bool
  lg_faulty :: bool

fun incremental_log :: "(uuid \<Rightarrow> bytes) \<Rightarrow> worker \<Rightarrow> (incremental_entry \<times> entry_io) list \<Rightarrow> logged list" where
  "incremental_log simple w [] = []"
| "incremental_log simple w ((e, io) # es) =
     (case persist_entry simple io w e of
        (w', _, ack) \<Rightarrow>
          \<lparr>lg_key = storage_key_of w e, lg_request = AppendFrames (batch_contents (ie_frames e)),
           lg_acked = ack \<noteq> None, lg_faulty = faulty io\<rparr> # incremental_log simple w' es)"

fun full_log :: "(uuid \<Rightarrow> bytes) \<Rightarrow> worker \<Rightarrow> (full_entry \<times> full_io) list \<Rightarrow> logged list" where
  "full_log simple w [] = []"
| "full_log simple w ((e, io) # es) =
     (case fe_content e of
        Unavailable \<Rightarrow> []
      | PendingLog frames \<Rightarrow> incremental_log simple w [(rescue_entry e frames, rescue_io io)]
      | Checkpoint s n \<Rightarrow>
          [\<lparr>lg_key = (fe_dir e, fe_panel_id e, fe_leaf_id e), lg_request = SaveText s,
            lg_acked = snd (persist_checkpoint simple io w e s n) \<noteq> None, lg_faulty = False\<rparr>])
     @ full_log simple (fst (persist_full_entry simple io w e)) es"

definition unblocked :: "worker \<Rightarrow> full_entry list \<Rightarrow> full_entry list" where
  "unblocked w entries = filter (\<lambda>e. fe_dir e \<notin> set (blocked_history_dirs w)) entries"

definition job_log :: "(uuid \<Rightarrow> bytes) \<Rightarrow> job_io \<Rightarrow> worker \<Rightarrow> 'st job \<Rightarrow> logged list" where
  "job_log simple io w job =
     (case job of
        IncrementalJob batch \<Rightarrow>
          if ib_dir batch \<in> set (blocked_history_dirs w) \<or> \<not> guard io then []
          else incremental_log simple w (with_io (entry_ios io) (ib_entries batch))
      | FullJob entries \<Rightarrow>
          if guard io then full_log simple w (with_io (full_ios io) (unblocked w entries)) else []
      | _ \<Rightarrow> [])"

text \<open>A restart keeps the disk and forgets everything else.\<close>

datatype 'st event = Run job_io "'st job" | Restart

definition history_step ::
  "(uuid \<Rightarrow> bytes) \<Rightarrow> (bytes \<Rightarrow> uuid option) \<Rightarrow> worker \<Rightarrow> 'st event \<Rightarrow> worker" where
  "history_step simple parse w ev =
     (case ev of Run io job \<Rightarrow> fst (worker_job simple parse io w job) | Restart \<Rightarrow> fresh_worker (wk_disk w))"

lemma history_step_simps [simp]:
  "history_step simple parse w (Run io job) = fst (worker_job simple parse io w job)"
  "history_step simple parse w Restart = fresh_worker (wk_disk w)"
  by (simp_all add: history_step_def)

lemma wk_disk_fresh [simp]: "wk_disk (fresh_worker d) = d"
  by (simp add: fresh_worker_def)

fun run_log :: "(uuid \<Rightarrow> bytes) \<Rightarrow> (bytes \<Rightarrow> uuid option) \<Rightarrow> worker \<Rightarrow> 'st event list \<Rightarrow> logged list" where
  "run_log simple parse w [] = []"
| "run_log simple parse w (ev # evs) =
     (case ev of Run io job \<Rightarrow> job_log simple io w job | Restart \<Rightarrow> [])
     @ run_log simple parse (history_step simple parse w ev) evs"

section \<open>The abstract run\<close>

text \<open>
  An abstract step of one leaf: frames appended, or the history replaced by a text. \<open>justified\<close>
  says which step a logged request may have taken.
\<close>

datatype step = Append storage_key contents | Replace storage_key bytes

fun step_on :: "storage_key \<Rightarrow> hist option \<Rightarrow> step \<Rightarrow> hist option" where
  "step_on k h (Append k' fs) = (if k' = k then append_hist fs h else h)"
| "step_on k h (Replace k' s) = (if k' = k then Some (s, []) else h)"

fun justified :: "logged \<Rightarrow> step \<Rightarrow> bool" where
  "justified r (Append k fs) \<longleftrightarrow> lg_key r = k
     \<and> (case lg_request r of
          AppendFrames batch \<Rightarrow> (\<exists>m. fs = take m batch \<and> (lg_acked r \<longrightarrow> fs = batch)
            \<and> (\<not> lg_acked r \<longrightarrow> fs = [] \<or> lg_faulty r))
        | SaveText _ \<Rightarrow> \<not> lg_acked r \<and> fs = [])"
| "justified r (Replace k s) \<longleftrightarrow> lg_key r = k \<and> lg_acked r
     \<and> (\<exists>t. lg_request r = SaveText t \<and> s = clamp_scrollback t MAX_PERSISTED_BYTES)"

text \<open>Some steps that the log justifies lead from the histories of one disk to those of another.\<close>

definition explained :: "(uuid \<Rightarrow> bytes) \<Rightarrow> disk \<Rightarrow> logged list \<Rightarrow> disk \<Rightarrow> (storage_key \<Rightarrow> bool) \<Rightarrow> bool" where
  "explained simple d log d' K \<longleftrightarrow>
     (\<exists>steps. list_all2 justified log steps
        \<and> (\<forall>k. K k \<longrightarrow> history simple d' k = foldl (step_on k) (history simple d k) steps))"

lemma explained_refl: "(\<And>k. K k \<Longrightarrow> history simple d' k = history simple d k) \<Longrightarrow> explained simple d [] d' K"
  by (simp add: explained_def)

lemma explained_trans:
  assumes "explained simple d xs d1 K" and "explained simple d1 ys d2 K"
  shows "explained simple d (xs @ ys) d2 K"
proof -
  obtain s1 s2 where "list_all2 justified xs s1" "list_all2 justified ys s2"
    "\<forall>k. K k \<longrightarrow> history simple d1 k = foldl (step_on k) (history simple d k) s1"
    "\<forall>k. K k \<longrightarrow> history simple d2 k = foldl (step_on k) (history simple d1 k) s2"
    using assms unfolding explained_def by blast
  then show ?thesis
    unfolding explained_def by (intro exI [of _ "s1 @ s2"]) (simp add: list_all2_appendI)
qed

lemma explained_one:
  assumes "justified r s" and "\<And>k. K k \<Longrightarrow> history simple d' k = step_on k (history simple d k) s"
  shows "explained simple d [r] d' K"
  unfolding explained_def by (intro exI [of _ "[s]"]) (simp add: assms)

lemma explained_entry:
  assumes "persist_entry simple io w e = (w', roll, ack)" and "uuid_text simple parse"
  shows "explained simple (wk_disk w)
    [\<lparr>lg_key = storage_key_of w e, lg_request = AppendFrames (batch_contents (ie_frames e)),
      lg_acked = ack \<noteq> None, lg_faulty = faulty io\<rparr>] (wk_disk w') K"
proof -
  from persist_entry_refines [OF assms] obtain m where
    other: "\<forall>k'. k' \<noteq> storage_key_of w e \<longrightarrow> history simple (wk_disk w') k' = history simple (wk_disk w) k'"
    and m: "history simple (wk_disk w') (storage_key_of w e)
      = append_hist (take m (batch_contents (ie_frames e))) (history simple (wk_disk w) (storage_key_of w e))"
      "ack \<noteq> None \<longrightarrow> m = length (batch_contents (ie_frames e))" "ack = None \<longrightarrow> m = 0 \<or> faulty io"
    by blast
  show ?thesis
    by (rule explained_one [where s = "Append (storage_key_of w e) (take m (batch_contents (ie_frames e)))"])
      (use other m in auto)
qed

lemma explained_entries:
  assumes "uuid_text simple parse"
  shows "explained simple (wk_disk w) (incremental_log simple w es)
    (wk_disk (fst (persist_incremental_entries simple w es roll acks))) K"
proof (induction es arbitrary: w roll acks)
  case Nil
  then show ?case by (simp add: explained_refl)
next
  case (Cons x es)
  obtain e io where x: "x = (e, io)" by (cases x)
  obtain w' r a where p: "persist_entry simple io w e = (w', r, a)" by (metis prod_cases3)
  show ?case
    using explained_trans [OF explained_entry [OF p assms] Cons.IH] by (simp add: x p)
qed

text \<open>Every text to be saved is well-formed, as every Rust string is.\<close>

definition texts_ok :: "full_entry list \<Rightarrow> bool" where
  "texts_ok es \<longleftrightarrow> (\<forall>e \<in> set es. \<forall>s n. fe_content e = Checkpoint s n \<longrightarrow> utf8_ok s)"

lemma explained_full_entry:
  assumes "uuid_text simple parse" and "texts_ok [e]"
  shows "explained simple (wk_disk w)
    (case fe_content e of
        Unavailable \<Rightarrow> []
      | PendingLog frames \<Rightarrow> incremental_log simple w [(rescue_entry e frames, rescue_io io)]
      | Checkpoint s n \<Rightarrow>
          [\<lparr>lg_key = (fe_dir e, fe_panel_id e, fe_leaf_id e), lg_request = SaveText s,
            lg_acked = snd (persist_checkpoint simple io w e s n) \<noteq> None, lg_faulty = False\<rparr>])
    (wk_disk (fst (persist_full_entry simple io w e))) K"
proof (cases "fe_content e")
  case (Checkpoint s n)
  let ?k = "(fe_dir e, fe_panel_id e, fe_leaf_id e)"
  obtain w' ack where p: "persist_checkpoint simple io w e s n = (w', ack)" by fastforce
  have "utf8_ok s" using assms(2) Checkpoint by (simp add: texts_ok_def)
  note r = persist_checkpoint_refines [OF p assms(1) this]
  have "wk_disk (fst (persist_full_entry simple io w e)) = wk_disk w'"
    using p by (simp add: persist_full_entry_def Checkpoint split: option.split)
  moreover have "history simple (wk_disk w') k = step_on k (history simple (wk_disk w) k)
      (if ack = None then Append ?k [] else Replace ?k (clamp_scrollback s MAX_PERSISTED_BYTES))" for k
    using r by (cases "k = ?k") (auto simp del: split_paired_All)
  ultimately show ?thesis
    using p unfolding Checkpoint
    by (simp, intro explained_one [where s = "if ack = None then Append ?k []
        else Replace ?k (clamp_scrollback s MAX_PERSISTED_BYTES)"]) simp_all
next
  case (PendingLog frames)
  obtain w' r a where "persist_entry simple (rescue_io io) w (rescue_entry e frames) = (w', r, a)"
    by (metis prod_cases3)
  then show ?thesis
    using explained_entry [OF _ assms(1)] by (simp add: persist_full_entry_def PendingLog)
next
  case Unavailable
  then show ?thesis by (simp add: persist_full_entry_def explained_refl)
qed

lemma explained_full:
  assumes "uuid_text simple parse" and "texts_ok (map fst es)"
  shows "explained simple (wk_disk w) (full_log simple w es)
    (wk_disk (fst (persist_full_entries simple w es acks))) K"
  using assms(2)
proof (induction es arbitrary: w acks)
  case Nil
  then show ?case by (simp add: explained_refl)
next
  case (Cons x es)
  obtain e io where x: "x = (e, io)" by (cases x)
  have ok: "texts_ok [e]" "texts_ok (map fst es)" using Cons.prems by (auto simp: texts_ok_def x)
  obtain w' a where p: "persist_full_entry simple io w e = (w', a)" by fastforce
  show ?case
    using explained_trans [OF explained_full_entry [OF assms(1) ok(1), of w io K]
        Cons.IH [OF ok(2), of "fst (persist_full_entry simple io w e)" "acks @ a"]]
    by (simp add: x p)
qed

section \<open>Whole runs\<close>

text \<open>What a run may contain when the histories of the leaves \<open>K\<close> are followed.\<close>

fun tame :: "(storage_key \<Rightarrow> bool) \<Rightarrow> 'st event \<Rightarrow> bool" where
  "tame K (Run io (IncrementalJob batch)) \<longleftrightarrow> (\<forall>k. K k \<longrightarrow> spared batch k)"
| "tame K (Run io (FullJob entries)) \<longleftrightarrow> texts_ok entries"
| "tame K _ \<longleftrightarrow> True"

lemma note_restored_disk [simp]: "wk_disk (note_restored dir panel root_leaf hs w) = wk_disk w"
  by (simp add: note_restored_def split: sum.split)

lemma restore_panels_disk [simp]: "wk_disk (fst (restore_panels simple parse io dir panels w)) = wk_disk w"
proof (induction panels arbitrary: w)
  case (Cons x panels)
  obtain p r where "x = (p, r)" by (cases x)
  with Cons show ?case by (simp add: Let_def split_beta)
qed simp

lemma explained_job:
  assumes "uuid_text simple parse" and "tame K (Run io job)"
  shows "explained simple (wk_disk w) (job_log simple io w job)
    (wk_disk (fst (worker_job simple parse io w job))) K"
proof (cases job)
  case (IncrementalJob b)
  show ?thesis
  proof (cases "ib_dir b \<in> set (blocked_history_dirs w) \<or> \<not> guard io")
    case True
    then show ?thesis by (auto simp: IncrementalJob worker_job_def job_log_def explained_refl)
  next
    case False
    obtain w1 roll acks where p: "persist_incremental_entries simple w
        (with_io (entry_ios io) (ib_entries b)) [] [] = (w1, roll, acks)" by (metis prod_cases3)
    have "explained simple (wk_disk w1) [] (wk_disk (prune_batch simple parse (pruning io) w1 b)) K"
      using assms(2) by (intro explained_refl prune_batch_spares [OF assms(1)]) (metis IncrementalJob tame.simps(1))
    moreover have "explained simple (wk_disk w) (incremental_log simple w
        (with_io (entry_ios io) (ib_entries b))) (wk_disk w1) K"
      using explained_entries [OF assms(1), of w "with_io (entry_ios io) (ib_entries b)" "[]" "[]" K]
      by (simp add: p)
    ultimately have "explained simple (wk_disk w) (incremental_log simple w
        (with_io (entry_ios io) (ib_entries b)) @ []) (wk_disk (prune_batch simple parse (pruning io) w1 b)) K"
      by (rule explained_trans [rotated])
    then show ?thesis
      using False by (simp add: IncrementalJob worker_job_def job_log_def persist_incremental_batch_def p)
  qed
next
  case (FullJob es)
  have "map fst (with_io (full_ios io) (unblocked w es)) = unblocked w es"
    by (simp add: with_io_def)
  then have "texts_ok (map fst (with_io (full_ios io) (unblocked w es)))"
    using assms(2) by (auto simp: FullJob texts_ok_def unblocked_def)
  from explained_full [OF assms(1) this, of w "[]" K] show ?thesis
    by (cases "guard io")
      (simp_all add: FullJob worker_job_def job_log_def unblocked_def explained_refl split_beta)
qed (simp_all add: worker_job_def job_log_def explained_refl split_beta)

text \<open>
  C2: Durable histories refine an abstract one. Over every run of the worker (jobs of any kind,
  in any order, with any outcome of the file system, and restarts between them) and for all leaves
  that no batch declares known and dead, what a restart restores is what the requests say: an
  acknowledged batch has been appended once, whole and in order; an acknowledged checkpoint has
  replaced text and frames by its clamped text; a request that was not acknowledged has changed
  nothing, except that a batch whose write and rollback both failed, or were cut by a crash, may
  have left a prefix of its frames.
\<close>
theorem durable_history_refines:
  assumes "uuid_text simple parse" and "\<forall>ev \<in> set evs. tame K ev"
  shows "\<exists>steps. list_all2 justified (run_log simple parse w evs) steps
    \<and> (\<forall>k. K k \<longrightarrow> history simple (wk_disk (foldl (history_step simple parse) w evs)) k
         = foldl (step_on k) (history simple (wk_disk w) k) steps)"
proof -
  have "explained simple (wk_disk w) (run_log simple parse w evs)
      (wk_disk (foldl (history_step simple parse) w evs)) K"
    using assms(2)
  proof (induction evs arbitrary: w)
    case Nil
    then show ?case by (simp add: explained_refl)
  next
    case (Cons ev evs)
    have ih: "explained simple (wk_disk (history_step simple parse w ev))
        (run_log simple parse (history_step simple parse w ev) evs)
        (wk_disk (foldl (history_step simple parse) (history_step simple parse w ev) evs)) K"
      using Cons by simp
    show ?case
    proof (cases ev)
      case (Run io job)
      then show ?thesis
        using explained_trans [OF explained_job [OF assms(1)] ih [unfolded Run history_step_simps]]
          Cons.prems by simp
    next
      case Restart
      then show ?thesis using ih by simp
    qed
  qed
  then show ?thesis by (simp add: explained_def)
qed

end
