(* ===== verification/HistorySafety.thy ===== *)
theory HistorySafety
  imports HistoryRuns
begin

text \<open>
  What the persistence worker never touches: files that are not of a known and dead panel or leaf
  survive every pruning, and a directory whose history could not be captured at startup is left
  alone for the rest of the run.
\<close>

section \<open>Pruning only the dead\<close>

lemma prune_leaves_changed:
  assumes "map_of (prune_leaves simple parse io dir known live d) (dir', name) \<noteq> map_of d (dir', name)"
  shows "\<exists>(panel, leaves) \<in> set live. dir' = dir \<and> leaf_victim simple parse panel leaves
      (case leaves_in known panel of None \<Rightarrow> [] | Some ls \<Rightarrow> ls) (from_utf8_lossy name)"
  using assms prune_leaves_spares [of live dir' dir simple parse known name io d] by fastforce

lemma leaves_in_Some: "leaves_in panels p = Some ls \<Longrightarrow> (p, ls) \<in> set panels"
  unfolding leaves_in_def by (drule map_of_SomeD) simp

text \<open>
  C11: Pruning removes nothing but the files of the known dead: whatever the file system does, a
  file that is gone after the pruning of a batch was in the batch's directory, and either its name
  belongs to a panel the batch knows and does not list as alive, or to a leaf that the batch knows
  of a live panel and does not list among the panel's leaves. Files of panels of another window,
  foreign files and every other directory are as they were.
\<close>
theorem prune_removes_only_known_dead:
  assumes "map_of (wk_disk (prune_batch simple parse io w b)) (dir, name) \<noteq> map_of (wk_disk w) (dir, name)"
  shows "dir = ib_dir b \<and> (\<exists>p known. (p, known) \<in> set (ib_known_panels b)
    \<and> (p \<notin> fst ` set (ib_live_panels b) \<and> panel_stem_of (from_utf8_lossy name) = simple p
       \<or> (\<exists>leaves l. (p, leaves) \<in> set (ib_live_panels b)
            \<and> leaf_of_name simple parse p (from_utf8_lossy name) = Some l
            \<and> l \<in> set known \<and> l \<notin> set leaves)))"
proof -
  let ?n = "from_utf8_lossy name" and ?live = "ib_live_panels b" and ?known = "ib_known_panels b"
  let ?d1 = "prune_leaves simple parse io (ib_dir b) ?known ?live (wk_disk w)"
  consider (leaf) "map_of ?d1 (dir, name) \<noteq> map_of (wk_disk w) (dir, name)"
    | (panel) "map_of (wk_disk (prune_batch simple parse io w b)) (dir, name) \<noteq> map_of ?d1 (dir, name)"
    using assms by fastforce
  then show ?thesis
  proof cases
    case leaf
    from prune_leaves_changed [OF this] obtain p leaves where p: "(p, leaves) \<in> set ?live" "dir = ib_dir b"
      "leaf_victim simple parse p leaves (case leaves_in ?known p of None \<Rightarrow> [] | Some ls \<Rightarrow> ls) ?n"
      by blast
    then obtain l known where "leaf_of_name simple parse p ?n = Some l" "leaves_in ?known p = Some known"
      "l \<in> set known" "l \<notin> set leaves"
      by (cases "leaves_in ?known p") (auto simp: leaf_victim_def split: option.splits)
    with p(1,2) leaves_in_Some show ?thesis by blast
  next
    case panel
    then have "dir = ib_dir b" and v: "panel_victim simple (map fst ?live) (map fst ?known) ?n"
      by (auto simp: prune_batch_def Let_def prune_scrollback_def prune_loop_disk split: if_splits)
    from v obtain p known where "(p, known) \<in> set ?known" "panel_stem_of ?n = simple p"
      "panel_stem_of ?n \<notin> simple ` fst ` set ?live"
      by (auto simp: panel_victim_def Let_def image_image)
    with \<open>dir = ib_dir b\<close> show ?thesis by (metis image_eqI)
  qed
qed

definition demo_prune_batch :: incremental_batch where
  "demo_prune_batch = \<lparr>ib_dir = [100], ib_entries = [], ib_live_panels = [(1, [2])],
     ib_known_panels = [(1, [2, 3])]\<rparr>"

definition demo_prune_io :: prune_io where
  "demo_prune_io = \<lparr>list_leaf_ok = \<lambda>_. True, list_panel_ok = True, rm_file = \<lambda>_. True\<rparr>"

definition demo_dead_name :: bytes where
  "demo_dead_name = name_stem hex_simple 1 (Some 3) @ TXT"

lemma demo_dead_pruned:
  "map_of (wk_disk (prune_batch hex_simple parse_simple demo_prune_io
      (fresh_worker [(([100], demo_dead_name), [65])]) demo_prune_batch)) ([100], demo_dead_name) = None"
proof -
  have ext: "extension TXT" by (simp add: extension_def)
  have "leaf_victim hex_simple parse_simple 1 [2] [2, 3] (from_utf8_lossy demo_dead_name)"
    unfolding demo_dead_name_def name_lossy [OF hex_uuid_text ext] leaf_victim_def
      leaf_of_name_stem [OF hex_uuid_text ext] by simp
  then have "map_of (fst (prune_loop (leaf_victim hex_simple parse_simple 1 [2] [2, 3]) (\<lambda>_. True) [100]
      [demo_dead_name] [(([100], demo_dead_name), [65])] 0)) ([100], demo_dead_name) = None"
    by (simp add: prune_loop_disk)
  then show ?thesis
    by (simp add: prune_batch_def Let_def prune_scrollback_def prune_loop_disk demo_prune_batch_def
        demo_prune_io_def prune_panel_leaf_scrollback_def read_dir_def leaves_in_def)
qed

theorem prune_removes_only_known_dead_witness:
  "\<exists>p known. (p, known) \<in> set (ib_known_panels demo_prune_batch)
    \<and> (p \<notin> fst ` set (ib_live_panels demo_prune_batch)
         \<and> panel_stem_of (from_utf8_lossy demo_dead_name) = hex_simple p
       \<or> (\<exists>leaves l. (p, leaves) \<in> set (ib_live_panels demo_prune_batch)
            \<and> leaf_of_name hex_simple parse_simple p (from_utf8_lossy demo_dead_name) = Some l
            \<and> l \<in> set known \<and> l \<notin> set leaves))"
  using prune_removes_only_known_dead [of hex_simple parse_simple demo_prune_io
      "fresh_worker [(([100], demo_dead_name), [65])]" demo_prune_batch "[100]" demo_dead_name]
    demo_dead_pruned by simp

section \<open>Each request writes in its own directory\<close>

lemma write_frames_frame:
  assumes "write_frames io d path g current frames = (res, d')" and "q \<noteq> path"
  shows "map_of d' q = map_of d q"
proof -
  obtain reset d1 where r: "(if current then (True, d) else reset_log (reset_io io) d path g) = (reset, d1)"
    by fastforce
  have d1: "map_of d1 q = map_of d q"
    using r write_atomic_at_cases [of "reset_io io" d path "encode_header g" reset d1,
        THEN conjunct2, THEN conjunct2, rule_format, OF _ assms(2)]
    by (auto simp: reset_log_def split: if_splits)
  obtain a d2 where a: "append_frames_at (append_io io) d1 path frames = (a, d2)" by fastforce
  have "map_of d2 q = map_of d1 q"
    using a assms(2) by (auto simp: append_frames_at_def al.look_put split: prod.splits option.splits)
  then show ?thesis
    using assms(1) r a d1 by (auto simp: write_frames_def split: if_splits)
qed

lemma persist_incremental_frames_frame:
  assumes "persist_incremental_frames simple io d dir p l frames = (res, d')" and "dir' \<noteq> dir"
  shows "map_of d' (dir', n) = map_of d (dir', n)"
  using assms write_frames_frame [of io d "(dir, scrollback_leaf_log_file_name simple p l)" _ _ frames res d' "(dir', n)"]
  by (auto simp: persist_incremental_frames_def Let_def split: sum.splits option.splits)

lemma persist_entry_frame:
  assumes "dir' \<noteq> ie_dir e"
  shows "map_of (wk_disk (fst (persist_entry simple io w e))) (dir', n) = map_of (wk_disk w) (dir', n)"
proof -
  obtain w' r a where p: "persist_entry simple io w e = (w', r, a)" by (metis prod_cases3)
  then show ?thesis
  proof (cases rule: persist_entry_cases)
    case idle
    then show ?thesis by (simp add: p)
  next
    case (written first gs next_seq res)
    then show ?thesis using persist_incremental_frames_frame [OF written(8) assms] by (simp add: p)
  qed
qed

lemma persist_entry_blocked:
  "blocked_history_dirs (fst (persist_entry simple io w e)) = blocked_history_dirs w"
  by (cases "persist_entry simple io w e") (auto elim: persist_entry_cases)

lemma persist_entries_frame:
  assumes "\<forall>(e, io) \<in> set es. ie_dir e \<noteq> dir'"
  shows "map_of (wk_disk (fst (persist_incremental_entries simple w es roll acks))) (dir', n)
      = map_of (wk_disk w) (dir', n)"
  using assms
proof (induction es arbitrary: w roll acks)
  case (Cons x es)
  obtain e io where x: "x = (e, io)" by (cases x)
  have "dir' \<noteq> ie_dir e" using Cons.prems by (auto simp: x)
  from persist_entry_frame [OF this, of simple io w n] Cons show ?case
    by (simp add: x split_beta)
qed simp

lemma persist_entries_blocked:
  "blocked_history_dirs (fst (persist_incremental_entries simple w es roll acks)) = blocked_history_dirs w"
proof (induction es arbitrary: w roll acks)
  case (Cons x es)
  then show ?case by (cases x) (simp add: split_beta persist_entry_blocked)
qed simp

lemma persist_checkpoint_frame:
  assumes "dir' \<noteq> fe_dir e"
  shows "map_of (wk_disk (fst (persist_checkpoint simple io w e s k))) (dir', n) = map_of (wk_disk w) (dir', n)"
    and "blocked_history_dirs (fst (persist_checkpoint simple io w e s k)) = blocked_history_dirs w"
  using assms
  by (auto simp: persist_checkpoint_def Let_def save_leaf_scrollback_versioned_def write_atomic_at_def
      remove_at_def al.look_put al.look_del forget_sequences_def split: sum.splits prod.splits if_splits bool.splits)

lemma persist_full_entry_frame:
  assumes "dir' \<noteq> fe_dir e"
  shows "map_of (wk_disk (fst (persist_full_entry simple io w e))) (dir', n) = map_of (wk_disk w) (dir', n)"
    and "blocked_history_dirs (fst (persist_full_entry simple io w e)) = blocked_history_dirs w"
proof -
  have r: "\<forall>(e', io') \<in> set [(rescue_entry e frames, rescue_io io)]. ie_dir e' \<noteq> dir'" for frames
    using assms by (simp add: rescue_entry_def)
  show "map_of (wk_disk (fst (persist_full_entry simple io w e))) (dir', n) = map_of (wk_disk w) (dir', n)"
    using persist_checkpoint_frame(1) [OF assms, of simple io w] persist_entries_frame [OF r, where n = n]
    by (simp add: persist_full_entry_def split_beta split: full_content.split option.split)
  show "blocked_history_dirs (fst (persist_full_entry simple io w e)) = blocked_history_dirs w"
    using persist_checkpoint_frame(2) [OF assms, of simple io w] 
    by (simp add: persist_full_entry_def persist_entry_blocked split_beta split: full_content.split option.split)
qed

lemma persist_full_entries_frame:
  assumes "\<forall>(e, io) \<in> set es. fe_dir e \<noteq> dir'"
  shows "map_of (wk_disk (fst (persist_full_entries simple w es acks))) (dir', n) = map_of (wk_disk w) (dir', n)
    \<and> blocked_history_dirs (fst (persist_full_entries simple w es acks)) = blocked_history_dirs w"
  using assms
proof (induction es arbitrary: w acks)
  case (Cons x es)
  obtain e io where x: "x = (e, io)" by (cases x)
  have "dir' \<noteq> fe_dir e" using Cons.prems by (auto simp: x)
  from persist_full_entry_frame [OF this, of simple io w] Cons show ?case
    by (simp add: x split_beta)
qed simp

lemma prune_batch_frame:
  "dir' \<noteq> ib_dir b \<Longrightarrow>
   map_of (wk_disk (prune_batch simple parse io w b)) (dir', n) = map_of (wk_disk w) (dir', n)"
  using prune_leaves_changed [of simple parse io "ib_dir b" "ib_known_panels b" "ib_live_panels b" "wk_disk w" dir' n]
  by (auto simp: prune_batch_def Let_def prune_scrollback_def prune_loop_disk)

section \<open>A directory that could not be captured\<close>

lemma note_restored_blocked:
  "set (blocked_history_dirs w) \<subseteq> set (blocked_history_dirs (note_restored dir panel root_leaf hs w))"
  by (auto simp: note_restored_def split: sum.split)

lemma restore_panels_blocked:
  "set (blocked_history_dirs w)
     \<subseteq> set (blocked_history_dirs (fst (restore_panels simple parse io dir panels w)))"
proof (induction panels arbitrary: w)
  case (Cons x panels)
  obtain p r where x: "x = (p, r)" by (cases x)
  show ?case
    using note_restored_blocked [of w dir p r] Cons.IH
    by (simp add: x Let_def split_beta) (metis subset_trans)
qed simp

lemma restore_panels_error:
  assumes "(panel, Inl err) \<in> set (snd (restore_panels simple parse io dir panels w))"
  shows "dir \<in> set (blocked_history_dirs (fst (restore_panels simple parse io dir panels w)))"
  using assms
proof (induction panels arbitrary: w)
  case (Cons x panels)
  obtain p r where x: "x = (p, r)" by (cases x)
  define hs where "hs = collect_leaf_histories simple parse (list_ok io p) (restore_reads io p) (wk_disk w) dir p"
  define w1 where "w1 = note_restored dir p r hs w"
  have run: "restore_panels simple parse io dir (x # panels) w
      = (fst (restore_panels simple parse io dir panels w1),
         (p, hs) # snd (restore_panels simple parse io dir panels w1))"
    by (simp add: x hs_def w1_def Let_def split_beta)
  show ?case
  proof (cases "hs = Inl err \<and> p = panel")
    case True
    then have "dir \<in> set (blocked_history_dirs w1)" by (simp add: w1_def note_restored_def)
    then show ?thesis using restore_panels_blocked [of w1 simple parse io dir panels] run by auto
  next
    case False
    then show ?thesis using Cons run by auto
  qed
qed simp

text \<open>A batch writes for one directory.\<close>

fun one_directory :: "'st job \<Rightarrow> bool" where
  "one_directory (IncrementalJob b) \<longleftrightarrow> (\<forall>e \<in> set (ib_entries b). ie_dir e = ib_dir b)"
| "one_directory _ \<longleftrightarrow> True"

lemma blocked_job:
  assumes "dir \<in> set (blocked_history_dirs w)" and "one_directory job"
  shows "dir \<in> set (blocked_history_dirs (fst (worker_job simple parse io w job)))
    \<and> map_of (wk_disk (fst (worker_job simple parse io w job))) (dir, n) = map_of (wk_disk w) (dir, n)"
proof (cases job)
  case (RestoreJob d panels)
  then show ?thesis
    using restore_panels_blocked assms(1) by (simp add: worker_job_def split_beta) blast
next
  case (StateJob s)
  then show ?thesis using assms(1) by (simp add: worker_job_def)
next
  case (IncrementalJob b)
  show ?thesis
  proof (cases "ib_dir b \<in> set (blocked_history_dirs w) \<or> \<not> guard io")
    case True
    then show ?thesis using assms(1) by (auto simp: IncrementalJob worker_job_def)
  next
    case False
    then have d: "dir \<noteq> ib_dir b" using assms(1) by auto
    let ?es = "with_io (entry_ios io) (ib_entries b)"
    have "\<forall>(e, x) \<in> set ?es. ie_dir e \<noteq> dir"
      using assms(2) d by (auto simp: IncrementalJob with_io_def dest!: set_zip_leftD)
    from persist_entries_frame [OF this, where n = n] persist_entries_blocked [of simple w ?es "[]" "[]"]
    show ?thesis
      using False assms(1) d
      by (simp add: IncrementalJob worker_job_def persist_incremental_batch_def split_beta prune_batch_frame)
        (simp add: prune_batch_def Let_def)
  qed
next
  case (FullJob es)
  let ?es = "with_io (full_ios io) (filter (\<lambda>e. fe_dir e \<notin> set (blocked_history_dirs w)) es)"
  have "\<forall>(e, x) \<in> set ?es. fe_dir e \<noteq> dir"
    using assms(1) by (auto simp: with_io_def dest!: set_zip_leftD)
  from persist_full_entries_frame [OF this, of simple w "[]" n] show ?thesis
    using assms(1) by (cases "guard io") (simp_all add: FullJob worker_job_def split_beta)
qed

text \<open>
  C18: A directory whose history could not be captured at startup is not written for the rest of the
  run: when the capture of any panel fails, every file of the directory is the same after any
  further jobs (captures, batches, checkpoints, rescues and their pruning), so output that was not
  read cannot be replaced.
\<close>
theorem failed_capture_blocks_directory:
  assumes "worker_job simple parse io w (RestoreJob dir panels) = (w1, Restored hs)"
    and "(panel, Inl err) \<in> set hs"
    and "\<forall>(io, job) \<in> set jobs. one_directory job"
  shows "map_of (wk_disk (foldl (\<lambda>w (io, job). fst (worker_job simple parse io w job)) w1 jobs)) (dir, n)
    = map_of (wk_disk w) (dir, n)"
proof -
  have r: "w1 = fst (restore_panels simple parse io dir panels w)"
    "hs = snd (restore_panels simple parse io dir panels w)"
    using assms(1) by (simp_all add: worker_job_def split_beta)
  then have blocked: "dir \<in> set (blocked_history_dirs w1)" and disk: "wk_disk w1 = wk_disk w"
    using restore_panels_error assms(2) by simp_all
  have "map_of (wk_disk (foldl (\<lambda>w (io, job). fst (worker_job simple parse io w job)) w1 jobs)) (dir, n)
      = map_of (wk_disk w1) (dir, n)"
    using assms(3) blocked
  proof (induction jobs arbitrary: w1)
    case (Cons x jobs)
    obtain io' job where x: "x = (io', job)" by (cases x)
    have "one_directory job" using Cons.prems(1) by (auto simp: x)
    from blocked_job [OF Cons.prems(2) this, of simple parse io' n] Cons show ?case by (simp add: x)
  qed simp
  then show ?thesis by (simp add: disk)
qed

definition healthy_log_io :: log_io where
  "healthy_log_io = \<lparr>create_ok = True, read_ok = True, open_ok = True, truncate_ok = True,
    seek_ok = True, append_ok = True, written = 0, rollback_len_ok = True, rollback_sync_ok = True\<rparr>"

definition healthy_io :: entry_io where
  "healthy_io = \<lparr>seq_reads = all_reads, frame_reads = all_reads, reset_io = all_saves,
    append_io = healthy_log_io, metadata_ok = True\<rparr>"

definition healthy_full_io :: full_io where
  "healthy_full_io = \<lparr>full_reads = all_reads, full_save = all_saves, rm_log_ok = True,
    rm_gen_ok = True, rescue_io = healthy_io\<rparr>"

definition healthy_job_io :: job_io where
  "healthy_job_io = \<lparr>guard = True, list_ok = \<lambda>_. True, restore_reads = \<lambda>_ _. all_reads,
    state_ok = True, entry_ios = \<lambda>_. healthy_io, pruning = demo_prune_io, full_ios = \<lambda>_. healthy_full_io\<rparr>"

definition demo_checkpoint :: full_entry where
  "demo_checkpoint = \<lparr>fe_dir = [100], fe_panel_id = 1, fe_leaf_id = Some 3, fe_runtime_session_id = 9,
    fe_content = Checkpoint [65] 0\<rparr>"

theorem failed_capture_blocks_directory_witness:
  "map_of (wk_disk (foldl (\<lambda>w (io, job). fst (worker_job hex_simple parse_simple io w job))
      (fst (worker_job hex_simple parse_simple (healthy_job_io\<lparr>list_ok := \<lambda>_. False\<rparr>)
        (fresh_worker [(([100], demo_dead_name), [65])]) (RestoreJob [100] [(1, 3)] :: unit job)))
      [(healthy_job_io, FullJob [demo_checkpoint] :: unit job)])) ([100], demo_dead_name) = Some [65]"
proof -
  let ?io = "healthy_job_io\<lparr>list_ok := \<lambda>_. False\<rparr>"
  let ?w = "fresh_worker [(([100], demo_dead_name), [65])]"
  let ?job = "RestoreJob [100] [(1, 3)] :: unit job"
  have r: "worker_job hex_simple parse_simple ?io ?w ?job
    = (fst (worker_job hex_simple parse_simple ?io ?w ?job), Restored [(1, Inl Io)])"
    by (simp add: worker_job_def collect_leaf_histories_def Let_def split_beta)
  have e: "(1, Inl Io) \<in> set [(1 :: uuid, Inl Io :: hist_error + leaf_histories)]" by simp
  have j: "\<forall>(io, job) \<in> set [(healthy_job_io, FullJob [demo_checkpoint] :: unit job)]. one_directory job"
    by simp
  show ?thesis
    using failed_capture_blocks_directory [OF r e j, of "demo_dead_name"] by (simp add: fresh_worker_def)
qed

end
