(* ===== verification/HistoryProgress.thy ===== *)
theory HistoryProgress
  imports HistorySafety
begin

text \<open>
  Progress of the persistence worker: the sequence numbers it caches always continue the logs on
  disk, so after any failures that were not a failed write with a failed rollback, a batch that
  meets a healthy file system is accepted and acknowledged. The failed rollback is the exception,
  and the last section shows what a retry does after it.
\<close>

section \<open>The cached sequence numbers continue the logs\<close>

definition log_ends_before :: "(uuid \<Rightarrow> bytes) \<Rightarrow> disk \<Rightarrow> storage_key \<Rightarrow> u64 \<Rightarrow> bool" where
  "log_ends_before simple d k n \<longleftrightarrow>
     (\<exists>g old. gen_of (map_of d (ckpt_file simple k)) (map_of d (gen_file simple k)) = Inr g
        \<and> current_log g (map_of d (log_file simple k)) old
        \<and> (old = [] \<or> checked_inc (frame_seq (last old)) = Some n))"

definition sequences_sound :: "(uuid \<Rightarrow> bytes) \<Rightarrow> worker \<Rightarrow> bool" where
  "sequences_sound simple w \<longleftrightarrow>
     (\<forall>k n. map_of (next_sequences w) k = Some n \<longrightarrow> log_ends_before simple (wk_disk w) k n)"

lemma sequences_soundD:
  "sequences_sound simple w \<Longrightarrow> map_of (next_sequences w) k = Some n
    \<Longrightarrow> log_ends_before simple (wk_disk w) k n"
  unfolding sequences_sound_def by blast

lemma log_ends_before_cong:
  assumes "map_of d' (ckpt_file simple k) = map_of d (ckpt_file simple k)"
    and "map_of d' (gen_file simple k) = map_of d (gen_file simple k)"
    and "map_of d' (log_file simple k) = map_of d (log_file simple k)"
  shows "log_ends_before simple d' k n = log_ends_before simple d k n"
  unfolding log_ends_before_def assms ..

lemma log_ends_before_other:
  assumes "uuid_text simple parse" and "\<And>q. q \<noteq> log_file simple k \<Longrightarrow> map_of d' q = map_of d q"
    and "k' \<noteq> k"
  shows "log_ends_before simple d' k' n = log_ends_before simple d k' n"
proof -
  have "ckpt_file simple k' \<noteq> log_file simple k" "gen_file simple k' \<noteq> log_file simple k"
    "log_file simple k' \<noteq> log_file simple k"
    using files_distinct [OF assms(1)] assms(3) by metis+
  then show ?thesis by (intro log_ends_before_cong assms(2))
qed

text \<open>Renumbered frames end just before the number the worker caches.\<close>

lemma renumbered_last:
  assumes "chained None gs" and "gs \<noteq> []" and "frame_seq (hd gs) = first"
    and "unat next_seq = unat first + length gs"
  shows "checked_inc (frame_seq (last gs)) = Some next_seq"
proof -
  obtain f fs where gs: "gs = f # fs" using assms(2) by (cases gs) auto
  have "unat (frame_seq (last gs)) = unat first + length fs"
  proof (cases "fs = []")
    case False
    then show ?thesis
      using chained_last [of "frame_seq f" fs] assms(1,3) by (simp add: gs)
  qed (use assms(3) gs in simp)
  then have n: "unat next_seq = unat (frame_seq (last gs)) + 1" using assms(4) by (simp add: gs)
  have "unat next_seq < 2 ^ 64" using unsigned_less [of next_seq] by simp
  with n have "frame_seq (last gs) \<noteq> - 1"
    by (auto simp: unsigned_minus_1_eq_mask mask_eq_exp_minus_1)
  moreover from this n have "next_seq = frame_seq (last gs) + 1"
    by (metis unat_inc word_unat_eq_iff)
  ultimately show ?thesis by (simp add: checked_inc_Some_iff)
qed

text \<open>Where the first number of a batch comes from, the log ends just before it.\<close>

lemma first_seq_continues:
  assumes "first_seq simple io w k = Some first" and "sequences_sound simple w" and "first \<noteq> - 1"
    and "gen_of (map_of (wk_disk w) (ckpt_file simple k)) (map_of (wk_disk w) (gen_file simple k)) = Inr g"
    and "tail_of g (map_of (wk_disk w) (log_file simple k)) = Some old" and "old \<noteq> []"
  shows "checked_inc (frame_seq (last old)) = Some first"
proof (cases "map_of (next_sequences w) k")
  case (Some n)
  then have "n = first" using assms(1) by (simp add: first_seq_def)
  then have "log_ends_before simple (wk_disk w) k first"
    using sequences_soundD [OF assms(2) Some] by simp
  then show ?thesis
    using assms(4-6) current_log_tail by (fastforce simp: log_ends_before_def)
next
  case None
  obtain dir p l where k: "k = (dir, p, l)" by (cases k)
  have d: "durable_first_seq simple io (wk_disk w) (dir, p, l) = Some first"
    using assms(1) None by (simp add: first_seq_def k)
  then obtain g' where g': "read_leaf_generation simple io (wk_disk w) dir p l = Inr g'"
    by (auto simp: durable_first_seq_def split: sum.splits)
  then have "g' = g" using read_leaf_generation_gen_of assms(4) by (fastforce simp: k)
  obtain bs where bs: "map_of (wk_disk w) (log_file simple k) = Some bs" "read_frames bs = Some (g, old)"
    using assms(5,6) by (auto simp: tail_of_def split: option.splits if_splits)
  then have "saturating_inc (frame_seq (last old)) = first"
    using d g' \<open>g' = g\<close> assms(6)
    by (auto simp: durable_first_seq_def k log_file_def read_optional_history_bytes_def
        split: if_splits option.splits sum.splits)
  then show ?thesis
    using assms(3) by (auto simp: saturating_inc_def checked_inc_def split: if_splits)
qed

lemma persist_entry_sound:
  assumes "persist_entry simple io w e = (w', roll, ack)" and "uuid_text simple parse"
    and "sequences_sound simple w" and "\<not> faulty io"
  shows "sequences_sound simple w'"
  using assms(1)
proof (cases rule: persist_entry_cases)
  case idle
  have "map_of (next_sequences w) k = Some n" if "map_of (next_sequences w') k = Some n" for k n
    using idle(2) that by (auto simp: al.look_del split: if_splits)
  then show ?thesis using assms(3) idle(1) by (simp add: sequences_sound_def)
next
  case (written first gs next_seq res)
  let ?k = "storage_key_of w e" and ?d = "wk_disk w" and ?d' = "wk_disk w'"
  have kk: "(ie_dir e, ie_panel_id e, storage_leaf_id w e) = ?k"
    by (simp add: storage_key_of_def)
  note files = files_distinct [OF assms(2)]
  note spec = persist_incremental_frames_spec [OF written(8,4), unfolded kk]
  have q: "map_of ?d' q = map_of ?d q" if "q \<noteq> log_file simple ?k" for q
    using spec that by blast
  have other: "log_ends_before simple ?d' k n" if "log_ends_before simple ?d k n" "k \<noteq> ?k" for k n
    using log_ends_before_other [OF assms(2) q that(2)] that(1) by simp
  have own: "log_ends_before simple ?d' ?k n" if "map_of (next_sequences w') ?k = Some n" for n
  proof (cases "res = None \<and> ?d' = ?d")
    case True
    then show ?thesis using that written(9) sequences_soundD [OF assms(3)] by simp
  next
    case False
    with spec obtain g old where
      g: "gen_of (map_of ?d (ckpt_file simple ?k)) (map_of ?d (gen_file simple ?k)) = Inr g"
      and old: "tail_of g (map_of ?d (log_file simple ?k)) = Some old"
      and yes: "res \<noteq> None \<longrightarrow> current_log g (map_of ?d' (log_file simple ?k)) (old @ gs)"
      and no: "res = None \<longrightarrow> (\<exists>m. current_log g (map_of ?d' (log_file simple ?k)) (old @ take m gs)
          \<and> (m = 0 \<or> faulty io))" by blast
    have g': "gen_of (map_of ?d' (ckpt_file simple ?k)) (map_of ?d' (gen_file simple ?k)) = Inr g"
      using g q [OF files(4)] q [OF files(9)] by simp
    note cont = first_seq_continues [OF written(1) assms(3) written(2) g old]
    show ?thesis
    proof (cases "res = None")
      case True
      then have "current_log g (map_of ?d' (log_file simple ?k)) old" using no assms(4) by auto
      moreover have "old = [] \<or> checked_inc (frame_seq (last old)) = Some n"
        using cont written(1,9) True that by (auto simp: first_seq_def)
      ultimately show ?thesis using g' by (auto simp: log_ends_before_def)
    next
      case False
      then have n: "n = next_seq" using that written(9) by (auto simp: al.look_put)
      have "old @ gs = [] \<or> checked_inc (frame_seq (last (old @ gs))) = Some n"
      proof (cases "gs = []")
        case True
        then have "next_seq = first" using written(6) by (simp add: word_unat_eq_iff)
        then show ?thesis using cont True n by auto
      next
        case False
        then show ?thesis
          using renumbered_last [OF written(4) False _ written(6)] written(7) n by simp
      qed
      then show ?thesis using g' yes False by (auto simp: log_ends_before_def)
    qed
  qed
  have "log_ends_before simple ?d' k n" if "map_of (next_sequences w') k = Some n" for k n
  proof (cases "k = ?k")
    case False
    then have "map_of (next_sequences w) k = Some n"
      using that written(9) by (simp add: al.look_put split: if_splits)
    then show ?thesis using other False sequences_soundD [OF assms(3)] by simp
  qed (use own that in simp)
  then show ?thesis by (simp add: sequences_sound_def)
qed

lemma persist_entries_sound:
  assumes "uuid_text simple parse" and "\<forall>(e, io) \<in> set es. \<not> faulty io" and "sequences_sound simple w"
  shows "sequences_sound simple (fst (persist_incremental_entries simple w es roll acks))"
  using assms(2,3)
proof (induction es arbitrary: w roll acks)
  case (Cons x es)
  obtain e io where x: "x = (e, io)" by (cases x)
  obtain w' r a where p: "persist_entry simple io w e = (w', r, a)" by (metis prod_cases3)
  have "sequences_sound simple w'"
    using Cons.prems by (intro persist_entry_sound [OF p assms(1)]) (auto simp: x)
  then show ?case using Cons by (simp add: x p)
qed simp

text \<open>A checkpoint forgets the number of its leaf and touches no other leaf.\<close>

lemma map_of_forget:
  "map_of (next_sequences (forget_sequences w e)) k = Some n \<Longrightarrow>
   map_of (next_sequences w) k = Some n \<and> k \<noteq> (fe_dir e, fe_panel_id e, fe_leaf_id e)"
  by (auto simp: forget_sequences_def Let_def al.look_del split: if_splits)

lemma published_files:
  assumes "uuid_text simple parse" and "k' \<noteq> k"
    and "\<And>q. q \<noteq> ckpt_file simple k \<Longrightarrow> map_of d1 q = map_of d q"
  shows "log_ends_before simple (remove_at a (remove_at b d1 (log_file simple k)) (gen_file simple k)) k' n
    = log_ends_before simple d k' n"
proof -
  note files = files_distinct [OF assms(1)]
  have same: "map_of (remove_at a (remove_at b d1 (log_file simple k)) (gen_file simple k)) q = map_of d q"
    if "q \<noteq> ckpt_file simple k" "q \<noteq> log_file simple k" "q \<noteq> gen_file simple k" for q
    using that assms(3) [OF that(1)] by (simp add: remove_at_def al.look_del)
  show ?thesis
    by (rule log_ends_before_cong; rule same) (simp_all only: files assms(2) not_False_eq_True)
qed

lemma persist_checkpoint_sound:
  assumes "persist_checkpoint simple io w e s n = (w', ack)" and "uuid_text simple parse"
    and "sequences_sound simple w"
  shows "sequences_sound simple w'"
  using assms(1)
proof (cases rule: persist_checkpoint_cases)
  case idle
  then show ?thesis using assms(3) by simp
next
  case (published g d1)
  have "log_ends_before simple (wk_disk w') k' m" if m: "map_of (next_sequences w') k' = Some m" for k' m
  proof -
    have "map_of (next_sequences w) k' = Some m \<and> k' \<noteq> (fe_dir e, fe_panel_id e, fe_leaf_id e)"
      using m published(4) by (intro map_of_forget) simp
    then show ?thesis
      using published_files [OF assms(2) _ published(3)] sequences_soundD [OF assms(3)] published(4) by simp
  qed
  then show ?thesis unfolding sequences_sound_def by blast
qed

lemma persist_full_entries_sound:
  assumes "uuid_text simple parse" and "\<forall>(e, io) \<in> set es. \<not> faulty (rescue_io io)"
    and "sequences_sound simple w"
  shows "sequences_sound simple (fst (persist_full_entries simple w es acks))"
  using assms(2,3)
proof (induction es arbitrary: w acks)
  case (Cons x es)
  obtain e io where x: "x = (e, io)" by (cases x)
  have nf: "\<not> faulty (rescue_io io)" using Cons.prems(1) by (auto simp: x)
  have "sequences_sound simple (fst (persist_full_entry simple io w e))"
  proof (cases "fe_content e")
    case (Checkpoint s n)
    obtain w' ack where "persist_checkpoint simple io w e s n = (w', ack)" by fastforce
    then show ?thesis
      using persist_checkpoint_sound [OF _ assms(1) Cons.prems(2)]
      by (simp add: persist_full_entry_def Checkpoint split: option.split)
  next
    case (PendingLog frames)
    obtain w' r a where "persist_entry simple (rescue_io io) w (rescue_entry e frames) = (w', r, a)"
      by (metis prod_cases3)
    then show ?thesis
      using persist_entry_sound [OF _ assms(1) Cons.prems(2) nf]
      by (simp add: persist_full_entry_def PendingLog)
  qed (use Cons.prems in \<open>simp add: persist_full_entry_def\<close>)
  then show ?case using Cons by (simp add: x split_beta)
qed simp

text \<open>A number that survives the pruning belongs to a leaf that survives it.\<close>

lemma retained_spared:
  assumes "retain_sequence (ib_dir b) (ib_live_panels b) k" and "distinct (map fst (ib_live_panels b))"
  shows "spared b k"
proof (cases k)
  case (fields dir p l)
  show ?thesis
  proof (cases "dir = ib_dir b")
    case False
    then show ?thesis by (simp add: fields spared_def)
  next
    case True
    then obtain leaves where l: "leaves_in (ib_live_panels b) p = Some leaves"
      "case l of None \<Rightarrow> True | Some x \<Rightarrow> x \<in> set leaves"
      using assms(1) by (auto simp: fields retain_sequence_def split: option.splits)
    have "ls = leaves" if "(p, ls) \<in> set (ib_live_panels b)" for ls
      using that leaves_in_Some [OF l(1)] assms(2) by (metis eq_key_imp_eq_value)
    moreover have "p \<in> fst ` set (ib_live_panels b)"
      using leaves_in_Some [OF l(1)] by force
    ultimately show ?thesis
      using l(2) by (auto simp: fields spared_def split: option.splits)
  qed
qed

lemma prune_batch_sound:
  assumes "uuid_text simple parse" and "distinct (map fst (ib_live_panels b))" and "sequences_sound simple w"
  shows "sequences_sound simple (prune_batch simple parse io w b)"
proof -
  let ?w = "prune_batch simple parse io w b"
  have "log_ends_before simple (wk_disk ?w) k n" if n: "map_of (next_sequences ?w) k = Some n" for k n
  proof -
    have "(k, n) \<in> set (next_sequences ?w)" using map_of_SomeD [OF n] .
    then have r: "retain_sequence (ib_dir b) (ib_live_panels b) k"
      by (auto simp: prune_batch_def Let_def al_retain_def)
    have "map_of (al_retain (\<lambda>k _. retain_sequence (ib_dir b) (ib_live_panels b) k) (next_sequences w)) k = Some n"
      using n by (simp add: prune_batch_def Let_def)
    moreover have "map_of (al_retain (\<lambda>k _. P k) m) k = (if P k then map_of m k else None)" for P and m :: "(storage_key \<times> u64) list"
      by (induction m) (auto simp: al_retain_def)
    ultimately have k: "map_of (next_sequences w) k = Some n" using r by simp
    obtain dir p l where f: "k = (dir, p, l)" by (cases k)
    note files = prune_batch_spares_files [OF assms(1) retained_spared [OF r assms(2), unfolded f]]
    have "log_ends_before simple (wk_disk ?w) k n = log_ends_before simple (wk_disk w) k n"
      unfolding f by (intro log_ends_before_cong)
        (simp_all add: ckpt_file_def log_file_def gen_file_def names_by_stem files extension_def)
    then show ?thesis using sequences_soundD [OF assms(3) k] by simp
  qed
  then show ?thesis by (simp add: sequences_sound_def)
qed

text \<open>
  A calm event: no batch's write fails together with its rollback, and a batch lists each live
  panel once.
\<close>

fun calm :: "'st event \<Rightarrow> bool" where
  "calm (Run io (IncrementalJob b)) \<longleftrightarrow>
     (\<forall>i. \<not> faulty (entry_ios io i)) \<and> distinct (map fst (ib_live_panels b))"
| "calm (Run io (FullJob es)) \<longleftrightarrow> (\<forall>i. \<not> faulty (rescue_io (full_ios io i)))"
| "calm _ \<longleftrightarrow> True"

lemma with_io_all: "(\<And>i. P (ios i)) \<Longrightarrow> \<forall>(e, io) \<in> set (with_io ios es). P io"
  by (auto simp: with_io_def dest!: set_zip_rightD)

lemma restore_panels_sequences [simp]:
  "next_sequences (fst (restore_panels simple parse io dir panels w)) = next_sequences w"
proof (induction panels arbitrary: w)
  case (Cons x panels)
  obtain p r where "x = (p, r)" by (cases x)
  with Cons show ?case by (simp add: Let_def split_beta note_restored_def split: sum.split)
qed simp

lemma history_step_sound:
  assumes "uuid_text simple parse" and "calm ev" and "sequences_sound simple w"
  shows "sequences_sound simple (history_step simple parse w ev)"
proof (cases ev)
  case (Run io job)
  show ?thesis
  proof (cases job)
    case (RestoreJob dir panels)
    then show ?thesis
      using assms(3) by (simp add: Run worker_job_def split_beta sequences_sound_def)
  next
    case (StateJob s)
    then show ?thesis using assms(3) by (simp add: Run worker_job_def)
  next
    case (IncrementalJob b)
    have "sequences_sound simple (fst (persist_incremental_entries simple w
        (with_io (entry_ios io) (ib_entries b)) [] []))"
      using assms(2) by (intro persist_entries_sound [OF assms(1) _ assms(3)] with_io_all)
        (simp add: Run IncrementalJob)
    from prune_batch_sound [OF assms(1) _ this, of b] show ?thesis
      using assms(2,3)
      by (simp add: Run IncrementalJob worker_job_def persist_incremental_batch_def split_beta)
  next
    case (FullJob es)
    have "sequences_sound simple (fst (persist_full_entries simple w (with_io (full_ios io)
        (filter (\<lambda>e. fe_dir e \<notin> set (blocked_history_dirs w)) es)) []))"
      using assms(2) by (intro persist_full_entries_sound [OF assms(1) _ assms(3)] with_io_all)
        (simp add: Run FullJob)
    then show ?thesis using assms(3) by (simp add: Run FullJob worker_job_def split_beta)
  qed
next
  case Restart
  then show ?thesis by (simp add: sequences_sound_def fresh_worker_def)
qed

lemma history_run_sound:
  assumes "uuid_text simple parse" and "\<forall>ev \<in> set evs. calm ev"
  shows "sequences_sound simple (foldl (history_step simple parse) (fresh_worker d) evs)"
proof -
  have "sequences_sound simple w \<Longrightarrow> sequences_sound simple (foldl (history_step simple parse) w evs)" for w
    using assms(2) by (induction evs arbitrary: w) (simp_all add: history_step_sound [OF assms(1)])
  then show ?thesis by (simp add: sequences_sound_def fresh_worker_def)
qed

section \<open>A healthy file system accepts every batch\<close>

definition reads_ok :: "read_io \<Rightarrow> bool" where
  "reads_ok r \<longleftrightarrow> ckpt_ok r \<and> gen_ok r \<and> log_ok r"

definition healthy :: "entry_io \<Rightarrow> bool" where
  "healthy io \<longleftrightarrow> reads_ok (seq_reads io) \<and> reads_ok (frame_reads io)
     \<and> dir_ok (reset_io io) \<and> write_ok (reset_io io)
     \<and> read_ok (append_io io) \<and> open_ok (append_io io) \<and> truncate_ok (append_io io)
     \<and> seek_ok (append_io io) \<and> append_ok (append_io io)"

lemma gen_of_read_leaf_generation:
  assumes "gen_of (map_of d (ckpt_file simple (dir, p, l))) (map_of d (gen_file simple (dir, p, l))) = Inr g"
    and "reads_ok io"
  shows "read_leaf_generation simple io d dir p l = Inr g"
proof (cases "map_of d (ckpt_file simple (dir, p, l))")
  case None
  then show ?thesis
    using assms
    unfolding read_leaf_generation_def try_load_leaf_scrollback_checkpoint_def gen_of_def reads_ok_def
      ckpt_file_def gen_file_def read_optional_history_bytes_def decode_history_generation_def
    by (auto simp: Let_def split: option.splits)
next
  case (Some bs)
  then show ?thesis
    using assms
    unfolding read_leaf_generation_def try_load_leaf_scrollback_checkpoint_def gen_of_def reads_ok_def
      ckpt_file_def gen_file_def read_optional_history_bytes_def decode_history_generation_def
    by (cases "decode_checkpoint bs") (auto simp: Let_def split: option.splits)
qed

lemma renumber_loop_total:
  "unat s + length fs < 2 ^ 64 \<Longrightarrow> \<exists>out n. renumber_loop fs s acc = Some (out, n)"
proof (induction fs arbitrary: s acc)
  case (Cons f fs)
  then have "s \<noteq> - 1" by (auto simp: unsigned_minus_1_eq_mask mask_eq_exp_minus_1)
  then have "checked_inc s = Some (s + 1)" and "unat (s + 1) = unat s + 1"
    by (simp_all add: checked_inc_def unat_inc)
  then show ?case using Cons by simp
qed simp

lemma append_frames_healthy:
  assumes "read_frames_with_valid_len b = Some (g, old, n)" and "chained None gs" and "continues old gs"
    and "read_ok io" "open_ok io" "truncate_ok io" "seek_ok io" "append_ok io"
  shows "fst (append_frames io (Some b) (encode_frames gs)) = Inr ()"
  using assms read_log [OF assms(2), of 0]
  by (simp add: append_frames_def encode_log_def Let_def write_batch_def)

lemma write_frames_healthy:
  assumes "chained None gs" and "healthy io" and "continues old gs"
    and "if current then current_log g (map_of d path) old else old = []"
  shows "fst (write_frames io d path g current (encode_frames gs)) \<noteq> None"
proof -
  obtain d1 b n where d1: "(if current then (True, d) else reset_log (reset_io io) d path g) = (True, d1)"
    "map_of d1 path = Some b" "read_frames_with_valid_len b = Some (g, old, n)"
  proof (cases current)
    case True
    then show thesis using assms(4) that [of d] by (auto simp: current_log_def read_frames_def)
  next
    case False
    then show thesis
      using assms(2,4) that [of "AList.update path (encode_header g) d" "encode_header g" 9] reset_reads
      by (simp add: reset_log_def write_atomic_at_def healthy_def al.look_put)
  qed
  have "fst (append_frames (append_io io) (Some b) (encode_frames gs)) = Inr ()"
    using assms(2) by (intro append_frames_healthy [OF d1(3) assms(1,3)]) (simp_all add: healthy_def)
  then show ?thesis
    by (cases "append_frames (append_io io) (Some b) (encode_frames gs)")
      (simp add: write_frames_def d1(1,2) append_frames_at_def)
qed

lemma persist_incremental_frames_healthy:
  assumes "healthy io" and "chained None gs"
    and "gen_of (map_of d (ckpt_file simple (dir, p, l))) (map_of d (gen_file simple (dir, p, l))) = Inr g"
    and "tail_of g (map_of d (log_file simple (dir, p, l))) = Some old" and "continues old gs"
  shows "fst (persist_incremental_frames simple io d dir p l (encode_frames gs)) \<noteq> None"
proof -
  let ?path = "log_file simple (dir, p, l)"
  have path: "?path = (dir, scrollback_leaf_log_file_name simple p l)" by (simp add: log_file_def)
  have r: "read_leaf_generation simple (frame_reads io) d dir p l = Inr g"
    using assms(1) by (intro gen_of_read_leaf_generation assms(3)) (simp add: healthy_def)
  have lo: "log_ok (frame_reads io)" using assms(1) by (simp add: healthy_def reads_ok_def)
  show ?thesis
  proof (cases "map_of d ?path")
    case None
    then have "old = []" using assms(4) by (simp add: tail_of_def)
    then show ?thesis
      using write_frames_healthy [OF assms(2,1,5), of False g d ?path] r lo None path
      by (simp add: persist_incremental_frames_def read_optional_history_bytes_def)
  next
    case (Some bs)
    obtain g' fs where bs: "read_frames bs = Some (g', fs)" "old = (if g' = g then fs else [])"
      using assms(4) Some by (auto simp: tail_of_def split: option.splits)
    have "if g' = g then current_log g (map_of d ?path) old else old = []"
      using bs Some by (auto simp: current_log_def)
    from write_frames_healthy [OF assms(2,1,5) this] show ?thesis
      using r lo Some bs(1) path
      by (simp add: persist_incremental_frames_def read_optional_history_bytes_def)
  qed
qed

lemma first_seq_healthy:
  assumes "gen_of (map_of (wk_disk w) (ckpt_file simple k)) (map_of (wk_disk w) (gen_file simple k)) = Inr g"
    and "tail_of g (map_of (wk_disk w) (log_file simple k)) = Some old" and "reads_ok io"
  shows "first_seq simple io w k \<noteq> None"
proof -
  obtain dir p l where k: "k = (dir, p, l)" by (cases k)
  have "read_leaf_generation simple io (wk_disk w) dir p l = Inr g"
    by (rule gen_of_read_leaf_generation [OF assms(1) [unfolded k] assms(3)])
  moreover have "log_ok io" using assms(3) by (simp add: reads_ok_def)
  ultimately show ?thesis
    using assms(2)
    by (auto simp: first_seq_def durable_first_seq_def k log_file_def tail_of_def
        read_optional_history_bytes_def split: option.split option.splits)
qed

text \<open>
  C8: A healthy batch is accepted: after any run from any disk, whatever reads, resets, appends,
  rollbacks, saves and removals failed in it (only not a write together with its own rollback),
  a batch of whole frames for a leaf whose history can be decoded is acknowledged with all its
  bytes as soon as the calls to the file system work, unless the 64-bit sequence is exhausted.
\<close>
theorem healthy_batch_is_acknowledged:
  assumes "uuid_text simple parse" and "\<forall>ev \<in> set evs. calm ev"
    and "w = foldl (history_step simple parse) (fresh_worker d) evs"
    and "history simple (wk_disk w) (storage_key_of w e) \<noteq> None" and "healthy io"
    and "read_frames (encode_header 0 @ ie_frames e) = Some (h, fs)"
    and "\<And>first. first_seq simple (seq_reads io) w (storage_key_of w e) = Some first \<Longrightarrow>
      unat first + length fs < 2 ^ 64 - 1"
  shows "snd (snd (persist_entry simple io w e)) = Some (ack_of e (length (ie_frames e)))"
proof (cases "ie_frames e = []")
  case True
  then show ?thesis by (simp add: persist_entry_def)
next
  case False
  let ?k = "storage_key_of w e"
  have sound: "sequences_sound simple w"
    using history_run_sound [OF assms(1,2)] assms(3) by simp
  obtain g old where g: "gen_of (map_of (wk_disk w) (ckpt_file simple ?k))
      (map_of (wk_disk w) (gen_file simple ?k)) = Inr g"
    and old: "tail_of g (map_of (wk_disk w) (log_file simple ?k)) = Some old"
    using assms(4) by (auto simp: history_eq split: sum.splits)
  have "reads_ok (seq_reads io)" using assms(5) by (simp add: healthy_def)
  then obtain first where first: "first_seq simple (seq_reads io) w ?k = Some first"
    using first_seq_healthy [OF g old] by blast
  have room: "unat first + length fs < 2 ^ 64 - 1" by (rule assms(7) [OF first])
  then have fin: "first \<noteq> - 1" by (auto simp: unsigned_minus_1_eq_mask mask_eq_exp_minus_1)
  obtain out next_seq where rn: "renumber_frames (ie_frames e) first = Some (out, next_seq)"
    using renumber_loop_total [of first fs "[]"] room assms(6) by (auto simp: renumber_frames_def)
  from renumber_frames_spec [OF this] obtain gs where gs: "out = encode_frames gs" "chained None gs"
    "gs \<noteq> [] \<longrightarrow> frame_seq (hd gs) = first" by metis
  have "continues old gs"
    using first_seq_continues [OF first sound fin g old] gs(3) by (auto simp: continues_def)
  then have "fst (persist_incremental_frames simple io (wk_disk w) (ie_dir e) (ie_panel_id e)
      (storage_leaf_id w e) out) \<noteq> None"
    unfolding gs(1)
    by (intro persist_incremental_frames_healthy [OF assms(5) gs(2) g [unfolded storage_key_of_def]
          old [unfolded storage_key_of_def]])
  then show ?thesis
    using False first fin rn by (auto simp: persist_entry_def Let_def split: prod.split option.split)
qed

section \<open>A concrete run\<close>

definition demo_letter :: "u64 \<Rightarrow> u8 \<Rightarrow> frame" where
  "demo_letter n c = \<lparr>frame_seq = n, frame_kind = Output, frame_payload = [c]\<rparr>"

definition demo_key :: storage_key where
  "demo_key = ([100], 1, Some 3)"

text \<open>A batch of two frames that the terminal has numbered 5 and 6.\<close>

definition demo_entry :: incremental_entry where
  "demo_entry = \<lparr>ie_dir = [100], ie_panel_id = 1, ie_leaf_id = Some 3, ie_runtime_session_id = 9,
     ie_frames = encode_frames [demo_letter 5 65, demo_letter 6 66]\<rparr>"

text \<open>The write stops after fifteen bytes, in the second frame, and cannot be rolled back.\<close>

definition demo_faulty_io :: entry_io where
  "demo_faulty_io = healthy_io\<lparr>append_io := healthy_log_io\<lparr>append_ok := False, written := 15,
     rollback_len_ok := False\<rparr>\<rparr>"

lemma demo_letter_fields [simp]:
  "frame_seq (demo_letter n c) = n" "frame_kind (demo_letter n c) = Output"
  "frame_payload (demo_letter n c) = [c]"
  by (simp_all add: demo_letter_def)

lemma chained_demo_letters [simp]:
  "chained None [demo_letter n c]"
  "chained None [demo_letter n c, demo_letter m b] \<longleftrightarrow> checked_inc n = Some m"
  "chained None [demo_letter n c, demo_letter m b, demo_letter k a]
     \<longleftrightarrow> checked_inc n = Some m \<and> checked_inc m = Some k"
  by auto

lemma demo_read_batch:
  assumes "checked_inc n = Some m"
  shows "read_frames_with_valid_len (encode_header 0 @ enc (demo_letter n c) @ enc (demo_letter m b))
    = Some (0, [demo_letter n c, demo_letter m b], 37)"
  using read_log [of "[demo_letter n c, demo_letter m b]" 0] assms by (simp add: encode_log_def)

lemma demo_renumber:
  assumes "checked_inc n = Some m" and "checked_inc m = Some k"
  shows "renumber_frames (ie_frames demo_entry) n
    = Some (encode_frames [demo_letter n 65, demo_letter m 66], k)"
  using demo_read_batch [of 5 6 65 66] assms
  by (simp add: renumber_frames_def demo_entry_def read_frames_def enc_def demo_letter_def checked_inc_def)

lemma demo_torn:
  "read_frames_with_valid_len (encode_header 0 @ enc (demo_letter 1 65) @ take 1 (enc (demo_letter 2 66)))
    = Some (0, [demo_letter 1 65], 23)"
proof -
  have "1 < length (enc ([demo_letter 1 65, demo_letter 2 66] ! 1))" by simp
  then show ?thesis
    using read_cut [of "[demo_letter 1 65, demo_letter 2 66]" 1 "take 1 (enc (demo_letter 2 66))" 0]
    by (fastforce simp: encode_log_def checked_inc_def)
qed

lemma demo_names:
  "map_of [(log_file hex_simple demo_key, bs)] (log_file hex_simple demo_key) = Some bs"
  "map_of [(log_file hex_simple demo_key, bs)] (ckpt_file hex_simple demo_key) = None"
  "map_of [(log_file hex_simple demo_key, bs)] (gen_file hex_simple demo_key) = None"
  using files_distinct [OF hex_uuid_text] by simp_all

lemma demo_generation:
  assumes "map_of d (ckpt_file hex_simple demo_key) = None" and "map_of d (gen_file hex_simple demo_key) = None"
  shows "read_leaf_generation hex_simple all_reads d [100] 1 (Some 3) = Inr 0"
  using assms by (intro gen_of_read_leaf_generation) (simp_all add: gen_of_def demo_key_def reads_ok_def)

definition demo_dirty :: bytes where
  "demo_dirty = encode_header 0 @ enc (demo_letter 1 65) @ take 1 (enc (demo_letter 2 66))"

definition demo_doubled :: bytes where
  "demo_doubled = encode_log 0 [demo_letter 1 65, demo_letter 2 65, demo_letter 3 66]"

definition demo_disk :: "bytes \<Rightarrow> disk" where
  "demo_disk bs = [(log_file hex_simple demo_key, bs)]"

lemma demo_disk_files [simp]:
  "map_of (demo_disk bs) (log_file hex_simple demo_key) = Some bs"
  "map_of (demo_disk bs) (ckpt_file hex_simple demo_key) = None"
  "map_of (demo_disk bs) (gen_file hex_simple demo_key) = None"
  "AList.update (log_file hex_simple demo_key) cs (demo_disk bs) = demo_disk cs"
  "AList.update (log_file hex_simple demo_key) cs [] = demo_disk cs"
  using files_distinct [OF hex_uuid_text] by (simp_all add: demo_disk_def)

lemma demo_log_path: "([100], scrollback_leaf_log_file_name hex_simple 1 (Some 3)) = log_file hex_simple demo_key"
  by (simp add: log_file_def demo_key_def)

lemma demo_entry_fields [simp]:
  "ie_dir demo_entry = [100]" "ie_panel_id demo_entry = 1" "ie_leaf_id demo_entry = Some 3"
  "ie_frames demo_entry \<noteq> []"
  by (simp_all add: demo_entry_def enc_def encode_frame_def u64_le_def)

lemma demo_storage [simp]:
  "legacy_roots w = [] \<Longrightarrow> storage_leaf_id w demo_entry = Some 3"
  "legacy_roots w = [] \<Longrightarrow> storage_key_of w demo_entry = demo_key"
  by (simp_all add: storage_key_of_def storage_leaf_id_def is_legacy_root_def demo_key_def)

lemmas demo_io_fields = demo_faulty_io_def healthy_io_def healthy_log_io_def all_saves_def

lemma demo_faulty_append:
  "append_frames (append_io demo_faulty_io) (Some (encode_header 0))
     (enc (demo_letter 1 65) @ enc (demo_letter 2 66)) = (Inl RollbackFailed, Some demo_dirty)"
  using demo_read_batch [of 1 2 65 66]
  by (simp add: append_frames_def reset_reads Let_def write_batch_def demo_io_fields demo_dirty_def
      continues_def checked_inc_def)

lemma demo_retry_append:
  "append_frames healthy_log_io (Some demo_dirty)
     (enc (demo_letter 2 65) @ enc (demo_letter 3 66)) = (Inr (), Some demo_doubled)"
  using demo_read_batch [of 2 3 65 66] demo_torn
  by (simp add: append_frames_def Let_def write_batch_def healthy_log_io_def demo_dirty_def demo_doubled_def
      continues_def checked_inc_def encode_log_def)

lemma demo_fault:
  "persist_entry hex_simple demo_faulty_io (fresh_worker []) demo_entry
    = (fresh_worker (demo_disk demo_dirty), False, None)"
proof -
  have f: "first_seq hex_simple all_reads (fresh_worker []) demo_key = Some 1"
    using demo_generation [of "[]"]
    by (simp add: first_seq_def durable_first_seq_def fresh_worker_def demo_key_def)
  have r: "renumber_frames (ie_frames demo_entry) 1 = Some (enc (demo_letter 1 65) @ enc (demo_letter 2 66), 3)"
    using demo_renumber [of 1 2 3] by (simp add: checked_inc_def)
  have "persist_incremental_frames hex_simple demo_faulty_io [] [100] 1 (Some 3)
      (enc (demo_letter 1 65) @ enc (demo_letter 2 66)) = (None, demo_disk demo_dirty)"
    using demo_generation [of "[]"] demo_faulty_append
    by (simp add: persist_incremental_frames_def demo_log_path write_frames_def reset_log_def
        write_atomic_at_def append_frames_at_def demo_io_fields demo_disk_def)
  then show ?thesis
    using f r by (simp add: persist_entry_def Let_def demo_io_fields fresh_worker_def)
qed

lemma demo_first: "first_seq hex_simple all_reads (fresh_worker (demo_disk demo_dirty)) demo_key = Some 2"
proof -
  have rd: "read_frames demo_dirty = Some (0, [demo_letter 1 65])"
    using demo_torn by (simp add: read_frames_def demo_dirty_def)
  have g: "read_leaf_generation hex_simple all_reads (demo_disk demo_dirty) [100] 1 (Some 3) = Inr 0"
    by (rule demo_generation) simp_all
  have "durable_first_seq hex_simple all_reads (demo_disk demo_dirty) ([100], 1, Some 3) = Some 2"
    by (simp add: durable_first_seq_def g demo_log_path rd saturating_inc_def)
  then show ?thesis by (simp add: first_seq_def fresh_worker_def demo_key_def)
qed

lemma demo_retry:
  "persist_entry hex_simple healthy_io (fresh_worker (demo_disk demo_dirty)) demo_entry
    = (fresh_worker (demo_disk demo_doubled)\<lparr>next_sequences := [(demo_key, 4)]\<rparr>, False,
       Some (ack_of demo_entry (length (ie_frames demo_entry))))"
proof -
  have rd: "read_frames demo_dirty = Some (0, [demo_letter 1 65])"
    using demo_torn by (simp add: read_frames_def demo_dirty_def)
  have g: "read_leaf_generation hex_simple all_reads (demo_disk demo_dirty) [100] 1 (Some 3) = Inr 0"
    by (rule demo_generation) simp_all
  note f = demo_first
  have r: "renumber_frames (ie_frames demo_entry) 2 = Some (enc (demo_letter 2 65) @ enc (demo_letter 3 66), 4)"
    using demo_renumber [of 2 3 4] by (simp add: checked_inc_def)
  have len: "\<not> MAX_LOG_BYTES < length demo_doubled"
    by (simp add: MAX_LOG_BYTES_def demo_doubled_def encode_log_def)
  have "persist_incremental_frames hex_simple healthy_io (demo_disk demo_dirty) [100] 1 (Some 3)
      (enc (demo_letter 2 65) @ enc (demo_letter 3 66)) = (Some False, demo_disk demo_doubled)"
    using g rd demo_retry_append len
    by (simp add: persist_incremental_frames_def demo_log_path write_frames_def append_frames_at_def
        healthy_io_def)
  then show ?thesis
    using f r by (simp add: persist_entry_def Let_def healthy_io_def fresh_worker_def)
qed

text \<open>
  An example in which a retry after a failed rollback repeats frames. When the first write of a run stops in the
  middle and its rollback fails as well, the worker has no cached number for the log; the retry
  of the same batch then reads the number from the log, renumbers the whole batch behind the
  frames that were left there, and is accepted: the restored history holds those frames twice.
  (With a cached number the log refuses the retry instead.)
\<close>
lemma retry_after_failed_rollback_repeats_frames:
  "let w1 = fst (persist_entry hex_simple demo_faulty_io (fresh_worker []) demo_entry);
       w2 = fst (persist_entry hex_simple healthy_io w1 demo_entry) in
   snd (snd (persist_entry hex_simple healthy_io w1 demo_entry))
     = Some (ack_of demo_entry (length (ie_frames demo_entry)))
   \<and> batch_contents (ie_frames demo_entry) = [(Output, [65]), (Output, [66])]
   \<and> history hex_simple (wk_disk w2) demo_key = Some ([], [(Output, [65]), (Output, [65]), (Output, [66])])"
proof -
  have b: "batch_contents (ie_frames demo_entry) = [(Output, [65]), (Output, [66])]"
    using demo_read_batch [of 5 6 65 66]
    by (simp add: batch_contents_def read_frames_def demo_entry_def content_def checked_inc_def)
  have "read_frames demo_doubled = Some (0, [demo_letter 1 65, demo_letter 2 65, demo_letter 3 66])"
    unfolding demo_doubled_def by (simp add: read_frames_def read_log checked_inc_def)
  then have "history hex_simple (demo_disk demo_doubled) demo_key
      = Some ([], [(Output, [65]), (Output, [65]), (Output, [66])])"
    by (simp add: history_eq gen_of_def text_of_def tail_of_def content_def)
  then show ?thesis using b by (simp add: demo_fault demo_retry)
qed

section \<open>Witnesses\<close>

definition demo_job_io :: job_io where
  "demo_job_io = healthy_job_io\<lparr>entry_ios := \<lambda>i. if i = 0 then demo_faulty_io else healthy_io\<rparr>"

definition demo_batch_job :: "unit job" where
  "demo_batch_job = IncrementalJob \<lparr>ib_dir = [100], ib_entries = [demo_entry, demo_entry],
     ib_live_panels = [(1, [3])], ib_known_panels = [(1, [3])]\<rparr>"

theorem durable_history_refines_witness:
  "\<exists>steps. list_all2 justified (run_log hex_simple parse_simple (fresh_worker [])
        [Run demo_job_io demo_batch_job, Restart, Run healthy_job_io (FullJob [demo_checkpoint])]) steps
    \<and> (\<forall>k. k = demo_key \<longrightarrow> history hex_simple (wk_disk (foldl (history_step hex_simple parse_simple)
          (fresh_worker []) [Run demo_job_io demo_batch_job, Restart, Run healthy_job_io (FullJob [demo_checkpoint])])) k
         = foldl (step_on k) (history hex_simple (wk_disk (fresh_worker [])) k) steps)"
proof (rule durable_history_refines [OF hex_uuid_text, of _ "\<lambda>k. k = demo_key"])
  have "tame (\<lambda>k. k = demo_key) (Run demo_job_io demo_batch_job)"
    by (simp add: demo_batch_job_def spared_def demo_key_def)
  moreover have "utf8_ok [65]" by (simp add: utf8_ascii)
  then have "tame (\<lambda>k. k = demo_key) (Run healthy_job_io (FullJob [demo_checkpoint] :: unit job))"
    by (simp add: texts_ok_def demo_checkpoint_def)
  ultimately show "\<forall>ev \<in> set [Run demo_job_io demo_batch_job, Restart,
      Run healthy_job_io (FullJob [demo_checkpoint])]. tame (\<lambda>k. k = demo_key) ev"
    by simp
qed

theorem healthy_batch_is_acknowledged_witness:
  "snd (snd (persist_entry hex_simple healthy_io (foldl (history_step hex_simple parse_simple)
      (fresh_worker (demo_disk demo_dirty)) [Restart :: unit event]) demo_entry))
    = Some (ack_of demo_entry (length (ie_frames demo_entry)))"
proof -
  let ?evs = "[Restart :: unit event]"
  let ?w = "foldl (history_step hex_simple parse_simple) (fresh_worker (demo_disk demo_dirty)) ?evs"
  have w: "?w = fresh_worker (demo_disk demo_dirty)" by (simp add: fresh_worker_def)
  have k: "storage_key_of ?w demo_entry = demo_key" by (simp add: fresh_worker_def)
  have rd: "read_frames demo_dirty = Some (0, [demo_letter 1 65])"
    using demo_torn by (simp add: read_frames_def demo_dirty_def)
  have h: "history hex_simple (wk_disk ?w) (storage_key_of ?w demo_entry) \<noteq> None"
    unfolding k unfolding w
    by (simp add: history_eq gen_of_def text_of_def tail_of_def rd)
  have io: "healthy healthy_io"
    by (simp add: healthy_def reads_ok_def healthy_io_def healthy_log_io_def all_saves_def)
  have b: "read_frames (encode_header 0 @ ie_frames demo_entry) = Some (0, [demo_letter 5 65, demo_letter 6 66])"
    using demo_read_batch [of 5 6 65 66] by (simp add: read_frames_def demo_entry_def checked_inc_def)
  have s: "unat first + length [demo_letter 5 65, demo_letter 6 66] < 2 ^ 64 - 1"
    if f: "first_seq hex_simple (seq_reads healthy_io) ?w (storage_key_of ?w demo_entry) = Some first" for first
    using f demo_first unfolding k unfolding w by (simp add: healthy_io_def)
  have c: "\<forall>ev \<in> set ?evs. calm ev" by simp
  show ?thesis by (rule healthy_batch_is_acknowledged [OF hex_uuid_text c refl h io b s])
qed

end
