(* ===== verification/PersistenceQueue.thy ===== *)
theory PersistenceQueue
  imports HistoryWorker
begin

text \<open>
  The window's side of \<open>src/app/persistence_worker.rs\<close>: jobs go through a channel of three places
  to the worker's thread, completions come back through another one, and a flag per class of job
  (layout, scrollback, startup capture) says that one is in flight. The theorems show that the
  flags are exact, so at most one job of each class exists anywhere, the channel never refuses a
  job, and closing waits for everything that was accepted.
\<close>

section \<open>The two channels\<close>

datatype job_class = StateClass | ScrollbackClass | RestoreClass

fun class_of_job :: "'st job \<Rightarrow> job_class" where
  "class_of_job (RestoreJob _ _) = RestoreClass"
| "class_of_job (StateJob _) = StateClass"
| "class_of_job (IncrementalJob _) = ScrollbackClass"
| "class_of_job (FullJob _) = ScrollbackClass"

fun class_of_completion :: "'st completion \<Rightarrow> job_class" where
  "class_of_completion (Restored _) = RestoreClass"
| "class_of_completion (StateSaved _ _) = StateClass"
| "class_of_completion (IncrementalDone _ _) = ScrollbackClass"
| "class_of_completion (FullDone _) = ScrollbackClass"

text \<open>\<open>alive\<close> is the worker's thread, \<open>current\<close> the job it has received and not yet answered.\<close>

record 'st persistence =
  jobs :: "'st job list"
  current :: "'st job option"
  completions :: "'st completion list"
  alive :: bool
  wk :: worker
  state_in_flight :: bool
  scrollback_in_flight :: bool
  restore_in_flight :: bool

definition JOB_SLOTS :: nat where
  "JOB_SLOTS = 3"

definition new_persistence :: "disk \<Rightarrow> 'st persistence" where
  "new_persistence d = \<lparr>jobs = [], current = None, completions = [], alive = True, wk = fresh_worker d,
     state_in_flight = False, scrollback_in_flight = False, restore_in_flight = False\<rparr>"

datatype send_result = Sent | Full | Disconnected

definition try_send :: "'st persistence \<Rightarrow> 'st job \<Rightarrow> send_result \<times> 'st persistence" where
  "try_send p job =
     (if \<not> alive p then (Disconnected, p)
      else if length (jobs p) \<ge> JOB_SLOTS then (Full, p)
      else (Sent, p\<lparr>jobs := jobs p @ [job]\<rparr>))"

section \<open>The operations of the window\<close>

definition submit_restore :: "'st persistence \<Rightarrow> bytes \<Rightarrow> (uuid \<times> uuid) list \<Rightarrow> bool \<times> 'st persistence" where
  "submit_restore p dir panels =
     (if restore_in_flight p then (False, p)
      else (case try_send p (RestoreJob dir panels) of
              (Sent, p') \<Rightarrow> (True, p'\<lparr>restore_in_flight := True\<rparr>)
            | (Full, p') \<Rightarrow> (False, p')
            | (Disconnected, p') \<Rightarrow> (False, p')))"

definition submit_state :: "'st persistence \<Rightarrow> 'st \<Rightarrow> bool \<times> 'st persistence" where
  "submit_state p snapshot =
     (if state_in_flight p then (False, p)
      else (case try_send p (StateJob snapshot) of
              (Sent, p') \<Rightarrow> (True, p'\<lparr>state_in_flight := True\<rparr>)
            | (Full, p') \<Rightarrow> (False, p')
            | (Disconnected, p') \<Rightarrow> (False, p')))"

definition submit_incremental :: "'st persistence \<Rightarrow> incremental_batch \<Rightarrow> bool \<times> 'st persistence" where
  "submit_incremental p batch =
     (if scrollback_in_flight p then (False, p)
      else (case try_send p (IncrementalJob batch) of
              (Sent, p') \<Rightarrow> (True, p'\<lparr>scrollback_in_flight := True\<rparr>)
            | (Full, p') \<Rightarrow> (False, p')
            | (Disconnected, p') \<Rightarrow> (False, p')))"

definition submit_full :: "'st persistence \<Rightarrow> full_entry list \<Rightarrow> bool \<times> 'st persistence" where
  "submit_full p entries =
     (if scrollback_in_flight p then (False, p)
      else (case try_send p (FullJob entries) of
              (Sent, p') \<Rightarrow> (True, p'\<lparr>scrollback_in_flight := True\<rparr>)
            | (Full, p') \<Rightarrow> (False, p')
            | (Disconnected, p') \<Rightarrow> (False, p')))"

fun mark_complete :: "'st completion \<Rightarrow> 'st persistence \<Rightarrow> 'st persistence" where
  "mark_complete (Restored _) p = p\<lparr>restore_in_flight := False\<rparr>"
| "mark_complete (StateSaved _ _) p = p\<lparr>state_in_flight := False\<rparr>"
| "mark_complete (IncrementalDone _ _) p = p\<lparr>scrollback_in_flight := False\<rparr>"
| "mark_complete (FullDone _) p = p\<lparr>scrollback_in_flight := False\<rparr>"

definition poll :: "'st persistence \<Rightarrow> 'st completion list \<times> 'st persistence" where
  "poll p = (completions p, foldl (\<lambda>q c. mark_complete c q) (p\<lparr>completions := []\<rparr>) (completions p))"

section \<open>The worker's thread\<close>

text \<open>\<open>jobs_rx.recv()\<close>, then the job itself and the sending of its completion; the thread may die.\<close>

definition worker_take :: "'st persistence \<Rightarrow> 'st persistence" where
  "worker_take p =
     (case (alive p, current p, jobs p) of
        (True, None, job # rest) \<Rightarrow> p\<lparr>current := Some job, jobs := rest\<rparr>
      | _ \<Rightarrow> p)"

definition worker_finish ::
  "(uuid \<Rightarrow> bytes) \<Rightarrow> (bytes \<Rightarrow> uuid option) \<Rightarrow> job_io \<Rightarrow> 'st persistence \<Rightarrow> 'st persistence" where
  "worker_finish simple parse io p =
     (case (alive p, current p) of
        (True, Some job) \<Rightarrow>
          (case worker_job simple parse io (wk p) job of
             (w, completion) \<Rightarrow>
               p\<lparr>wk := w, current := None, completions := completions p @ [completion]\<rparr>)
      | _ \<Rightarrow> p)"

definition worker_dies :: "'st persistence \<Rightarrow> 'st persistence" where
  "worker_dies p = p\<lparr>alive := False, jobs := [], current := None\<rparr>"

text \<open>
  \<open>wait_until_idle\<close>: a blocking \<open>recv\<close> lets the thread work until a completion is there (\<open>ios i\<close> are
  the outcomes of its \<open>i\<close>-th job from here); \<open>None\<close> is a wait that never returns.
\<close>

definition busy :: "'st persistence \<Rightarrow> bool" where
  "busy p \<longleftrightarrow> state_in_flight p \<or> scrollback_in_flight p \<or> restore_in_flight p"

definition clear_flags :: "'st persistence \<Rightarrow> 'st persistence" where
  "clear_flags p = p\<lparr>state_in_flight := False, scrollback_in_flight := False, restore_in_flight := False\<rparr>"

definition pending_jobs :: "'st persistence \<Rightarrow> 'st job list" where
  "pending_jobs p = (case current p of None \<Rightarrow> [] | Some job \<Rightarrow> [job]) @ jobs p"

lemma mark_complete_fields [simp]:
  "jobs (mark_complete c p) = jobs p" "current (mark_complete c p) = current p"
  "completions (mark_complete c p) = completions p" "alive (mark_complete c p) = alive p"
  "wk (mark_complete c p) = wk p"
  by (cases c; simp)+

lemma pending_mark [simp]: "pending_jobs (mark_complete c p) = pending_jobs p"
  by (simp add: pending_jobs_def)

text \<open>The thread works off its next job.\<close>

definition worker_round ::
  "(uuid \<Rightarrow> bytes) \<Rightarrow> (bytes \<Rightarrow> uuid option) \<Rightarrow> job_io \<Rightarrow> 'st persistence \<Rightarrow> 'st persistence" where
  "worker_round simple parse io p = worker_finish simple parse io (worker_take p)"

lemma worker_round_pending:
  assumes "alive p" and "pending_jobs p = job # rest"
  shows "pending_jobs (worker_round simple parse io p) = rest"
    and "completions (worker_round simple parse io p)
      = completions p @ [snd (worker_job simple parse io (wk p) job)]"
    and "alive (worker_round simple parse io p)"
  using assms
  by (auto simp: worker_round_def worker_take_def worker_finish_def pending_jobs_def split_beta
      split: option.splits list.splits)

lemma pending_completions: "pending_jobs (p\<lparr>completions := cs\<rparr>) = pending_jobs p"
  by (simp add: pending_jobs_def)

lemma worker_round_measure:
  assumes "alive p" and "pending_jobs p \<noteq> []" and "completions p = []"
  shows "2 * length (pending_jobs (worker_round simple parse io p))
      + length (completions (worker_round simple parse io p)) < 2 * length (pending_jobs p)"
proof -
  obtain job rest where j: "pending_jobs p = job # rest" using assms(2) by (cases "pending_jobs p") auto
  show ?thesis
    using worker_round_pending [OF assms(1) j, of simple parse io] j assms(3) by simp
qed

function wait_until_idle ::
  "(uuid \<Rightarrow> bytes) \<Rightarrow> (bytes \<Rightarrow> uuid option) \<Rightarrow> (nat \<Rightarrow> job_io) \<Rightarrow> 'st persistence
     \<Rightarrow> 'st completion list \<Rightarrow> ('st completion list \<times> 'st persistence) option" where
  "wait_until_idle simple parse ios p out =
     (if \<not> busy p then Some (out, p)
      else (case completions p of
              c # cs \<Rightarrow> wait_until_idle simple parse ios
                (mark_complete c (p\<lparr>completions := cs\<rparr>)) (out @ [c])
            | [] \<Rightarrow>
                if \<not> alive p then Some (out, clear_flags p)
                else if pending_jobs p = [] then None
                else wait_until_idle simple parse (\<lambda>i. ios (Suc i))
                  (worker_round simple parse (ios 0) p) out))"
  by pat_completeness auto
termination
  by (relation "measure (\<lambda>(_, _, _, p, _). 2 * length (pending_jobs p) + length (completions p))")
    (auto simp: pending_completions worker_round_measure)

declare wait_until_idle.simps [simp del]

section \<open>The flags are exact\<close>

fun in_flight :: "'st persistence \<Rightarrow> job_class \<Rightarrow> bool" where
  "in_flight p StateClass = state_in_flight p"
| "in_flight p ScrollbackClass = scrollback_in_flight p"
| "in_flight p RestoreClass = restore_in_flight p"

text \<open>The classes of the jobs that are queued, running or answered and not yet seen.\<close>

definition outstanding :: "'st persistence \<Rightarrow> job_class list" where
  "outstanding p = map class_of_job (pending_jobs p) @ map class_of_completion (completions p)"

definition queue_ok :: "'st persistence \<Rightarrow> bool" where
  "queue_ok p \<longleftrightarrow> distinct (outstanding p) \<and> (\<forall>c \<in> set (outstanding p). in_flight p c)
     \<and> (alive p \<longrightarrow> (\<forall>c. in_flight p c \<longrightarrow> c \<in> set (outstanding p)))
     \<and> (\<not> alive p \<longrightarrow> pending_jobs p = [])"

lemma all_classes: "(\<forall>c. P c) \<longleftrightarrow> P StateClass \<and> P ScrollbackClass \<and> P RestoreClass"
  by (metis job_class.exhaust)

lemma class_UNIV: "(UNIV :: job_class set) = {StateClass, ScrollbackClass, RestoreClass}"
  by (auto intro: job_class.exhaust)

lemma length_classes_le:
  assumes "distinct cs"
  shows "length (cs :: job_class list) \<le> 3"
proof -
  have "finite (UNIV :: job_class set)" and "card (UNIV :: job_class set) = 3"
    by (simp_all add: class_UNIV)
  then have "card (set cs) \<le> 3" using card_mono [OF _ subset_UNIV, of "set cs"] by simp
  then show ?thesis using distinct_card [OF assms] by simp
qed

lemma length_classes: "distinct cs \<Longrightarrow> c \<notin> set cs \<Longrightarrow> length (cs :: job_class list) < 3"
  using length_classes_le [of "c # cs"] by simp

lemma in_flight_simps [simp]:
  "in_flight (p\<lparr>jobs := js, restore_in_flight := True\<rparr>) c \<longleftrightarrow> c = RestoreClass \<or> in_flight p c"
  "in_flight (p\<lparr>jobs := js, state_in_flight := True\<rparr>) c \<longleftrightarrow> c = StateClass \<or> in_flight p c"
  "in_flight (p\<lparr>jobs := js, scrollback_in_flight := True\<rparr>) c \<longleftrightarrow> c = ScrollbackClass \<or> in_flight p c"
  "in_flight (p\<lparr>completions := cs\<rparr>) c = in_flight p c"
  by (cases c; simp)+

lemma class_of_worker_job: "class_of_completion (snd (worker_job simple parse io w job)) = class_of_job job"
  by (cases job) (simp_all add: worker_job_def split_beta)

lemma in_flight_mark:
  "in_flight (mark_complete c p) cls = (if cls = class_of_completion c then False else in_flight p cls)"
  by (cases c; cases cls) auto

lemma pending_simps [simp]:
  "pending_jobs (p\<lparr>state_in_flight := a\<rparr>) = pending_jobs p"
  "pending_jobs (p\<lparr>scrollback_in_flight := a\<rparr>) = pending_jobs p"
  "pending_jobs (p\<lparr>restore_in_flight := a\<rparr>) = pending_jobs p"
  "pending_jobs (p\<lparr>completions := cs\<rparr>) = pending_jobs p"
  "pending_jobs (p\<lparr>jobs := jobs p @ [job]\<rparr>) = pending_jobs p @ [job]"
  by (simp_all add: pending_jobs_def)

text \<open>An idle class gets its job through: there is always room in the channel.\<close>

lemma try_send_room:
  assumes "queue_ok p" and "\<not> in_flight p c" and "alive p"
  shows "try_send p job = (Sent, p\<lparr>jobs := jobs p @ [job]\<rparr>)"
proof -
  have "distinct (outstanding p)" and "c \<notin> set (outstanding p)"
    using assms(1,2) by (auto simp: queue_ok_def)
  from length_classes [OF this] have "length (jobs p) < 3"
    by (auto simp: outstanding_def pending_jobs_def split: option.splits)
  then show ?thesis using assms(3) by (simp add: try_send_def JOB_SLOTS_def)
qed

text \<open>The step all four submissions share.\<close>

lemma queue_ok_submitted:
  assumes "queue_ok p" and "\<not> in_flight p (class_of_job job)" and "alive p"
    and "\<And>c. in_flight q c = (c = class_of_job job \<or> in_flight p c)"
    and "pending_jobs q = pending_jobs p @ [job]" and "completions q = completions p" and "alive q"
  shows "queue_ok q"
  using assms by (auto simp: queue_ok_def outstanding_def)

lemma submit_cases:
  assumes "queue_ok p"
  shows "submit_restore p dir panels
      = (if alive p \<and> \<not> restore_in_flight p
         then (True, p\<lparr>jobs := jobs p @ [RestoreJob dir panels], restore_in_flight := True\<rparr>) else (False, p))"
    and "submit_state p snapshot
      = (if alive p \<and> \<not> state_in_flight p
         then (True, p\<lparr>jobs := jobs p @ [StateJob snapshot], state_in_flight := True\<rparr>) else (False, p))"
    and "submit_incremental p batch
      = (if alive p \<and> \<not> scrollback_in_flight p
         then (True, p\<lparr>jobs := jobs p @ [IncrementalJob batch], scrollback_in_flight := True\<rparr>) else (False, p))"
    and "submit_full p entries
      = (if alive p \<and> \<not> scrollback_in_flight p
         then (True, p\<lparr>jobs := jobs p @ [FullJob entries], scrollback_in_flight := True\<rparr>) else (False, p))"
  using try_send_room [OF assms, of RestoreClass] try_send_room [OF assms, of StateClass]
    try_send_room [OF assms, of ScrollbackClass]
  by (simp_all add: submit_restore_def submit_state_def submit_incremental_def submit_full_def)
    (simp_all add: try_send_def)

lemma queue_ok_new: "queue_ok (new_persistence d)"
  by (auto simp: queue_ok_def new_persistence_def outstanding_def pending_jobs_def all_classes elim: in_flight.elims)

lemma queue_ok_submit:
  assumes "queue_ok p"
  shows "queue_ok (snd (submit_restore p dir panels))" "queue_ok (snd (submit_state p snapshot))"
    "queue_ok (snd (submit_incremental p batch))" "queue_ok (snd (submit_full p entries))"
proof -
  have step: "queue_ok q"
    if "alive p" "\<not> in_flight p (class_of_job job)"
      "\<And>c. in_flight q c = (c = class_of_job job \<or> in_flight p c)"
      "pending_jobs q = pending_jobs p @ [job]" "completions q = completions p" "alive q" for q job
    using queue_ok_submitted [OF assms that(2,1,3-6)] .
  show "queue_ok (snd (submit_restore p dir panels))"
    using step [of "RestoreJob dir panels" "p\<lparr>jobs := jobs p @ [RestoreJob dir panels], restore_in_flight := True\<rparr>"] assms
    by (simp add: submit_cases)
  show "queue_ok (snd (submit_state p snapshot))"
    using step [of "StateJob snapshot" "p\<lparr>jobs := jobs p @ [StateJob snapshot], state_in_flight := True\<rparr>"] assms
    by (simp add: submit_cases)
  show "queue_ok (snd (submit_incremental p batch))"
    using step [of "IncrementalJob batch" "p\<lparr>jobs := jobs p @ [IncrementalJob batch], scrollback_in_flight := True\<rparr>"] assms
    by (simp add: submit_cases)
  show "queue_ok (snd (submit_full p entries))"
    using step [of "FullJob entries" "p\<lparr>jobs := jobs p @ [FullJob entries], scrollback_in_flight := True\<rparr>"] assms
    by (simp add: submit_cases)
qed

lemma queue_ok_mark:
  assumes "queue_ok p" and "completions p = c # cs"
  shows "queue_ok (mark_complete c (p\<lparr>completions := cs\<rparr>))"
proof -
  have o: "outstanding p = map class_of_job (pending_jobs p) @ class_of_completion c # map class_of_completion cs"
    by (simp add: outstanding_def assms(2))
  show ?thesis
    using assms(1) unfolding queue_ok_def o
    by (auto simp: outstanding_def in_flight_mark)
qed

lemma queue_ok_poll_loop:
  "queue_ok p \<Longrightarrow> completions p = cs \<Longrightarrow>
   queue_ok (foldl (\<lambda>q c. mark_complete c q) (p\<lparr>completions := []\<rparr>) cs)"
proof (induction cs arbitrary: p)
  case Nil
  then show ?case by (metis foldl_Nil persistence.surjective persistence.update_convs(3))
next
  case (Cons c cs)
  have "mark_complete c (p\<lparr>completions := cs\<rparr>)\<lparr>completions := []\<rparr> = mark_complete c (p\<lparr>completions := []\<rparr>)"
    by (cases c) simp_all
  moreover have "queue_ok (foldl (\<lambda>q c. mark_complete c q)
      (mark_complete c (p\<lparr>completions := cs\<rparr>)\<lparr>completions := []\<rparr>) cs)"
    using Cons.prems by (intro Cons.IH queue_ok_mark) simp_all
  ultimately show ?case by simp
qed

lemma worker_take_eq:
  "worker_take p = (if alive p \<and> current p = None \<and> jobs p \<noteq> []
     then p\<lparr>current := Some (hd (jobs p)), jobs := tl (jobs p)\<rparr> else p)"
  by (cases "alive p"; cases "current p"; cases "jobs p") (simp_all add: worker_take_def)

lemma in_flight_take [simp]: "in_flight (p\<lparr>current := a, jobs := js\<rparr>) c = in_flight p c"
  by (cases c) simp_all

lemma worker_take_fields:
  "pending_jobs (worker_take p) = pending_jobs p" "completions (worker_take p) = completions p"
  "alive (worker_take p) = alive p" "wk (worker_take p) = wk p" "in_flight (worker_take p) c = in_flight p c"
  by (auto simp: worker_take_eq pending_jobs_def)

lemma queue_ok_take: "queue_ok p \<Longrightarrow> queue_ok (worker_take p)"
  by (simp add: queue_ok_def outstanding_def worker_take_fields)

lemma worker_finish_fields:
  assumes "alive p" and "current p = Some job"
  shows "pending_jobs p = job # pending_jobs (worker_finish simple parse io p)"
    and "completions (worker_finish simple parse io p) = completions p @ [snd (worker_job simple parse io (wk p) job)]"
    and "wk (worker_finish simple parse io p) = fst (worker_job simple parse io (wk p) job)"
    and "alive (worker_finish simple parse io p)" and "in_flight (worker_finish simple parse io p) c = in_flight p c"
  using assms by (cases c; simp add: worker_finish_def pending_jobs_def split_beta)+

lemma queue_ok_finish:
  assumes "queue_ok p"
  shows "queue_ok (worker_finish simple parse io p)"
proof (cases "alive p \<and> current p \<noteq> None")
  case False
  then have "worker_finish simple parse io p = p"
    by (auto simp: worker_finish_def split: option.split bool.split)
  then show ?thesis using assms by simp
next
  case True
  then obtain job where job: "alive p" "current p = Some job" by auto
  note f = worker_finish_fields [OF job, of simple parse io]
  show ?thesis
    using assms f(4) job(1)
    unfolding queue_ok_def outstanding_def f(2,5) f(1)
    by (simp add: class_of_worker_job)
qed

lemma queue_ok_dies:
  assumes "queue_ok p"
  shows "queue_ok (worker_dies p)"
proof -
  have f: "in_flight (worker_dies p) c = in_flight p c" for c by (cases c) (simp_all add: worker_dies_def)
  have "pending_jobs (worker_dies p) = []" "\<not> alive (worker_dies p)"
    "completions (worker_dies p) = completions p"
    by (simp_all add: worker_dies_def pending_jobs_def)
  then show ?thesis using assms by (simp add: queue_ok_def outstanding_def f)
qed

text \<open>Everything that can happen between a window and its worker.\<close>

datatype 'st queue_event =
    SubmitRestore bytes "(uuid \<times> uuid) list"
  | SubmitState 'st
  | SubmitIncremental incremental_batch
  | SubmitFull "full_entry list"
  | Poll
  | Take
  | Finish job_io
  | Die

fun queue_step ::
  "(uuid \<Rightarrow> bytes) \<Rightarrow> (bytes \<Rightarrow> uuid option) \<Rightarrow> 'st persistence \<Rightarrow> 'st queue_event \<Rightarrow> 'st persistence" where
  "queue_step simple parse p (SubmitRestore dir panels) = snd (submit_restore p dir panels)"
| "queue_step simple parse p (SubmitState snapshot) = snd (submit_state p snapshot)"
| "queue_step simple parse p (SubmitIncremental batch) = snd (submit_incremental p batch)"
| "queue_step simple parse p (SubmitFull entries) = snd (submit_full p entries)"
| "queue_step simple parse p Poll = snd (poll p)"
| "queue_step simple parse p Take = worker_take p"
| "queue_step simple parse p (Finish io) = worker_finish simple parse io p"
| "queue_step simple parse p Die = worker_dies p"

interpretation pq: guarded_machine "new_persistence d" "queue_step simple parse" queue_ok
proof unfold_locales
  show "queue_ok (new_persistence d)" by (rule queue_ok_new)
  show "queue_ok s \<Longrightarrow> queue_ok (queue_step simple parse s e)" for s :: "'st persistence" and e
    by (cases e) (simp_all add: queue_ok_submit queue_ok_take queue_ok_finish queue_ok_dies
        poll_def queue_ok_poll_loop)
qed

text \<open>
  C21: At most one job of each class exists, and the flags say exactly which: after any sequence of
  submissions, polls, steps of the thread and even its death, no class occurs twice among the
  queued jobs, the running job and the unseen completions; there are at most three of them, so the
  channel of three places never fills; each of them has its flag set, and while the thread lives
  no other flag is set. A submission is refused only when its class is in flight or the thread is
  dead, never for a full channel.
\<close>
theorem one_job_per_class:
  assumes "p = foldl (queue_step simple parse) (new_persistence d) evs"
  shows "distinct (outstanding p) \<and> length (outstanding p) \<le> 3
    \<and> (\<forall>c. c \<in> set (outstanding p) \<longrightarrow> in_flight p c)
    \<and> (alive p \<longrightarrow> (\<forall>c. in_flight p c \<longleftrightarrow> c \<in> set (outstanding p)))
    \<and> (fst (submit_restore p dir panels) \<longleftrightarrow> alive p \<and> \<not> restore_in_flight p)
    \<and> (fst (submit_state p snapshot) \<longleftrightarrow> alive p \<and> \<not> state_in_flight p)
    \<and> (fst (submit_incremental p batch) \<longleftrightarrow> alive p \<and> \<not> scrollback_in_flight p)
    \<and> (fst (submit_full p entries) \<longleftrightarrow> alive p \<and> \<not> scrollback_in_flight p)"
proof -
  have ok: "queue_ok p" unfolding assms by (rule pq.run_inv)
  then have d: "distinct (outstanding p)" and f: "c \<in> set (outstanding p) \<Longrightarrow> in_flight p c"
    and e: "alive p \<Longrightarrow> in_flight p c \<Longrightarrow> c \<in> set (outstanding p)" for c
    by (simp_all add: queue_ok_def)
  show ?thesis
  proof (intro conjI)
    show "\<forall>c. c \<in> set (outstanding p) \<longrightarrow> in_flight p c" using f by blast
    show "alive p \<longrightarrow> (\<forall>c. in_flight p c \<longleftrightarrow> c \<in> set (outstanding p))" using e f by blast
  qed (simp_all add: d length_classes_le submit_cases [OF ok])
qed

theorem one_job_per_class_witness:
  "length (outstanding (foldl (queue_step hex_simple parse_simple) (new_persistence [])
     [SubmitState (), SubmitFull [], SubmitState (), SubmitFull [], SubmitRestore [] [], Take])) \<le> 3"
  using one_job_per_class [OF refl, of hex_simple parse_simple "[]" "[SubmitState (), SubmitFull [],
      SubmitState (), SubmitFull [], SubmitRestore [] [], Take]"] by blast

section \<open>Closing\<close>

text \<open>What the thread does with the jobs it still has.\<close>

fun run_jobs ::
  "(uuid \<Rightarrow> bytes) \<Rightarrow> (bytes \<Rightarrow> uuid option) \<Rightarrow> (nat \<Rightarrow> job_io) \<Rightarrow> worker \<Rightarrow> 'st job list
     \<Rightarrow> worker \<times> 'st completion list" where
  "run_jobs simple parse ios w [] = (w, [])"
| "run_jobs simple parse ios w (job # rest) =
     (case worker_job simple parse (ios 0) w job of
        (w1, c) \<Rightarrow>
          (case run_jobs simple parse (\<lambda>i. ios (Suc i)) w1 rest of (w2, cs) \<Rightarrow> (w2, c # cs)))"

lemma busy_iff: "busy p \<longleftrightarrow> (\<exists>c. in_flight p c)"
  by (metis busy_def in_flight.simps job_class.exhaust)

lemma worker_round_ok: "queue_ok p \<Longrightarrow> queue_ok (worker_round simple parse io p)"
  by (simp add: worker_round_def queue_ok_take queue_ok_finish)

lemma worker_round_wk:
  assumes "alive p" and "pending_jobs p = job # rest"
  shows "wk (worker_round simple parse io p) = fst (worker_job simple parse io (wk p) job)"
proof -
  have "current (worker_take p) = Some job"
    using assms by (auto simp: worker_take_eq pending_jobs_def split: option.splits)
  then show ?thesis
    using worker_finish_fields(3) [of "worker_take p" job] assms(1)
    by (simp add: worker_round_def worker_take_fields)
qed

lemma wait_until_idle_spec:
  assumes "queue_ok p" and "alive p"
  shows "\<exists>q. wait_until_idle simple parse ios p out
      = Some (out @ completions p @ snd (run_jobs simple parse ios (wk p) (pending_jobs p)), q)
    \<and> \<not> busy q \<and> pending_jobs q = [] \<and> completions q = [] \<and> alive q
    \<and> wk q = fst (run_jobs simple parse ios (wk p) (pending_jobs p))"
  using assms
proof (induction simple parse ios p out rule: wait_until_idle.induct)
  case (1 simple parse ios p out)
  have "in_flight p c \<longleftrightarrow> c \<in> set (outstanding p)" for c
    using "1.prems" by (auto simp: queue_ok_def)
  then have sure: "busy p \<longleftrightarrow> outstanding p \<noteq> []"
    by (cases "outstanding p") (auto simp: busy_iff)
  show ?case
  proof (cases "busy p")
    case False
    then have "pending_jobs p = []" "completions p = []"
      using sure by (simp_all add: outstanding_def)
    then show ?thesis using False "1.prems"(2) by (simp add: wait_until_idle.simps)
  next
    case busy: True
    show ?thesis
    proof (cases "completions p")
      case (Cons c cs)
      let ?q = "mark_complete c (p\<lparr>completions := cs\<rparr>)"
      have "queue_ok ?q" by (rule queue_ok_mark [OF "1.prems"(1) Cons])
      from "1.IH"(2) [OF _ Cons this] busy "1.prems"(2) Cons
      show ?thesis by (simp add: wait_until_idle.simps [of simple parse ios p out])
    next
      case Nil
      then obtain job rest where j: "pending_jobs p = job # rest"
        using sure busy by (cases "pending_jobs p") (auto simp: outstanding_def)
      let ?q = "worker_round simple parse (ios 0) p"
      note round = worker_round_pending [OF "1.prems"(2) j, of simple parse "ios 0"]
        worker_round_wk [OF "1.prems"(2) j, of simple parse "ios 0"]
      from "1.IH"(1) [OF _ Nil] busy "1.prems" j round(3) worker_round_ok [OF "1.prems"(1)]
      show ?thesis
        by (simp add: wait_until_idle.simps [of simple parse ios p out] Nil j round split_beta)
    qed
  qed
qed

text \<open>
  C22: Closing waits for everything that was accepted: from every state a live worker can be in,
  \<open>wait_until_idle\<close> returns; it hands out the completions that were already there and then those of
  the running and the queued jobs, in the order of submission, the worker has done exactly those
  jobs, nothing is left in either channel and every flag is clear. When the thread has died it
  still returns, with the completions the thread had sent.
\<close>
theorem close_waits_for_everything:
  assumes "p = foldl (queue_step simple parse) (new_persistence d) evs"
  shows "\<exists>out q. wait_until_idle simple parse ios p [] = Some (out, q) \<and> \<not> busy q
    \<and> (alive p \<longrightarrow> out = completions p @ snd (run_jobs simple parse ios (wk p) (pending_jobs p))
         \<and> wk q = fst (run_jobs simple parse ios (wk p) (pending_jobs p))
         \<and> pending_jobs q = [] \<and> completions q = [])
    \<and> (\<not> alive p \<longrightarrow> wk q = wk p \<and> (\<exists>rest. completions p = out @ rest))"
proof -
  have ok: "queue_ok p" unfolding assms by (rule pq.run_inv)
  show ?thesis
  proof (cases "alive p")
    case True
    from wait_until_idle_spec [OF ok True, of simple parse ios "[]"] True show ?thesis by auto
  next
    case False
    have "\<exists>out' q. wait_until_idle simple parse ios p out = Some (out @ out', q) \<and> \<not> busy q
        \<and> wk q = wk p \<and> (\<exists>rest. completions p = out' @ rest)" for out
      using False
    proof (induction "completions p" arbitrary: p out)
      case Nil
      then show ?case
        by (cases "busy p") (auto simp: wait_until_idle.simps clear_flags_def busy_def)
    next
      case (Cons c cs)
      show ?case
      proof (cases "busy p")
        case False
        then show ?thesis by (simp add: wait_until_idle.simps)
      next
        case True
        let ?q = "mark_complete c (p\<lparr>completions := cs\<rparr>)"
        obtain out' q where "wait_until_idle simple parse ios ?q (out @ [c]) = Some ((out @ [c]) @ out', q)"
          "\<not> busy q" "wk q = wk ?q" "\<exists>rest. completions ?q = out' @ rest"
          using Cons.hyps(1) [of ?q "out @ [c]"] Cons.prems by auto
        then show ?thesis
          using True Cons.hyps(2) [symmetric]
          by (intro exI [of _ "c # out'"] exI [of _ q]) (simp add: wait_until_idle.simps [of simple parse ios p])
      qed
    qed
    from this [of "[]"] False show ?thesis by auto
  qed
qed

theorem close_waits_for_everything_witness:
  "\<exists>out q. wait_until_idle hex_simple parse_simple (\<lambda>_. undefined) (foldl (queue_step hex_simple parse_simple)
        (new_persistence []) [SubmitState (), SubmitFull [], Take]) [] = Some (out, q) \<and> \<not> busy q"
  using close_waits_for_everything [OF refl, of hex_simple parse_simple "\<lambda>_. undefined" "[]"
      "[SubmitState (), SubmitFull [], Take]"] by blast

end
