(* ===== verification/TextWords.thy ===== *)
theory TextWords
  imports TextOps
begin

text \<open>
  The words of a text and the decimal forms of numbers: \<open>str::split_whitespace\<close>, and the laws that a
  text put together from visible words reads back as them.
\<close>

definition SPACE :: bytes where
  "SPACE = [0x20]"

text \<open>\<open>str::split_whitespace\<close>, on the characters of a text.\<close>

function split_ws :: "bytes list \<Rightarrow> bytes list" where
  "split_ws [] = []"
| "split_ws (c # cs) =
     (if is_whitespace c then split_ws cs
      else concat (c # takeWhile (\<lambda>x. \<not> is_whitespace x) cs)
             # split_ws (dropWhile (\<lambda>x. \<not> is_whitespace x) cs))"
  by pat_completeness auto
termination
  by (relation "measure length") (auto simp: le_imp_less_Suc length_dropWhile_le)

definition split_whitespace :: "bytes \<Rightarrow> bytes list" where
  "split_whitespace s = split_ws (chars s)"

text \<open>A visible ASCII character.\<close>

definition word_byte :: "u8 \<Rightarrow> bool" where
  "word_byte b \<longleftrightarrow> 33 \<le> b \<and> b < 127"

abbreviation singles :: "bytes \<Rightarrow> bytes list" where
  "singles bs \<equiv> map (\<lambda>b. [b]) bs"

lemma utf8_chars_all_ascii:
  "list_all (\<lambda>b. b < 0x80) a \<Longrightarrow> utf8_chars (a @ r) = map_option ((@) (singles a)) (utf8_chars r)"
proof (induction a)
  case (Cons b a)
  then show ?case by (simp add: utf8_chars_step option.map_comp comp_def)
next
  case Nil
  then show ?case by (cases "utf8_chars r") simp_all
qed

lemma word_byte_ascii: "word_byte b \<Longrightarrow> b < 0x80"
  by (auto simp: word_byte_def word_less_nat_alt)

lemma word_byte_not_space: "word_byte b \<Longrightarrow> \<not> is_whitespace [b]"
  by (auto simp: word_byte_def is_whitespace_def word_le_nat_alt word_less_nat_alt)

lemma space_is_space [simp]: "is_whitespace [0x20]" "is_whitespace [NL]"
  by (simp_all add: is_whitespace_def NL_def)

lemma concat_singles [simp]: "concat (singles bs) = bs"
  by (induction bs) simp_all

lemma split_ws_word:
  assumes "list_all word_byte w" and "w \<noteq> []" and "rest = [] \<or> is_whitespace (hd rest)"
  shows "split_ws (singles w @ rest) = w # split_ws rest"
proof -
  obtain b bs where w: "w = b # bs" using assms(2) by (cases w) auto
  have nws: "\<not> is_whitespace [b]" and all: "\<forall>c \<in> set (singles bs). \<not> is_whitespace c"
    using assms(1) word_byte_not_space by (auto simp: w list_all_iff)
  have "takeWhile (\<lambda>x. \<not> is_whitespace x) (singles bs @ rest)
      = singles bs @ takeWhile (\<lambda>x. \<not> is_whitespace x) rest"
    using all by (intro takeWhile_append2) blast
  moreover have "dropWhile (\<lambda>x. \<not> is_whitespace x) (singles bs @ rest)
      = dropWhile (\<lambda>x. \<not> is_whitespace x) rest"
    using all by (intro dropWhile_append2) blast
  moreover have "takeWhile (\<lambda>x. \<not> is_whitespace x) rest = []"
    "dropWhile (\<lambda>x. \<not> is_whitespace x) rest = rest"
    using assms(3) by (cases rest; simp)+
  moreover have "concat ([b] # singles bs) = w" using concat_singles [of w] by (simp add: w)
  ultimately show ?thesis using nws by (simp add: w)
qed

lemma chars_ascii_append:
  assumes "list_all (\<lambda>b. b < 0x80) a" and "utf8_ok (a @ r)"
  shows "chars (a @ r) = singles a @ chars r" and "utf8_ok r"
  using assms utf8_chars_all_ascii [OF assms(1), of r]
  by (auto simp: chars_def utf8_ok_def split: option.splits)

lemma word_ascii: "list_all word_byte w \<Longrightarrow> list_all (\<lambda>b. b < 0x80) w"
  by (auto simp: list_all_iff word_byte_ascii)

lemma split_whitespace_word:
  assumes "list_all word_byte w" and "w \<noteq> []"
  shows "split_whitespace w = [w]"
    and "utf8_ok r \<Longrightarrow> split_whitespace (w @ SPACE @ r) = w # split_whitespace r"
proof -
  have "utf8_ok (w @ [])" using word_ascii [OF assms(1)] utf8_chars_all_ascii [of w "[]"]
    by (simp add: utf8_ok_def)
  from chars_ascii_append(1) [OF word_ascii [OF assms(1)] this] split_ws_word [OF assms, of "[]"]
  show "split_whitespace w = [w]" by (simp add: split_whitespace_def chars_def)
  assume r: "utf8_ok r"
  have a: "list_all (\<lambda>b. b < 0x80) (w @ SPACE)" using word_ascii [OF assms(1)] by (simp add: SPACE_def)
  have "utf8_ok ((w @ SPACE) @ r)" using utf8_chars_all_ascii [OF a, of r] r by (auto simp: utf8_ok_def)
  from chars_ascii_append(1) [OF a this] have "chars (w @ SPACE @ r) = singles w @ [0x20] # chars r"
    by (simp add: SPACE_def)
  then show "split_whitespace (w @ SPACE @ r) = w # split_whitespace r"
    using split_ws_word [OF assms, of "[0x20] # chars r"] by (simp add: split_whitespace_def)
qed

lemma digit_word: "n < 10 \<Longrightarrow> word_byte (48 + of_nat n)"
proof -
  assume n: "n < 10"
  have "unat (of_nat (48 + n) :: u8) = 48 + n" using n by (subst unat_of_nat) simp
  then show ?thesis using n by (simp add: word_byte_def word_le_nat_alt word_less_nat_alt)
qed

lemma show_nat_words: "list_all word_byte (show_nat n)" "show_nat n \<noteq> []"
proof (induction n rule: show_nat.induct)
  case (1 n)
  { case 1 show ?case
      using "1.IH"(1) by (cases "n < 10") (simp_all add: show_nat.simps [of n] digit_word)
  }
  { case 2 show ?case by (simp add: show_nat.simps [of n]) }
qed

lemma digit_value:
  assumes "n < 10"
  shows "unat (48 + word_of_nat n :: u8) = 48 + n"
proof -
  have "unat (word_of_nat (48 + n) :: u8) = 48 + n" using assms by (subst unat_of_nat) simp
  then show ?thesis by simp
qed

lemma decimal_snoc: "decimal (bs @ [b]) = 10 * decimal bs + (unat b - 48)"
  by (simp add: decimal_def)

lemma is_digit_value: "n < 10 \<Longrightarrow> is_digit (48 + word_of_nat n)"
  by (simp add: is_digit_def word_le_nat_alt digit_value)

lemma decimal_show_nat: "list_all is_digit (show_nat n) \<and> decimal (show_nat n) = n"
proof (induction n rule: show_nat.induct)
  case (1 n)
  show ?case
  proof (cases "n < 10")
    case True
    then have "show_nat n = [] @ [48 + word_of_nat n]" by (simp add: show_nat.simps [of n])
    then show ?thesis using True by (simp add: decimal_snoc [of "[]", simplified] decimal_def is_digit_value digit_value)
  next
    case False
    define d where "d = n mod 10"
    have "show_nat n = show_nat (n div 10) @ [48 + word_of_nat d]"
      using False by (simp add: show_nat.simps [of n] d_def)
    moreover have "d < 10" by (simp add: d_def)
    ultimately show ?thesis using 1 [OF False]
      by (simp add: decimal_snoc is_digit_value digit_value) (simp add: d_def)
  qed
qed

end
