(* ===== verification/RunLease.thy ===== *)
theory RunLease
  imports TextWords
begin

text \<open>
  \<open>src/state/run_marker.rs\<close>: the marker of a run tells a clean end from a sudden death, and its
  token is a lease: the newest instance of the program takes it over and the older ones stop
  writing. Every change of the marker happens under an advisory lock of the directory, which a
  writer keeps for the whole durable write.

  The first sections are the functions of the file over a directory with a marker and a log of the
  runs; then the instances of the program and the lock make a machine. The environment chooses
  process identifiers, tokens (hyphenated identifiers of the uuid crate), times, which processes
  are alive, how much of a failed write got to the disk and who gets the lock.
\<close>

section \<open>Texts\<close>

section \<open>The directory of the run\<close>

definition RUNS_LOG_BYTES :: nat where
  "RUNS_LOG_BYTES = 128 * 1024"

record dirty_run =
  dr_marker :: bytes

text \<open>
  \<open>std::fs::write\<close> opens, truncates and writes: it may fail to open the file, or after some bytes.
\<close>

datatype write_outcome = WriteOk | OpenFailed | WriteFailed nat

definition write_file :: "write_outcome \<Rightarrow> bytes option \<Rightarrow> bytes \<Rightarrow> bool \<times> bytes option" where
  "write_file outcome file data =
     (case outcome of
        WriteOk \<Rightarrow> (True, Some data)
      | OpenFailed \<Rightarrow> (False, file)
      | WriteFailed n \<Rightarrow> (False, Some (take n data)))"

text \<open>The two files and how the calls on them end; \<open>alive pid\<close> is \<open>process_is_alive\<close>.\<close>

record run_dir =
  rd_marker :: "bytes option"
  rd_log :: "bytes option"

record run_io =
  marker_read :: bool
  marker_written :: write_outcome
  log_meta :: bool
  log_read :: bool
  log_trimmed :: write_outcome
  log_opened :: bool
  log_written :: nat
  alive :: "u32 \<Rightarrow> bool"

text \<open>\<open>read_to_string\<close>: \<open>None\<close> for a file that is not there, not readable or not UTF-8.\<close>

definition read_to_string :: "bool \<Rightarrow> bytes option \<Rightarrow> bytes option" where
  "read_to_string ok file = (if ok then Option.bind file from_utf8 else None)"

definition trim_log_if_needed :: "run_io \<Rightarrow> run_dir \<Rightarrow> run_dir" where
  "trim_log_if_needed io d =
     (case rd_log d of
        None \<Rightarrow> d
      | Some log \<Rightarrow>
          if \<not> log_meta io \<or> length log \<le> RUNS_LOG_BYTES then d
          else
            (case read_to_string (log_read io) (rd_log d) of
               None \<Rightarrow> d
             | Some contents \<Rightarrow>
                 (let keep_from = char_boundary_from contents (length contents div 2);
                      aligned = (case find_byte NL (drop keep_from contents) of
                        None \<Rightarrow> keep_from | Some offset \<Rightarrow> keep_from + offset + 1) in
                  d\<lparr>rd_log := snd (write_file (log_trimmed io) (rd_log d) (drop aligned contents))\<rparr>)))"

definition append_log :: "run_io \<Rightarrow> run_dir \<Rightarrow> bytes \<Rightarrow> run_dir" where
  "append_log io d line =
     (let d1 = trim_log_if_needed io d in
      if log_opened io
      then d1\<lparr>rd_log := Some ((case rd_log d1 of None \<Rightarrow> [] | Some log \<Rightarrow> log) @ take (log_written io) line)\<rparr>
      else d1)"

section \<open>The marker\<close>

definition marker_pid :: "bytes \<Rightarrow> u32 option" where
  "marker_pid marker =
     (case split_whitespace marker of [] \<Rightarrow> None | word # _ \<Rightarrow> parse_u32 word)"

definition marker_has_token :: "bool \<Rightarrow> run_dir \<Rightarrow> bytes \<Rightarrow> bool" where
  "marker_has_token ok d token \<longleftrightarrow>
     Option.bind (read_to_string ok (rd_marker d))
       (\<lambda>marker. case split_whitespace marker of _ # word # _ \<Rightarrow> Some word | _ \<Rightarrow> None) = Some token"

text \<open>What the marker of the run before said, when it said anything.\<close>

definition previous_marker :: "run_io \<Rightarrow> run_dir \<Rightarrow> bytes option" where
  "previous_marker io d =
     (case read_to_string (marker_read io) (rd_marker d) of
        None \<Rightarrow> None
      | Some contents \<Rightarrow> if trim contents = [] then None else Some (trim contents))"

definition marker_line :: "u32 \<Rightarrow> bytes \<Rightarrow> bytes \<Rightarrow> bytes" where
  "marker_line pid token timestamp =
     show_nat (unat pid) @ SPACE @ token @ SPACE @ timestamp @ [NL]"

text \<open>The lines that the log gets; \<open>o with acute\<close> is two bytes.\<close>

definition takeover_line :: "bytes \<Rightarrow> bytes \<Rightarrow> bytes" where
  "takeover_line timestamp previous =
     timestamp @ bytes_of '' otra instancia tom'' @ [0xC3, 0xB3]
     @ bytes_of '' la lease de persistencia (marker anterior: '' @ previous @ bytes_of '')'' @ [NL]"

definition dirty_line :: "bytes \<Rightarrow> bytes \<Rightarrow> bytes" where
  "dirty_line timestamp previous =
     timestamp @ bytes_of '' corrida anterior muri'' @ [0xC3, 0xB3]
     @ bytes_of '' sin cierre limpio (marker: '' @ previous @ bytes_of '')'' @ [NL]"

text \<open>The claim under the lock: its result is an error, or the evidence of a sudden death.\<close>

definition try_claim_run_in ::
  "run_io \<Rightarrow> run_dir \<Rightarrow> u32 \<Rightarrow> bytes \<Rightarrow> bytes \<Rightarrow> (unit + dirty_run option) \<times> run_dir" where
  "try_claim_run_in io d pid token timestamp =
     (let previous = previous_marker io d;
          previous_is_live = (case Option.bind previous marker_pid of None \<Rightarrow> False | Some p \<Rightarrow> alive io p);
          d1 = (case previous of
             None \<Rightarrow> d
           | Some p \<Rightarrow>
               append_log io d (if previous_is_live then takeover_line timestamp p else dirty_line timestamp p));
          dirty = (case previous of
             None \<Rightarrow> None
           | Some p \<Rightarrow> if previous_is_live then None else Some \<lparr>dr_marker = p\<rparr>) in
      (case write_file (marker_written io) (rd_marker d) (marker_line pid token timestamp) of
         (ok, file) \<Rightarrow> (if ok then Inr dirty else Inl (), d1\<lparr>rd_marker := file\<rparr>)))"

text \<open>The older form without a token and without the lock, kept for the tests of the file.\<close>

definition begin_run_in :: "run_io \<Rightarrow> run_dir \<Rightarrow> u32 \<Rightarrow> bytes \<Rightarrow> dirty_run option \<times> run_dir" where
  "begin_run_in io d pid timestamp =
     (let previous = previous_marker io d;
          d1 = (case previous of None \<Rightarrow> d | Some p \<Rightarrow> append_log io d (dirty_line timestamp p)) in
      (map_option (\<lambda>p. \<lparr>dr_marker = p\<rparr>) previous,
       d1\<lparr>rd_marker := snd (write_file (marker_written io) (rd_marker d) (show_nat (unat pid) @ SPACE @ timestamp @ [NL]))\<rparr>))"

definition end_run_clean_in :: "bool \<Rightarrow> run_dir \<Rightarrow> run_dir" where
  "end_run_clean_in rm_ok d = (if rm_ok then d\<lparr>rd_marker := None\<rparr> else d)"

section \<open>Instances and the lock\<close>

text \<open>
  A guard is a lock on the directory, or nothing for a process that never began a run. \<open>claim\<close> is
  \<open>RUN_CLAIM\<close>, the token of the instance, which is set whether or not the claim succeeded.
\<close>

datatype write_guard = Unlocked | Locked

record instance_state =
  claim :: "bytes option"
  claim_error :: bool
  write_guard :: "write_guard option"
  running :: bool

record world =
  run_dir :: run_dir
  dir_lock :: "nat option"
  insts :: "nat \<Rightarrow> instance_state"
  writes :: "(nat \<times> bytes) list"

definition fresh_instance :: instance_state where
  "fresh_instance = \<lparr>claim = None, claim_error = False, write_guard = None, running = True\<rparr>"

definition put_inst :: "nat \<Rightarrow> instance_state \<Rightarrow> world \<Rightarrow> world" where
  "put_inst i x w = w\<lparr>insts := (insts w)(i := x)\<rparr>"

text \<open>\<open>lock_run_dir\<close>: it fails when the directory or the lock file does, or after five seconds.\<close>

definition lock_run_dir :: "bool \<Rightarrow> world \<Rightarrow> bool" where
  "lock_run_dir ok w \<longleftrightarrow> ok \<and> dir_lock w = None"

definition begin_run :: "bool \<Rightarrow> run_io \<Rightarrow> nat \<Rightarrow> u32 \<Rightarrow> bytes \<Rightarrow> bytes \<Rightarrow> world \<Rightarrow> dirty_run option \<times> world" where
  "begin_run lock_ok io i pid token timestamp w =
     (case (if lock_run_dir lock_ok w
            then try_claim_run_in io (run_dir w) pid token timestamp else (Inl (), run_dir w)) of
        (result, d) \<Rightarrow>
          (case result of Inl _ \<Rightarrow> None | Inr dirty \<Rightarrow> dirty,
           put_inst i ((insts w i)\<lparr>claim := Some token, claim_error := (result = Inl ())\<rparr>)
             (w\<lparr>run_dir := d\<rparr>)))"

text \<open>\<open>Inl\<close> is the error of the lock, \<open>Inr None\<close> a lost lease.\<close>

definition acquire_write_guard :: "bool \<Rightarrow> bool \<Rightarrow> nat \<Rightarrow> world \<Rightarrow> unit + write_guard option" where
  "acquire_write_guard lock_ok read_ok i w =
     (case claim (insts w i) of
        None \<Rightarrow> Inr (Some Unlocked)
      | Some token \<Rightarrow>
          if \<not> lock_run_dir lock_ok w then Inl ()
          else Inr (if marker_has_token read_ok (run_dir w) token then Some Locked else None))"

definition current_process_may_write :: "bool \<Rightarrow> nat \<Rightarrow> world \<Rightarrow> bool" where
  "current_process_may_write read_ok i w =
     (case claim (insts w i) of None \<Rightarrow> True | Some token \<Rightarrow> marker_has_token read_ok (run_dir w) token)"

definition end_run_clean :: "bool \<Rightarrow> bool \<Rightarrow> bool \<Rightarrow> bool \<Rightarrow> nat \<Rightarrow> world \<Rightarrow> world" where
  "end_run_clean lock_ok read_ok read_again rm_ok i w =
     (case claim (insts w i) of
        None \<Rightarrow> w
      | Some token \<Rightarrow>
          (case acquire_write_guard lock_ok read_ok i w of
             Inr (Some _) \<Rightarrow>
               if marker_has_token read_again (run_dir w) token
               then w\<lparr>run_dir := end_run_clean_in rm_ok (run_dir w)\<rparr> else w
           | _ \<Rightarrow> w))"

datatype lease_event =
    Begin nat bool run_io u32 bytes bytes
  | Acquire nat bool bool
  | Write nat bytes
  | Release nat
  | EndClean nat bool bool bool bool
  | Die nat

text \<open>Giving up a guard closes the lock file.\<close>

definition release_guard :: "nat \<Rightarrow> world \<Rightarrow> world" where
  "release_guard i w =
     (let x = insts w i in
      put_inst i (x\<lparr>write_guard := None\<rparr>)
        (if write_guard x = Some Locked then w\<lparr>dir_lock := None\<rparr> else w))"

text \<open>
  One section of an instance under the lock, or one call. An instance begins its run once and is
  idle in an event after its death; a thread that holds a guard does not take another one.
\<close>

fun lease_step :: "world \<Rightarrow> lease_event \<Rightarrow> world" where
  "lease_step w (Begin i lock_ok io pid token timestamp) =
     (if running (insts w i) \<and> claim (insts w i) = None \<and> write_guard (insts w i) = None
      then snd (begin_run lock_ok io i pid token timestamp w) else w)"
| "lease_step w (Acquire i lock_ok read_ok) =
     (if running (insts w i) \<and> write_guard (insts w i) = None
      then (case acquire_write_guard lock_ok read_ok i w of
              Inr (Some g) \<Rightarrow>
                put_inst i ((insts w i)\<lparr>write_guard := Some g\<rparr>)
                  (if g = Locked then w\<lparr>dir_lock := Some i\<rparr> else w)
            | _ \<Rightarrow> w)
      else w)"
| "lease_step w (Write i bs) =
     (if running (insts w i) \<and> write_guard (insts w i) \<noteq> None then w\<lparr>writes := writes w @ [(i, bs)]\<rparr> else w)"
| "lease_step w (Release i) = (if running (insts w i) then release_guard i w else w)"
| "lease_step w (EndClean i lock_ok read_ok read_again rm_ok) =
     (if running (insts w i) then end_run_clean lock_ok read_ok read_again rm_ok i w else w)"
| "lease_step w (Die i) =
     (let w1 = release_guard i w in put_inst i ((insts w1 i)\<lparr>running := False\<rparr>) w1)"

definition new_world :: "run_dir \<Rightarrow> world" where
  "new_world d = \<lparr>run_dir = d, dir_lock = None, insts = \<lambda>_. fresh_instance, writes = []\<rparr>"

end
