(* ===== verification/RunLeaseSafety.thy ===== *)
theory RunLeaseSafety
  imports RunLease
begin

text \<open>
  What the lease of a run promises: one writer at a time, who is the instance whose token is in
  the marker; an instance that lost the lease never writes again; a sudden death is told from a
  clean end; and what trimming the log of the runs can and cannot do.
\<close>

section \<open>Words of the marker\<close>

text \<open>A token is a hyphenated identifier: thirty-six visible characters.\<close>

definition token_ok :: "bytes \<Rightarrow> bool" where
  "token_ok t \<longleftrightarrow> length t = 36 \<and> list_all word_byte t"

text \<open>However much of a marker got to the disk, its second word is a part of the token.\<close>

definition second_word :: "bytes \<Rightarrow> bytes option" where
  "second_word s = (case split_whitespace s of _ # word # _ \<Rightarrow> Some word | _ \<Rightarrow> None)"

lemma marker_has_token_second:
  "marker_has_token ok d t \<longleftrightarrow> ok \<and> (\<exists>s. rd_marker d = Some s \<and> utf8_ok s \<and> second_word s = Some t)"
  by (auto simp: marker_has_token_def read_to_string_def from_utf8_def second_word_def
      bind_eq_Some_conv split: if_splits)

lemma second_word_line:
  assumes "list_all word_byte p" and "p \<noteq> []" and "list_all word_byte t" and "t \<noteq> []"
    and "utf8_ok (take n (p @ SPACE @ t @ SPACE @ r))"
    and "second_word (take n (p @ SPACE @ t @ SPACE @ r)) = Some u"
  shows "\<exists>k. u = take k t"
proof (cases "n \<le> length p")
  case True
  then have tk: "take n (p @ SPACE @ t @ SPACE @ r) = take n p" by simp
  have "list_all word_byte (take n p)" using assms(1) by (auto simp: list_all_iff dest: in_set_takeD)
  then have "split_whitespace (take n p) = (if take n p = [] then [] else [take n p])"
    using split_whitespace_word(1) by (auto simp: split_whitespace_def chars_def)
  then show ?thesis using assms(6) tk by (auto simp: second_word_def split: if_splits)
next
  case False
  define v where "v = take (n - length p - 1) (t @ SPACE @ r)"
  have tk: "take n (p @ SPACE @ t @ SPACE @ r) = p @ SPACE @ v"
    using False by (simp add: v_def SPACE_def take_Cons')
  have ps: "list_all (\<lambda>b. b < 0x80) (p @ SPACE)" using word_ascii [OF assms(1)] by (simp add: SPACE_def)
  have v: "utf8_ok v" using chars_ascii_append(2) [OF ps, of v] assms(5) tk by simp
  have two: "(case split_whitespace v of word # _ \<Rightarrow> Some word | [] \<Rightarrow> None) = Some u"
    using assms(6) split_whitespace_word(2) [OF assms(1,2) v] tk
    by (simp add: second_word_def split: list.splits)
  show ?thesis
  proof (cases "n - length p - 1 \<le> length t")
    case True
    then have vt: "v = take (n - length p - 1) t" by (simp add: v_def)
    then have "list_all word_byte v" using assms(3) by (auto simp: list_all_iff dest: in_set_takeD)
    then have "split_whitespace v = (if v = [] then [] else [v])"
      using split_whitespace_word(1) by (auto simp: split_whitespace_def chars_def)
    then show ?thesis using two vt by (auto split: if_splits)
  next
    case False
    define r' where "r' = take (n - length p - 2 - length t) r"
    have vr: "v = t @ SPACE @ r'"
      using False by (simp add: v_def r'_def SPACE_def take_Cons' Suc_diff_le)
    have ts: "list_all (\<lambda>b. b < 0x80) (t @ SPACE)" using word_ascii [OF assms(3)] by (simp add: SPACE_def)
    have r': "utf8_ok r'" using chars_ascii_append(2) [OF ts, of r'] v vr by simp
    show ?thesis
      using two split_whitespace_word(2) [OF assms(3,4) r'] vr by (auto intro: exI [of _ "length t"])
  qed
qed

section \<open>The lease\<close>

definition lease_run :: "world \<Rightarrow> lease_event list \<Rightarrow> world" where
  "lease_run w evs = foldl lease_step w evs"

lemma lease_run_simps [simp]:
  "lease_run w [] = w" "lease_run w (ev # evs) = lease_run (lease_step w ev) evs"
  by (simp_all add: lease_run_def)

text \<open>
  A lock belongs to the one instance that holds the guard, whose token is in the marker; a guard
  without a lock belongs to an instance that never began a run.
\<close>

definition guard_ok :: "world \<Rightarrow> nat \<Rightarrow> bool" where
  "guard_ok w i \<longleftrightarrow>
     (write_guard (insts w i) = Some Locked \<longleftrightarrow> dir_lock w = Some i)
     \<and> (write_guard (insts w i) = Some Unlocked \<longrightarrow> claim (insts w i) = None)
     \<and> (dir_lock w = Some i \<longrightarrow>
          (\<exists>t. claim (insts w i) = Some t \<and> marker_has_token True (run_dir w) t))"

definition lease_ok :: "world \<Rightarrow> bool" where
  "lease_ok w \<longleftrightarrow> (\<forall>i. guard_ok w i)"

lemma append_log_marker [simp]: "rd_marker (append_log io d line) = rd_marker d"
  by (simp add: append_log_def trim_log_if_needed_def Let_def split: option.splits)

lemma put_inst_fields [simp]:
  "run_dir (put_inst i x w) = run_dir w" "dir_lock (put_inst i x w) = dir_lock w"
  "insts (put_inst i x w) j = (if j = i then x else insts w j)" "writes (put_inst i x w) = writes w"
  by (simp_all add: put_inst_def)

lemma release_guard_fields [simp]:
  "run_dir (release_guard i w) = run_dir w" "writes (release_guard i w) = writes w"
  "insts (release_guard i w) j = (if j = i then (insts w i)\<lparr>write_guard := None\<rparr> else insts w j)"
  "dir_lock (release_guard i w) = (if write_guard (insts w i) = Some Locked then None else dir_lock w)"
  by (simp_all add: release_guard_def Let_def)

lemma begin_run_fields [simp]:
  "dir_lock (snd (begin_run lock_ok io i pid t ts w)) = dir_lock w"
  "writes (snd (begin_run lock_ok io i pid t ts w)) = writes w"
  "write_guard (insts (snd (begin_run lock_ok io i pid t ts w)) j) = write_guard (insts w j)"
  "claim (insts (snd (begin_run lock_ok io i pid t ts w)) j) = (if j = i then Some t else claim (insts w j))"
  "running (insts (snd (begin_run lock_ok io i pid t ts w)) j) = running (insts w j)"
  by (auto simp: begin_run_def split: prod.splits)

lemma begin_run_dir:
  "run_dir (snd (begin_run lock_ok io i pid t ts w))
     = (if lock_run_dir lock_ok w then snd (try_claim_run_in io (run_dir w) pid t ts) else run_dir w)"
  by (auto simp: begin_run_def split: prod.splits)

lemma end_run_clean_fields [simp]:
  "dir_lock (end_run_clean lock_ok rd rd' rm i w) = dir_lock w"
  "writes (end_run_clean lock_ok rd rd' rm i w) = writes w"
  "insts (end_run_clean lock_ok rd rd' rm i w) = insts w"
  by (auto simp: end_run_clean_def split: option.splits sum.splits)

lemma end_run_clean_dir:
  "run_dir (end_run_clean lock_ok rd rd' rm i w) = run_dir w
   \<or> dir_lock w = None \<and> run_dir (end_run_clean lock_ok rd rd' rm i w) = end_run_clean_in rm (run_dir w)
     \<and> (\<exists>t. claim (insts w i) = Some t \<and> marker_has_token True (run_dir w) t)"
  by (auto simp: end_run_clean_def acquire_write_guard_def lock_run_dir_def marker_has_token_def
      read_to_string_def split: option.splits sum.splits if_splits)

lemma marker_has_token_True: "marker_has_token rd d t \<Longrightarrow> marker_has_token True d t"
  by (simp add: marker_has_token_second)

lemma lease_ok_step:
  assumes "lease_ok w"
  shows "lease_ok (lease_step w ev)"
proof -
  have ok: "\<And>i. guard_ok w i" using assms by (simp add: lease_ok_def)
  have "guard_ok (lease_step w ev) j" for j
  proof (cases ev)
    case (Begin i lock_ok io pid t ts)
    then show ?thesis using ok [of j] ok [of i]
      by (cases "lock_run_dir lock_ok w") (auto simp: guard_ok_def begin_run_dir lock_run_dir_def)
  next
    case (Acquire i lock_ok rd)
    then show ?thesis using ok [of j] ok [of i]
      by (auto simp: guard_ok_def acquire_write_guard_def lock_run_dir_def marker_has_token_True
          split: option.splits)
  next
    case (EndClean i lock_ok rd rd' rm)
    then show ?thesis using ok [of j] end_run_clean_dir [of lock_ok rd rd' rm i w]
      by (auto simp: guard_ok_def)
  next
    case (Release i)
    then show ?thesis using ok [of j] ok [of i] by (auto simp: guard_ok_def)
  next
    case (Die i)
    then show ?thesis using ok [of j] ok [of i] by (auto simp: guard_ok_def Let_def)
  qed (use ok [of j] in \<open>auto simp: guard_ok_def\<close>)
  then show ?thesis by (simp add: lease_ok_def)
qed

lemma lease_ok_new: "lease_ok (new_world d)"
  by (simp add: lease_ok_def guard_ok_def new_world_def fresh_instance_def)

interpretation lease: guarded_machine "new_world d" lease_step lease_ok for d
  by unfold_locales (simp_all add: lease_ok_new lease_ok_step)

lemmas lease_ok_reachable = lease.run_inv [folded lease_run_def]

section \<open>A lost lease is lost for good\<close>

lemma claimed_marker:
  assumes "marker_has_token True (snd (try_claim_run_in io d pid t ts)) u"
    and "token_ok t" and "token_ok u"
  shows "u = t \<or> marker_has_token True d u"
proof -
  define line where "line = marker_line pid t ts"
  have d: "rd_marker (snd (try_claim_run_in io d pid t ts))
      = snd (write_file (marker_written io) (rd_marker d) line)"
    by (auto simp: try_claim_run_in_def line_def Let_def split: prod.splits option.splits)
  have "snd (write_file (marker_written io) (rd_marker d) line) = rd_marker d
      \<or> (\<exists>n. snd (write_file (marker_written io) (rd_marker d) line) = Some (take n line))"
    by (cases "marker_written io") (auto simp: write_file_def intro: exI [of _ "length line"])
  then show ?thesis
  proof
    assume "snd (write_file (marker_written io) (rd_marker d) line) = rd_marker d"
    then show ?thesis using assms(1) d by (simp add: marker_has_token_second)
  next
    assume "\<exists>n. snd (write_file (marker_written io) (rd_marker d) line) = Some (take n line)"
    then obtain n where "rd_marker (snd (try_claim_run_in io d pid t ts)) = Some (take n line)"
      using d by auto
    with assms(1) have "utf8_ok (take n line)" "second_word (take n line) = Some u"
      by (auto simp: marker_has_token_second)
    moreover have "t \<noteq> []" using assms(2) by (auto simp: token_ok_def)
    ultimately obtain k where "u = take k t"
      using second_word_line [OF show_nat_words, of t n "unat pid" "ts @ [NL]" u] assms(2)
      by (auto simp add: line_def marker_line_def token_ok_def simp del: take_append)
    moreover have "length u = length t" using assms(2,3) by (simp add: token_ok_def)
    ultimately show ?thesis by simp
  qed
qed

text \<open>The instances that begin later bring tokens of their own.\<close>

definition begins_with_others :: "bytes \<Rightarrow> lease_event list \<Rightarrow> bool" where
  "begins_with_others t evs \<longleftrightarrow>
     list_all (\<lambda>ev. case ev of Begin _ _ _ _ t' _ \<Rightarrow> token_ok t' \<and> t' \<noteq> t | _ \<Rightarrow> True) evs"

definition lost :: "nat \<Rightarrow> bytes \<Rightarrow> world \<Rightarrow> bool" where
  "lost i t w \<longleftrightarrow> claim (insts w i) = Some t \<and> \<not> marker_has_token True (run_dir w) t"

definition writes_of :: "nat \<Rightarrow> world \<Rightarrow> bytes list" where
  "writes_of i w = map snd (filter (\<lambda>(j, _). j = i) (writes w))"

lemma lost_step:
  assumes "lease_ok w" and "lost i t w" and "token_ok t" and "begins_with_others t [ev]"
  shows "lost i t (lease_step w ev) \<and> writes_of i (lease_step w ev) = writes_of i w"
proof -
  have none: "write_guard (insts w i) = None"
  proof (cases "write_guard (insts w i)")
    case (Some g)
    then show ?thesis using assms(1,2) by (cases g) (auto simp: lease_ok_def guard_ok_def lost_def)
  qed
  show ?thesis
  proof (cases ev)
    case (Begin j lock_ok io pid t' ts)
    then show ?thesis using assms claimed_marker [of io "run_dir w" pid t' ts t]
      by (auto simp: lost_def begin_run_dir begins_with_others_def writes_of_def)
  next
    case (Acquire j lock_ok rd)
    then show ?thesis using assms(2)
      by (auto simp: lost_def writes_of_def split: option.splits sum.splits)
  next
    case (EndClean j lock_ok rd rd' rm)
    have "\<not> marker_has_token True (end_run_clean_in rm (run_dir w)) t"
      using assms(2) by (auto simp: lost_def end_run_clean_in_def marker_has_token_second)
    with EndClean show ?thesis using assms(2) end_run_clean_dir [of lock_ok rd rd' rm j w]
      by (auto simp: lost_def writes_of_def)
  qed (use assms(2) none in \<open>auto simp: lost_def writes_of_def Let_def\<close>)
qed

lemma lost_run:
  assumes "lease_ok w" and "lost i t w" and "token_ok t" and "begins_with_others t evs"
  shows "lost i t (lease_run w evs) \<and> writes_of i (lease_run w evs) = writes_of i w"
  using assms
proof (induction evs arbitrary: w)
  case (Cons ev evs)
  have "begins_with_others t [ev]" "begins_with_others t evs"
    using Cons.prems(4) by (simp_all add: begins_with_others_def)
  then show ?case
    using Cons.IH [OF lease_ok_step [OF Cons.prems(1)]] lost_step [OF Cons.prems(1-3)] Cons.prems(3)
    by simp
qed simp

section \<open>Reading a marker back\<close>

lemma parse_show_nat: "parse_u32 (show_nat (unat pid)) = Some pid"
proof -
  have "show_nat (unat pid) \<noteq> []" "list_all is_digit (show_nat (unat pid))" "decimal (show_nat (unat pid)) = unat pid"
    using show_nat_words decimal_show_nat by auto
  moreover from this(1,2) have "hd (show_nat (unat pid)) \<noteq> 43"
    by (cases "show_nat (unat pid)") (auto simp: is_digit_def word_le_nat_alt)
  moreover have "unat pid < 2 ^ 32" using unsigned_less [of pid] by simp
  ultimately show ?thesis by (simp add: parse_u32_def)
qed

lemma trim_line:
  assumes "list_all (\<lambda>b. b < 0x80) bs" and "bs \<noteq> []" and "word_byte (hd bs)" and "word_byte (last bs)"
  shows "trim (bs @ [NL]) = bs" "utf8_ok (bs @ [NL])"
proof -
  have "list_all (\<lambda>b. b < 0x80) (bs @ [NL])" using assms(1) by (simp add: NL_def)
  from utf8_chars_all_ascii [OF this, of "[]"] have u: "utf8_chars (bs @ [NL]) = Some (singles bs @ [[NL]])"
    by (simp add: utf8_chars.simps)
  obtain b cs where b: "bs = b # cs" using assms(2) by (cases bs) auto
  obtain ds c where c: "bs = ds @ [c]" using assms(2) by (cases bs rule: rev_cases) auto
  have "dropWhile is_whitespace (singles bs @ [[NL]]) = singles bs @ [[NL]]"
    using assms(3) word_byte_not_space by (simp add: b)
  moreover have "dropWhile is_whitespace (rev (singles bs @ [[NL]])) = rev (singles bs)"
    using assms(4) word_byte_not_space by (simp add: c)
  ultimately have "trim_chars (singles bs @ [[NL]]) = singles bs" by (simp add: trim_chars_def)
  then show "trim (bs @ [NL]) = bs" using u concat_singles by (simp add: trim_def)
  show "utf8_ok (bs @ [NL])" using u by (simp add: utf8_ok_def)
qed

definition marker_text :: "u32 \<Rightarrow> bytes \<Rightarrow> bytes \<Rightarrow> bytes" where
  "marker_text pid token timestamp = show_nat (unat pid) @ SPACE @ token @ SPACE @ timestamp"

lemma marker_text_reads:
  assumes "token_ok t" and "list_all word_byte ts" and "ts \<noteq> []"
  shows "trim (marker_line pid t ts) = marker_text pid t ts"
    and "utf8_ok (marker_line pid t ts)"
    and "marker_pid (marker_text pid t ts) = Some pid" and "marker_text pid t ts \<noteq> []"
    and "second_word (marker_text pid t ts) = Some t"
proof -
  have t: "list_all word_byte t" "t \<noteq> []" using assms(1) by (auto simp: token_ok_def)
  have a: "list_all (\<lambda>b. b < 0x80) (marker_text pid t ts)"
    using word_ascii [OF show_nat_words(1)] word_ascii [OF t(1)] word_ascii [OF assms(2)]
    by (simp add: marker_text_def SPACE_def)
  have line: "marker_line pid t ts = marker_text pid t ts @ [NL]"
    by (simp add: marker_line_def marker_text_def)
  show ne: "marker_text pid t ts \<noteq> []" by (simp add: marker_text_def SPACE_def)
  have "word_byte (hd (marker_text pid t ts))"
    using show_nat_words [of "unat pid"] by (cases "show_nat (unat pid)") (auto simp: marker_text_def)
  moreover have "word_byte (last (marker_text pid t ts))"
    using assms(2,3) by (cases ts rule: rev_cases) (auto simp: marker_text_def)
  ultimately show "trim (marker_line pid t ts) = marker_text pid t ts" "utf8_ok (marker_line pid t ts)"
    using trim_line [OF a ne] by (simp_all add: line)
  have "utf8_ok (ts @ [])" using word_ascii [OF assms(2)] utf8_chars_all_ascii [of ts "[]"] by (simp add: utf8_ok_def)
  then have 1: "utf8_ok ts" by simp
  have "list_all (\<lambda>b. b < 0x80) (t @ SPACE)" using word_ascii [OF t(1)] by (simp add: SPACE_def)
  from utf8_chars_all_ascii [OF this, of ts] 1 have 2: "utf8_ok (t @ SPACE @ ts)" by (auto simp: utf8_ok_def)
  have "split_whitespace (marker_text pid t ts) = show_nat (unat pid) # t # split_whitespace ts"
    using split_whitespace_word(2) [OF show_nat_words 2] split_whitespace_word(2) [OF t 1]
    by (simp add: marker_text_def)
  then show "marker_pid (marker_text pid t ts) = Some pid" "second_word (marker_text pid t ts) = Some t"
    by (simp_all add: marker_pid_def second_word_def parse_show_nat)
qed

lemma second_word_of_line:
  assumes "token_ok t" and "list_all word_byte ts" and "ts \<noteq> []"
  shows "second_word (marker_line pid t ts) = Some t"
proof -
  have t: "list_all word_byte t" "t \<noteq> []" using assms(1) by (auto simp: token_ok_def)
  have "list_all (\<lambda>b. b < 0x80) (t @ SPACE @ ts @ [NL])" "list_all (\<lambda>b. b < 0x80) (ts @ [NL])"
    using word_ascii [OF t(1)] word_ascii [OF assms(2)] by (simp_all add: SPACE_def NL_def)
  from this [THEN utf8_chars_all_ascii, of "[]"] have "utf8_ok (t @ SPACE @ ts @ [NL])" "utf8_ok (ts @ [NL])"
    by (simp_all add: utf8_ok_def)
  then show ?thesis
    using split_whitespace_word(2) [OF show_nat_words, of "t @ SPACE @ ts @ [NL]" "unat pid"]
      split_whitespace_word(2) [OF t, of "ts @ [NL]"]
    by (simp add: marker_line_def second_word_def)
qed

lemma claim_writes_marker:
  assumes "marker_written io = WriteOk"
  shows "rd_marker (snd (try_claim_run_in io d pid t ts)) = Some (marker_line pid t ts)"
    "\<exists>dirty. fst (try_claim_run_in io d pid t ts) = Inr dirty"
  using assms by (auto simp: try_claim_run_in_def write_file_def Let_def)

section \<open>Properties\<close>

lemma locked_step:
  assumes "lease_ok w" and "write_guard (insts w i) = Some Locked" and "ev \<noteq> Release i" and "ev \<noteq> Die i"
  shows "run_dir (lease_step w ev) = run_dir w \<and> write_guard (insts (lease_step w ev) i) = Some Locked
       \<and> claim (insts (lease_step w ev) i) = claim (insts w i)"
proof -
  have "guard_ok w i" using assms(1) by (simp add: lease_ok_def)
  then have lock: "dir_lock w = Some i" "claim (insts w i) \<noteq> None"
    using assms(2) by (auto simp: guard_ok_def)
  show ?thesis
  proof (cases ev)
    case (EndClean j lock_ok rd rd' rm)
    then show ?thesis using lock assms(2) end_run_clean_dir [of lock_ok rd rd' rm j w] by auto
  qed (use assms(2-) lock in \<open>auto simp: begin_run_dir lock_run_dir_def Let_def split: option.splits sum.splits\<close>)
qed

lemma alone_under_lock:
  assumes "guard_ok w i" and "guard_ok w j" and "write_guard (insts w i) = Some Locked"
    and "j \<noteq> i" and "claim (insts w j) \<noteq> None"
  shows "write_guard (insts w j) = None"
proof (cases "write_guard (insts w j)")
  case (Some g)
  then show ?thesis using assms by (cases g) (auto simp: guard_ok_def)
qed simp

text \<open>
  C4: The lease holds for a whole durable write. From the moment an instance has locked the
  directory until it gives up the guard or dies, whatever the other instances do, the marker and
  the log of the runs do not change, the marker has the instance's token, and no other instance
  that began a run has a guard to write under.
\<close>
theorem lease_holds_for_the_whole_write:
  assumes "w = lease_run (new_world d) evs" and "write_guard (insts w i) = Some Locked"
    and "Release i \<notin> set during" and "Die i \<notin> set during"
  shows "run_dir (lease_run w during) = run_dir w
    \<and> (\<exists>t. claim (insts w i) = Some t \<and> marker_has_token True (run_dir (lease_run w during)) t)
    \<and> (\<forall>j. j \<noteq> i \<and> claim (insts (lease_run w during) j) \<noteq> None
         \<longrightarrow> write_guard (insts (lease_run w during) j) = None)"
proof -
  have "lease_ok w" using assms(1) lease_ok_reachable by simp
  then have "run_dir (lease_run w during) = run_dir w \<and> lease_ok (lease_run w during)
      \<and> write_guard (insts (lease_run w during) i) = Some Locked"
    using assms(2-4)
  proof (induction during arbitrary: w)
    case (Cons ev during)
    have "ev \<noteq> Release i" "ev \<noteq> Die i" using Cons.prems(3,4) by auto
    note step = locked_step [OF Cons.prems(1,2) this]
    show ?case using Cons.IH [OF lease_ok_step [OF Cons.prems(1)]] step Cons.prems(3,4) by simp
  qed simp
  then have dir: "run_dir (lease_run w during) = run_dir w"
    and ok: "\<And>j. guard_ok (lease_run w during) j"
    and i: "write_guard (insts (lease_run w during) i) = Some Locked" by (auto simp: lease_ok_def)
  have "guard_ok w i" using \<open>lease_ok w\<close> by (simp add: lease_ok_def)
  then have "\<exists>t. claim (insts w i) = Some t \<and> marker_has_token True (run_dir (lease_run w during)) t"
    using assms(2) dir by (auto simp: guard_ok_def)
  moreover have "write_guard (insts (lease_run w during) j) = None"
    if "j \<noteq> i" "claim (insts (lease_run w during) j) \<noteq> None" for j
    using alone_under_lock [OF ok ok i] that by blast
  ultimately show ?thesis using dir by blast
qed

text \<open>
  C14: An instance that lost the lease is superseded for good. Once the marker no longer has the
  token of an instance, nothing that happens later (claims of other instances, torn ones included,
  clean ends, deaths) lets the instance write again, provided the later instances bring tokens
  other than its own.
\<close>
theorem superseded_instance_never_writes:
  assumes "w = lease_run (new_world d) evs" and "claim (insts w i) = Some t" and "token_ok t"
    and "\<not> marker_has_token True (run_dir w) t" and "begins_with_others t later"
  shows "writes_of i (lease_run w later) = writes_of i w
    \<and> \<not> current_process_may_write rd i (lease_run w later)"
proof -
  have "lost i t (lease_run w later) \<and> writes_of i (lease_run w later) = writes_of i w"
    using lost_run [of w i t later] assms lease_ok_reachable by (simp add: lost_def)
  then show ?thesis
    using marker_has_token_True by (auto simp: lost_def current_process_may_write_def)
qed

text \<open>
  A sudden death is told from a clean end and from a second instance. After a claim whose
  marker was written, the next claim that can read the marker and write its own reports the marker
  of a process that is no longer alive, reports nothing while the process is alive, and reports
  nothing once the run has ended cleanly.
\<close>
theorem death_is_told_from_clean_end:
  assumes "marker_written io = WriteOk" and "token_ok t" and "list_all word_byte ts" and "ts \<noteq> []"
    and "d1 = snd (try_claim_run_in io d pid t ts)"
    and "marker_read io' \<and> marker_written io' = WriteOk"
  shows "fst (try_claim_run_in io' d1 pid' t' ts')
       = Inr (if alive io' pid then None else Some \<lparr>dr_marker = marker_text pid t ts\<rparr>)
    \<and> fst (try_claim_run_in io' (end_run_clean_in True d1) pid' t' ts') = Inr None"
proof -
  have "rd_marker d1 = Some (marker_line pid t ts)"
    using claim_writes_marker [OF assms(1)] assms(5) by simp
  then have "previous_marker io' d1 = Some (marker_text pid t ts)"
    using assms(6) marker_text_reads [OF assms(2-4), of pid]
    by (simp add: previous_marker_def read_to_string_def from_utf8_def)
  then have "fst (try_claim_run_in io' d1 pid' t' ts')
       = Inr (if alive io' pid then None else Some \<lparr>dr_marker = marker_text pid t ts\<rparr>)"
    using assms(6) marker_text_reads(3) [OF assms(2-4), of pid]
    by (auto simp: try_claim_run_in_def write_file_def Let_def)
  moreover have "fst (try_claim_run_in io' (end_run_clean_in True d1) pid' t' ts') = Inr None"
    using assms(6) by (simp add: try_claim_run_in_def write_file_def previous_marker_def
        read_to_string_def end_run_clean_in_def Let_def)
  ultimately show ?thesis ..
qed

section \<open>Two instances\<close>

definition demo_io :: run_io where
  "demo_io = \<lparr>marker_read = True, marker_written = WriteOk, log_meta = True, log_read = True,
     log_trimmed = WriteOk, log_opened = True, log_written = 1000, alive = \<lambda>_. True\<rparr>"

definition token_a :: bytes where "token_a = replicate 36 0x61"
definition token_b :: bytes where "token_b = replicate 36 0x62"
definition demo_time :: bytes where "demo_time = bytes_of ''2024''"

definition demo_begin :: "nat \<Rightarrow> u32 \<Rightarrow> bytes \<Rightarrow> lease_event" where
  "demo_begin i pid t = Begin i True demo_io pid t demo_time"

definition world_a :: world where
  "world_a = lease_run (new_world \<lparr>rd_marker = None, rd_log = None\<rparr>) [demo_begin 0 7 token_a]"

definition world_ab :: world where
  "world_ab = lease_run (new_world \<lparr>rd_marker = None, rd_log = None\<rparr>) [demo_begin 0 7 token_a, demo_begin 1 8 token_b]"

lemma demo_tokens: "token_ok token_a" "token_ok token_b" "token_a \<noteq> token_b"
  "list_all word_byte demo_time" "demo_time \<noteq> []"
  by code_simp+

lemma world_a_facts:
  "claim (insts world_a 0) = Some token_a" "claim (insts world_a (Suc 0)) = None" "write_guard (insts world_a i) = None"
  "dir_lock world_a = None" "running (insts world_a i)"
  "rd_marker (run_dir world_a) = Some (marker_line 7 token_a demo_time)"
  by (simp_all add: world_a_def demo_begin_def new_world_def fresh_instance_def begin_run_dir lock_run_dir_def
      claim_writes_marker demo_io_def)

lemma world_ab_lost: "claim (insts world_ab 0) = Some token_a" "\<not> marker_has_token True (run_dir world_ab) token_a"
proof -
  have ab: "world_ab = lease_step world_a (demo_begin 1 8 token_b)"
    by (simp add: world_ab_def world_a_def)
  show "claim (insts world_ab 0) = Some token_a" by (simp add: ab demo_begin_def world_a_facts)
  have "run_dir world_ab = snd (try_claim_run_in demo_io (run_dir world_a) 8 token_b demo_time)"
    by (simp add: ab demo_begin_def world_a_facts begin_run_dir lock_run_dir_def)
  moreover have "marker_written demo_io = WriteOk" by (simp add: demo_io_def)
  ultimately have "rd_marker (run_dir world_ab) = Some (marker_line 8 token_b demo_time)"
    using claim_writes_marker(1) by metis
  then show "\<not> marker_has_token True (run_dir world_ab) token_a"
    using second_word_of_line [OF demo_tokens(2,4,5), of 8] demo_tokens(3) by (auto simp: marker_has_token_second)
qed

theorem superseded_instance_never_writes_witness:
  "writes_of 0 (lease_run world_ab [Acquire 0 True True, Write 0 [1]]) = writes_of 0 world_ab
    \<and> \<not> current_process_may_write True 0 (lease_run world_ab [Acquire 0 True True, Write 0 [1]])"
  by (rule superseded_instance_never_writes [OF world_ab_def world_ab_lost(1) demo_tokens(1) world_ab_lost(2)])
    (simp add: begins_with_others_def)

theorem death_is_told_from_clean_end_witness:
  "fst (try_claim_run_in demo_io (snd (try_claim_run_in demo_io \<lparr>rd_marker = None, rd_log = None\<rparr> 7 token_a demo_time))
      8 token_b demo_time) = Inr (if alive demo_io 7 then None else Some \<lparr>dr_marker = marker_text 7 token_a demo_time\<rparr>)
   \<and> fst (try_claim_run_in demo_io (end_run_clean_in True
        (snd (try_claim_run_in demo_io \<lparr>rd_marker = None, rd_log = None\<rparr> 7 token_a demo_time)))
      8 token_b demo_time) = Inr None"
  by (rule death_is_told_from_clean_end [OF _ demo_tokens(1,4,5) refl]) (simp_all add: demo_io_def)

definition world_locked :: world where
  "world_locked = lease_run (new_world \<lparr>rd_marker = None, rd_log = None\<rparr>)
     [demo_begin 0 7 token_a, Acquire 0 True True]"

lemma world_locked_guard: "write_guard (insts world_locked 0) = Some Locked"
proof -
  have "marker_has_token True (run_dir world_a) token_a"
    using marker_text_reads(2) [OF demo_tokens(1,4,5)] second_word_of_line [OF demo_tokens(1,4,5)] world_a_facts(6)
    by (simp add: marker_has_token_second)
  then have "write_guard (insts (lease_step world_a (Acquire 0 True True)) 0) = Some Locked"
    by (simp add: acquire_write_guard_def world_a_facts lock_run_dir_def)
  then show ?thesis by (simp only: world_locked_def world_a_def lease_run_simps)
qed

theorem lease_holds_for_the_whole_write_witness:
  "run_dir (lease_run world_locked [Begin 1 True demo_io 8 token_b demo_time, Write 0 [1]]) = run_dir world_locked
    \<and> (\<exists>t. claim (insts world_locked 0) = Some t
         \<and> marker_has_token True (run_dir (lease_run world_locked [Begin 1 True demo_io 8 token_b demo_time, Write 0 [1]])) t)"
proof -
  have "Release 0 \<notin> set [Begin 1 True demo_io 8 token_b demo_time, Write 0 [1]]"
    "Die 0 \<notin> set [Begin 1 True demo_io 8 token_b demo_time, Write 0 [1]]" by simp_all
  from lease_holds_for_the_whole_write [OF world_locked_def world_locked_guard this] show ?thesis by blast
qed

end
