(* ===== verification/DurableWrite.thy ===== *)
theory DurableWrite
  imports TextOps
begin

text \<open>
  \<open>src/state/durable_write.rs\<close>: how state files are written. A write goes to a fresh private file,
  which is synced and renamed over its destination; before that the ring of backups is rotated, at
  most once an hour; a write that would change nothing touches nothing.

  The file system is the directory of the destination: names, regular files with their contents
  and permissions, links and other entries. A function gives its result and the operations it
  performs on the file system, in order, so that a crash can fall between any two of them. The
  outcome of every system call is chosen by the environment.
\<close>

section \<open>Files\<close>

text \<open>\<open>f_synced\<close>: the contents would survive a loss of power.\<close>

record inode =
  f_data :: bytes
  f_synced :: bool
  f_mtime :: nat
  f_mode :: nat
  f_links :: nat

text \<open>An entry is a regular file, something else (a directory, a pipe) or a symbolic link.\<close>

datatype node = File inode | Other nat | Link bytes

record filesys =
  nodes :: "bytes \<Rightarrow> node option"
  dir_mode :: nat

definition set_node :: "bytes \<Rightarrow> node option \<Rightarrow> filesys \<Rightarrow> filesys" where
  "set_node n x s = s\<lparr>nodes := (nodes s)(n := x)\<rparr>"

text \<open>Following links ends at a name that is not a link, or fails after forty of them.\<close>

fun resolve :: "nat \<Rightarrow> filesys \<Rightarrow> bytes \<Rightarrow> bytes option" where
  "resolve fuel s n =
     (case nodes s n of
        Some (Link m) \<Rightarrow> (case fuel of 0 \<Rightarrow> None | Suc k \<Rightarrow> resolve k s m)
      | _ \<Rightarrow> Some n)"

declare resolve.simps [simp del]

definition LINK_LIMIT :: nat where
  "LINK_LIMIT = 40"

datatype fs_op =
    CreateNew bytes nat
  | WriteTo bytes bytes nat
  | SyncFile bytes
  | RenameTo bytes bytes
  | RemoveFile bytes
  | CopyOver bytes bytes nat nat
  | ChmodFile bytes nat
  | ChmodDir nat
  | SyncDir

definition PRIVATE_MODE :: nat where
  "PRIVATE_MODE = 384"

definition PRIVATE_DIR_MODE :: nat where
  "PRIVATE_DIR_MODE = 448"

text \<open>The effect of a call that succeeded, or of the part of it that did.\<close>

fun apply_op :: "filesys \<Rightarrow> fs_op \<Rightarrow> filesys" where
  "apply_op s (CreateNew n time) =
     set_node n (Some (File \<lparr>f_data = [], f_synced = False, f_mtime = time, f_mode = PRIVATE_MODE, f_links = 1\<rparr>)) s"
| "apply_op s (WriteTo n bs time) =
     (case nodes s n of
        Some (File f) \<Rightarrow>
          set_node n (Some (File (f\<lparr>f_data := f_data f @ bs, f_synced := False, f_mtime := time\<rparr>))) s
      | _ \<Rightarrow> s)"
| "apply_op s (SyncFile n) =
     (case nodes s n of Some (File f) \<Rightarrow> set_node n (Some (File (f\<lparr>f_synced := True\<rparr>))) s | _ \<Rightarrow> s)"
| "apply_op s (RenameTo a b) = (if a = b then s else set_node a None (set_node b (nodes s a) s))"
| "apply_op s (RemoveFile n) = set_node n None s"
| "apply_op s (CopyOver n bs mode time) =
     (case resolve LINK_LIMIT s n of
        None \<Rightarrow> s
      | Some m \<Rightarrow>
          (case nodes s m of
             Some (File f) \<Rightarrow>
               set_node m (Some (File (f\<lparr>f_data := bs, f_synced := False, f_mtime := time, f_mode := mode\<rparr>))) s
           | None \<Rightarrow>
               set_node m (Some (File \<lparr>f_data = bs, f_synced = False, f_mtime = time, f_mode = mode, f_links = 1\<rparr>)) s
           | _ \<Rightarrow> s))"
| "apply_op s (ChmodFile n mode) =
     (case nodes s n of Some (File f) \<Rightarrow> set_node n (Some (File (f\<lparr>f_mode := mode\<rparr>))) s | _ \<Rightarrow> s)"
| "apply_op s (ChmodDir mode) = s\<lparr>dir_mode := mode\<rparr>"
| "apply_op s SyncDir = s"

definition run_ops :: "fs_op list \<Rightarrow> filesys \<Rightarrow> filesys" where
  "run_ops ops s = foldl apply_op s ops"

section \<open>The environment\<close>

datatype fs_error = FsNotFound | FsInvalidInput | FsSystemError

datatype read_event = Interrupted | ReadFails | ReadSome nat

datatype copy_outcome = CopyOk | CopyRefused | CopyFails nat

text \<open>
  The outcomes of the calls of one write, after the retries of interrupted ones; \<open>written\<close> is the
  number of bytes after which \<open>write_all\<close> failed.
\<close>

record write_io =
  stat_fails :: "bytes \<Rightarrow> bool"
  dir_created :: bool
  compare_opens :: bool
  compare_reads :: "read_event list"
  tmp_uuid :: bytes
  create_ok :: bool
  written :: "nat option"
  sync_ok :: bool
  rename_ok :: bool
  remove_ok :: bool
  dir_synced :: bool
  slot_renamed :: "nat \<Rightarrow> bool"
  copied :: copy_outcome
  clock :: nat
  copied_at :: nat
  private_dir_ok :: bool
  private_open :: "bytes \<Rightarrow> bool"
  private_chmod :: "bytes \<Rightarrow> bool"

definition symlink_metadata :: "write_io \<Rightarrow> filesys \<Rightarrow> bytes \<Rightarrow> fs_error + node" where
  "symlink_metadata io s n =
     (if stat_fails io n then Inl FsSystemError
      else case nodes s n of None \<Rightarrow> Inl FsNotFound | Some x \<Rightarrow> Inr x)"

definition metadata :: "write_io \<Rightarrow> filesys \<Rightarrow> bytes \<Rightarrow> fs_error + node" where
  "metadata io s n =
     (if stat_fails io n then Inl FsSystemError
      else case resolve LINK_LIMIT s n of
        None \<Rightarrow> Inl FsSystemError
      | Some m \<Rightarrow> (case nodes s m of None \<Rightarrow> Inl FsNotFound | Some x \<Rightarrow> Inr x))"

definition path_exists :: "write_io \<Rightarrow> filesys \<Rightarrow> bytes \<Rightarrow> bool" where
  "path_exists io s n \<longleftrightarrow> (case metadata io s n of Inr _ \<Rightarrow> True | Inl _ \<Rightarrow> False)"

section \<open>Names\<close>

definition BACKUP_SLOTS :: nat where
  "BACKUP_SLOTS = 5"

definition BACKUP_MIN_SPACING :: nat where
  "BACKUP_MIN_SPACING = 60 * 60"

definition sibling_with_suffix :: "bytes \<Rightarrow> bytes \<Rightarrow> bytes" where
  "sibling_with_suffix path suffix = path @ suffix"

definition backup_path :: "bytes \<Rightarrow> nat \<Rightarrow> bytes" where
  "backup_path path slot = sibling_with_suffix path (bytes_of ''.bak.'' @ show_nat slot)"

definition fresh_tmp :: "bytes \<Rightarrow> bytes \<Rightarrow> bytes" where
  "fresh_tmp path u = sibling_with_suffix path (bytes_of ''.'' @ u @ bytes_of ''.tmp'')"

definition candidate_paths :: "bytes \<Rightarrow> bytes list" where
  "candidate_paths path = path # map (backup_path path) [0..<BACKUP_SLOTS]"

section \<open>Checks before a write\<close>

fun validate_write_target :: "write_io \<Rightarrow> filesys \<Rightarrow> bytes \<Rightarrow> fs_error + unit" where
  "validate_write_target io s path =
     (case symlink_metadata io s path of
        Inl FsNotFound \<Rightarrow> Inr ()
      | Inl e \<Rightarrow> Inl e
      | Inr m \<Rightarrow>
          (case (case m of Link _ \<Rightarrow> metadata io s path | _ \<Rightarrow> Inr m) of
             Inl e \<Rightarrow> Inl e
           | Inr (File _) \<Rightarrow> Inr ()
           | Inr _ \<Rightarrow> Inl FsInvalidInput))"

fun validate_slots :: "write_io \<Rightarrow> filesys \<Rightarrow> bytes list \<Rightarrow> fs_error + unit" where
  "validate_slots io s [] = Inr ()"
| "validate_slots io s (backup # rest) =
     (case symlink_metadata io s backup of
        Inr (File _) \<Rightarrow> validate_slots io s rest
      | Inl FsNotFound \<Rightarrow> validate_slots io s rest
      | Inl e \<Rightarrow> Inl e
      | Inr _ \<Rightarrow> Inl FsInvalidInput)"

definition validate_backup_ring :: "write_io \<Rightarrow> filesys \<Rightarrow> bytes \<Rightarrow> fs_error + unit" where
  "validate_backup_ring io s path = validate_slots io s (map (backup_path path) [0..<BACKUP_SLOTS])"

section \<open>Comparing contents\<close>

definition CONTENT_COMPARE_CHUNK_BYTES :: nat where
  "CONTENT_COMPARE_CHUNK_BYTES = 8 * 1024"

text \<open>
  One read of at most \<open>req\<close> bytes of what the reader has left, with interrupted calls repeated.
  A reader gives at least one byte unless it is at its end; when the environment says nothing more,
  reads are as long as asked for. The result is \<open>None\<close> for an error.
\<close>

fun retry_read :: "nat \<Rightarrow> bytes \<Rightarrow> read_event list \<Rightarrow> bytes option \<times> bytes \<times> read_event list" where
  "retry_read req left [] = (Some (take req left), drop req left, [])"
| "retry_read req left (Interrupted # es) = retry_read req left es"
| "retry_read req left (ReadFails # es) = (None, left, es)"
| "retry_read req left (ReadSome n # es) =
     (Some (take (min req (Suc n)) left), drop (min req (Suc n)) left, es)"

function compare_loop :: "bytes \<Rightarrow> nat \<Rightarrow> bytes \<Rightarrow> read_event list \<Rightarrow> bool" where
  "compare_loop bs offset left es =
     (if offset < length bs then
        (case retry_read (min (length bs - offset) CONTENT_COMPARE_CHUNK_BYTES) left es of
           (None, _) \<Rightarrow> False
         | (Some chunk, left', es') \<Rightarrow>
             if chunk = [] \<or> chunk \<noteq> take (length chunk) (drop offset bs) then False
             else compare_loop bs (offset + length chunk) left' es')
      else (case retry_read 1 left es of (Some [], _) \<Rightarrow> True | _ \<Rightarrow> False))"
  by pat_completeness auto
termination
  by (relation "measure (\<lambda>(bs, offset, _, _). length bs - offset)") (auto simp: diff_less_mono2)

declare compare_loop.simps [simp del]

definition content_matches_reader :: "bytes \<Rightarrow> read_event list \<Rightarrow> nat \<Rightarrow> bytes \<Rightarrow> bool" where
  "content_matches_reader left es len bs \<longleftrightarrow> length bs = len \<and> compare_loop bs 0 left es"

definition content_matches :: "write_io \<Rightarrow> filesys \<Rightarrow> bytes \<Rightarrow> bytes \<Rightarrow> bool" where
  "content_matches io s path bs \<longleftrightarrow>
     compare_opens io
     \<and> (case Option.bind (resolve LINK_LIMIT s path) (nodes s) of
          Some (File f) \<Rightarrow> content_matches_reader (f_data f) (compare_reads io) (length (f_data f)) bs
        | _ \<Rightarrow> False)"

section \<open>The ring of backups\<close>

fun shift_slots :: "write_io \<Rightarrow> bytes \<Rightarrow> nat \<Rightarrow> filesys \<Rightarrow> fs_op list" where
  "shift_slots io path 0 s = []"
| "shift_slots io path (Suc slot) s =
     (let ops = (if path_exists io s (backup_path path slot) \<and> slot_renamed io slot
                 then [RenameTo (backup_path path slot) (backup_path path (Suc slot))] else []) in
      ops @ shift_slots io path slot (run_ops ops s))"

text \<open>\<open>std::fs::copy\<close> truncates the destination and gives it the permissions of the source.\<close>

definition copy_ops :: "write_io \<Rightarrow> filesys \<Rightarrow> bytes \<Rightarrow> bytes \<Rightarrow> fs_op list" where
  "copy_ops io s src dst =
     (case Option.bind (resolve LINK_LIMIT s src) (nodes s) of
        Some (File f) \<Rightarrow>
          (case copied io of
             CopyOk \<Rightarrow> [CopyOver dst (f_data f) (f_mode f) (copied_at io)]
           | CopyFails n \<Rightarrow> [CopyOver dst (take n (f_data f)) (f_mode f) (copied_at io)]
           | CopyRefused \<Rightarrow> [])
      | _ \<Rightarrow> [])"

definition node_mtime :: "node \<Rightarrow> nat option" where
  "node_mtime x = (case x of File f \<Rightarrow> Some (f_mtime f) | Other m \<Rightarrow> Some m | Link _ \<Rightarrow> None)"

text \<open>A time of the future counts as recent.\<close>

definition recent_backup :: "write_io \<Rightarrow> filesys \<Rightarrow> bytes \<Rightarrow> nat \<Rightarrow> bool" where
  "recent_backup io s newest spacing \<longleftrightarrow>
     (case metadata io s newest of
        Inl _ \<Rightarrow> False
      | Inr x \<Rightarrow>
          (case node_mtime x of
             None \<Rightarrow> False
           | Some mtime \<Rightarrow> (if clock io < mtime then True else clock io - mtime < spacing)))"

definition rotate_backup_ring :: "write_io \<Rightarrow> filesys \<Rightarrow> bytes \<Rightarrow> nat \<Rightarrow> fs_op list" where
  "rotate_backup_ring io s path spacing =
     (if \<not> path_exists io s path then []
      else if recent_backup io s (backup_path path 0) spacing then []
      else let ops = shift_slots io path (BACKUP_SLOTS - 1) s in
           ops @ copy_ops io (run_ops ops s) path (backup_path path 0))"

section \<open>Writing\<close>

definition write_atomic_changed ::
  "write_io \<Rightarrow> filesys \<Rightarrow> bytes \<Rightarrow> bytes \<Rightarrow> (fs_error + unit) \<times> fs_op list" where
  "write_atomic_changed io s path bs =
     (if \<not> dir_created io then (Inl FsSystemError, [])
      else
        let tmp = fresh_tmp path (tmp_uuid io);
            (result, ops) =
              (if \<not> create_ok io \<or> nodes s tmp \<noteq> None then (Inl FsSystemError, [])
               else case written io of
                 Some n \<Rightarrow> (Inl FsSystemError, [CreateNew tmp (clock io), WriteTo tmp (take n bs) (clock io)])
               | None \<Rightarrow>
                   (let ops = [CreateNew tmp (clock io), WriteTo tmp bs (clock io)] in
                    if \<not> sync_ok io then (Inl FsSystemError, ops)
                    else if \<not> rename_ok io then (Inl FsSystemError, ops @ [SyncFile tmp])
                    else (Inr (), ops @ [SyncFile tmp, RenameTo tmp path]
                                  @ (if dir_synced io then [SyncDir] else [])))) in
        (result,
         ops @ (case result of Inl _ \<Rightarrow> (if remove_ok io then [RemoveFile tmp] else []) | Inr _ \<Rightarrow> [])))"

definition write_atomic :: "write_io \<Rightarrow> filesys \<Rightarrow> bytes \<Rightarrow> bytes \<Rightarrow> (fs_error + bool) \<times> fs_op list" where
  "write_atomic io s path bs =
     (case validate_write_target io s path of
        Inl e \<Rightarrow> (Inl e, [])
      | Inr _ \<Rightarrow>
          if content_matches io s path bs then (Inr False, [])
          else (case write_atomic_changed io s path bs of
                  (Inl e, ops) \<Rightarrow> (Inl e, ops)
                | (Inr _, ops) \<Rightarrow> (Inr True, ops)))"

definition write_durable :: "write_io \<Rightarrow> filesys \<Rightarrow> bytes \<Rightarrow> bytes \<Rightarrow> (fs_error + bool) \<times> fs_op list" where
  "write_durable io s path bs =
     (case validate_write_target io s path of
        Inl e \<Rightarrow> (Inl e, [])
      | Inr _ \<Rightarrow>
          if content_matches io s path bs then (Inr False, [])
          else (case validate_backup_ring io s path of
             Inl e \<Rightarrow> (Inl e, [])
           | Inr _ \<Rightarrow>
               (let ring = rotate_backup_ring io s path BACKUP_MIN_SPACING in
                case write_atomic_changed io (run_ops ring s) path bs of
                  (Inl e, ops) \<Rightarrow> (Inl e, ring @ ops)
                | (Inr _, ops) \<Rightarrow> (Inr True, ring @ ops))))"

section \<open>Private files\<close>

text \<open>Opening without following links, then the type, the links and the mode of every copy.\<close>

fun protect_loop :: "write_io \<Rightarrow> filesys \<Rightarrow> bytes list \<Rightarrow> (fs_error + unit) \<times> fs_op list" where
  "protect_loop io s [] = (Inr (), [])"
| "protect_loop io s (candidate # rest) =
     (case nodes s candidate of
        None \<Rightarrow> protect_loop io s rest
      | Some (Link _) \<Rightarrow> (Inl FsSystemError, [])
      | Some (Other _) \<Rightarrow> (Inl (if private_open io candidate then FsInvalidInput else FsSystemError), [])
      | Some (File f) \<Rightarrow>
          if \<not> private_open io candidate then (Inl FsSystemError, [])
          else if f_links f \<noteq> 1 then (Inl FsInvalidInput, [])
          else if \<not> private_chmod io candidate then (Inl FsSystemError, [])
          else (case protect_loop io (apply_op s (ChmodFile candidate PRIVATE_MODE)) rest of
                  (result, ops) \<Rightarrow> (result, ChmodFile candidate PRIVATE_MODE # ops)))"

definition protect_private_state :: "write_io \<Rightarrow> filesys \<Rightarrow> bytes \<Rightarrow> (fs_error + unit) \<times> fs_op list" where
  "protect_private_state io s path =
     (if \<not> dir_created io \<or> \<not> private_dir_ok io then (Inl FsSystemError, [])
      else (case protect_loop io (apply_op s (ChmodDir PRIVATE_DIR_MODE)) (candidate_paths path) of
              (result, ops) \<Rightarrow> (result, ChmodDir PRIVATE_DIR_MODE # ops)))"

definition write_private_durable ::
  "write_io \<Rightarrow> write_io \<Rightarrow> write_io \<Rightarrow> filesys \<Rightarrow> bytes \<Rightarrow> bytes \<Rightarrow> (fs_error + bool) \<times> fs_op list" where
  "write_private_durable before io after s path bs =
     (case protect_private_state before s path of
        (Inl e, ops1) \<Rightarrow> (Inl e, ops1)
      | (Inr _, ops1) \<Rightarrow>
          (case write_durable io (run_ops ops1 s) path bs of
             (Inl e, ops2) \<Rightarrow> (Inl e, ops1 @ ops2)
           | (Inr changed, ops2) \<Rightarrow>
               (case protect_private_state after (run_ops (ops1 @ ops2) s) path of
                  (Inl e, ops3) \<Rightarrow> (Inl e, ops1 @ ops2 @ ops3)
                | (Inr _, ops3) \<Rightarrow> (Inr changed, ops1 @ ops2 @ ops3))))"

section \<open>Loading\<close>

definition read_file :: "(bytes \<Rightarrow> bool) \<Rightarrow> filesys \<Rightarrow> bytes \<Rightarrow> bytes option" where
  "read_file readable s n =
     (case Option.bind (resolve LINK_LIMIT s n) (nodes s) of
        Some (File f) \<Rightarrow> if readable n then Some (f_data f) else None
      | _ \<Rightarrow> None)"

fun first_valid :: "(bytes \<Rightarrow> 'a option) \<Rightarrow> (bytes \<Rightarrow> bytes option) \<Rightarrow> bytes list \<Rightarrow> 'a option" where
  "first_valid parse rd [] = None"
| "first_valid parse rd (candidate # rest) =
     (case rd candidate of
        None \<Rightarrow> first_valid parse rd rest
      | Some bs \<Rightarrow> (case parse bs of Some v \<Rightarrow> Some v | None \<Rightarrow> first_valid parse rd rest))"

definition load_first_valid ::
  "(bytes \<Rightarrow> 'a option) \<Rightarrow> (bytes \<Rightarrow> bool) \<Rightarrow> filesys \<Rightarrow> bytes \<Rightarrow> 'a option" where
  "load_first_valid parse readable s path = first_valid parse (read_file readable s) (candidate_paths path)"

end
