(* ===== verification/DurableWriteSafety.thy ===== *)
theory DurableWriteSafety
  imports DurableWrite
begin

text \<open>
  What a durable write promises: a crash at any point leaves the old or the new contents, the
  comparison that skips a write is equality however the reader cuts its bytes, the backups stay
  spread over time, and a private file is never readable by others.
\<close>

section \<open>Comparing\<close>

lemma retry_read_ok:
  assumes "ReadFails \<notin> set es" and "0 < req"
  shows "\<exists>k es'. retry_read req left es = (Some (take k left), drop k left, es') \<and> 0 < k \<and> k \<le> req
    \<and> ReadFails \<notin> set es'"
  using assms
proof (induction req left es rule: retry_read.induct)
  case (1 req left)
  then show ?case by (intro exI [of _ req]) simp
next
  case (4 req left n es)
  then show ?case by (intro exI [of _ "min req (Suc n)"]) auto
qed auto

lemma retry_read_cut:
  "0 < req \<Longrightarrow> retry_read req left es = (Some chunk, left', es')
    \<Longrightarrow> left = chunk @ left' \<and> (chunk = [] \<longrightarrow> left = [])"
  by (induction req left es rule: retry_read.induct) auto

lemma compare_loop_sound:
  "compare_loop bs offset left es \<Longrightarrow> offset \<le> length bs \<Longrightarrow> left = drop offset bs"
proof (induction bs offset left es rule: compare_loop.induct)
  case (1 bs offset left es)
  show ?case
  proof (cases "offset < length bs")
    case True
    then have req: "0 < min (length bs - offset) CONTENT_COMPARE_CHUNK_BYTES"
      by (simp add: CONTENT_COMPARE_CHUNK_BYTES_def)
    obtain c left' es' where r: "retry_read (min (length bs - offset) CONTENT_COMPARE_CHUNK_BYTES) left es
        = (c, left', es')" by (cases "retry_read (min (length bs - offset) CONTENT_COMPARE_CHUNK_BYTES) left es") auto
    then obtain chunk where c: "c = Some chunk" "chunk \<noteq> []" "chunk = take (length chunk) (drop offset bs)"
      and go: "compare_loop bs (offset + length chunk) left' es'"
      using 1(2) True by (auto simp: compare_loop.simps [of bs offset] split: option.splits if_splits)
    have "length chunk \<le> length bs - offset" using arg_cong [OF c(3), of length] by simp
    then have le: "offset + length chunk \<le> length bs" using True by linarith
    have "left' = drop (offset + length chunk) bs"
      using 1(1) [OF True r [symmetric] c(1) refl _ go le] c by blast
    moreover have "left = chunk @ left'" using retry_read_cut [OF req] r c(1) by blast
    ultimately show ?thesis using c(3) by (metis append_take_drop_id drop_drop add.commute)
  next
    case False
    then obtain left' es' where "retry_read 1 left es = (Some [], left', es')"
      using 1(2) by (auto simp: compare_loop.simps [of bs offset] split: prod.splits option.splits list.splits)
    then have "left = []" using retry_read_cut [of 1 left es "[]"] by auto
    then show ?thesis using False by simp
  qed
qed

lemma compare_loop_complete:
  "ReadFails \<notin> set es \<Longrightarrow> left = drop offset bs \<Longrightarrow> compare_loop bs offset left es"
proof (induction bs offset left es rule: compare_loop.induct)
  case (1 bs offset left es)
  show ?case
  proof (cases "offset < length bs")
    case True
    define req where "req = min (length bs - offset) CONTENT_COMPARE_CHUNK_BYTES"
    have "0 < req" using True by (simp add: req_def CONTENT_COMPARE_CHUNK_BYTES_def)
    from retry_read_ok [OF 1(2) this, of left] obtain k es' where
      r: "retry_read req left es = (Some (take k left), drop k left, es')" and k: "0 < k" "k \<le> req"
      and es': "ReadFails \<notin> set es'" by blast
    have len: "length (take k left) = k" using k 1(3) by (simp add: req_def)
    have ne: "take k left \<noteq> []" using len k(1) by auto
    have "compare_loop bs (offset + length (take k left)) (drop k left) es'"
    proof (rule 1(1) [OF True r [unfolded req_def, symmetric] refl refl])
      show "\<not> (take k left = [] \<or> take k left \<noteq> take (length (take k left)) (drop offset bs))"
        using ne len 1(3) by simp
      show "drop k left = drop (offset + length (take k left)) bs"
        using len 1(3) by (simp add: add.commute)
    qed (rule es')
    then show ?thesis using True ne len 1(3) r [unfolded req_def]
      by (simp add: compare_loop.simps [of bs offset])
  next
    case False
    then have "left = []" using 1(3) by simp
    moreover have "\<exists>es'. retry_read 1 [] es = (Some [], [], es')"
      using retry_read_ok [OF 1(2), of 1 "[]"] by auto
    ultimately show ?thesis using False by (auto simp: compare_loop.simps [of bs offset])
  qed
qed

text \<open>
  The comparison that lets a write be skipped is equality of the contents: however the reader
  splits its bytes and however often it is interrupted, a match means that the whole reader held
  exactly the new bytes, also when the file has grown after its length was read; and when no read
  fails, equal contents are always recognised.
\<close>
theorem content_comparison_is_equality:
  "(content_matches_reader left es len bs \<longrightarrow> left = bs \<and> len = length bs)
    \<and> (ReadFails \<notin> set es \<and> len = length bs \<longrightarrow> (content_matches_reader left es len bs \<longleftrightarrow> left = bs))"
  using compare_loop_sound [of bs 0 left es] compare_loop_complete [of es left 0 bs]
  by (auto simp: content_matches_reader_def)

theorem content_comparison_is_equality_witness:
  "content_matches_reader [1, 2, 3] [Interrupted, ReadSome 0, ReadSome 4] 3 [1, 2, 3]"
  using content_comparison_is_equality [of "[1, 2, 3]" "[Interrupted, ReadSome 0, ReadSome 4]" 3 "[1, 2, 3]"]
  by simp

section \<open>Names of the directory\<close>

lemma backup_path_digit: "slot < 10 \<Longrightarrow> backup_path path slot = path @ bytes_of ''.bak.'' @ [48 + word_of_nat slot]"
  by (simp add: backup_path_def sibling_with_suffix_def show_nat.simps)

lemma backup_path_inj:
  assumes "i < 10" and "j < 10"
  shows "backup_path path i = backup_path path j \<longleftrightarrow> i = j"
proof
  assume "backup_path path i = backup_path path j"
  then have "(word_of_nat i :: u8) = word_of_nat j" using assms by (simp add: backup_path_digit)
  then have "unat (word_of_nat i :: u8) = unat (word_of_nat j :: u8)" by simp
  then show "i = j" using assms by (simp add: unat_of_nat)
qed simp

lemma backup_path_not_path [simp]: "backup_path path i \<noteq> path" "path \<noteq> backup_path path i"
  by (simp_all add: backup_path_def sibling_with_suffix_def bytes_of_def)

lemma fresh_tmp_not_path [simp]: "fresh_tmp path u \<noteq> path" "path \<noteq> fresh_tmp path u"
  by (simp_all add: fresh_tmp_def sibling_with_suffix_def bytes_of_def)

lemma fresh_tmp_not_backup:
  "length u = 36 \<Longrightarrow> i < 10 \<Longrightarrow> fresh_tmp path u \<noteq> backup_path path i"
  by (auto simp: fresh_tmp_def sibling_with_suffix_def bytes_of_def backup_path_digit dest: arg_cong [of _ _ length])

lemma resolve_plain: "(\<And>m. nodes s n \<noteq> Some (Link m)) \<Longrightarrow> resolve fuel s n = Some n"
  by (cases "nodes s n") (auto simp: resolve.simps [of fuel s n] split: node.splits)

lemma nodes_set_node [simp]: "nodes (set_node n x s) m = (if m = n then x else nodes s m)"
  by (simp add: set_node_def)

lemma run_ops_simps [simp]:
  "run_ops [] s = s" "run_ops (e # es) s = run_ops es (apply_op s e)"
  "run_ops (es @ fs) s = run_ops fs (run_ops es s)"
  by (simp_all add: run_ops_def)

section \<open>What a write does to its neighbours\<close>

text \<open>
  The operations of a write other than the final rename: they touch the temporary file and the
  backups, whose entries are never links.
\<close>

fun side_op :: "bytes \<Rightarrow> bytes \<Rightarrow> fs_op \<Rightarrow> bool" where
  "side_op path tmp (CreateNew n t) = (n = tmp)"
| "side_op path tmp (WriteTo n bs t) = (n = tmp)"
| "side_op path tmp (SyncFile n) = (n = tmp)"
| "side_op path tmp (RemoveFile n) = (n = tmp)"
| "side_op path tmp (RenameTo a b) = (\<exists>i < 4. a = backup_path path i \<and> b = backup_path path (Suc i))"
| "side_op path tmp (CopyOver n bs mode t) = (n = backup_path path 0)"
| "side_op path tmp (ChmodFile n mode) = False"
| "side_op path tmp (ChmodDir mode) = False"
| "side_op path tmp SyncDir = True"

definition plain_ring :: "bytes \<Rightarrow> filesys \<Rightarrow> bool" where
  "plain_ring path s \<longleftrightarrow> (\<forall>i < 5. \<forall>m. nodes s (backup_path path i) \<noteq> Some (Link m))"

lemma plain_ring_resolve: "plain_ring path s \<Longrightarrow> i < 5 \<Longrightarrow> resolve fuel s (backup_path path i) = Some (backup_path path i)"
  by (rule resolve_plain) (simp add: plain_ring_def)

lemma side_op_keeps:
  assumes "side_op path tmp e" and "plain_ring path s"
    and "tmp \<noteq> path" and "\<And>i. i < 5 \<Longrightarrow> tmp \<noteq> backup_path path i"
  shows "nodes (apply_op s e) path = nodes s path \<and> plain_ring path (apply_op s e)"
proof (cases e)
  case (RenameTo a b)
  then obtain i where i: "i < 4" "a = backup_path path i" "b = backup_path path (Suc i)" using assms(1) by auto
  then show ?thesis using RenameTo assms(2)
    by (auto simp: plain_ring_def backup_path_inj)
next
  case (CopyOver n bs mode t)
  then have "resolve LINK_LIMIT s n = Some (backup_path path 0)" "n = backup_path path 0"
    using assms(1) plain_ring_resolve [OF assms(2), of 0] by simp_all
  then show ?thesis using CopyOver assms(2)
    by (auto simp: plain_ring_def split: option.splits node.splits)
qed (use assms in \<open>auto simp: plain_ring_def split: option.splits node.splits\<close>)

definition side_ops :: "bytes \<Rightarrow> bytes \<Rightarrow> fs_op list \<Rightarrow> bool" where
  "side_ops path tmp ops \<longleftrightarrow> list_all (side_op path tmp) ops"

lemma side_ops_simps [simp]:
  "side_ops path tmp []" "side_ops path tmp (e # es) \<longleftrightarrow> side_op path tmp e \<and> side_ops path tmp es"
  "side_ops path tmp (es @ fs) \<longleftrightarrow> side_ops path tmp es \<and> side_ops path tmp fs"
  by (simp_all add: side_ops_def)

lemma side_ops_take: "side_ops path tmp ops \<Longrightarrow> side_ops path tmp (take j ops)"
  by (auto simp: side_ops_def list_all_iff dest: in_set_takeD)

lemma side_ops_keep:
  assumes "side_ops path tmp ops" and "plain_ring path s"
    and "tmp \<noteq> path" and "\<And>i. i < 5 \<Longrightarrow> tmp \<noteq> backup_path path i"
  shows "nodes (run_ops ops s) path = nodes s path \<and> plain_ring path (run_ops ops s)"
  using assms(1,2)
proof (induction ops arbitrary: s)
  case (Cons e ops)
  then show ?case using side_op_keeps [OF _ Cons.prems(2) assms(3,4), of e] by simp
qed simp

lemma shift_slots_side: "slot \<le> 4 \<Longrightarrow> side_ops path tmp (shift_slots io path slot s)"
proof (induction slot arbitrary: s)
  case (Suc slot)
  then have "slot < 4" by simp
  then have "side_op path tmp (RenameTo (backup_path path slot) (backup_path path (Suc slot)))" by auto
  then show ?case using Suc by (simp add: Let_def del: side_op.simps)
qed simp

lemma ring_side: "side_ops path tmp (rotate_backup_ring io s path spacing)"
  using shift_slots_side [of 4 path tmp io s]
  by (auto simp: rotate_backup_ring_def BACKUP_SLOTS_def copy_ops_def Let_def
      split: option.splits node.splits copy_outcome.splits)

lemma validate_slots_plain:
  "validate_slots io s ns = Inr () \<Longrightarrow> n \<in> set ns \<Longrightarrow> nodes s n \<noteq> Some (Link m) \<and> nodes s n \<noteq> Some (Other k)"
  by (induction ns) (auto simp: symlink_metadata_def split: sum.splits option.splits node.splits fs_error.splits if_splits)

lemma validated_ring: "validate_backup_ring io s path = Inr () \<Longrightarrow> plain_ring path s"
  using validate_slots_plain [of io s "map (backup_path path) [0..<BACKUP_SLOTS]"]
  by (auto simp: validate_backup_ring_def plain_ring_def BACKUP_SLOTS_def)

definition landing :: "bool \<Rightarrow> bytes \<Rightarrow> bytes \<Rightarrow> bytes \<Rightarrow> nat \<Rightarrow> fs_op list" where
  "landing synced path tmp bs t =
     [CreateNew tmp t, WriteTo tmp bs t, SyncFile tmp, RenameTo tmp path] @ (if synced then [SyncDir] else [])"

lemma write_atomic_changed_cases:
  assumes "write_atomic_changed io s path bs = (res, ops)"
  obtains e where "res = Inl e" "side_ops path (fresh_tmp path (tmp_uuid io)) ops"
  | "res = Inr ()" "ops = landing (dir_synced io) path (fresh_tmp path (tmp_uuid io)) bs (clock io)"
    "nodes s (fresh_tmp path (tmp_uuid io)) = None"
  using assms by (auto simp: write_atomic_changed_def landing_def Let_def split: if_splits option.splits)

text \<open>The shape of a durable write: nothing, side operations that fail, or a landing at the end.\<close>

lemma write_durable_cases:
  assumes "write_durable io s path bs = (res, ops)"
  obtains (same) "res = Inr False" "ops = []" "content_matches io s path bs"
  | (failed) e where "res = Inl e" "side_ops path (fresh_tmp path (tmp_uuid io)) ops"
      "ops \<noteq> [] \<Longrightarrow> plain_ring path s"
  | (landed) ring where "res = Inr True" "ring = rotate_backup_ring io s path BACKUP_MIN_SPACING"
      "ops = ring @ landing (dir_synced io) path (fresh_tmp path (tmp_uuid io)) bs (clock io)"
      "side_ops path (fresh_tmp path (tmp_uuid io)) ring" "plain_ring path s"
      "nodes (run_ops ring s) (fresh_tmp path (tmp_uuid io)) = None"
proof (cases "validate_write_target io s path")
  case (Inl e)
  then show ?thesis using assms failed [of e] by (simp add: write_durable_def)
next
  case (Inr u)
  show ?thesis
  proof (cases "content_matches io s path bs")
    case True
    then show ?thesis using assms Inr same by (simp add: write_durable_def)
  next
    case False
    show ?thesis
    proof (cases "validate_backup_ring io s path")
      case (Inl e)
      then show ?thesis using assms Inr False failed [of e] by (simp add: write_durable_def)
    next
      case ok: (Inr v)
      define ring where "ring = rotate_backup_ring io s path BACKUP_MIN_SPACING"
      obtain r ops2 where w: "write_atomic_changed io (run_ops ring s) path bs = (r, ops2)" by fastforce
      have o: "ops = ring @ ops2" "res = (case r of Inl e \<Rightarrow> Inl e | Inr _ \<Rightarrow> Inr True)"
        using assms Inr False ok w by (auto simp: write_durable_def ring_def Let_def split: sum.splits)
      have plain: "plain_ring path s" using validated_ring ok by simp
      have side: "side_ops path (fresh_tmp path (tmp_uuid io)) ring" by (simp add: ring_def ring_side)
      from w show ?thesis
      proof (cases rule: write_atomic_changed_cases)
        case (1 e)
        then show ?thesis using failed [of e] o side plain by simp
      next
        case 2
        then show ?thesis using landed [OF _ ring_def] o side plain by simp
      qed
    qed
  qed
qed

section \<open>Crashes\<close>

text \<open>
  A crash: the operations of the directory are durable in their order, at least up to the last
  sync of the directory; contents that were not synced may have become anything.
\<close>

definition power_loss :: "filesys \<Rightarrow> filesys \<Rightarrow> bool" where
  "power_loss s s' \<longleftrightarrow>
     (\<forall>n. (case nodes s n of
             Some (File f) \<Rightarrow>
               (if f_synced f then nodes s' n = nodes s n
                else \<exists>d. nodes s' n = Some (File (f\<lparr>f_data := d\<rparr>)))
           | x \<Rightarrow> nodes s' n = x))"

definition crashed :: "fs_op list \<Rightarrow> filesys \<Rightarrow> filesys \<Rightarrow> bool" where
  "crashed ops s s' \<longleftrightarrow>
     (\<exists>k. SyncDir \<notin> set (drop k ops) \<and> power_loss (run_ops (take k ops) s) s')"

lemma power_loss_synced:
  "power_loss s s' \<Longrightarrow> nodes s n = Some (File f) \<Longrightarrow> f_synced f \<Longrightarrow> nodes s' n = Some (File f)"
  unfolding power_loss_def by (drule spec [of _ n]) simp

lemma load_main:
  assumes "nodes s path = Some (File f)" and "readable path" and "parse (f_data f) = Some v"
  shows "load_first_valid parse readable s path = Some v"
  using assms resolve_plain [of s path LINK_LIMIT]
  by (simp add: load_first_valid_def candidate_paths_def read_file_def)

lemma power_loss_load:
  assumes "power_loss s s'" and "nodes s path = Some (File f)" and "f_synced f" and "readable path"
    and "parse (f_data f) = Some v"
  shows "load_first_valid parse readable s' path = Some v"
  by (rule load_main [where parse = parse and readable = readable, OF power_loss_synced [OF assms(1-3)] assms(4,5)])

definition landed_file :: "bytes \<Rightarrow> nat \<Rightarrow> inode" where
  "landed_file bs t = \<lparr>f_data = bs, f_synced = True, f_mtime = t, f_mode = PRIVATE_MODE, f_links = 1\<rparr>"

lemma landing_takes:
  assumes "tmp \<noteq> path"
  shows "k \<le> 3 \<Longrightarrow> nodes (run_ops (take k (landing d path tmp bs t)) s) path = nodes s path"
    and "4 \<le> k \<Longrightarrow> nodes (run_ops (take k (landing d path tmp bs t)) s) path = Some (File (landed_file bs t))"
proof -
  assume "k \<le> 3"
  then consider "k = 0" | "k = 1" | "k = 2" | "k = 3" by linarith
  then show "nodes (run_ops (take k (landing d path tmp bs t)) s) path = nodes s path"
    using assms by cases (simp_all add: landing_def numeral_2_eq_2 numeral_3_eq_3)
next
  assume "4 \<le> k"
  then obtain j where "k = Suc (Suc (Suc (Suc j)))" by (metis (no_types) Suc_le_D numeral_nat(2) numeral_2_eq_2 Suc_le_mono
      add_2_eq_Suc numeral_Bit0 numeral_One add_Suc_shift)
  then show "nodes (run_ops (take k (landing d path tmp bs t)) s) path = Some (File (landed_file bs t))"
    using assms by (cases j) (simp_all add: landing_def landed_file_def split: if_splits)
qed

lemma side_load:
  assumes "side_ops path tmp ops" and "plain_ring path s" and "tmp \<noteq> path"
    and "\<And>i. i < 5 \<Longrightarrow> tmp \<noteq> backup_path path i"
    and "nodes s path = Some (File f)" and "f_synced f" and "readable path" and "parse (f_data f) = Some v"
    and "power_loss (run_ops (take k ops) s) s'"
  shows "load_first_valid parse readable s' path = Some v"
proof -
  have "nodes (run_ops (take k ops) s) path = Some (File f)"
    using side_ops_keep [OF side_ops_take [OF assms(1)] assms(2-4)] assms(5) by simp
  from power_loss_load [where parse = parse and readable = readable, OF assms(9) this assms(6-8)] show ?thesis .
qed

lemma landed_load:
  assumes "side_ops path tmp ring" and "plain_ring path s" and "tmp \<noteq> path"
    and "\<And>i. i < 5 \<Longrightarrow> tmp \<noteq> backup_path path i"
    and "nodes s path = Some (File f)" and "f_synced f" and "readable path"
    and "parse (f_data f) = Some v" and "parse bs = Some v'"
    and "power_loss (run_ops (take k (ring @ landing d path tmp bs t)) s) s'"
  shows "load_first_valid parse readable s' path = (if k < length ring + 4 then Some v else Some v')"
proof -
  define j where "j = k - length ring"
  have main: "nodes (run_ops (take k ring) s) path = Some (File f)"
    using side_ops_keep [OF side_ops_take [OF assms(1)] assms(2-4)] assms(5) by simp
  have split: "run_ops (take k (ring @ landing d path tmp bs t)) s
      = run_ops (take j (landing d path tmp bs t)) (run_ops (take k ring) s)"
    by (simp add: j_def)
  show ?thesis
  proof (cases "k < length ring + 4")
    case True
    then have "j \<le> 3" by (simp add: j_def)
    then have "nodes (run_ops (take k (ring @ landing d path tmp bs t)) s) path = Some (File f)"
      unfolding split using landing_takes(1) [OF assms(3)] main by metis
    from power_loss_load [where parse = parse and readable = readable, OF assms(10) this assms(6-8)] True
    show ?thesis by simp
  next
    case False
    then have "4 \<le> j" by (simp add: j_def)
    then have "nodes (run_ops (take k (ring @ landing d path tmp bs t)) s) path = Some (File (landed_file bs t))"
      unfolding split using landing_takes(2) [OF assms(3)] by metis
    from power_loss_load [where parse = parse and readable = readable, OF assms(10) this _ assms(7)] assms(9) False
    show ?thesis by (simp add: landed_file_def)
  qed
qed

lemma crashed_cut: "crashed (take j ops) s s' \<Longrightarrow> \<exists>k. power_loss (run_ops (take k ops) s) s'"
  unfolding crashed_def by (metis take_take)

lemma fresh_tmp_apart: "length u = 36 \<Longrightarrow> i < 5 \<Longrightarrow> fresh_tmp path u \<noteq> backup_path path i"
  using fresh_tmp_not_backup by simp

lemma skipped_write_matches:
  assumes "content_matches io s path bs" and "nodes s path = Some (File f)"
  shows "f_data f = bs"
proof -
  have "resolve LINK_LIMIT s path = Some path" using assms(2) by (simp add: resolve_plain)
  then have "content_matches_reader (f_data f) (compare_reads io) (length (f_data f)) bs"
    using assms by (simp add: content_matches_def)
  then show ?thesis
    using compare_loop_sound [of bs 0 "f_data f" "compare_reads io"] by (simp add: content_matches_reader_def)
qed

lemma unfinished_write_loads:
  assumes "write_durable io s path bs = (res, ops)" and "length (tmp_uuid io) = 36" and "res \<noteq> Inr True"
    and "nodes s path = Some (File f)" and "f_synced f" and "readable path" and "parse (f_data f) = Some v"
    and "power_loss (run_ops (take k ops) s) s'"
  shows "load_first_valid parse readable s' path = Some v"
proof -
  note stays = power_loss_load [where parse = parse and readable = readable, OF _ assms(4-7)]
  from assms(1) show ?thesis
  proof (cases rule: write_durable_cases)
    case same
    then show ?thesis using stays assms(8) by simp
  next
    case (failed e)
    show ?thesis
    proof (cases "ops = []")
      case True
      then show ?thesis using stays assms(8) by simp
    next
      case False
      from side_load [where parse = parse and readable = readable, OF failed(2) failed(3) [OF False]
          fresh_tmp_not_path(1) fresh_tmp_apart [OF assms(2)] assms(4-8)]
      show ?thesis .
    qed
  qed (use assms(3) in simp)
qed

text \<open>A finished write changes what is loaded at one moment, which is before the sync of the directory.\<close>

lemma finished_write_loads:
  assumes "write_durable io s path bs = (Inr True, ops)" and "length (tmp_uuid io) = 36"
    and "nodes s path = Some (File f)" and "f_synced f" and "readable path"
    and "parse (f_data f) = Some v" and "parse bs = Some v'"
  shows "\<exists>n. (\<forall>k s'. power_loss (run_ops (take k ops) s) s'
        \<longrightarrow> load_first_valid parse readable s' path = (if k < n then Some v else Some v'))
    \<and> load_first_valid parse readable (run_ops ops s) path = Some v'
    \<and> (dir_synced io \<longrightarrow> length ops = Suc n \<and> last ops = SyncDir)"
  using assms(1)
proof (cases rule: write_durable_cases)
  case (landed ring)
  let ?tmp = "fresh_tmp path (tmp_uuid io)" and ?land = "landing (dir_synced io) path (fresh_tmp path (tmp_uuid io)) bs (clock io)"
  note load = landed_load [where parse = parse and readable = readable and d = "dir_synced io" and t = "clock io",
      OF landed(4,5) fresh_tmp_not_path(1) fresh_tmp_apart [OF assms(2)] assms(3-7), folded landed(3)]
  have "take 5 ?land = ?land" by (simp add: landing_def)
  then have "nodes (run_ops ops s) path = Some (File (landed_file bs (clock io)))"
    using landing_takes(2) [OF fresh_tmp_not_path(1), of 5 "dir_synced io" path "tmp_uuid io" bs "clock io" "run_ops ring s"]
    by (simp add: landed(3))
  then have "load_first_valid parse readable (run_ops ops s) path = Some v'"
    using load_main [where parse = parse and readable = readable] assms(5,7) by (simp add: landed_file_def)
  moreover have "dir_synced io \<longrightarrow> length ops = Suc (length ring + 4) \<and> last ops = SyncDir"
    by (simp add: landed(3) landing_def)
  ultimately show ?thesis using load by blast
qed simp_all

text \<open>
  C5: A durable write is atomic. Whatever fails and wherever the write is interrupted, with loss of
  everything that was not synced, a later load finds the old contents or the new ones; an error
  leaves the old ones; a write reported as done is the new ones, for good once the directory was
  synced; and a write reported as unnecessary did nothing and the contents were already there.
\<close>
theorem durable_write_is_atomic:
  assumes "write_durable io s path bs = (res, ops)" and "length (tmp_uuid io) = 36"
    and "nodes s path = Some (File f)" and "f_synced f" and "readable path"
    and "parse (f_data f) = Some v" and "parse bs = Some v'"
  shows "(\<forall>j s'. crashed (take j ops) s s' \<longrightarrow> load_first_valid parse readable s' path \<in> {Some v, Some v'})
    \<and> (res \<noteq> Inr True \<longrightarrow> (\<forall>s'. crashed ops s s' \<longrightarrow> load_first_valid parse readable s' path = Some v))
    \<and> (res = Inr True \<longrightarrow> load_first_valid parse readable (run_ops ops s) path = Some v'
         \<and> (dir_synced io \<longrightarrow> (\<forall>s'. crashed ops s s' \<longrightarrow> load_first_valid parse readable s' path = Some v')))
    \<and> (res = Inr False \<longrightarrow> ops = [] \<and> f_data f = bs)"
proof (cases "res = Inr True")
  case False
  note old = unfinished_write_loads [where parse = parse and readable = readable, OF assms(1,2) False assms(3-6)]
  have "load_first_valid parse readable s' path = Some v" if "crashed (take j ops) s s'" for j s'
    using crashed_cut [OF that] old by blast
  from this [of "length ops"] this show ?thesis
    using False write_durable_cases [OF assms(1)] skipped_write_matches [OF _ assms(3)] by fastforce
next
  case True
  from finished_write_loads [where parse = parse and readable = readable, OF assms(1) [unfolded True] assms(2-7)]
  obtain n where at: "\<And>k s'. power_loss (run_ops (take k ops) s) s'
      \<Longrightarrow> load_first_valid parse readable s' path = (if k < n then Some v else Some v')"
    and loads: "load_first_valid parse readable (run_ops ops s) path = Some v'"
    and sync: "dir_synced io \<longrightarrow> length ops = Suc n \<and> last ops = SyncDir" by blast
  have some: "load_first_valid parse readable s' path \<in> {Some v, Some v'}" if "crashed (take j ops) s s'" for j s'
    using crashed_cut [OF that] at by auto
  have "load_first_valid parse readable s' path = Some v'" if d: "dir_synced io" and c: "crashed ops s s'" for s'
  proof -
    obtain k where k: "SyncDir \<notin> set (drop k ops)" "power_loss (run_ops (take k ops) s) s'"
      using c unfolding crashed_def by blast
    have "SyncDir \<in> set (drop k ops)" if "k < length ops"
      using that sync d last_in_set [of "drop k ops"] by simp
    then show ?thesis using k at [OF k(2)] sync d by (auto split: if_splits)
  qed
  then show ?thesis using True loads some by simp
qed

section \<open>The ring over time\<close>

text \<open>The time of the backup in a slot, if there is one.\<close>

definition backup_time :: "bytes \<Rightarrow> filesys \<Rightarrow> nat \<Rightarrow> nat option" where
  "backup_time path s i = Option.bind (nodes s (backup_path path i)) node_mtime"

text \<open>
  Newer backups are in lower slots and at least \<open>gap\<close> younger; by the time \<open>now\<close> every backup but
  the newest is that old.
\<close>

definition spread :: "nat \<Rightarrow> bytes \<Rightarrow> nat \<Rightarrow> filesys \<Rightarrow> bool" where
  "spread gap path now s \<longleftrightarrow>
     (\<forall>i j a b. i < j \<and> j < 5 \<and> backup_time path s i = Some a \<and> backup_time path s j = Some b \<longrightarrow> b + gap \<le> a)
     \<and> (\<forall>i a. i < 5 \<and> backup_time path s i = Some a \<longrightarrow> a \<le> now)
     \<and> (\<forall>i a. 0 < i \<and> i < 5 \<and> backup_time path s i = Some a \<longrightarrow> a + gap \<le> now)"

lemma spreadD:
  assumes "spread gap path now s"
  shows "i < j \<Longrightarrow> j < 5 \<Longrightarrow> backup_time path s i = Some a \<Longrightarrow> backup_time path s j = Some b \<Longrightarrow> b + gap \<le> a"
    and "i < 5 \<Longrightarrow> backup_time path s i = Some a \<Longrightarrow> a \<le> now"
    and "0 < i \<Longrightarrow> i < 5 \<Longrightarrow> backup_time path s i = Some a \<Longrightarrow> a + gap \<le> now"
  using assms unfolding spread_def by blast+

lemma spreadI:
  assumes "\<And>i j a b. i < j \<Longrightarrow> j < 5 \<Longrightarrow> backup_time path s i = Some a \<Longrightarrow> backup_time path s j = Some b \<Longrightarrow> b + gap \<le> a"
    and "\<And>i a. i < 5 \<Longrightarrow> backup_time path s i = Some a \<Longrightarrow> a \<le> now"
    and "\<And>i a. 0 < i \<Longrightarrow> i < 5 \<Longrightarrow> backup_time path s i = Some a \<Longrightarrow> a + gap \<le> now"
  shows "spread gap path now s"
  using assms unfolding spread_def by blast

lemma spread_later: "spread gap path now s \<Longrightarrow> now \<le> now' \<Longrightarrow> spread gap path now' s"
  by (rule spreadI) (auto dest: spreadD intro: order_trans)

lemma spread_same:
  assumes "spread gap path now s" and "\<And>i. i < 5 \<Longrightarrow> nodes s' (backup_path path i) = nodes s (backup_path path i)"
  shows "spread gap path now s'"
proof -
  have t: "backup_time path s' i = backup_time path s i" if "i < 5" for i
    using assms(2) [OF that] by (simp add: backup_time_def)
  show ?thesis
  proof (rule spreadI)
    fix i j a b
    assume "i < j" "j < 5" "backup_time path s' i = Some a" "backup_time path s' j = Some b"
    then show "b + gap \<le> a" using spreadD(1) [OF assms(1), of i j a b] t by simp
  qed (use spreadD(2,3) [OF assms(1)] t in simp_all)
qed

text \<open>A backup moves one slot up, where it still is between its neighbours.\<close>

lemma spread_rename:
  assumes "spread gap path now s" and "i < 4"
    and "\<And>a. backup_time path s 0 = Some a \<Longrightarrow> i = 0 \<Longrightarrow> a + gap \<le> now"
  shows "spread gap path now (apply_op s (RenameTo (backup_path path i) (backup_path path (Suc i))))"
    (is "spread gap path now ?s'")
proof -
  have t: "backup_time path ?s' j = (if j = i then None else if j = Suc i then backup_time path s i else backup_time path s j)"
    if "j < 5" for j
    using that assms(2) by (simp add: backup_time_def backup_path_inj)
  show ?thesis
  proof (rule spreadI)
    fix j k a b
    assume jk: "j < k" "k < 5" "backup_time path ?s' j = Some a" "backup_time path ?s' k = Some b"
    then have j: "backup_time path s (if j = Suc i then i else j) = Some a" "j \<noteq> i"
      and k: "backup_time path s (if k = Suc i then i else k) = Some b" "k \<noteq> i"
      using t [of j] t [of k] by (auto split: if_splits)
    have "(if j = Suc i then i else j) < (if k = Suc i then i else k)" using jk(1) j(2) k(2) by auto
    then show "b + gap \<le> a" using spreadD(1) [OF assms(1) _ _ j(1) k(1)] jk(2) assms(2) by (auto split: if_splits)
  next
    fix j a
    assume j: "j < 5" "backup_time path ?s' j = Some a"
    then have "backup_time path s (if j = Suc i then i else j) = Some a" using t [of j] by (auto split: if_splits)
    then show "a \<le> now" using spreadD(2) [OF assms(1), of i a] spreadD(2) [OF assms(1), of j a] assms(2) j(1)
      by (cases "j = Suc i") auto
  next
    fix j a
    assume j: "0 < j" "j < 5" "backup_time path ?s' j = Some a"
    then have "backup_time path s (if j = Suc i then i else j) = Some a" using t [of j] by (auto split: if_splits)
    then show "a + gap \<le> now" using spreadD(3) [OF assms(1)] assms(2,3) j(1,2)
      by (cases "j = Suc i"; cases "i = 0") auto
  qed
qed

lemma spread_copy:
  assumes "spread gap path now s" and "plain_ring path s" and "now \<le> t"
  shows "spread gap path t (apply_op s (CopyOver (backup_path path 0) bs mode t))" (is "spread gap path t ?s'")
proof -
  have r: "resolve LINK_LIMIT s (backup_path path 0) = Some (backup_path path 0)"
    by (rule plain_ring_resolve [OF assms(2)]) simp
  have other: "backup_time path ?s' j = backup_time path s j" if "0 < j" "j < 5" for j
    using that r by (auto simp: backup_time_def backup_path_inj split: option.splits node.splits)
  have first: "backup_time path ?s' 0 = Some a \<Longrightarrow> a = t \<or> backup_time path s 0 = Some a \<and> ?s' = s" for a
    using r by (auto simp: backup_time_def node_mtime_def split: option.splits node.splits)
  show ?thesis
  proof (rule spreadI)
    fix i j a b
    assume ij: "i < j" "j < 5" "backup_time path ?s' i = Some a" "backup_time path ?s' j = Some b"
    then have b: "backup_time path s j = Some b" using other [of j] by simp
    show "b + gap \<le> a"
    proof (cases "i = 0")
      case True
      then show ?thesis using first [of a] ij b spreadD(3) [OF assms(1), of j b] spreadD(1) [OF assms(1), of 0 j a b] assms(3)
        by auto
    next
      case False
      then show ?thesis using ij b other [of i] spreadD(1) [OF assms(1), of i j a b] by simp
    qed
  next
    fix i a
    assume i: "i < 5" "backup_time path ?s' i = Some a"
    show "a \<le> t"
    proof (cases "i = 0")
      case True
      then show ?thesis using first [of a] i spreadD(2) [OF assms(1), of 0 a] assms(3) by auto
    next
      case False
      then show ?thesis using i other [of i] spreadD(2) [OF assms(1), of i a] assms(3) by auto
    qed
  next
    fix i a
    assume "0 < i" "i < 5" "backup_time path ?s' i = Some a"
    then show "a + gap \<le> t" using other [of i] spreadD(3) [OF assms(1), of i a] assms(3) by auto
  qed
qed

lemma shift_spread:
  assumes "spread gap path now s" and "slot \<le> 4"
    and "\<And>a. backup_time path s 0 = Some a \<Longrightarrow> \<not> stat_fails io (backup_path path 0) \<Longrightarrow> a + gap \<le> now"
  shows "spread gap path now (run_ops (take k (shift_slots io path slot s)) s)"
  using assms
proof (induction slot arbitrary: s k)
  case (Suc slot)
  let ?op = "RenameTo (backup_path path slot) (backup_path path (Suc slot))"
  show ?case
  proof (cases "path_exists io s (backup_path path slot) \<and> slot_renamed io slot")
    case True
    then have "\<not> stat_fails io (backup_path path slot)" by (auto simp: path_exists_def metadata_def)
    then have next_ok: "spread gap path now (apply_op s ?op)"
      by (intro spread_rename [OF Suc.prems(1)]) (use Suc.prems(2,3) in auto)
    have "backup_time path (apply_op s ?op) 0 = Some a \<Longrightarrow> backup_time path s 0 = Some a" for a
      using Suc.prems(2) by (auto simp: backup_time_def backup_path_inj split: if_splits)
    then have "spread gap path now (run_ops (take j (shift_slots io path slot (apply_op s ?op))) (apply_op s ?op))" for j
      using Suc.IH [OF next_ok] Suc.prems(2,3) by (simp del: apply_op.simps)
    then show ?thesis using True Suc.prems(1) by (cases k) (simp_all add: Let_def del: apply_op.simps)
  next
    case False
    have "spread gap path now (run_ops (take k (shift_slots io path slot s)) s)"
      using Suc.IH Suc.prems by simp
    moreover have "shift_slots io path (Suc slot) s = shift_slots io path slot s"
      using False by (auto simp: Let_def simp del: apply_op.simps)
    ultimately show ?thesis by simp
  qed
qed simp

lemma rotate_spread:
  assumes "spread BACKUP_MIN_SPACING path (clock io) s" and "plain_ring path s" and "clock io \<le> copied_at io"
  shows "spread BACKUP_MIN_SPACING path (copied_at io)
    (run_ops (take k (rotate_backup_ring io s path BACKUP_MIN_SPACING)) s)"
proof (cases "\<not> path_exists io s path \<or> recent_backup io s (backup_path path 0) BACKUP_MIN_SPACING")
  case True
  then show ?thesis using spread_later [OF assms(1,3)] by (auto simp: rotate_backup_ring_def)
next
  case False
  let ?shift = "shift_slots io path 4 s"
  have old: "a + BACKUP_MIN_SPACING \<le> clock io"
    if "backup_time path s 0 = Some a" "\<not> stat_fails io (backup_path path 0)" for a
    using False that plain_ring_resolve [OF assms(2), of 0 LINK_LIMIT]
    by (auto simp: recent_backup_def metadata_def backup_time_def bind_eq_Some_conv split: if_splits)
  have shifted: "spread BACKUP_MIN_SPACING path (clock io) (run_ops (take j ?shift) s)" for j
    by (rule shift_spread [OF assms(1)]) (use old in auto)
  have ring: "rotate_backup_ring io s path BACKUP_MIN_SPACING = ?shift @ copy_ops io (run_ops ?shift s) path (backup_path path 0)"
    using False by (simp add: rotate_backup_ring_def BACKUP_SLOTS_def Let_def)
  have plain: "plain_ring path (run_ops ?shift s)"
    using side_ops_keep [OF shift_slots_side [of 4 path "fresh_tmp path (replicate 36 0)"] assms(2), of io s]
      fresh_tmp_not_backup [of "replicate 36 0"] by simp
  show ?thesis
  proof (cases "k \<le> length ?shift")
    case True
    then show ?thesis using shifted [of k] spread_later [OF _ assms(3)] by (simp add: ring)
  next
    case gt: False
    have all: "spread BACKUP_MIN_SPACING path (clock io) (run_ops ?shift s)" using shifted [of "length ?shift"] by simp
    have cut: "take (k - length ?shift) (copy_ops io (run_ops ?shift s) path (backup_path path 0))
        = copy_ops io (run_ops ?shift s) path (backup_path path 0)"
      using gt by (auto simp: copy_ops_def Suc_diff_le not_le less_iff_Suc_add split: option.splits node.splits copy_outcome.splits)
    have "spread BACKUP_MIN_SPACING path (copied_at io)
        (run_ops (copy_ops io (run_ops ?shift s) path (backup_path path 0)) (run_ops ?shift s))"
      using spread_copy [OF all plain assms(3)] spread_later [OF all assms(3)]
      by (auto simp: copy_ops_def simp del: apply_op.simps split: option.splits node.splits copy_outcome.splits)
    then show ?thesis using gt cut by (simp add: ring)
  qed
qed


text \<open>A sequence of writes, each of which may be cut short after some of its operations.\<close>

fun durable_writes :: "bytes \<Rightarrow> (write_io \<times> bytes \<times> nat) list \<Rightarrow> filesys \<Rightarrow> filesys" where
  "durable_writes path [] s = s"
| "durable_writes path ((io, bs, j) # ws) s =
     durable_writes path ws (run_ops (take j (snd (write_durable io s path bs))) s)"

text \<open>The clock does not go back between writes, and a copy is not older than the rotation.\<close>

fun clock_runs :: "nat \<Rightarrow> (write_io \<times> bytes \<times> nat) list \<Rightarrow> bool" where
  "clock_runs t [] = True"
| "clock_runs t ((io, bs, j) # ws) =
     (t \<le> clock io \<and> clock io \<le> copied_at io \<and> length (tmp_uuid io) = 36 \<and> clock_runs (copied_at io) ws)"

fun last_clock :: "nat \<Rightarrow> (write_io \<times> bytes \<times> nat) list \<Rightarrow> nat" where
  "last_clock t [] = t"
| "last_clock t ((io, bs, j) # ws) = last_clock (copied_at io) ws"

fun tmp_op :: "bytes \<Rightarrow> bytes \<Rightarrow> fs_op \<Rightarrow> bool" where
  "tmp_op path tmp (CreateNew n t) = (n = tmp)"
| "tmp_op path tmp (WriteTo n bs t) = (n = tmp)"
| "tmp_op path tmp (SyncFile n) = (n = tmp)"
| "tmp_op path tmp (RemoveFile n) = (n = tmp)"
| "tmp_op path tmp (RenameTo a b) = (a = tmp \<and> b = path)"
| "tmp_op path tmp SyncDir = True"
| "tmp_op path tmp _ = False"

lemma tmp_ops_spread:
  assumes "list_all (tmp_op path tmp) ops" and "\<And>i. i < 5 \<Longrightarrow> tmp \<noteq> backup_path path i"
    and "spread gap path now s"
  shows "spread gap path now (run_ops ops s)"
  using assms(1,3)
proof (induction ops arbitrary: s)
  case (Cons e ops)
  have "nodes (apply_op s e) (backup_path path i) = nodes s (backup_path path i)" if "i < 5" for i
    using Cons.prems(1) assms(2) [OF that] by (cases e) (auto split: option.splits node.splits)
  from spread_same [OF Cons.prems(2) this] Cons show ?case by simp
qed simp

lemma write_tmp_ops: "list_all (tmp_op path (fresh_tmp path (tmp_uuid io))) (snd (write_atomic_changed io s path bs))"
  by (auto simp: write_atomic_changed_def Let_def split: option.splits)

lemma write_spread:
  assumes "spread BACKUP_MIN_SPACING path (clock io) s" and "clock io \<le> copied_at io" and "length (tmp_uuid io) = 36"
  shows "spread BACKUP_MIN_SPACING path (copied_at io) (run_ops (take j (snd (write_durable io s path bs))) s)"
proof (cases "validate_write_target io s path = Inr () \<and> \<not> content_matches io s path bs
    \<and> validate_backup_ring io s path = Inr ()")
  case False
  then have "snd (write_durable io s path bs) = []"
    by (auto simp: write_durable_def simp del: validate_write_target.simps split: sum.splits)
  then show ?thesis using spread_later [OF assms(1,2)] by simp
next
  case True
  define ring where "ring = rotate_backup_ring io s path BACKUP_MIN_SPACING"
  define ops where "ops = snd (write_atomic_changed io (run_ops ring s) path bs)"
  have w: "snd (write_durable io s path bs) = ring @ ops"
    using True by (simp add: write_durable_def ring_def ops_def Let_def del: validate_write_target.simps split: prod.splits sum.splits)
  have "spread BACKUP_MIN_SPACING path (copied_at io) (run_ops (take j ring) s)"
    unfolding ring_def by (rule rotate_spread [OF assms(1) validated_ring assms(2)]) (use True in blast)
  moreover have "list_all (tmp_op path (fresh_tmp path (tmp_uuid io))) (take (j - length ring) ops)"
    using write_tmp_ops [of path io "run_ops ring s" bs] by (auto simp: ops_def list_all_iff dest: in_set_takeD)
  ultimately show ?thesis using tmp_ops_spread fresh_tmp_not_backup [OF assms(3)] by (simp add: w)
qed

text \<open>
  C26: The ring keeps copies of different moments. Over any sequence of durable writes, with any
  failures and with writes cut short anywhere, as long as the clock does not go back: of two
  backups the one in the lower slot is at least an hour younger.
\<close>
theorem backups_are_spread:
  assumes "\<And>i. i < 5 \<Longrightarrow> nodes s (backup_path path i) = None" and "clock_runs t ws"
    and "i < k" and "k < 5"
    and "backup_time path (durable_writes path ws s) i = Some a"
    and "backup_time path (durable_writes path ws s) k = Some b"
  shows "b + 60 * 60 \<le> a"
proof -
  have "spread BACKUP_MIN_SPACING path t s"
    by (rule spreadI) (simp_all add: backup_time_def assms(1))
  then have "spread BACKUP_MIN_SPACING path (last_clock t ws) (durable_writes path ws s)"
    using assms(2)
  proof (induction path ws s arbitrary: t rule: durable_writes.induct)
    case (2 path io bs j ws s)
    then show ?case using write_spread [OF spread_later [OF 2(2)]] by simp
  qed simp
  then show ?thesis using spreadD(1) assms(3-) by (fastforce simp: BACKUP_MIN_SPACING_def)
qed

end
