(* ===== verification/DurablePrivacy.thy ===== *)
theory DurablePrivacy
  imports DurableWriteSafety
begin

text \<open>
  Private state: no operation of a private write leaves contents in a file that others may read,
  and a finished write has protected the directory and every copy.
\<close>

section \<open>Operations that expose nothing\<close>

definition private_entry :: "filesys \<Rightarrow> bytes \<Rightarrow> bool" where
  "private_entry s n \<longleftrightarrow>
     (case nodes s n of None \<Rightarrow> True | Some (File g) \<Rightarrow> f_mode g = PRIVATE_MODE | _ \<Rightarrow> False)"

text \<open>A file that others may read is one of those of \<open>s0\<close>, unchanged.\<close>

definition covered :: "filesys \<Rightarrow> filesys \<Rightarrow> bool" where
  "covered s0 s \<longleftrightarrow>
     (\<forall>n g. nodes s n = Some (File g) \<and> f_mode g \<noteq> PRIVATE_MODE \<longrightarrow> nodes s0 n = Some (File g))"

definition closed_to_others :: "filesys \<Rightarrow> bytes set \<Rightarrow> filesys \<Rightarrow> bool" where
  "closed_to_others s0 C s \<longleftrightarrow> covered s0 s \<and> (\<forall>n \<in> C. private_entry s n)"

fun safe_op :: "bytes set \<Rightarrow> fs_op \<Rightarrow> bool" where
  "safe_op C (CreateNew n t) = True"
| "safe_op C (WriteTo n bs t) = (n \<in> C)"
| "safe_op C (SyncFile n) = (n \<in> C)"
| "safe_op C (RenameTo a b) = (a \<in> C)"
| "safe_op C (RemoveFile n) = True"
| "safe_op C (CopyOver n bs mode t) = (n \<in> C \<and> mode = PRIVATE_MODE)"
| "safe_op C (ChmodFile n mode) = (mode = PRIVATE_MODE)"
| "safe_op C (ChmodDir mode) = True"
| "safe_op C SyncDir = True"

lemma private_entry_resolve: "private_entry s n \<Longrightarrow> resolve fuel s n = Some n"
  by (rule resolve_plain) (auto simp: private_entry_def)

lemma private_entry_same: "nodes s' n = nodes s n \<Longrightarrow> private_entry s' n \<longleftrightarrow> private_entry s n"
  by (simp add: private_entry_def)

text \<open>An operation that changes one entry, to nothing or to a private file.\<close>

lemma closed_set_node:
  assumes "closed_to_others s0 C s" and "\<And>g. x = Some (File g) \<Longrightarrow> f_mode g = PRIVATE_MODE"
    and "n \<in> C \<Longrightarrow> \<exists>g. x = None \<or> x = Some (File g)"
  shows "closed_to_others s0 C (set_node n x s)"
  using assms by (auto simp: closed_to_others_def covered_def private_entry_def)

lemma closed_file:
  "closed_to_others s0 C s \<Longrightarrow> n \<in> C \<Longrightarrow> nodes s n = Some x \<Longrightarrow> \<exists>g. x = File g \<and> f_mode g = PRIVATE_MODE"
  by (cases x) (auto simp: closed_to_others_def private_entry_def dest!: bspec)

lemma safe_op_keeps:
  assumes "closed_to_others s0 C s" and "safe_op C e"
  shows "closed_to_others s0 C (apply_op s e)"
proof (cases e)
  case (WriteTo n bs t)
  then show ?thesis using assms closed_file [OF assms(1), of n]
    by (auto split: option.splits node.splits intro!: closed_set_node)
next
  case (SyncFile n)
  then show ?thesis using assms closed_file [OF assms(1), of n]
    by (auto split: option.splits node.splits intro!: closed_set_node)
next
  case (RenameTo a b)
  then have x: "nodes s a = Some x \<Longrightarrow> \<exists>g. x = File g \<and> f_mode g = PRIVATE_MODE" for x
    using assms closed_file [OF assms(1), of a x] by simp
  have "closed_to_others s0 C (set_node b (nodes s a) s)"
    by (rule closed_set_node [OF assms(1)]) (use x in \<open>cases "nodes s a"; auto\<close>)+
  then show ?thesis using RenameTo assms(1) by (auto intro!: closed_set_node)
next
  case (CopyOver n bs mode t)
  then have "resolve LINK_LIMIT s n = Some n"
    using assms by (auto simp: closed_to_others_def intro!: private_entry_resolve)
  then show ?thesis using CopyOver assms closed_file [OF assms(1), of n]
    by (auto split: option.splits node.splits intro!: closed_set_node)
next
  case (ChmodFile n mode)
  then show ?thesis using assms by (auto split: option.splits node.splits intro!: closed_set_node)
next
  case (ChmodDir m)
  then show ?thesis using assms by (auto simp: closed_to_others_def covered_def private_entry_def)
qed (use assms in \<open>auto intro!: closed_set_node\<close>)

lemma safe_ops_keep:
  "list_all (safe_op C) ops \<Longrightarrow> closed_to_others s0 C s \<Longrightarrow> closed_to_others s0 C (run_ops (take j ops) s)"
proof (induction ops arbitrary: s j)
  case (Cons e ops)
  then show ?case using safe_op_keeps [OF Cons.prems(2), of e] by (cases j) simp_all
qed simp

section \<open>The write\<close>

abbreviation candidates :: "bytes \<Rightarrow> bytes set" where
  "candidates path \<equiv> set (candidate_paths path)"

lemma candidate_members: "path \<in> candidates path" "i < 5 \<Longrightarrow> backup_path path i \<in> candidates path"
  by (auto simp: candidate_paths_def BACKUP_SLOTS_def)

lemma shift_safe: "slot \<le> 4 \<Longrightarrow> list_all (safe_op (candidates path)) (shift_slots io path slot s)"
proof (induction slot arbitrary: s)
  case (Suc slot)
  then show ?case using candidate_members(2) [of slot path] by (simp add: Let_def del: apply_op.simps)
qed simp

lemma ring_safe:
  assumes "closed_to_others s0 (candidates path) s" and "plain_ring path s"
  shows "list_all (safe_op (candidates path)) (rotate_backup_ring io s path gap)"
proof -
  let ?s = "run_ops (shift_slots io path 4 s) s"
  have "closed_to_others s0 (candidates path) ?s"
    using safe_ops_keep [OF shift_safe [where slot = 4 and io = io and s = s] assms(1), of "length (shift_slots io path 4 s)"]
    by simp
  note p = closed_file [OF this candidate_members(1)]
  have "private_entry ?s path"
    using \<open>closed_to_others s0 (candidates path) ?s\<close> candidate_members(1) by (auto simp: closed_to_others_def)
  then have "list_all (safe_op (candidates path)) (copy_ops io ?s path (backup_path path 0))"
    using p candidate_members(2) [of 0 path] private_entry_resolve
    by (auto simp: copy_ops_def split: option.splits node.splits copy_outcome.splits)
  then show ?thesis using shift_safe [of 4 path io s]
    by (simp add: rotate_backup_ring_def BACKUP_SLOTS_def Let_def)
qed

lemma write_ops_safe:
  assumes "nodes s (fresh_tmp path (tmp_uuid io)) = None"
  shows "list_all (safe_op (insert (fresh_tmp path (tmp_uuid io)) (candidates path))) (snd (write_atomic_changed io s path bs))"
  by (auto simp: write_atomic_changed_def Let_def split: option.splits)

lemma write_ops_taken:
  assumes "nodes s (fresh_tmp path (tmp_uuid io)) \<noteq> None"
  shows "list_all (safe_op (candidates path)) (snd (write_atomic_changed io s path bs))"
  using assms by (auto simp: write_atomic_changed_def Let_def split: option.splits)

lemma atomic_closed:
  assumes "closed_to_others s0 (candidates path) s"
  shows "closed_to_others s0 (candidates path) (run_ops (take j (snd (write_atomic_changed io s path bs))) s)"
proof (cases "nodes s (fresh_tmp path (tmp_uuid io)) = None")
  case True
  then have "closed_to_others s0 (insert (fresh_tmp path (tmp_uuid io)) (candidates path)) s"
    using assms by (simp add: closed_to_others_def private_entry_def)
  from safe_ops_keep [OF write_ops_safe [OF True] this] show ?thesis by (auto simp: closed_to_others_def)
next
  case False
  show ?thesis by (rule safe_ops_keep [OF write_ops_taken [OF False] assms])
qed

lemma durable_closed:
  assumes "closed_to_others s0 (candidates path) s"
  shows "closed_to_others s0 (candidates path) (run_ops (take j (snd (write_durable io s path bs))) s)"
proof (cases "validate_write_target io s path = Inr () \<and> \<not> content_matches io s path bs
    \<and> validate_backup_ring io s path = Inr ()")
  case False
  then have "snd (write_durable io s path bs) = []"
    by (auto simp: write_durable_def simp del: validate_write_target.simps split: sum.splits)
  then show ?thesis using assms by simp
next
  case True
  define ring where "ring = rotate_backup_ring io s path BACKUP_MIN_SPACING"
  have w: "snd (write_durable io s path bs) = ring @ snd (write_atomic_changed io (run_ops ring s) path bs)"
    using True by (simp add: write_durable_def ring_def Let_def del: validate_write_target.simps split: prod.splits sum.splits)
  have "list_all (safe_op (candidates path)) ring"
    unfolding ring_def by (rule ring_safe [OF assms validated_ring]) (use True in blast)
  note ring = safe_ops_keep [OF this assms]
  show ?thesis
  proof (cases "j \<le> length ring")
    case True
    then show ?thesis using ring [of j] by (simp add: w)
  next
    case False
    then show ?thesis
      using atomic_closed [where j = "j - length ring" and io = io and bs = bs, OF ring [of "length ring"]] by (simp add: w)
  qed
qed

section \<open>Protecting every copy\<close>

definition protected_entry :: "filesys \<Rightarrow> bytes \<Rightarrow> bool" where
  "protected_entry s n \<longleftrightarrow>
     nodes s n = None \<or> (\<exists>g. nodes s n = Some (File g) \<and> f_mode g = PRIVATE_MODE \<and> f_links g = 1)"

lemma protected_private: "protected_entry s n \<Longrightarrow> private_entry s n"
  by (auto simp: protected_entry_def private_entry_def)

lemma chmod_keeps_protected: "protected_entry s n \<Longrightarrow> protected_entry (apply_op s (ChmodFile m PRIVATE_MODE)) n"
  by (auto simp: protected_entry_def split: option.splits node.splits)

definition chmods :: "fs_op list \<Rightarrow> bool" where
  "chmods ops \<longleftrightarrow> list_all (\<lambda>e. \<exists>n. e = ChmodFile n PRIVATE_MODE) ops"

lemma chmods_keep: "chmods ops \<Longrightarrow> protected_entry s n \<Longrightarrow> protected_entry (run_ops ops s) n"
  by (induction ops arbitrary: s) (auto simp: chmods_def simp del: apply_op.simps intro: chmod_keeps_protected)

lemma protect_loop_protects:
  "protect_loop io s ns = (res, ops) \<Longrightarrow>
     chmods ops \<and> (res = Inr () \<longrightarrow> (\<forall>n \<in> set ns. protected_entry (run_ops ops s) n))"
proof (induction ns arbitrary: s res ops)
  case (Cons c ns)
  show ?case
  proof (cases "nodes s c")
    case None
    then have "protected_entry s c" by (simp add: protected_entry_def)
    then show ?thesis using Cons.IH [of s res ops] Cons.prems None chmods_keep by auto
  next
    case (Some x)
    show ?thesis
    proof (cases "\<exists>f. x = File f \<and> private_open io c \<and> f_links f = 1 \<and> private_chmod io c")
      case False
      then show ?thesis using Cons.prems Some by (auto simp: chmods_def split: node.splits if_splits)
    next
      case True
      then obtain f where f: "x = File f" "private_open io c" "f_links f = 1" "private_chmod io c" by auto
      let ?s = "apply_op s (ChmodFile c PRIVATE_MODE)"
      obtain r ops' where l: "protect_loop io ?s ns = (r, ops')" by fastforce
      have o: "ops = ChmodFile c PRIVATE_MODE # ops'" "res = r"
        using Cons.prems Some f l by (simp_all del: apply_op.simps)
      have "protected_entry ?s c" using Some f by (simp add: protected_entry_def)
      then show ?thesis using Cons.IH [OF l] o chmods_keep by (auto simp: chmods_def simp del: apply_op.simps)
    qed
  qed
qed (simp add: chmods_def)

lemma protect_protects:
  assumes "protect_private_state io s path = (res, ops)"
  shows "list_all (safe_op C) ops"
    and "res = Inr () \<Longrightarrow> dir_mode (run_ops ops s) = PRIVATE_DIR_MODE \<and> (\<forall>n \<in> candidates path. protected_entry (run_ops ops s) n)"
proof -
  let ?s = "apply_op s (ChmodDir PRIVATE_DIR_MODE)"
  obtain r ops' where l: "protect_loop io ?s (candidate_paths path) = (r, ops')" by fastforce
  note p = protect_loop_protects [OF l]
  have "chmods os \<Longrightarrow> dir_mode (run_ops os u) = dir_mode u" for os u
    by (induction os arbitrary: u) (auto simp: chmods_def set_node_def split: option.splits node.splits)
  then have d: "dir_mode (run_ops ops' ?s) = PRIVATE_DIR_MODE" using p by simp
  have c: "ops = [] \<and> res \<noteq> Inr () \<or> ops = ChmodDir PRIVATE_DIR_MODE # ops' \<and> res = r"
    using assms l by (auto simp: protect_private_state_def split: if_splits)
  show "list_all (safe_op C) ops" using c p by (fastforce simp: chmods_def list_all_iff)
  show "dir_mode (run_ops ops s) = PRIVATE_DIR_MODE \<and> (\<forall>n \<in> candidates path. protected_entry (run_ops ops s) n)"
    if "res = Inr ()" using c p d that by auto
qed

lemma covered_run:
  assumes "list_all (safe_op {}) ops" and "covered s0 s"
  shows "covered s0 (run_ops (take j ops) s)"
  using safe_ops_keep [OF assms(1), of s0 s j] assms(2) by (simp add: closed_to_others_def)

text \<open>
  C16: Private state is never readable by others. At every moment of a private write, whatever
  fails, a file with other permissions than the owner's is one that was there before, unchanged;
  and a write that reports success has the directory, the file and every backup protected, each a
  regular file with one link.
\<close>
theorem private_write_never_exposes:
  assumes "write_private_durable before io after s path bs = (res, ops)"
  shows "(\<forall>j n g. nodes (run_ops (take j ops) s) n = Some (File g) \<and> f_mode g \<noteq> PRIVATE_MODE
           \<longrightarrow> nodes s n = Some (File g))
    \<and> (\<forall>c. res = Inr c \<longrightarrow> dir_mode (run_ops ops s) = PRIVATE_DIR_MODE
           \<and> (\<forall>n \<in> set (candidate_paths path). protected_entry (run_ops ops s) n))"
proof -
  obtain r1 ops1 where p1: "protect_private_state before s path = (r1, ops1)" by fastforce
  have start: "covered s s" by (simp add: covered_def)
  note c1 = covered_run [OF protect_protects(1) [OF p1] start]
  show ?thesis
  proof (cases r1)
    case (Inl e)
    then have "ops = ops1" "res = Inl e" using assms p1 by (simp_all add: write_private_durable_def)
    then show ?thesis using c1 by (simp add: covered_def)
  next
    case (Inr u)
    define ops2 where "ops2 = snd (write_durable io (run_ops ops1 s) path bs)"
    obtain r3 ops3 where p3: "protect_private_state after (run_ops (ops1 @ ops2) s) path = (r3, ops3)" by fastforce
    have "closed_to_others s (candidates path) (run_ops ops1 s)"
      using c1 [of "length ops1"] protect_protects(2) [OF p1] Inr protected_private
      by (simp add: closed_to_others_def)
    from durable_closed [OF this, of _ io bs] have c2: "covered s (run_ops (take j ops2) (run_ops ops1 s))" for j
      by (simp add: closed_to_others_def ops2_def)
    have "covered s (run_ops (ops1 @ ops2) s)" using c2 [of "length ops2"] by simp
    note c3 = covered_run [OF protect_protects(1) [OF p3] this]
    have o: "ops = ops1 @ ops2 \<and> (\<exists>e. res = Inl e)
        \<or> ops = ops1 @ ops2 @ ops3 \<and> (case r3 of Inl e \<Rightarrow> res = Inl e | Inr _ \<Rightarrow> True)"
      using assms p1 p3 Inr by (auto simp: write_private_durable_def ops2_def split: prod.splits sum.splits)
    have all: "covered s (run_ops (take j (ops1 @ ops2 @ ops3)) s)" for j
    proof -
      consider "j \<le> length ops1" | "length ops1 < j" "j \<le> length ops1 + length ops2" | "length ops1 + length ops2 < j"
        by linarith
      then show ?thesis using c1 [of j] c2 [of "j - length ops1"] c3 [of "j - length ops1 - length ops2"]
        by cases simp_all
    qed
    have "covered s (run_ops (take j ops) s)" for j
      using o all [of j] all [of "min j (length (ops1 @ ops2))"] by (auto simp: min_def split: if_splits)
    moreover have "dir_mode (run_ops ops s) = PRIVATE_DIR_MODE \<and> (\<forall>n \<in> candidates path. protected_entry (run_ops ops s) n)"
      if "res = Inr c" for c
      using o that protect_protects(2) [OF p3] by (cases r3) auto
    ultimately show ?thesis unfolding covered_def by blast
  qed
qed

end
