(* ===== verification/DurableDemo.thy ===== *)
theory DurableDemo
  imports DurablePrivacy
begin

text \<open>A state file of one byte that is written over the hours: the properties at work.\<close>

definition quiet_io :: "nat \<Rightarrow> u8 \<Rightarrow> write_io" where
  "quiet_io now u = \<lparr>stat_fails = \<lambda>_. False, dir_created = True, compare_opens = True, compare_reads = [],
     tmp_uuid = replicate 36 u, create_ok = True, written = None, sync_ok = True, rename_ok = True,
     remove_ok = True, dir_synced = True, slot_renamed = \<lambda>_. True, copied = CopyOk, clock = now,
     copied_at = now, private_dir_ok = True, private_open = \<lambda>_. True, private_chmod = \<lambda>_. True\<rparr>"

definition old_inode :: inode where
  "old_inode = \<lparr>f_data = [7], f_synced = True, f_mtime = 0, f_mode = 420, f_links = 1\<rparr>"

definition demo_fs :: filesys where
  "demo_fs = \<lparr>nodes = [[0x73] \<mapsto> File old_inode], dir_mode = 493\<rparr>"

definition one_byte :: "bytes \<Rightarrow> u8 option" where
  "one_byte bs = (case bs of [b] \<Rightarrow> Some b | _ \<Rightarrow> None)"

lemma demo_write_done: "fst (write_durable (quiet_io 5 1) demo_fs [0x73] [8]) = Inr True"
  by code_simp

lemma demo_prefix: "SyncDir \<notin> set (take 3 (snd (write_durable (quiet_io 5 1) demo_fs [0x73] [8])))"
  by code_simp

lemma demo_crash: "crashed (take 3 (snd (write_durable (quiet_io 5 1) demo_fs [0x73] [8]))) demo_fs demo_fs"
proof -
  have "power_loss demo_fs demo_fs" by (simp add: power_loss_def demo_fs_def old_inode_def)
  then show ?thesis unfolding crashed_def using demo_prefix by (intro exI [of _ 0]) simp
qed

theorem durable_write_is_atomic_witness:
  "load_first_valid one_byte (\<lambda>_. True) (run_ops (snd (write_durable (quiet_io 5 1) demo_fs [0x73] [8])) demo_fs) [0x73] = Some 8
    \<and> load_first_valid one_byte (\<lambda>_. True) demo_fs [0x73] \<in> {Some 7, Some 8}"
proof -
  have f: "nodes demo_fs [0x73] = Some (File old_inode)" "f_synced old_inode"
    "one_byte (f_data old_inode) = Some 7" "one_byte [8] = Some 8" "length (tmp_uuid (quiet_io 5 1)) = 36"
    by (simp_all add: demo_fs_def old_inode_def one_byte_def quiet_io_def)
  note p = durable_write_is_atomic [where parse = one_byte and readable = "\<lambda>_. True",
      OF prod.collapse [symmetric] f(5,1,2) TrueI f(3,4)]
  from p demo_crash have "load_first_valid one_byte (\<lambda>_. True) demo_fs [0x73] \<in> {Some 7, Some 8}" by blast
  moreover from p demo_write_done
  have "load_first_valid one_byte (\<lambda>_. True) (run_ops (snd (write_durable (quiet_io 5 1) demo_fs [0x73] [8])) demo_fs) [0x73] = Some 8"
    by blast
  ultimately show ?thesis by blast
qed

definition demo_writes :: "(write_io \<times> bytes \<times> nat) list" where
  "demo_writes = [(quiet_io 0 1, [8], 20), (quiet_io 10 1, [4], 20), (quiet_io 4000 1, [9], 20)]"

lemma demo_backups:
  "backup_time [0x73] (durable_writes [0x73] demo_writes demo_fs) 0 = Some 4000"
  "backup_time [0x73] (durable_writes [0x73] demo_writes demo_fs) 1 = Some 0"
  by code_simp+

theorem backups_are_spread_witness:
  "\<exists>a b. backup_time [0x73] (durable_writes [0x73] demo_writes demo_fs) 0 = Some a
     \<and> backup_time [0x73] (durable_writes [0x73] demo_writes demo_fs) 1 = Some b \<and> b + 60 * 60 \<le> a"
proof (intro exI conjI, rule demo_backups, rule demo_backups)
  have "nodes demo_fs (backup_path [0x73] i) = None" for i
    by (simp add: demo_fs_def backup_path_def sibling_with_suffix_def bytes_of_def)
  moreover have "clock_runs 0 demo_writes" by (simp add: demo_writes_def quiet_io_def)
  ultimately show "(0 :: nat) + 60 * 60 \<le> 4000"
    using backups_are_spread [where s = demo_fs and path = "[0x73]" and ws = demo_writes and t = 0 and i = 0 and k = 1,
        OF _ _ _ _ demo_backups] by simp
qed

lemma demo_private_done:
  "fst (write_private_durable (quiet_io 0 1) (quiet_io 0 1) (quiet_io 0 1) demo_fs [0x73] [8]) = Inr True"
  by code_simp

theorem private_write_never_exposes_witness:
  "protected_entry (run_ops (snd (write_private_durable (quiet_io 0 1) (quiet_io 0 1) (quiet_io 0 1) demo_fs [0x73] [8])) demo_fs) [0x73]"
  using private_write_never_exposes [OF prod.collapse [symmetric], of "quiet_io 0 1" "quiet_io 0 1" "quiet_io 0 1" demo_fs "[0x73]" "[8]",
      THEN conjunct2] demo_private_done candidate_members(1) [of "[0x73]"]
  by blast

end
