(* ===== verification/SplitTree.thy ===== *)
theory SplitTree
  imports Prelude
begin

text \<open>
  \<open>src/terminal/split_tree.rs\<close>: the tree of splits of a terminal panel. A leaf is a session, a
  split has an axis, a ratio and two children. Ratios and coordinates are floating-point numbers,
  which enter as types with the functions that the code applies to them: \<open>clamp\<close> is
  \<open>clamp_ratio\<close>, \<open>cut low high ratio\<close> is \<open>low + (high - low) * ratio\<close>, \<open>before\<close> and \<open>after\<close> are
  three pixels to each side. A new identifier is chosen by the uuid crate.
\<close>

section \<open>The tree\<close>

definition nil_uuid :: uuid where
  "nil_uuid = 0"

datatype axis = Horizontal | Vertical

datatype 'r split_node =
    Leaf uuid
  | Split axis 'r "'r split_node" "'r split_node"

fun collect_leaves :: "'r split_node \<Rightarrow> uuid list \<Rightarrow> uuid list" where
  "collect_leaves (Leaf i) acc = acc @ [i]"
| "collect_leaves (Split ax ratio first second) acc = collect_leaves second (collect_leaves first acc)"

definition leaves :: "'r split_node \<Rightarrow> uuid list" where
  "leaves node = collect_leaves node []"

definition leaf_count :: "'r split_node \<Rightarrow> nat" where
  "leaf_count node = length (leaves node)"

definition contains_leaf :: "'r split_node \<Rightarrow> uuid \<Rightarrow> bool" where
  "contains_leaf node leaf \<longleftrightarrow> leaf \<in> set (leaves node)"

definition is_tombstone :: "'r split_node \<Rightarrow> bool" where
  "is_tombstone node \<longleftrightarrow> (case node of Leaf i \<Rightarrow> i = nil_uuid | _ \<Rightarrow> False)"

section \<open>Splitting and closing\<close>

fun replace_leaf_with :: "uuid \<Rightarrow> ('r split_node \<Rightarrow> 'r split_node) \<Rightarrow> 'r split_node \<Rightarrow> 'r split_node option" where
  "replace_leaf_with leaf f (Leaf i) = (if i = leaf then Some (f (Leaf leaf)) else None)"
| "replace_leaf_with leaf f (Split ax ratio first second) =
     (case replace_leaf_with leaf f first of
        Some repl \<Rightarrow> Some (Split ax ratio repl second)
      | None \<Rightarrow>
          (case replace_leaf_with leaf f second of
             Some repl \<Rightarrow> Some (Split ax ratio first repl)
           | None \<Rightarrow> None))"

text \<open>The tree after \<open>split\<close>, with the identifier of the new leaf; \<open>half\<close> is the ratio 0.5.\<close>

definition split_leaf :: "'r \<Rightarrow> uuid \<Rightarrow> uuid \<Rightarrow> axis \<Rightarrow> 'r split_node \<Rightarrow> uuid option \<times> 'r split_node" where
  "split_leaf half new_id leaf ax node =
     (case replace_leaf_with leaf (\<lambda>old. Split ax half old (Leaf new_id)) node of
        Some node' \<Rightarrow> (Some new_id, node')
      | None \<Rightarrow> (None, node))"

datatype close_result = Closed "uuid option" | Emptied | NotFound

text \<open>The replacement of the node, the node as it was changed in place, and the flag.\<close>

fun close_inner :: "uuid \<Rightarrow> bool \<Rightarrow> 'r split_node \<Rightarrow> 'r split_node option \<times> 'r split_node \<times> bool" where
  "close_inner leaf closed (Leaf i) =
     (if i = leaf then (Some (Leaf nil_uuid), Leaf i, True) else (None, Leaf i, closed))"
| "close_inner leaf closed (Split ax ratio first second) =
     (case close_inner leaf closed first of
        (repl1, first1, closed1) \<Rightarrow>
          if \<exists>node \<in> set_option repl1. is_tombstone node then (Some second, Split ax ratio first1 second, closed1)
          else
            (let first2 = (case repl1 of Some node \<Rightarrow> node | None \<Rightarrow> first1) in
             case close_inner leaf closed1 second of
               (repl2, second1, closed2) \<Rightarrow>
                 if \<exists>node \<in> set_option repl2. is_tombstone node
                 then (Some first2, Split ax ratio first2 second1, closed2)
                 else (None,
                       Split ax ratio first2 (case repl2 of Some node \<Rightarrow> node | None \<Rightarrow> second1),
                       closed2)))"

definition close_leaf :: "uuid \<Rightarrow> 'r split_node \<Rightarrow> close_result \<times> 'r split_node" where
  "close_leaf leaf node =
     (case close_inner leaf False node of
        (replacement, changed, closed) \<Rightarrow>
          (let node' = (case replacement of Some n \<Rightarrow> n | None \<Rightarrow> changed) in
           (if \<not> closed then NotFound
            else if is_tombstone node' then Emptied
            else if leaves node' = [] then Emptied
            else Closed (case leaves node' of [] \<Rightarrow> None | i # _ \<Rightarrow> Some i),
            node')))"

section \<open>Focus and ratios\<close>

fun position :: "uuid list \<Rightarrow> uuid \<Rightarrow> nat option" where
  "position [] x = None"
| "position (y # ys) x = (if y = x then Some 0 else map_option Suc (position ys x))"

definition focus_next :: "uuid \<Rightarrow> 'r split_node \<Rightarrow> uuid option" where
  "focus_next current node =
     (let ls = leaves node in
      if ls = [] then None
      else
        (let next_pos = (case position ls current of Some p \<Rightarrow> (p + 1) mod length ls | None \<Rightarrow> 0) in
         if next_pos < length ls then Some (ls ! next_pos) else None))"

fun set_ratio :: "('r \<Rightarrow> 'r) \<Rightarrow> nat list \<Rightarrow> 'r \<Rightarrow> 'r split_node \<Rightarrow> 'r split_node" where
  "set_ratio clamp [] ratio (Split ax r first second) = Split ax (clamp ratio) first second"
| "set_ratio clamp (index # path) ratio (Split ax r first second) =
     (if index = 0 then Split ax r (set_ratio clamp path ratio first) second
      else Split ax r first (set_ratio clamp path ratio second))"
| "set_ratio clamp path ratio (Leaf i) = Leaf i"

section \<open>Layout\<close>

record 'c rect =
  left :: 'c
  top :: 'c
  right :: 'c
  bottom :: 'c

record 'c leaf_layout =
  ll_id :: uuid
  ll_rect :: "'c rect"

record 'c divider_hit =
  dh_axis :: axis
  dh_rect :: "'c rect"
  dh_parent :: "'c rect"
  dh_path :: "nat list"

text \<open>The arithmetic of the coordinates.\<close>

record ('c, 'r) geometry =
  cut :: "'c \<Rightarrow> 'c \<Rightarrow> 'r \<Rightarrow> 'c"
  clamp_ratio :: "'r \<Rightarrow> 'r"
  before :: "'c \<Rightarrow> 'c"
  after :: "'c \<Rightarrow> 'c"

definition halves :: "('c, 'r) geometry \<Rightarrow> axis \<Rightarrow> 'r \<Rightarrow> 'c rect \<Rightarrow> 'c rect \<times> 'c rect \<times> 'c rect" where
  "halves g ax ratio r =
     (case ax of
        Horizontal \<Rightarrow>
          (let x = cut g (left r) (right r) ratio in
           (r\<lparr>right := x\<rparr>, r\<lparr>left := x\<rparr>, r\<lparr>left := before g x, right := after g x\<rparr>))
      | Vertical \<Rightarrow>
          (let y = cut g (top r) (bottom r) ratio in
           (r\<lparr>bottom := y\<rparr>, r\<lparr>top := y\<rparr>, r\<lparr>top := before g y, bottom := after g y\<rparr>)))"

fun layout_inner ::
  "('c, 'r) geometry \<Rightarrow> 'r split_node \<Rightarrow> 'c rect \<Rightarrow> nat list
    \<Rightarrow> 'c leaf_layout list \<times> 'c divider_hit list \<Rightarrow> 'c leaf_layout list \<times> 'c divider_hit list" where
  "layout_inner g (Leaf i) r path (ls, ds) = (ls @ [\<lparr>ll_id = i, ll_rect = r\<rparr>], ds)"
| "layout_inner g (Split ax ratio first second) r path (ls, ds) =
     (case halves g ax (clamp_ratio g ratio) r of
        (first_rect, second_rect, divider_rect) \<Rightarrow>
          layout_inner g second second_rect (path @ [1])
            (layout_inner g first first_rect (path @ [0])
              (ls, ds @ [\<lparr>dh_axis = ax, dh_rect = divider_rect, dh_parent = r, dh_path = path\<rparr>])))"

definition layout :: "('c, 'r) geometry \<Rightarrow> 'r split_node \<Rightarrow> 'c rect \<Rightarrow> 'c leaf_layout list \<times> 'c divider_hit list" where
  "layout g node r = layout_inner g node r [] ([], [])"

section \<open>Leaves\<close>

lemma collect_leaves_append: "collect_leaves node (xs @ ys) = xs @ collect_leaves node ys"
  by (induction node arbitrary: ys) simp_all

lemma collect_leaves_acc: "collect_leaves node acc = acc @ leaves node"
  using collect_leaves_append [of node acc "[]"] by (simp add: leaves_def)

lemma leaves_simps [simp]:
  "leaves (Leaf i) = [i]" "leaves (Split ax ratio first second) = leaves first @ leaves second"
proof -
  show "leaves (Leaf i) = [i]" by (simp add: leaves_def)
  have "leaves (Split ax ratio first second) = collect_leaves second (leaves first)" by (simp add: leaves_def)
  then show "leaves (Split ax ratio first second) = leaves first @ leaves second" by (simp add: collect_leaves_acc)
qed

lemma leaves_not_empty [simp]: "leaves node \<noteq> []"
  by (induction node) simp_all

text \<open>A well-formed tree names every session once and none by the nil identifier.\<close>

definition well_formed :: "'r split_node \<Rightarrow> bool" where
  "well_formed node \<longleftrightarrow> distinct (leaves node) \<and> nil_uuid \<notin> set (leaves node)"

lemma well_formed_split [simp]:
  "well_formed (Split ax ratio first second)
     \<longleftrightarrow> well_formed first \<and> well_formed second \<and> set (leaves first) \<inter> set (leaves second) = {}"
  by (auto simp: well_formed_def)

lemma well_formed_not_tombstone: "well_formed node \<Longrightarrow> \<not> is_tombstone node"
  by (cases node) (auto simp: well_formed_def is_tombstone_def)

lemma replace_leaf_none: "replace_leaf_with leaf f node = None \<longleftrightarrow> leaf \<notin> set (leaves node)"
  by (induction node) (auto split: option.splits)

fun insert_after :: "uuid \<Rightarrow> uuid \<Rightarrow> uuid list \<Rightarrow> uuid list" where
  "insert_after x y [] = []"
| "insert_after x y (z # zs) = (if z = x then z # y # zs else z # insert_after x y zs)"

lemma insert_after_append:
  "insert_after x y (as @ bs) = (if x \<in> set as then insert_after x y as @ bs else as @ insert_after x y bs)"
  by (induction as) auto

lemma replace_leaf_order:
  "replace_leaf_with leaf (\<lambda>old. Split ax half old (Leaf new_id)) node = Some node'
     \<Longrightarrow> leaves node' = insert_after leaf new_id (leaves node)"
proof (induction node arbitrary: node')
  case (Split a q first second)
  then show ?case by (auto simp: insert_after_append replace_leaf_none split: option.splits dest: replace_leaf_none [THEN iffD1])
    (metis option.distinct(1) replace_leaf_none)
qed (auto split: if_splits)

lemma set_insert_after: "set (insert_after x y xs) = (if x \<in> set xs then insert y (set xs) else set xs)"
  by (induction xs) auto

lemma distinct_insert_after: "distinct xs \<Longrightarrow> y \<notin> set xs \<Longrightarrow> distinct (insert_after x y xs)"
  by (induction xs) (auto simp: set_insert_after)

text \<open>Closing: the replacement of a node has the leaves of the node without the closed one.\<close>

definition closes_to :: "uuid \<Rightarrow> 'r split_node \<Rightarrow> 'r split_node option \<times> 'r split_node \<times> bool \<Rightarrow> bool" where
  "closes_to leaf node res \<longleftrightarrow>
     (case res of (repl, changed, closed) \<Rightarrow>
        closed
        \<and> (if leaves node = [leaf] then repl = Some (Leaf nil_uuid)
           else (\<exists>node'. (case repl of Some n \<Rightarrow> n | None \<Rightarrow> changed) = node' \<and> well_formed node'
                  \<and> leaves node' = removeAll leaf (leaves node))))"

lemma close_inner_absent: "leaf \<notin> set (leaves node) \<Longrightarrow> close_inner leaf c node = (None, node, c)"
  by (induction node arbitrary: c) auto

lemma removeAll_absent: "x \<notin> set xs \<Longrightarrow> removeAll x xs = xs"
  by (rule removeAll_id)

lemma single_leaf: "leaves node = [i] \<Longrightarrow> node = Leaf i"
  by (cases node) (auto simp: append_eq_Cons_conv)

lemma well_formed_leaves: "leaves a = leaves b \<Longrightarrow> well_formed a \<longleftrightarrow> well_formed b"
  by (simp add: well_formed_def)

lemma close_inner_present:
  "well_formed node \<Longrightarrow> leaf \<in> set (leaves node) \<Longrightarrow> closes_to leaf node (close_inner leaf c node)"
proof (induction node arbitrary: c)
  case (Leaf i)
  then show ?case by (simp add: closes_to_def)
next
  case (Split ax ratio first second)
  have wf: "well_formed first" "well_formed second" "set (leaves first) \<inter> set (leaves second) = {}"
    using Split.prems(1) by simp_all
  have not1: "leaves (Split ax ratio first second) \<noteq> [leaf]"
    by (metis append_is_Nil_conv leaves_not_empty leaves_simps(2) append_eq_Cons_conv)
  show ?case
  proof (cases "leaf \<in> set (leaves first)")
    case True
    then have abs: "leaf \<notin> set (leaves second)" using wf(3) by auto
    obtain r n d where ci: "close_inner leaf c first = (r, n, d)" by (cases "close_inner leaf c first") auto
    from Split.IH(1) [OF wf(1) True, of c] have to: "closes_to leaf first (r, n, d)" by (simp add: ci)
    show ?thesis
    proof (cases "leaves first = [leaf]")
      case True
      then show ?thesis using to ci wf abs not1 by (simp add: closes_to_def is_tombstone_def)
    next
      case False
      let ?f = "case r of Some n \<Rightarrow> n | None \<Rightarrow> n"
      have f: "well_formed ?f" "leaves ?f = removeAll leaf (leaves first)" "d"
        using to False by (auto simp: closes_to_def)
      then have "\<not> (\<exists>node \<in> set_option r. is_tombstone node)"
        using well_formed_not_tombstone by (auto split: option.splits)
      then show ?thesis
        using f ci wf abs not1 close_inner_absent [OF abs, of d]
        by (auto simp: closes_to_def removeAll_absent)
    qed
  next
    case False
    then have in2: "leaf \<in> set (leaves second)" using Split.prems(2) by simp
    have ci1: "close_inner leaf c first = (None, first, c)" by (rule close_inner_absent [OF False])
    obtain r n d where ci: "close_inner leaf c second = (r, n, d)" by (cases "close_inner leaf c second") auto
    from Split.IH(2) [OF wf(2) in2, of c] have to: "closes_to leaf second (r, n, d)" by (simp add: ci)
    show ?thesis
    proof (cases "leaves second = [leaf]")
      case True
      then show ?thesis using to ci ci1 wf False not1 by (simp add: closes_to_def is_tombstone_def removeAll_absent)
    next
      case ne: False
      let ?f = "case r of Some n \<Rightarrow> n | None \<Rightarrow> n"
      have f: "well_formed ?f" "leaves ?f = removeAll leaf (leaves second)" "d"
        using to ne by (auto simp: closes_to_def)
      then have "\<not> (\<exists>node \<in> set_option r. is_tombstone node)"
        using well_formed_not_tombstone by (auto split: option.splits)
      then show ?thesis
        using f ci ci1 wf False not1 by (auto simp: closes_to_def removeAll_absent)
    qed
  qed
qed

lemma set_ratio_leaves: "leaves (set_ratio clamp path r node) = leaves node"
  by (induction clamp path r node rule: set_ratio.induct) simp_all

section \<open>Properties\<close>

text \<open>
  C29: The trees of the panels stay well formed, every session in them once and none nil, and the
  operations do exactly what they say. Splitting a session puts the new one right behind it in the
  order of focus and leaves the others, and does nothing when the session is absent. Closing takes
  exactly that session away, collapses its split and hands the focus to the first one left; it
  reports an emptied tree exactly for the last session and an absent one without a change. A
  dragged divider moves no session.
\<close>
theorem tree_operations_are_exact:
  assumes "well_formed node" and "new_id \<noteq> nil_uuid" and "new_id \<notin> set (leaves node)"
  shows "(case split_leaf half new_id leaf ax node of (created, node') \<Rightarrow>
       well_formed node' \<and> leaves node' = insert_after leaf new_id (leaves node)
       \<and> created = (if contains_leaf node leaf then Some new_id else None))
    \<and> (case close_leaf leaf node of (result, node') \<Rightarrow>
         if \<not> contains_leaf node leaf then result = NotFound \<and> node' = node
         else if leaves node = [leaf] then result = Emptied \<and> is_tombstone node'
         else well_formed node' \<and> leaves node' = removeAll leaf (leaves node)
           \<and> result = Closed (Some (hd (leaves node'))))
    \<and> well_formed (set_ratio clamp path ratio node) \<and> leaves (set_ratio clamp path ratio node) = leaves node"
proof (intro conjI)
  show "case split_leaf half new_id leaf ax node of (created, node') \<Rightarrow>
       well_formed node' \<and> leaves node' = insert_after leaf new_id (leaves node)
       \<and> created = (if contains_leaf node leaf then Some new_id else None)"
  proof (cases "replace_leaf_with leaf (\<lambda>old. Split ax half old (Leaf new_id)) node")
    case None
    then have "leaf \<notin> set (leaves node)" by (simp add: replace_leaf_none)
    moreover from this have "insert_after leaf new_id (leaves node) = leaves node"
      using insert_after_append [of leaf new_id "leaves node" "[]"] by simp
    ultimately show ?thesis using None assms(1) by (simp add: split_leaf_def contains_leaf_def)
  next
    case (Some node')
    from Some have "leaf \<in> set (leaves node)" by (metis option.distinct(1) replace_leaf_none)
    then show ?thesis using Some replace_leaf_order [OF Some] assms
      by (simp add: split_leaf_def contains_leaf_def well_formed_def set_insert_after distinct_insert_after)
  qed
  show "case close_leaf leaf node of (result, node') \<Rightarrow>
         if \<not> contains_leaf node leaf then result = NotFound \<and> node' = node
         else if leaves node = [leaf] then result = Emptied \<and> is_tombstone node'
         else well_formed node' \<and> leaves node' = removeAll leaf (leaves node)
           \<and> result = Closed (Some (hd (leaves node')))"
  proof (cases "leaf \<in> set (leaves node)")
    case False
    then show ?thesis using close_inner_absent [OF False, of False] by (simp add: close_leaf_def contains_leaf_def Let_def)
  next
    case True
    obtain r n d where ci: "close_inner leaf False node = (r, n, d)" by (cases "close_inner leaf False node") auto
    have to: "closes_to leaf node (r, n, d)" using close_inner_present [OF assms(1) True, of False] by (simp add: ci)
    show ?thesis
    proof (cases "leaves node = [leaf]")
      case True
      then show ?thesis using to ci by (simp add: close_leaf_def contains_leaf_def closes_to_def is_tombstone_def Let_def)
    next
      case False
      let ?f = "case r of Some m \<Rightarrow> m | None \<Rightarrow> n"
      have f: "well_formed ?f" "leaves ?f = removeAll leaf (leaves node)" "d"
        using to False by (auto simp: closes_to_def)
      obtain i is' where "leaves ?f = i # is'" using leaves_not_empty [of ?f] by (cases "leaves ?f") auto
      then show ?thesis using f True False ci well_formed_not_tombstone [OF f(1)]
        by (simp add: close_leaf_def contains_leaf_def Let_def)
    qed
  qed
  show "leaves (set_ratio clamp path ratio node) = leaves node" by (rule set_ratio_leaves)
  then show "well_formed (set_ratio clamp path ratio node)" using assms(1) by (simp add: well_formed_def)
qed

theorem tree_operations_are_exact_witness:
  "close_leaf 2 (Split Horizontal (0 :: nat) (Leaf 1) (Split Vertical 0 (Leaf 2) (Leaf 3)))
     = (Closed (Some 1), Split Horizontal 0 (Leaf 1) (Leaf 3))
   \<and> leaves (snd (split_leaf (0 :: nat) 4 1 Vertical (Split Horizontal (0 :: nat) (Leaf 1) (Leaf 3)))) = [1, 4, 3]"
  using tree_operations_are_exact [of "Split Horizontal (0 :: nat) (Leaf 1) (Leaf 3)" 4 0 1 Vertical "\<lambda>r. r" "[]" 0]
  by (auto simp: well_formed_def nil_uuid_def split_leaf_def close_leaf_def is_tombstone_def Let_def)

section \<open>Focus\<close>

lemma position_nth: "distinct xs \<Longrightarrow> p < length xs \<Longrightarrow> position xs (xs ! p) = Some p"
  by (induction xs arbitrary: p) (auto simp: nth_Cons split: nat.splits)

lemma focus_next_nth:
  assumes "distinct (leaves node)" and "p < leaf_count node"
  shows "focus_next (leaves node ! p) node = Some (leaves node ! (Suc p mod leaf_count node))"
  using assms position_nth [of "leaves node" p] by (simp add: focus_next_def leaf_count_def Let_def)

fun focus_steps :: "nat \<Rightarrow> uuid \<Rightarrow> 'r split_node \<Rightarrow> uuid option" where
  "focus_steps 0 current node = Some current"
| "focus_steps (Suc k) current node = Option.bind (focus_steps k current node) (\<lambda>i. focus_next i node)"

text \<open>
  Moving the focus forward visits every session of the panel in the order of the tree and comes
  back: after \<open>k\<close> moves from the session at position \<open>p\<close> the focus is at \<open>p + k\<close>, counted around,
  so as many moves as there are sessions return to the start.
\<close>
theorem focus_cycles:
  assumes "well_formed node" and "p < leaf_count node"
  shows "focus_steps k (leaves node ! p) node = Some (leaves node ! ((p + k) mod leaf_count node))"
proof (induction k)
  case 0
  then show ?case using assms(2) by simp
next
  case (Suc k)
  have "(p + k) mod leaf_count node < leaf_count node" using assms(2) by simp
  from focus_next_nth [OF _ this] assms(1) show ?case
    using Suc by (simp add: well_formed_def mod_Suc_eq)
qed

theorem focus_cycles_witness:
  "focus_steps 3 1 (Split Horizontal () (Leaf 1) (Split Vertical () (Leaf 2) (Leaf 3))) = Some 1"
  using focus_cycles [of "Split Horizontal () (Leaf 1) (Split Vertical () (Leaf 2) (Leaf 3))" 0 3]
  by (simp add: well_formed_def nil_uuid_def leaf_count_def)

section \<open>Areas\<close>

text \<open>A point belongs to a rectangle without its right and bottom edges.\<close>

definition inside :: "('c :: linorder) rect \<Rightarrow> 'c \<Rightarrow> 'c \<Rightarrow> bool" where
  "inside r x y \<longleftrightarrow> left r \<le> x \<and> x < right r \<and> top r \<le> y \<and> y < bottom r"

definition proper :: "('c :: linorder) rect \<Rightarrow> bool" where
  "proper r \<longleftrightarrow> left r \<le> right r \<and> top r \<le> bottom r"

text \<open>What the arithmetic owes: a cut lies between its ends.\<close>

definition cuts_between :: "('c :: linorder, 'r) geometry \<Rightarrow> bool" where
  "cuts_between g \<longleftrightarrow>
     (\<forall>low high ratio. low \<le> high \<longrightarrow> low \<le> cut g low high (clamp_ratio g ratio) \<and> cut g low high (clamp_ratio g ratio) \<le> high)"

lemma layout_inner_acc:
  "layout_inner g node r path (ls, ds)
     = (ls @ fst (layout_inner g node r path ([], [])), ds @ snd (layout_inner g node r path ([], [])))"
proof (induction node arbitrary: r path ls ds)
  case (Split ax ratio first second)
  obtain r1 r2 rd where h: "halves g ax (clamp_ratio g ratio) r = (r1, r2, rd)" by (cases "halves g ax (clamp_ratio g ratio) r") auto
  let ?d = "\<lparr>dh_axis = ax, dh_rect = rd, dh_parent = r, dh_path = path\<rparr>"
  obtain l1 d1 where 1: "layout_inner g first r1 (path @ [0]) ([], []) = (l1, d1)" by fastforce
  obtain l2 d2 where 2: "layout_inner g second r2 (path @ [1]) ([], []) = (l2, d2)" by fastforce
  have "layout_inner g first r1 (path @ [0]) (ls, ds) = (ls @ l1, ds @ d1)" for ls ds
    using Split.IH(1) [of r1 "path @ [0]" ls ds] by (simp add: 1)
  moreover have "layout_inner g second r2 (path @ [1]) (ls, ds) = (ls @ l2, ds @ d2)" for ls ds
    using Split.IH(2) [of r2 "path @ [1]" ls ds] 2 by simp
  ultimately show ?case by (simp add: h)
qed simp

definition areas :: "('c, 'r) geometry \<Rightarrow> 'r split_node \<Rightarrow> 'c rect \<Rightarrow> nat list \<Rightarrow> 'c leaf_layout list" where
  "areas g node r path = fst (layout_inner g node r path ([], []))"

lemma areas_leaf: "areas g (Leaf i) r path = [\<lparr>ll_id = i, ll_rect = r\<rparr>]"
  by (simp add: areas_def)

lemma areas_split:
  assumes "halves g ax (clamp_ratio g ratio) r = (r1, r2, rd)"
  shows "areas g (Split ax ratio first second) r path = areas g first r1 (path @ [0]) @ areas g second r2 (path @ [1])"
proof -
  let ?d = "\<lparr>dh_axis = ax, dh_rect = rd, dh_parent = r, dh_path = path\<rparr>"
  obtain l1 d1 where 1: "layout_inner g first r1 (path @ [0]) ([], [?d]) = (l1, d1)" by fastforce
  have "l1 = areas g first r1 (path @ [0])"
    using layout_inner_acc [of g first r1 "path @ [0]" "[]" "[?d]"] 1 by (simp add: areas_def)
  moreover have "fst (layout_inner g second r2 (path @ [1]) (l1, d1)) = l1 @ areas g second r2 (path @ [1])"
    using layout_inner_acc [of g second r2 "path @ [1]" l1 d1] by (simp add: areas_def)
  ultimately show ?thesis using assms 1 by (simp add: areas_def [of g "Split ax ratio first second"])
qed

lemma halves_inside:
  assumes "cuts_between g" and "proper r" and "halves g ax (clamp_ratio g ratio) r = (r1, r2, rd)"
  shows "proper r1" "proper r2" "inside r x y \<longleftrightarrow> inside r1 x y \<or> inside r2 x y" "\<not> (inside r1 x y \<and> inside r2 x y)"
proof -
  have c: "left r \<le> cut g (left r) (right r) (clamp_ratio g ratio)" "cut g (left r) (right r) (clamp_ratio g ratio) \<le> right r"
    "top r \<le> cut g (top r) (bottom r) (clamp_ratio g ratio)" "cut g (top r) (bottom r) (clamp_ratio g ratio) \<le> bottom r"
    using assms(1,2) by (simp_all add: cuts_between_def proper_def)
  show "proper r1" "proper r2" "inside r x y \<longleftrightarrow> inside r1 x y \<or> inside r2 x y" "\<not> (inside r1 x y \<and> inside r2 x y)"
    using assms(2,3) c by (auto simp: halves_def proper_def inside_def Let_def split: axis.splits)
qed

lemma areas_tile:
  assumes "cuts_between g" and "proper r"
  shows "length (filter (\<lambda>a. inside (ll_rect a) x y) (areas g node r path)) = (if inside r x y then 1 else 0)"
  using assms(2)
proof (induction node arbitrary: r path)
  case (Leaf i)
  then show ?case by (simp add: areas_leaf)
next
  case (Split ax ratio first second)
  obtain r1 r2 rd where h: "halves g ax (clamp_ratio g ratio) r = (r1, r2, rd)" by (cases "halves g ax (clamp_ratio g ratio) r") auto
  note in12 = halves_inside [OF assms(1) Split.prems h]
  show ?case using Split.IH(1) [OF in12(1)] Split.IH(2) [OF in12(2)] in12(3,4) [of x y]
    by (auto simp: areas_split [OF h])
qed

lemma areas_ids: "map ll_id (areas g node r path) = leaves node"
proof (induction node arbitrary: r path)
  case (Split ax ratio first second)
  obtain r1 r2 rd where "halves g ax (clamp_ratio g ratio) r = (r1, r2, rd)" by (cases "halves g ax (clamp_ratio g ratio) r") auto
  from areas_split [OF this] show ?case using Split by simp
qed (simp add: areas_leaf)

text \<open>
  The layout of a panel is a tiling. Whatever rounding does, as long as a cut lies between its
  ends, every session gets one area, in the order of the tree, and every point of the panel lies in
  exactly one of the areas, every other point in none: no gap and no overlap.
\<close>
theorem layout_tiles_the_panel:
  assumes "cuts_between g" and "proper r"
  shows "map ll_id (fst (layout g node r)) = leaves node
    \<and> length (filter (\<lambda>a. inside (ll_rect a) x y) (fst (layout g node r))) = (if inside r x y then 1 else 0)"
  using areas_tile [OF assms] areas_ids by (simp add: layout_def areas_def)

text \<open>Percentages of a length in whole pixels.\<close>

definition percent :: "(int, int) geometry" where
  "percent = \<lparr>cut = \<lambda>low high q. low + (high - low) * q div 100, clamp_ratio = \<lambda>q. max 5 (min 95 q),
     before = \<lambda>x. x - 3, after = \<lambda>x. x + 3\<rparr>"

lemma percent_cuts: "cuts_between percent"
proof -
  have "0 \<le> d * q div 100 \<and> d * q div 100 \<le> d" if "0 \<le> d" "5 \<le> q" "q \<le> 95" for d q :: int
  proof
    show "0 \<le> d * q div 100" using that by (simp add: pos_imp_zdiv_nonneg_iff)
    have "d * q \<le> d * 100" using that by (intro mult_left_mono) simp_all
    then have "d * q div 100 \<le> d * 100 div 100" by (intro zdiv_mono1) simp_all
    then show "d * q div 100 \<le> d" by simp
  qed
  note b = this
  have "0 \<le> (high - low) * max 5 (min 95 q) div 100 \<and> (high - low) * max 5 (min 95 q) div 100 \<le> high - low"
    if "low \<le> high" for low high q :: int
    using b [of "high - low" "max 5 (min 95 q)"] that by simp
  note c = this
  show ?thesis unfolding cuts_between_def
  proof (intro allI impI)
    fix low high q :: int
    assume "low \<le> high"
    from c [OF this, of q]
    show "low \<le> cut percent low high (clamp_ratio percent q) \<and> cut percent low high (clamp_ratio percent q) \<le> high"
      by (simp add: percent_def)
  qed
qed

theorem layout_tiles_the_panel_witness:
  "length (filter (\<lambda>a. inside (ll_rect a) 30 70)
     (fst (layout percent (Split Horizontal 50 (Leaf 1) (Split Vertical 30 (Leaf 2) (Leaf 3)))
       \<lparr>left = 0, top = 0, right = 100, bottom = 80\<rparr>))) = 1"
  using layout_tiles_the_panel [OF percent_cuts, of "\<lparr>left = 0, top = 0, right = 100, bottom = 80\<rparr>"
      "Split Horizontal 50 (Leaf 1) (Split Vertical 30 (Leaf 2) (Leaf 3))" 30 70]
  by (simp add: proper_def inside_def)

end
