(* ===== verification/FlowControl.thy ===== *)
theory FlowControl
  imports Prelude
begin

text \<open>
  \<open>src/terminal/flow_control.rs\<close> and the part of the reader's loop in \<open>src/terminal/pty.rs\<close> that asks
  it: when the reader of a terminal may read on. Times are milliseconds of the monotonic clock.
\<close>

section \<open>The gate\<close>

definition HIGH_WATER :: nat where "HIGH_WATER = 256 * 1024"
definition LOW_WATER :: nat where "LOW_WATER = 32 * 1024"
definition MAX_PAUSE :: nat where "MAX_PAUSE = 5000"

datatype flow_state = Read | Pause

record flow_gate =
  paused_since :: "nat option"

definition new_gate :: flow_gate where
  "new_gate = \<lparr>paused_since = None\<rparr>"

definition is_paused :: "flow_gate \<Rightarrow> bool" where
  "is_paused g \<longleftrightarrow> paused_since g \<noteq> None"

definition update_gate :: "flow_gate \<Rightarrow> nat \<Rightarrow> nat \<Rightarrow> flow_state \<times> flow_gate" where
  "update_gate g pending_bytes now =
     (case paused_since g of
        None \<Rightarrow>
          if HIGH_WATER \<le> pending_bytes then (Pause, g\<lparr>paused_since := Some now\<rparr>) else (Read, g)
      | Some since \<Rightarrow>
          if pending_bytes \<le> LOW_WATER then (Read, g\<lparr>paused_since := None\<rparr>)
          else if MAX_PAUSE \<le> now - since then (Read, g\<lparr>paused_since := None\<rparr>)
          else (Pause, g))"

section \<open>The reader's question\<close>

text \<open>
  One round of the reader: the bytes pending in the log, the bytes that the owner still holds
  (\<open>None\<close> for a terminal without an owner, \<open>usize::MAX\<close>) and the time. A terminal whose owner
  counts what it has not made durable waits without a limit of time; the sum saturates.
\<close>

record flow_round =
  external :: "nat option"
  pending_len :: nat
  at :: nat

definition USIZE_MAX :: nat where "USIZE_MAX = 2 ^ 64 - 1"

definition reader_round :: "flow_gate \<Rightarrow> flow_round \<Rightarrow> flow_state \<times> flow_gate" where
  "reader_round g r =
     (if \<exists>e \<in> set_option (external r). HIGH_WATER \<le> min USIZE_MAX (e + pending_len r) then (Pause, g)
      else update_gate g (pending_len r) (at r))"

fun reader_rounds :: "flow_gate \<Rightarrow> flow_round list \<Rightarrow> flow_state list" where
  "reader_rounds g [] = []"
| "reader_rounds g (r # rs) = (case reader_round g r of (d, g') \<Rightarrow> d # reader_rounds g' rs)"

fun gate_after :: "flow_gate \<Rightarrow> flow_round list \<Rightarrow> flow_gate" where
  "gate_after g [] = g"
| "gate_after g (r # rs) = gate_after (snd (reader_round g r)) rs"

lemma reader_rounds_append:
  "reader_rounds g (rs @ rs') = reader_rounds g rs @ reader_rounds (gate_after g rs) rs'"
  by (induction rs arbitrary: g) (auto split: prod.splits)

lemma gate_after_append: "gate_after g (rs @ rs') = gate_after (gate_after g rs) rs'"
  by (induction rs arbitrary: g) simp_all

lemma length_reader_rounds [simp]: "length (reader_rounds g rs) = length rs"
  by (induction rs arbitrary: g) (auto split: prod.splits)

definition later_than :: "flow_gate \<Rightarrow> nat \<Rightarrow> bool" where
  "later_than g t \<longleftrightarrow> (\<forall>since \<in> set_option (paused_since g). since \<le> t)"

definition unowned :: "flow_round \<Rightarrow> bool" where
  "unowned r \<longleftrightarrow> external r = None"

text \<open>While an unowned reader is held, the gate keeps the moment at which the pause began.\<close>

lemma held_since:
  assumes "unowned r" and "reader_round g r = (Pause, g')" and "later_than g (at r)"
  shows "\<exists>since. paused_since g' = Some since \<and> since \<le> at r \<and> at r < since + MAX_PAUSE
    \<and> (\<forall>old \<in> set_option (paused_since g). since = old)"
  using assms by (auto simp: reader_round_def unowned_def update_gate_def later_than_def MAX_PAUSE_def
      split: option.splits if_splits)

lemma held_run:
  assumes "\<forall>r \<in> set rs. unowned r" and "sorted (map at rs)" and "rs \<noteq> []"
    and "later_than g (at (hd rs))" and "\<forall>d \<in> set (reader_rounds g rs). d = Pause"
  shows "\<exists>since. since \<le> at (hd rs) \<and> at (last rs) < since + MAX_PAUSE
    \<and> paused_since (gate_after g rs) = Some since \<and> (\<forall>old \<in> set_option (paused_since g). since = old)"
  using assms
proof (induction rs arbitrary: g)
  case (Cons r rs)
  obtain d g' where r: "reader_round g r = (d, g')" by (cases "reader_round g r") auto
  then have d: "d = Pause" using Cons.prems(5) by simp
  obtain since where s: "paused_since g' = Some since" "since \<le> at r" "at r < since + MAX_PAUSE"
    "\<forall>old \<in> set_option (paused_since g). since = old"
    using held_since [of r g g'] r d Cons.prems(1,4) by auto
  show ?case
  proof (cases "rs = []")
    case True
    then show ?thesis using s r by auto
  next
    case False
    have "since \<le> at (hd rs)" using s(2) Cons.prems(2) False by (cases rs) auto
    then have "\<exists>t. t \<le> at (hd rs) \<and> at (last rs) < t + MAX_PAUSE
        \<and> paused_since (gate_after g' rs) = Some t \<and> (\<forall>old \<in> set_option (paused_since g'). t = old)"
      using Cons.IH [of g'] Cons.prems(1,2,5) False r s(1) by (simp add: later_than_def)
    then show ?thesis using s False r by auto
  qed
qed simp

lemma gate_after_later:
  "sorted (map at rs) \<Longrightarrow> later_than g (at (hd rs)) \<Longrightarrow> rs \<noteq> [] \<Longrightarrow> later_than (gate_after g rs) (at (last rs))"
proof (induction rs arbitrary: g)
  case (Cons r rs)
  have "later_than (snd (reader_round g r)) (at r)"
    using Cons.prems(2) by (auto simp: later_than_def reader_round_def update_gate_def split: option.splits if_splits)
  then have "rs \<noteq> [] \<Longrightarrow> later_than (snd (reader_round g r)) (at (hd rs))"
    using Cons.prems(1) by (cases rs) (auto simp: later_than_def)
  then show ?case using Cons \<open>later_than (snd (reader_round g r)) (at r)\<close> by (cases "rs = []") auto
qed simp

text \<open>
  The pause of a reader is bounded and steady. For a terminal without an owner, a stretch of
  rounds that all hold the reader lasts less than five seconds, whatever is pending; and a held
  reader whose pending bytes have not come down to the low mark is let go for no other reason. For
  a terminal whose owner has not made enough durable, no time lets it read.
\<close>
theorem reader_pause_is_bounded:
  assumes "sorted (map at (before @ held @ [r]))" and "\<forall>q \<in> set held. unowned q" and "held \<noteq> []"
    and "\<forall>d \<in> set (reader_rounds (gate_after new_gate before) held). d = Pause"
  shows "at (last held) < at (hd held) + MAX_PAUSE
    \<and> (unowned r \<and> fst (reader_round (gate_after new_gate (before @ held)) r) = Read
         \<longrightarrow> pending_len r \<le> LOW_WATER
             \<or> (\<exists>since. paused_since (gate_after new_gate (before @ held)) = Some since \<and> since + MAX_PAUSE \<le> at r))
    \<and> (\<forall>e. external r = Some e \<and> HIGH_WATER \<le> e
         \<longrightarrow> fst (reader_round (gate_after new_gate (before @ held)) r) = Pause)"
proof -
  let ?g = "gate_after new_gate before"
  have sorted: "sorted (map at before)" "sorted (map at held)" using assms(1) by (simp_all add: sorted_append)
  have "later_than ?g (at (hd held))"
  proof (cases "before = []")
    case True
    then show ?thesis by (simp add: later_than_def new_gate_def)
  next
    case False
    then have "later_than ?g (at (last before))"
      using gate_after_later [OF sorted(1), of new_gate] by (simp add: later_than_def new_gate_def)
    moreover have "at (last before) \<le> at (hd held)"
      using assms(1,3) False by (simp add: sorted_append)
    ultimately show ?thesis by (auto simp: later_than_def)
  qed
  from held_run [OF assms(2) sorted(2) assms(3) this assms(4)] obtain since where
    s: "since \<le> at (hd held)" "at (last held) < since + MAX_PAUSE" "paused_since (gate_after ?g held) = Some since"
    by blast
  have g: "gate_after new_gate (before @ held) = gate_after ?g held"
    by (rule gate_after_append)
  show ?thesis using s unfolding g
    by (auto simp: reader_round_def update_gate_def unowned_def MAX_PAUSE_def HIGH_WATER_def USIZE_MAX_def split: if_splits)
qed

theorem reader_pause_is_bounded_witness:
  "at (last [\<lparr>external = None, pending_len = 300000, at = 10\<rparr>, \<lparr>external = None, pending_len = 100000, at = 4000\<rparr>])
     < at (hd [\<lparr>external = None, pending_len = 300000, at = 10\<rparr>, \<lparr>external = None, pending_len = 100000, at = 4000\<rparr>]) + MAX_PAUSE
   \<and> fst (reader_round (gate_after new_gate ([] @ [\<lparr>external = None, pending_len = 300000, at = 10\<rparr>,
        \<lparr>external = None, pending_len = 100000, at = 4000\<rparr>])) \<lparr>external = Some 300000, pending_len = 0, at = 90000\<rparr>) = Pause"
  using reader_pause_is_bounded [of "[]" "[\<lparr>external = None, pending_len = 300000, at = 10\<rparr>,
      \<lparr>external = None, pending_len = 100000, at = 4000\<rparr>]" "\<lparr>external = Some 300000, pending_len = 0, at = 90000\<rparr>"]
  by (simp add: unowned_def new_gate_def reader_round_def update_gate_def HIGH_WATER_def LOW_WATER_def
      MAX_PAUSE_def USIZE_MAX_def)

end
