(* ===== verification/DaemonClient.thy ===== *)
theory DaemonClient
  imports DaemonProtocol HookAuthority
begin

text \<open>
  The window's side of the daemon's protocol: \<open>src/src/daemon/sessions.rs\<close> with the parts of
  \<open>client.rs\<close> it uses, and the refusals of \<open>src/src/runtime/pty_manager.rs\<close> that say whether an
  identity may be retried, closed or replaced by a local shell.

  A connection is what the client will still read from it, what becomes of its writes, and the
  requests that may have reached the daemon. Texts of errors and the closing function that they
  carry are left out; an error without a type of its own is \<open>Untyped\<close>.
\<close>

section \<open>Refusals\<close>

datatype spawn_intent = NewBirth | AdoptExisting

record recovery_error =
  re_session :: uuid
  safe_local_fallback :: bool
  retry_intent :: spawn_intent
  retryable :: bool
  may_close :: bool

definition protected :: "uuid \<Rightarrow> recovery_error" where
  "protected i = \<lparr>re_session = i, safe_local_fallback = False, retry_intent = AdoptExisting,
     retryable = True, may_close = True\<rparr>"

definition birth_pending :: "uuid \<Rightarrow> bool \<Rightarrow> recovery_error" where
  "birth_pending i idempotent =
     (protected i)\<lparr>retry_intent := NewBirth, retryable := idempotent, may_close := idempotent\<rparr>"

definition birth_rejected :: "uuid \<Rightarrow> recovery_error" where
  "birth_rejected i = (birth_pending i False)\<lparr>retryable := False, may_close := False\<rparr>"

definition before_creation :: "uuid \<Rightarrow> recovery_error" where
  "before_creation i = \<lparr>re_session = i, safe_local_fallback = True, retry_intent = NewBirth,
     retryable = True, may_close = False\<rparr>"

lemmas refusal_defs = protected_def birth_pending_def birth_rejected_def before_creation_def

datatype failure = Typed recovery_error | Untyped

section \<open>Requests\<close>

definition is_pushed_event :: "response \<Rightarrow> bool" where
  "is_pushed_event r =
     (case r of OutputEvent _ _ _ \<Rightarrow> True | ExitEvent _ \<Rightarrow> True | InputError _ _ \<Rightarrow> True | _ \<Rightarrow> False)"

definition is_duplicate_after_attach :: "u64 \<Rightarrow> u64 \<Rightarrow> bool" where
  "is_duplicate_after_attach event_seq attached_seq \<longleftrightarrow> event_seq \<le> attached_seq"

text \<open>What the reader yields next: a response, a line that is none, or an error; then the end.\<close>

datatype incoming = Line response | BadLine | ReadError

record wire =
  inbox :: "incoming list"
  writes_ok :: "bool list"
  sent :: "request list"

fun await_response :: "incoming list \<Rightarrow> response option \<times> incoming list" where
  "await_response [] = (None, [])"
| "await_response (Line r # rest) = (if is_pushed_event r then await_response rest else (Some r, rest))"
| "await_response (BadLine # rest) = (None, rest)"
| "await_response (ReadError # rest) = (None, rest)"

text \<open>A request whose write fails may still have reached the daemon.\<close>

definition request :: "request \<Rightarrow> wire \<Rightarrow> response option \<times> wire" where
  "request rq w =
     (let written = (case writes_ok w of [] \<Rightarrow> True | ok # _ \<Rightarrow> ok);
          w1 = w\<lparr>sent := sent w @ [rq], writes_ok := drop 1 (writes_ok w)\<rparr> in
      if \<not> written then (None, w1)
      else (case await_response (inbox w) of (r, rest) \<Rightarrow> (r, w1\<lparr>inbox := rest\<rparr>)))"

section \<open>Sessions\<close>

record snapshot =
  snap_bytes :: bytes
  snap_seq :: u64
  snap_alive :: bool
  snap_ready :: bool
  snap_evidence :: host_evidence

definition hook_evidence :: "uuid \<Rightarrow> uuid option \<Rightarrow> wire_hook_target option \<Rightarrow> host_evidence" where
  "hook_evidence runtime generation target =
     \<lparr>evidence_runtime = runtime, evidence_generation = generation,
      evidence_target = map_option (\<lambda>t. \<lparr>workspace_id = wire_workspace_id t, panel_id = wire_panel_id t,
        leaf_id = wire_leaf_id t\<rparr>) target\<rparr>"

text \<open>The specification of a session in the window, and its translation for the daemon.\<close>

record session_spec =
  app_title :: bytes
  app_cwd :: "bytes option"
  app_command :: "bytes option"
  app_workspace :: "uuid option"
  app_panel :: "uuid option"
  app_leaf :: "uuid option"
  app_memory_task :: "uuid option"
  hook_legacy_root :: bool

definition wire_spec_from :: "session_spec \<Rightarrow> u16 \<Rightarrow> u16 \<Rightarrow> wire_spec" where
  "wire_spec_from c cols rows =
     \<lparr>hook_generation = None, hook_owner = None, memory_task_id = app_memory_task c, spec_title = app_title c,
      spec_cwd = app_cwd c, startup_command = app_command c, spec_panel_id = app_panel c,
      spec_workspace_id = app_workspace c, spec_leaf_id = app_leaf c, spec_cols = max 1 cols, spec_rows = max 1 rows\<rparr>"

definition spec_key :: "session_spec \<Rightarrow> leaf_key option" where
  "spec_key c =
     (case (app_workspace c, app_panel c, app_leaf c) of
        (Some w, Some p, Some l) \<Rightarrow> Some \<lparr>key_workspace = w, key_panel = p, key_leaf = l\<rparr>
      | _ \<Rightarrow> None)"

definition remote_binding_key :: "session_spec \<Rightarrow> unit + leaf_key option" where
  "remote_binding_key c =
     (if app_workspace c = None \<and> app_panel c = None \<and> app_leaf c = None \<and> app_memory_task c = None
         \<and> \<not> hook_legacy_root c
      then Inr None
      else (case spec_key c of Some k \<Rightarrow> Inr (Some k) | None \<Rightarrow> Inl ()))"

text \<open>The parsers of the daemon's error envelopes.\<close>

record envelope_parsers =
  details_of :: "bytes \<Rightarrow> (uuid \<times> snapshot_failure_kind) option"
  uuid_of :: "bytes \<Rightarrow> uuid option"

definition attached_as :: "uuid \<Rightarrow> response \<Rightarrow> snapshot option" where
  "attached_as i r =
     (case r of
        Attached actual snap seq is_alive ready generation target \<Rightarrow>
          if actual = i
          then Some \<lparr>snap_bytes = snap, snap_seq = seq, snap_alive = is_alive, snap_ready = ready,
            snap_evidence = hook_evidence i generation target\<rparr>
          else None
      | _ \<Rightarrow> None)"

text \<open>A completed error may be followed by a list; every other failure is protected.\<close>

definition existing_snapshot ::
  "envelope_parsers \<Rightarrow> uuid \<Rightarrow> wire \<Rightarrow> (failure + snapshot option) \<times> wire" where
  "existing_snapshot p i w =
     (case request (Attach i) w of
        (None, w1) \<Rightarrow> (Inl (Typed (protected i)), w1)
      | (Some r, w1) \<Rightarrow>
          (case attached_as i r of
             Some snap \<Rightarrow> (Inr (Some snap), w1)
           | None \<Rightarrow>
               (case r of
                  ErrorResponse _ \<Rightarrow>
                    if snapshot_failure_from_response (details_of p) r \<noteq> None
                    then (Inl (Typed (protected i)), w1)
                    else (case request ListSessions w1 of
                       (Some (Sessions ids), w2) \<Rightarrow>
                         if i \<notin> set ids then (Inr None, w2) else (Inl (Typed (protected i)), w2)
                     | (_, w2) \<Rightarrow> (Inl (Typed (protected i)), w2))
                | _ \<Rightarrow> (Inl (Typed (protected i)), w1))))"

definition spawn_then_snapshot ::
  "envelope_parsers \<Rightarrow> wire_spec \<Rightarrow> uuid \<Rightarrow> wire \<Rightarrow> (failure + snapshot) \<times> wire" where
  "spawn_then_snapshot p spec i w =
     (case request (Spawn spec (Some i)) w of
        (None, w1) \<Rightarrow> (Inl (Typed (birth_pending i True)), w1)
      | (Some spawned, w1) \<Rightarrow>
          if birth_rejected_from_response (uuid_of p) spawned = Some i
          then (Inl (Typed (birth_rejected i)), w1)
          else if spawned \<noteq> Spawned i then (Inl (Typed (birth_pending i True)), w1)
          else (case request (Attach i) w1 of
             (None, w2) \<Rightarrow> (Inl (Typed (birth_pending i True)), w2)
           | (Some r, w2) \<Rightarrow>
               (case attached_as i r of
                  Some snap \<Rightarrow> (Inr snap, w2)
                | None \<Rightarrow> (Inl (Typed (birth_pending i True)), w2))))"

text \<open>
  What an attempt meets: the connection with the capabilities that the daemon announced, the
  process' hook runtime and its answers, and whether the streams can be cloned and the handle
  attached.
\<close>

record recovery_env =
  connection :: "(wire \<times> birth_capabilities) option"
  streams_cloned :: bool
  runtime_owner :: "uuid option"
  authorized_birth :: "unit + uuid option"
  hook_attached :: bool
  handle_attached :: bool

record spawn_result =
  sr_session :: uuid
  sr_remote :: bool
  sr_ready :: bool
  sr_owned_birth :: bool

text \<open>The resize that announces an adoption, and the search for the session.\<close>

definition adopt_snapshot ::
  "envelope_parsers \<Rightarrow> uuid \<Rightarrow> u16 \<Rightarrow> u16 \<Rightarrow> wire \<Rightarrow> (failure + snapshot option) \<times> wire" where
  "adopt_snapshot p i cols rows w =
     (case request (Resize i (max 1 cols) (max 1 rows)) w of
        (Some (Sessions _), w1) \<Rightarrow> existing_snapshot p i w1
      | (Some (ErrorResponse _), w1) \<Rightarrow> existing_snapshot p i w1
      | (_, w1) \<Rightarrow> (Inl Untyped, w1))"

text \<open>The birth: its authority first, then the spawn.\<close>

definition give_birth ::
  "envelope_parsers \<Rightarrow> uuid \<Rightarrow> recovery_env \<Rightarrow> birth_capabilities \<Rightarrow> leaf_key option \<Rightarrow> wire_spec \<Rightarrow> uuid
    \<Rightarrow> wire \<Rightarrow> (failure + snapshot) \<times> wire" where
  "give_birth p client env caps key spec i w =
     (case key of
        Some _ \<Rightarrow>
          if \<not> permits_hook_birth caps then (Inl (Typed (birth_rejected i)), w)
          else if runtime_owner env \<noteq> Some client then (Inl Untyped, w)
          else (case authorized_birth env of
                  Inl _ \<Rightarrow> (Inl Untyped, w)
                | Inr generation \<Rightarrow> spawn_then_snapshot p (spec\<lparr>hook_generation := generation\<rparr>) i w)
      | None \<Rightarrow>
          if \<not> permits_birth caps then (Inl Untyped, w) else spawn_then_snapshot p spec i w)"

text \<open>The binding of the hooks and the handle of a session that was adopted or born.\<close>

definition bind_session ::
  "recovery_env \<Rightarrow> leaf_key option \<Rightarrow> uuid \<Rightarrow> bool \<Rightarrow> snapshot \<Rightarrow> failure + spawn_result" where
  "bind_session env key i birth snap =
     (if (case key of
            Some _ \<Rightarrow> runtime_owner env \<noteq> None \<and> hook_attached env
          | None \<Rightarrow> evidence_generation (snap_evidence snap) = None \<and> evidence_target (snap_evidence snap) = None)
         \<and> handle_attached env
      then Inr \<lparr>sr_session = i, sr_remote = True, sr_ready = snap_ready snap, sr_owned_birth = birth\<rparr>
      else Inl Untyped)"

text \<open>The closure of \<open>recover_remote\<close>: its result, whether it became a birth, and the connection.\<close>

definition recover_operation ::
  "envelope_parsers \<Rightarrow> uuid \<Rightarrow> wire_spec \<Rightarrow> u16 \<Rightarrow> u16 \<Rightarrow> uuid \<Rightarrow> spawn_intent \<Rightarrow> recovery_env
    \<Rightarrow> birth_capabilities \<Rightarrow> leaf_key option \<Rightarrow> wire \<Rightarrow> (failure + spawn_result) \<times> bool \<times> wire" where
  "recover_operation p client spec cols rows i intent env caps key w =
     (let birth = (intent = NewBirth) in
      if \<not> streams_cloned env then (Inl Untyped, birth, w)
      else
        (case (if birth then (Inr None, w) else adopt_snapshot p i cols rows w) of
           (Inl e, w1) \<Rightarrow> (Inl e, birth, w1)
         | (Inr (Some snap), w1) \<Rightarrow> (bind_session env key i birth snap, birth, w1)
         | (Inr None, w1) \<Rightarrow>
             (case give_birth p client env caps key spec i w1 of
                (Inl e, w2) \<Rightarrow> (Inl e, True, w2)
              | (Inr snap, w2) \<Rightarrow> (bind_session env key i True snap, True, w2))))"

definition recover_remote ::
  "envelope_parsers \<Rightarrow> uuid \<Rightarrow> session_spec \<Rightarrow> u16 \<Rightarrow> u16 \<Rightarrow> uuid \<Rightarrow> spawn_intent \<Rightarrow> recovery_env
    \<Rightarrow> (recovery_error + spawn_result) \<times> request list" where
  "recover_remote p client spec cols rows i intent env =
     (case connection env of
        None \<Rightarrow> (Inl (if intent = NewBirth then before_creation i else protected i), [])
      | Some (w, caps) \<Rightarrow>
          (case remote_binding_key spec of
             Inl _ \<Rightarrow> (Inl (protected i), sent w)
           | Inr key \<Rightarrow>
               (case recover_operation p client (wire_spec_from spec cols rows) cols rows i intent env caps key w of
                  (Inr r, _, w1) \<Rightarrow> (Inr r, sent w1)
                | (Inl e, birth, w1) \<Rightarrow>
                    (Inl (if key = None \<and> birth then birth_pending i False
                          else case e of
                            Typed t \<Rightarrow> t
                          | Untyped \<Rightarrow> if birth then birth_pending i (permits_birth caps) else protected i),
                     sent w1))))"

section \<open>Closing\<close>

definition require_birth_closed :: "response \<Rightarrow> uuid \<Rightarrow> bool" where
  "require_birth_closed r i \<longleftrightarrow> r = Killed i"

text \<open>Whether the daemon has confirmed that the session is gone and a late spawn is fenced.\<close>

definition close_remote_fenced :: "uuid \<Rightarrow> (wire \<times> birth_capabilities) option \<Rightarrow> bool" where
  "close_remote_fenced i conn =
     (case conn of
        None \<Rightarrow> False
      | Some (w, caps) \<Rightarrow>
          if permits_hook_birth caps
          then (case request (CloseBirth i) w of (None, _) \<Rightarrow> False | (Some r, _) \<Rightarrow> require_birth_closed r i)
          else False)"

definition close_remote :: "uuid \<Rightarrow> uuid option \<Rightarrow> bool \<Rightarrow> uuid \<Rightarrow> (wire \<times> birth_capabilities) option \<Rightarrow> bool" where
  "close_remote client owner prepared i conn \<longleftrightarrow>
     owner = Some client \<and> prepared \<and> close_remote_fenced i conn"

section \<open>What an attempt sent\<close>

definition spawned_on :: "uuid \<Rightarrow> request list \<Rightarrow> bool" where
  "spawned_on i rqs \<longleftrightarrow> list_ex (\<lambda>rq. case rq of Spawn _ j \<Rightarrow> j = Some i | _ \<Rightarrow> False) rqs"

lemma spawned_on_simps [simp]:
  "\<not> spawned_on i []" "spawned_on i (a @ b) \<longleftrightarrow> spawned_on i a \<or> spawned_on i b"
  "spawned_on i (rq # rqs) \<longleftrightarrow> (\<exists>spec. rq = Spawn spec (Some i)) \<or> spawned_on i rqs"
  by (auto simp: spawned_on_def split: request.splits)

lemma request_sent: "request rq w = (r, w') \<Longrightarrow> sent w' = sent w @ [rq]"
  by (auto simp: request_def Let_def split: if_splits prod.splits)

lemma existing_snapshot_sent:
  "existing_snapshot p i w = (r, w') \<Longrightarrow> spawned_on j (sent w') \<longleftrightarrow> spawned_on j (sent w)"
  by (auto simp: existing_snapshot_def dest!: request_sent split: prod.splits option.splits response.splits if_splits)

lemma adopt_snapshot_sent:
  "adopt_snapshot p i cols rows w = (r, w') \<Longrightarrow> spawned_on j (sent w') \<longleftrightarrow> spawned_on j (sent w)"
  by (auto simp: adopt_snapshot_def dest!: request_sent existing_snapshot_sent [where j = j]
      split: prod.splits option.splits response.splits)

lemma spawn_then_snapshot_errors:
  "spawn_then_snapshot p spec i w = (Inl e, w') \<Longrightarrow> e = Typed (birth_pending i True) \<or> e = Typed (birth_rejected i)"
  by (auto simp: spawn_then_snapshot_def split: prod.splits option.splits if_splits)

section \<open>Strict attachment\<close>

text \<open>\<open>attach_existing\<close> never asks for a spawn; every failure is protected.\<close>

definition attach_existing ::
  "uuid \<Rightarrow> u16 \<Rightarrow> u16 \<Rightarrow> bool \<Rightarrow> bool \<Rightarrow> wire option \<Rightarrow> (recovery_error + snapshot) \<times> request list" where
  "attach_existing i cols rows cloned handle_ok conn =
     (case conn of
        None \<Rightarrow> (Inl (protected i), [])
      | Some w \<Rightarrow>
          if \<not> cloned then (Inl (protected i), sent w)
          else
            (case request (Resize i (max 1 cols) (max 1 rows)) w of
               (r, w1) \<Rightarrow>
                 if (case r of Some (Sessions _) \<Rightarrow> True | Some (ErrorResponse _) \<Rightarrow> True | _ \<Rightarrow> False)
                 then (case request (Attach i) w1 of
                         (r', w2) \<Rightarrow>
                           (case Option.bind r' (attached_as i) of
                              Some snap \<Rightarrow> (if handle_ok then Inr snap else Inl (protected i), sent w2)
                            | None \<Rightarrow> (Inl (protected i), sent w2)))
                 else (Inl (protected i), sent w1)))"

section \<open>What a refusal proves\<close>

definition fresh_connection :: "recovery_env \<Rightarrow> bool" where
  "fresh_connection env \<longleftrightarrow> (case connection env of None \<Rightarrow> True | Some (w, _) \<Rightarrow> sent w = [])"

lemma give_birth_errors:
  "give_birth p client env caps key spec i w = (Inl e, w') \<Longrightarrow>
     e = Typed (birth_pending i True) \<or> e = Typed (birth_rejected i) \<or> e = Untyped \<and> w' = w"
  using spawn_then_snapshot_errors
  by (auto simp: give_birth_def split: option.splits sum.splits if_splits) (metis spawn_then_snapshot_errors)+

lemma give_birth_permitted:
  "give_birth p client env caps key spec i w = (r, w') \<Longrightarrow> w' \<noteq> w \<Longrightarrow> permits_birth caps"
  by (auto simp: give_birth_def permits_hook_birth_def split: option.splits sum.splits if_splits)

lemma bind_session_cases:
  "bind_session env key i birth snap = Inl Untyped
   \<or> (\<exists>r. bind_session env key i birth snap = Inr r \<and> sr_session r = i \<and> sr_remote r \<and> sr_owned_birth r = birth)"
  by (auto simp: bind_session_def)

lemma adopt_snapshot_errors:
  "adopt_snapshot p i cols rows w = (Inl e, w') \<Longrightarrow> e = Typed (protected i) \<or> e = Untyped"
  by (auto simp: adopt_snapshot_def existing_snapshot_def split: prod.splits option.splits response.splits if_splits)

text \<open>The failures of the closure; a spawn that may have been sent makes them a birth's.\<close>

definition operation_ok ::
  "uuid \<Rightarrow> spawn_intent \<Rightarrow> birth_capabilities \<Rightarrow> (failure + spawn_result) \<times> bool \<times> wire \<Rightarrow> bool" where
  "operation_ok i intent caps out \<longleftrightarrow>
     (case out of (res, birth, w') \<Rightarrow>
        (spawned_on i (sent w') \<longrightarrow> birth \<and> permits_birth caps) \<and> (intent = NewBirth \<longrightarrow> birth)
        \<and> (case res of
             Inr r \<Rightarrow> sr_session r = i \<and> sr_remote r \<and> sr_owned_birth r = birth
           | Inl (Typed t) \<Rightarrow> (if birth then t = birth_pending i True \<or> t = birth_rejected i else t = protected i)
           | Inl Untyped \<Rightarrow> True))"

lemma bind_operation_ok:
  "(spawned_on i (sent w) \<longrightarrow> birth \<and> permits_birth caps) \<Longrightarrow> (intent = NewBirth \<longrightarrow> birth)
    \<Longrightarrow> operation_ok i intent caps (bind_session env key i birth snap, birth, w)"
  using bind_session_cases [of env key i birth snap] by (auto simp: operation_ok_def)

lemma birth_operation_ok:
  assumes "\<not> spawned_on i (sent w)"
  shows "operation_ok i intent caps
    (case give_birth p client env caps key spec i w of
       (Inl e, w2) \<Rightarrow> (Inl e, True, w2)
     | (Inr snap, w2) \<Rightarrow> (bind_session env key i True snap, True, w2))"
proof -
  obtain r w2 where g: "give_birth p client env caps key spec i w = (r, w2)" by fastforce
  have sent: "spawned_on i (sent w2) \<longrightarrow> permits_birth caps"
    using give_birth_permitted [OF g] assms by auto
  show ?thesis
  proof (cases r)
    case (Inl e)
    then show ?thesis using g sent give_birth_errors [of p client env caps key spec i w e w2]
      by (auto simp: operation_ok_def)
  next
    case (Inr snap)
    then show ?thesis using g sent bind_operation_ok by simp
  qed
qed

lemma recover_operation_ok:
  assumes "sent w = []"
  shows "operation_ok i intent caps (recover_operation p client spec cols rows i intent env caps key w)"
proof -
  have none: "\<not> spawned_on i (sent w)" using assms by simp
  show ?thesis
  proof (cases "streams_cloned env")
    case False
    then show ?thesis using none by (simp add: recover_operation_def operation_ok_def)
  next
    case True
    show ?thesis
    proof (cases "intent = NewBirth")
      case birth: True
      then show ?thesis using birth_operation_ok [OF none] True by (simp add: recover_operation_def)
    next
      case adopt: False
      obtain r w1 where a: "adopt_snapshot p i cols rows w = (r, w1)" by fastforce
      have w1: "\<not> spawned_on i (sent w1)" using adopt_snapshot_sent [OF a] none by simp
      show ?thesis
      proof (cases r)
        case (Inl e)
        then show ?thesis using a True adopt w1 adopt_snapshot_errors [of p i cols rows w e w1]
          by (auto simp: recover_operation_def operation_ok_def)
      next
        case (Inr snap)
        then show ?thesis
          using a True adopt birth_operation_ok [OF w1] bind_operation_ok [of i w1 False caps intent env key] w1
          by (cases snap) (simp_all add: recover_operation_def)
      qed
    qed
  qed
qed

text \<open>
  What a refusal of an attempt proves: the local fallback is offered only to a birth that reached
  no daemon, and after a request to spawn the refusal is that of a birth, which is either to be
  retried under the same identity or final. An adoption is never turned into a local session.
\<close>

lemma recover_remote_error:
  assumes "recover_remote p client spec cols rows i intent env = (Inl e, rqs)" and "fresh_connection env"
  shows "re_session e = i"
    and "safe_local_fallback e \<Longrightarrow> intent = NewBirth \<and> rqs = []"
    and "spawned_on i rqs \<Longrightarrow> retry_intent e = NewBirth \<and> \<not> safe_local_fallback e"
    and "intent = AdoptExisting \<and> retry_intent e = NewBirth \<and> retryable e \<Longrightarrow> \<not> safe_local_fallback e"
proof -
  have "re_session e = i \<and> (safe_local_fallback e \<longrightarrow> intent = NewBirth \<and> rqs = [])
      \<and> (spawned_on i rqs \<longrightarrow> retry_intent e = NewBirth \<and> \<not> safe_local_fallback e)"
  proof (cases "connection env")
    case None
    then show ?thesis using assms(1) by (cases intent) (auto simp: recover_remote_def refusal_defs)
  next
    case (Some c)
    then obtain w caps where c: "connection env = Some (w, caps)" "sent w = []"
      using assms(2) by (cases c) (auto simp: fresh_connection_def)
    show ?thesis
    proof (cases "remote_binding_key spec")
      case (Inl u)
      then show ?thesis using assms(1) c by (auto simp: recover_remote_def refusal_defs)
    next
      case (Inr key)
      obtain res birth w1 where o: "recover_operation p client (wire_spec_from spec cols rows) cols rows i intent env caps key w = (res, birth, w1)"
        by (metis prod_cases3)
      have ok: "operation_ok i intent caps (res, birth, w1)" using recover_operation_ok [OF c(2)] o by metis
      show ?thesis
      proof (cases res)
        case (Inr r)
        then show ?thesis using assms(1) c \<open>remote_binding_key spec = Inr key\<close> o by (simp add: recover_remote_def)
      next
        case (Inl f)
        then show ?thesis using assms(1) c \<open>remote_binding_key spec = Inr key\<close> o ok
          by (cases f) (auto simp: recover_remote_def operation_ok_def refusal_defs split: if_splits)
      qed
    qed
  qed
  then show "re_session e = i" "safe_local_fallback e \<Longrightarrow> intent = NewBirth \<and> rqs = []"
    "spawned_on i rqs \<Longrightarrow> retry_intent e = NewBirth \<and> \<not> safe_local_fallback e"
    "intent = AdoptExisting \<and> retry_intent e = NewBirth \<and> retryable e \<Longrightarrow> \<not> safe_local_fallback e"
    by auto
qed

lemma recover_remote_result:
  assumes "recover_remote p client spec cols rows i intent env = (Inr r, rqs)" and "fresh_connection env"
  shows "sr_session r = i" and "sr_remote r" and "spawned_on i rqs \<Longrightarrow> sr_owned_birth r"
proof -
  obtain w caps where c: "connection env = Some (w, caps)" "sent w = []"
    using assms by (auto simp: fresh_connection_def recover_remote_def split: option.splits)
  obtain key where k: "remote_binding_key spec = Inr key"
    using assms(1) c by (auto simp: recover_remote_def split: sum.splits)
  obtain res birth w1 where o: "recover_operation p client (wire_spec_from spec cols rows) cols rows i intent env caps key w = (res, birth, w1)"
    by (metis prod_cases3)
  have ok: "operation_ok i intent caps (res, birth, w1)" using recover_operation_ok [OF c(2)] o by metis
  show "sr_session r = i" "sr_remote r" "spawned_on i rqs \<Longrightarrow> sr_owned_birth r"
    using assms(1) c k o ok by (auto simp: recover_remote_def operation_ok_def split: sum.splits failure.splits if_splits)
qed

text \<open>
  C25: An attempt to recover a session tells the truth about the birth. A refusal carries the
  session's identity; it offers the local fallback only for a birth of which no request left
  the window, and after a request to spawn it is that of a birth and never offers it. A
  success is the remote session of that identity, and one that asked for a spawn owns the birth.\<close>
theorem attempt_reports_its_birth:
  assumes "recover_remote p client spec cols rows i intent env = (res, rqs)" and "fresh_connection env"
  shows "case res of
      Inl e \<Rightarrow> re_session e = i \<and> (safe_local_fallback e \<longrightarrow> intent = NewBirth \<and> rqs = [])
        \<and> (spawned_on i rqs \<longrightarrow> retry_intent e = NewBirth \<and> \<not> safe_local_fallback e)
    | Inr r \<Rightarrow> sr_session r = i \<and> sr_remote r \<and> (spawned_on i rqs \<longrightarrow> sr_owned_birth r)"
proof (cases res)
  case (Inl e)
  show ?thesis unfolding Inl sum.case
    using recover_remote_error(1-3) [OF assms(1) [unfolded Inl] assms(2)] by blast
next
  case (Inr r)
  show ?thesis unfolding Inr sum.case using recover_remote_result [OF assms(1) [unfolded Inr] assms(2)] by blast
qed

definition demo_spec :: session_spec where
  "demo_spec = \<lparr>app_title = [], app_cwd = None, app_command = None, app_workspace = Some 1,
     app_panel = Some 2, app_leaf = Some 3, app_memory_task = None, hook_legacy_root = False\<rparr>"

definition demo_parsers :: envelope_parsers where
  "demo_parsers = \<lparr>details_of = (\<lambda>_. None), uuid_of = (\<lambda>_. None)\<rparr>"

definition demo_connection :: "incoming list \<Rightarrow> bool list \<Rightarrow> (wire \<times> birth_capabilities) option" where
  "demo_connection answers writes =
     Some (\<lparr>inbox = answers, writes_ok = writes, sent = []\<rparr>,
       \<lparr>birth_idempotent = True, cancel_safe = True, has_hook_authority = True\<rparr>)"

definition demo_env :: "(wire \<times> birth_capabilities) option \<Rightarrow> recovery_env" where
  "demo_env conn = \<lparr>connection = conn, streams_cloned = True,
     runtime_owner = Some 9, authorized_birth = Inr (Some 5), hook_attached = True, handle_attached = True\<rparr>"

lemmas demo_defs = demo_spec_def demo_parsers_def demo_connection_def demo_env_def

text \<open>The answer to the spawn is lost: the birth is pending, and no fallback is offered.\<close>

definition lost_answer :: "(recovery_error + spawn_result) \<times> request list" where
  "lost_answer = recover_remote demo_parsers 9 demo_spec 80 24 7 NewBirth (demo_env (demo_connection [ReadError] []))"

theorem attempt_reports_its_birth_witness:
  "spawned_on 7 (snd lost_answer)
   \<and> (case fst lost_answer of
        Inl e \<Rightarrow> re_session e = 7 \<and> retry_intent e = NewBirth \<and> \<not> safe_local_fallback e \<and> retryable e
      | Inr _ \<Rightarrow> False)"
proof -
  have s: "spawned_on 7 (snd lost_answer)" by code_simp
  have f: "case fst lost_answer of Inl e \<Rightarrow> retryable e | Inr _ \<Rightarrow> False" by code_simp
  have c: "fresh_connection (demo_env (demo_connection [ReadError] []))" by code_simp
  have "recover_remote demo_parsers 9 demo_spec 80 24 7 NewBirth (demo_env (demo_connection [ReadError] []))
      = (fst lost_answer, snd lost_answer)"
    by (simp add: lost_answer_def)
  from attempt_reports_its_birth [OF this c] s f show ?thesis by (auto split: sum.splits)
qed

end
