(* ===== verification/RemoteLease.thy ===== *)
theory RemoteLease
  imports DaemonClient
begin

text \<open>
  The window's recovery of one session behind the daemon, \<open>src/src/runtime/pty_manager.rs\<close>: the lease
  that the window and the recovery thread share, the submission of jobs, the job itself with its
  attempt at the daemon and its local fallback, the collection of what it completed, and the
  closing of the session from either side.

  The other sessions of the queue enter through the room that a submission finds. Due times
  are left to the moment at which an event happens. Two atomic operations that only meet the
  window's retirement, which first stores the retirement and then closes the admissions, are
  one step. A handle is the result that brought it; texts of errors and pending input are left out.
\<close>

section \<open>The lease\<close>

datatype retirement = LeaseLive | LeaseDetached | LeaseClosed

datatype close_intent = OwnedBirth | AdoptedSession

type_synonym attempt = "failure + spawn_result"

record remote_lease =
  lease_id :: uuid
  retired :: retirement
  pending :: bool
  local_only :: bool
  local_retiring :: "spawn_result option"
  lease_may_close :: bool
  attempted :: bool
  may_have_spawned :: bool
  local_birth_admission :: u8
  lease_birth :: bool
  dimensions :: "u16 \<times> u16"
  applied_dimensions :: "(u16 \<times> u16) option"
  completion :: "(attempt \<times> (u16 \<times> u16)) option"

definition new_lease :: "uuid \<Rightarrow> u16 \<Rightarrow> u16 \<Rightarrow> remote_lease" where
  "new_lease i cols rows =
     \<lparr>lease_id = i, retired = LeaseLive, pending = False, local_only = False, local_retiring = None,
      lease_may_close = True, attempted = False, may_have_spawned = False, local_birth_admission = 0,
      lease_birth = False, dimensions = (max 1 cols, max 1 rows), applied_dimensions = None,
      completion = None\<rparr>"

definition close_local_birth_admissions :: "remote_lease \<Rightarrow> remote_lease" where
  "close_local_birth_admissions l = l\<lparr>local_birth_admission := or (local_birth_admission l) 2\<rparr>"

definition admit_local_birth :: "remote_lease \<Rightarrow> remote_lease option" where
  "admit_local_birth l =
     (if retired l \<noteq> LeaseLive then None
      else if local_birth_admission l = 0 then Some (l\<lparr>local_birth_admission := 1\<rparr>) else None)"

definition finish_local_birth :: "remote_lease \<Rightarrow> remote_lease" where
  "finish_local_birth l = l\<lparr>local_birth_admission := and (local_birth_admission l) (not 1)\<rparr>"

definition lease_close_intent :: "remote_lease \<Rightarrow> close_intent" where
  "lease_close_intent l = (if lease_birth l then OwnedBirth else AdoptedSession)"

definition cleanup_eligible :: "remote_lease \<Rightarrow> bool" where
  "cleanup_eligible l \<longleftrightarrow> lease_may_close l \<or> \<not> attempted l \<or> local_only l"

section \<open>Submission\<close>

definition REMOTE_QUEUE_CAPACITY :: nat where
  "REMOTE_QUEUE_CAPACITY = 32"

definition REMOTE_QUEUE_BYTES :: nat where
  "REMOTE_QUEUE_BYTES = 8 * 1024 * 1024"

text \<open>The lengths that count, in bytes, of a specification.\<close>

record spec_lengths =
  title_len :: nat
  cwd_len :: nat
  command_len :: nat
  input_len :: nat

definition checked_add :: "nat \<Rightarrow> nat \<Rightarrow> nat option" where
  "checked_add a b = (if a + b < 2 ^ 64 then Some (a + b) else None)"

definition remote_spec_bytes :: "nat \<Rightarrow> spec_lengths \<Rightarrow> nat option" where
  "remote_spec_bytes max_input c =
     (case Option.bind (checked_add (title_len c) (cwd_len c)) (\<lambda>n. checked_add n (command_len c)) of
        None \<Rightarrow> None
      | Some n \<Rightarrow> if n > 512 * 1024 \<or> input_len c > max_input then None else checked_add n (input_len c))"

text \<open>What a job is for: an attempt, the handle of an earlier one, or the resize of a handle.\<close>

record remote_job =
  job_intent :: spawn_intent
  prepared :: "spawn_result option"
  attached_resize :: "spawn_result option"

record queue_room =
  ready_jobs :: nat
  ready_bytes :: nat
  stopping :: bool
  cleanup_pending :: bool
  started :: bool

text \<open>The last field says whether the recovery thread runs or could be started.\<close>

definition submit :: "nat option \<Rightarrow> queue_room \<Rightarrow> remote_lease \<Rightarrow> failure + remote_lease" where
  "submit need q l =
     (if \<not> started q then Inl Untyped
      else case need of
        None \<Rightarrow> Inl (Typed (birth_rejected (lease_id l)))
      | Some n \<Rightarrow>
          if cleanup_pending q then Inl (Typed (protected (lease_id l)))
          else if stopping q \<or> ready_jobs q \<ge> REMOTE_QUEUE_CAPACITY \<or> ready_bytes q + n > REMOTE_QUEUE_BYTES
          then Inl (Typed (protected (lease_id l)))
          else if retired l \<noteq> LeaseLive \<or> pending l then Inl (Typed (protected (lease_id l)))
          else Inr (l\<lparr>pending := True\<rparr>))"

section \<open>The job\<close>

text \<open>Where the recovery thread stands with the lease's job.\<close>

datatype stage =
    Idle
  | Ready remote_job
  | Calling remote_job "u16 \<times> u16"
  | LocalAdmitted recovery_error
  | LocalRunning
  | Settling attempt
  | Publishing attempt "u16 \<times> u16"
  | Clearing

definition normalize_birth_uncertainty :: "remote_lease \<Rightarrow> attempt \<Rightarrow> attempt \<times> remote_lease" where
  "normalize_birth_uncertainty l res =
     (case res of
        Inl f \<Rightarrow>
          (let t0 = (case f of Typed t \<Rightarrow> t | Untyped \<Rightarrow> birth_pending (lease_id l) True);
               t = (if may_have_spawned l
                    then t0\<lparr>safe_local_fallback := False, retry_intent := NewBirth,
                      may_close := may_close t0 \<or> lease_may_close l\<rparr>
                    else t0) in
           (Inl (Typed t),
            if retry_intent t = NewBirth \<and> \<not> safe_local_fallback t \<and> (retryable t \<or> may_close t)
            then l\<lparr>may_have_spawned := True\<rparr> else l))
      | Inr r \<Rightarrow> (Inr r, if sr_owned_birth r then l\<lparr>may_have_spawned := True\<rparr> else l))"

text \<open>The job leaves the queue: retired leases drop it, a resize ends it, an attempt begins.\<close>

definition begin_job :: "remote_job \<Rightarrow> remote_lease \<Rightarrow> remote_lease \<times> stage" where
  "begin_job j l =
     (if retired l \<noteq> LeaseLive then (l\<lparr>pending := False\<rparr>, Idle)
      else case attached_resize j of
        Some _ \<Rightarrow> (l\<lparr>applied_dimensions := Some (dimensions l), pending := False\<rparr>, Idle)
      | None \<Rightarrow>
          (case prepared j of
             Some r \<Rightarrow> (case normalize_birth_uncertainty l (Inr r) of (res, l1) \<Rightarrow> (l1, Settling res))
           | None \<Rightarrow> (l\<lparr>attempted := True\<rparr>, Calling j (dimensions l))))"

text \<open>The attempt has returned: its refusal may admit a local birth.\<close>

definition after_attempt :: "remote_job \<Rightarrow> attempt \<Rightarrow> remote_lease \<Rightarrow> remote_lease \<times> stage" where
  "after_attempt j res l =
     (case normalize_birth_uncertainty l res of
        (Inl (Typed t), l1) \<Rightarrow>
          if job_intent j = NewBirth \<and> safe_local_fallback t
          then (case admit_local_birth l1 of
                  Some l2 \<Rightarrow> (l2, LocalAdmitted t)
                | None \<Rightarrow> (l1\<lparr>attempted := False\<rparr>, Settling (Inl (Typed t))))
          else (l1, Settling (Inl (Typed t)))
      | (res1, l1) \<Rightarrow> (l1, Settling res1))"

definition start_local :: "recovery_error \<Rightarrow> remote_lease \<Rightarrow> remote_lease \<times> stage" where
  "start_local t l =
     (if retired l = LeaseLive then (l\<lparr>local_only := True\<rparr>, LocalRunning)
      else ((finish_local_birth l)\<lparr>attempted := False\<rparr>, Settling (Inl (Typed t))))"

text \<open>The factory has returned: nothing, or a handle with or without output so far.\<close>

definition local_returned :: "bool option \<Rightarrow> remote_lease \<Rightarrow> remote_lease \<times> stage" where
  "local_returned ready l =
     (finish_local_birth l,
      Settling (case ready of
        None \<Rightarrow> Inl Untyped
      | Some r \<Rightarrow> Inr \<lparr>sr_session = lease_id l, sr_remote = False, sr_ready = r, sr_owned_birth = False\<rparr>))"

text \<open>The end of the job up to the publication of its result.\<close>

definition reject_identity :: "attempt \<Rightarrow> remote_lease \<Rightarrow> attempt \<times> remote_lease" where
  "reject_identity res l =
     (case res of
        Inr r \<Rightarrow> if sr_session r \<noteq> lease_id l
                 then normalize_birth_uncertainty l (Inl (Typed (birth_pending (lease_id l) True)))
                 else (res, l)
      | Inl _ \<Rightarrow> (res, l))"

definition settle :: "attempt \<Rightarrow> remote_lease \<Rightarrow> remote_lease \<times> stage" where
  "settle res0 l0 =
     (case reject_identity res0 l0 of
        (res, l) \<Rightarrow>
          (case res of
             Inl (Typed t) \<Rightarrow>
               l\<lparr>lease_may_close := may_close t, lease_birth := lease_birth l \<or> retry_intent t = NewBirth\<rparr>
           | Inl Untyped \<Rightarrow> l
           | Inr r \<Rightarrow>
               l\<lparr>lease_birth := sr_owned_birth r, local_only := \<not> sr_remote r, lease_may_close := True,
                 applied_dimensions := Some (dimensions l)\<rparr>,
           Publishing res (dimensions l)))"

definition retain_local_completion :: "attempt \<Rightarrow> remote_lease \<Rightarrow> remote_lease" where
  "retain_local_completion res l =
     (case res of
        Inr r \<Rightarrow> if \<not> sr_remote r
                 then l\<lparr>local_only := True, local_retiring := Some r, retired := LeaseClosed\<rparr> else l
      | Inl _ \<Rightarrow> l)"

definition publish :: "attempt \<Rightarrow> u16 \<times> u16 \<Rightarrow> remote_lease \<Rightarrow> remote_lease" where
  "publish res dims l =
     (if retired l = LeaseLive then l\<lparr>completion := Some (res, dims)\<rparr> else retain_local_completion res l)"

section \<open>The window\<close>

record managed_session =
  fresh :: bool
  session_retryable :: bool
  handle :: "spawn_result option"

definition set_desired_grid_size :: "u16 \<times> u16 \<Rightarrow> remote_lease \<Rightarrow> remote_lease" where
  "set_desired_grid_size dims l = l\<lparr>dimensions := (max 1 (fst dims), max 1 (snd dims))\<rparr>"

text \<open>\<open>spawn_pending\<close> and \<open>create_detached_with_id\<close>: a birth, or a session of an earlier run.\<close>

definition create_session :: "uuid \<Rightarrow> bool \<Rightarrow> remote_lease \<times> managed_session" where
  "create_session i newborn =
     (let l = new_lease i 80 24 in
      (if newborn then l\<lparr>lease_birth := True, lease_may_close := False\<rparr> else l,
       \<lparr>fresh = newborn, session_retryable = True, handle = None\<rparr>))"

definition queue_attached_resize ::
  "nat option \<Rightarrow> queue_room \<Rightarrow> managed_session \<Rightarrow> remote_lease \<Rightarrow> remote_lease \<times> remote_job option" where
  "queue_attached_resize need q m l =
     (case handle m of
        None \<Rightarrow> (l, None)
      | Some h \<Rightarrow>
          if retired l \<noteq> LeaseLive \<or> pending l then (l, None)
          else if applied_dimensions l = Some (dimensions l) then (l, None)
          else (case submit need q l of
                  Inl _ \<Rightarrow> (l, None)
                | Inr l1 \<Rightarrow> (l1, Some \<lparr>job_intent = AdoptExisting, prepared = None, attached_resize = Some h\<rparr>)))"

definition queue_remote_recovery ::
  "nat option \<Rightarrow> queue_room \<Rightarrow> bool \<Rightarrow> u16 \<times> u16 \<Rightarrow> managed_session \<Rightarrow> remote_lease
    \<Rightarrow> managed_session \<times> remote_lease \<times> remote_job option" where
  "queue_remote_recovery need q due dims m l0 =
     (let l = set_desired_grid_size dims l0 in
      if retired l \<noteq> LeaseLive then (m, l, None)
      else if \<not> session_retryable m then (m, l, None)
      else if need = None then (m\<lparr>session_retryable := False\<rparr>, l, None)
      else if pending l \<or> completion l \<noteq> None \<or> \<not> due then (m, l, None)
      else (case submit need q l of
              Inl _ \<Rightarrow> (m, l, None)
            | Inr l1 \<Rightarrow>
                (m, l1, Some \<lparr>job_intent = (if fresh m then NewBirth else AdoptExisting), prepared = None,
                  attached_resize = None\<rparr>)))"

text \<open>
  \<open>collect_remote_completions\<close> for the session: a result whose dimensions are no longer those
  wanted goes back to the queue with its handle, which is lost when the queue refuses it.
\<close>

definition collect_remote_completions ::
  "nat option \<Rightarrow> queue_room \<Rightarrow> managed_session \<Rightarrow> remote_lease
    \<Rightarrow> managed_session \<times> remote_lease \<times> remote_job option" where
  "collect_remote_completions need q m l0 =
     (case completion l0 of
        None \<Rightarrow> (m, l0, None)
      | Some (res, dims) \<Rightarrow>
          (let l = l0\<lparr>completion := None\<rparr> in
           if retired l \<noteq> LeaseLive then (m, l, None)
           else case res of
             Inr r \<Rightarrow>
               if sr_session r = lease_id l
               then if dimensions l \<noteq> dims
                    then (case submit need q l of
                            Inl _ \<Rightarrow> (m\<lparr>fresh := False\<rparr>, l, None)
                          | Inr l1 \<Rightarrow> (m\<lparr>fresh := False\<rparr>, l1,
                              Some \<lparr>job_intent = AdoptExisting, prepared = Some r, attached_resize = None\<rparr>))
                    else (m\<lparr>fresh := False, handle := Some r\<rparr>, l, None)
               else (m\<lparr>session_retryable := False\<rparr>, l, None)
           | Inl (Typed t) \<Rightarrow>
               (m\<lparr>fresh := (retry_intent t = NewBirth), session_retryable := retryable t\<rparr>, l, None)
           | Inl Untyped \<Rightarrow> (m\<lparr>session_retryable := False\<rparr>, l, None)))"

definition drop_disconnected :: "managed_session \<Rightarrow> managed_session" where
  "drop_disconnected m =
     (case handle m of
        Some h \<Rightarrow> if sr_remote h then m\<lparr>handle := None\<rparr> else m
      | None \<Rightarrow> m)"

section \<open>Closing\<close>

definition retire :: "bool \<Rightarrow> remote_lease \<Rightarrow> remote_lease" where
  "retire kill l =
     (let l1 = (close_local_birth_admissions (l\<lparr>retired := (if kill then LeaseClosed else LeaseDetached)\<rparr>))
                 \<lparr>completion := None\<rparr> in
      case completion l of
        Some (res, _) \<Rightarrow> retain_local_completion res l1
      | None \<Rightarrow> l1)"

definition local_handle :: "managed_session \<Rightarrow> bool" where
  "local_handle m \<longleftrightarrow> (case handle m of Some h \<Rightarrow> \<not> sr_remote h | None \<Rightarrow> False)"

definition hand_over_local :: "managed_session \<Rightarrow> remote_lease \<Rightarrow> remote_lease" where
  "hand_over_local m l =
     (if local_handle m then l\<lparr>local_retiring := handle m, local_only := True\<rparr> else l)"

text \<open>\<open>close\<close>, of the window, and \<open>close_and_kill_remote\<close>, of the panel; the latter may refuse.\<close>

definition close_session :: "managed_session \<Rightarrow> remote_lease \<Rightarrow> remote_lease" where
  "close_session m l = retire (local_handle m) (hand_over_local m l)"

definition close_and_kill_remote :: "managed_session \<Rightarrow> remote_lease \<Rightarrow> remote_lease option" where
  "close_and_kill_remote m l =
     (if \<not> local_handle m \<and> \<not> session_retryable m \<and> \<not> lease_may_close l then None
      else Some (retire True (hand_over_local m l)))"

text \<open>The queue is dropped with its window.\<close>

definition drop_queue :: "remote_lease \<Rightarrow> remote_lease" where
  "drop_queue l =
     (let l1 = close_local_birth_admissions l in
      if retired l1 = LeaseLive then l1\<lparr>retired := LeaseDetached\<rparr> else l1)"

text \<open>The hand-over of a retained local handle; the hook runtime may refuse it.\<close>

definition handoff_local_retirement :: "bool \<Rightarrow> remote_lease \<Rightarrow> unit + remote_lease" where
  "handoff_local_retirement accepted l =
     (case local_retiring l of
        None \<Rightarrow> Inr l
      | Some _ \<Rightarrow> if accepted then Inr (l\<lparr>local_retiring := None\<rparr>) else Inl ())"

definition closes_locally :: "remote_lease \<Rightarrow> bool" where
  "closes_locally l \<longleftrightarrow> local_only l \<or> \<not> attempted l"

text \<open>The recovery thread closes a lease: locally, or with the daemon's confirmation.\<close>

definition worker_closes :: "remote_lease \<Rightarrow> bool" where
  "worker_closes l \<longleftrightarrow> retired l = LeaseClosed \<and> cleanup_eligible l \<and> \<not> pending l"

definition worker_close :: "bool \<Rightarrow> bool \<Rightarrow> remote_lease \<Rightarrow> unit + remote_lease" where
  "worker_close accepted confirmed l =
     (if closes_locally l
      then (case handoff_local_retirement accepted l of
              Inl e \<Rightarrow> Inl e
            | Inr l1 \<Rightarrow> Inr (l1\<lparr>retired := LeaseDetached\<rparr>))
      else if confirmed then Inr (l\<lparr>retired := LeaseDetached\<rparr>) else Inl ())"

section \<open>The session in motion\<close>

text \<open>
  The last fields are what an observer of the whole notes: that a spawn of the identity may have
  reached the daemon, how often the local factory was called, that the queue refused the local
  handle of a result, that the recovery thread has forgotten a killed lease, and that the
  daemon has confirmed its closing.
\<close>

record remote_state =
  the_lease :: remote_lease
  managed :: "managed_session option"
  worker :: stage
  ever_sent :: bool
  local_starts :: nat
  handle_refused :: bool
  forgotten :: bool
  confirmed_closed :: bool

text \<open>The attempt of a job: one at the daemon, or one that panicked on the way.\<close>

datatype attempt_event =
    Attempt envelope_parsers uuid session_spec recovery_env
  | Panic bool

definition run_attempt :: "attempt_event \<Rightarrow> remote_job \<Rightarrow> u16 \<times> u16 \<Rightarrow> uuid \<Rightarrow> attempt \<times> bool" where
  "run_attempt a j dims i =
     (case a of
        Attempt p client spec env \<Rightarrow>
          (case recover_remote p client spec (fst dims) (snd dims) i (job_intent j) env of
             (Inl e, rqs) \<Rightarrow> (Inl (Typed e), spawned_on i rqs)
           | (Inr r, rqs) \<Rightarrow> (Inr r, spawned_on i rqs))
      | Panic reached \<Rightarrow> (Inl (Typed (birth_pending i True)), reached))"

datatype event =
    UiResize "u16 \<times> u16"
  | UiAttachedResize "nat option" queue_room
  | UiRecover "nat option" queue_room bool "u16 \<times> u16"
  | UiCollect "nat option" queue_room
  | UiDisconnected
  | UiClose
  | UiKill
  | UiDropQueue
  | WorkerTake
  | WorkerAttempt attempt_event
  | WorkerStartLocal
  | WorkerLocalReturned "bool option"
  | WorkerSettle
  | WorkerPublish
  | WorkerClear
  | WorkerClose bool uuid "uuid option" bool "(wire \<times> birth_capabilities) option"

definition place_job :: "remote_job option \<Rightarrow> stage \<Rightarrow> stage" where
  "place_job j st = (case j of Some x \<Rightarrow> Ready x | None \<Rightarrow> st)"

definition refused_handle :: "nat option \<Rightarrow> queue_room \<Rightarrow> remote_lease \<Rightarrow> bool" where
  "refused_handle need q l =
     (case completion l of
        Some (Inr r, dims) \<Rightarrow>
          retired l = LeaseLive \<and> sr_session r = lease_id l \<and> dimensions l \<noteq> dims \<and> \<not> sr_remote r
          \<and> (case submit need q (l\<lparr>completion := None\<rparr>) of Inl _ \<Rightarrow> True | Inr _ \<Rightarrow> False)
      | _ \<Rightarrow> False)"

definition ui_step :: "event \<Rightarrow> managed_session \<Rightarrow> remote_state \<Rightarrow> remote_state" where
  "ui_step e m s =
     (let l = the_lease s in
      case e of
        UiResize dims \<Rightarrow> s\<lparr>the_lease := set_desired_grid_size dims l\<rparr>
      | UiAttachedResize need q \<Rightarrow>
          (case queue_attached_resize need q m l of
             (l1, j) \<Rightarrow> s\<lparr>the_lease := l1, worker := place_job j (worker s)\<rparr>)
      | UiRecover need q due dims \<Rightarrow>
          if handle m \<noteq> None then s
          else (case queue_remote_recovery need q due dims m l of
             (m1, l1, j) \<Rightarrow> s\<lparr>the_lease := l1, managed := Some m1, worker := place_job j (worker s)\<rparr>)
      | UiCollect need q \<Rightarrow>
          (case collect_remote_completions need q m l of
             (m1, l1, j) \<Rightarrow>
               s\<lparr>the_lease := l1, managed := Some m1, worker := place_job j (worker s),
                 handle_refused := handle_refused s \<or> refused_handle need q l\<rparr>)
      | UiDisconnected \<Rightarrow> s\<lparr>managed := Some (drop_disconnected m)\<rparr>
      | UiClose \<Rightarrow> s\<lparr>the_lease := close_session m l, managed := None\<rparr>
      | UiKill \<Rightarrow>
          (case close_and_kill_remote m l of
             None \<Rightarrow> s
           | Some l1 \<Rightarrow> s\<lparr>the_lease := l1, managed := None\<rparr>)
      | UiDropQueue \<Rightarrow> s\<lparr>the_lease := drop_queue l, managed := None\<rparr>
      | _ \<Rightarrow> s)"

definition worker_step :: "event \<Rightarrow> remote_state \<Rightarrow> remote_state" where
  "worker_step e s =
     (let l = the_lease s;
          go = (\<lambda>(l1, st). s\<lparr>the_lease := l1, worker := st\<rparr>) in
      case (e, worker s) of
        (WorkerTake, Ready j) \<Rightarrow> go (begin_job j l)
      | (WorkerAttempt a, Calling j dims) \<Rightarrow>
          (case run_attempt a j dims (lease_id l) of
             (res, reached) \<Rightarrow> (go (after_attempt j res l))\<lparr>ever_sent := ever_sent s \<or> reached\<rparr>)
      | (WorkerStartLocal, LocalAdmitted t) \<Rightarrow>
          (go (start_local t l))
            \<lparr>local_starts := local_starts s + (if retired l = LeaseLive then 1 else 0)\<rparr>
      | (WorkerLocalReturned ready, LocalRunning) \<Rightarrow> go (local_returned ready l)
      | (WorkerSettle, Settling res) \<Rightarrow> go (settle res l)
      | (WorkerPublish, Publishing res dims) \<Rightarrow> go (publish res dims l, Clearing)
      | (WorkerClear, Clearing) \<Rightarrow> go (l\<lparr>pending := False\<rparr>, Idle)
      | (WorkerClose accepted client owner ready conn, Idle) \<Rightarrow>
          if worker_closes l \<and> \<not> forgotten s
          then (let confirmed = close_remote client owner ready (lease_id l) conn in
                case worker_close accepted confirmed l of
                  Inl _ \<Rightarrow> s
                | Inr l1 \<Rightarrow>
                    s\<lparr>the_lease := l1, forgotten := True,
                      confirmed_closed := (\<not> closes_locally l \<and> confirmed)\<rparr>)
          else s
      | _ \<Rightarrow> s)"

definition remote_step :: "remote_state \<Rightarrow> event \<Rightarrow> remote_state" where
  "remote_step s e = (case managed s of Some m \<Rightarrow> worker_step e (ui_step e m s) | None \<Rightarrow> worker_step e s)"

definition remote_start :: "uuid \<Rightarrow> bool \<Rightarrow> remote_state" where
  "remote_start i newborn =
     (case create_session i newborn of
        (l, m) \<Rightarrow> \<lparr>the_lease = l, managed = Some m, worker = Idle, ever_sent = False, local_starts = 0,
          handle_refused = False, forgotten = False, confirmed_closed = False\<rparr>)"

text \<open>The attempts begin on connections that carried nothing before.\<close>

definition event_ok :: "event \<Rightarrow> bool" where
  "event_ok e = (case e of WorkerAttempt (Attempt _ _ _ env) \<Rightarrow> fresh_connection env | _ \<Rightarrow> True)"

definition remote_run :: "remote_state \<Rightarrow> event list \<Rightarrow> remote_state" where
  "remote_run s es = foldl remote_step s es"

end
