(* ===== verification/RemoteLeaseSafety.thy ===== *)
theory RemoteLeaseSafety
  imports RemoteLease
begin

text \<open>
  What the recovery of a session guarantees: a local shell is only started for a birth that no
  daemon was asked for, and a killed lease is only forgotten when the daemon has confirmed
  its closing, unless the queue refused the handle of a local shell.
\<close>

section \<open>The shape of the states\<close>

definition recovery_job :: "remote_job \<Rightarrow> bool" where
  "recovery_job j \<longleftrightarrow> attached_resize j = None \<and> prepared j = None"

text \<open>The worker holds a job whose result is still to come.\<close>

definition job_open :: "stage \<Rightarrow> bool" where
  "job_open st =
     (case st of
        Ready j \<Rightarrow> attached_resize j = None
      | Calling _ _ \<Rightarrow> True | LocalAdmitted _ \<Rightarrow> True | LocalRunning \<Rightarrow> True
      | Settling _ \<Rightarrow> True | Publishing _ _ \<Rightarrow> True
      | _ \<Rightarrow> False)"

definition shape_ok :: "remote_state \<Rightarrow> bool" where
  "shape_ok s \<longleftrightarrow>
     (let l = the_lease s in
      (worker s \<noteq> Idle \<longrightarrow> pending l)
      \<and> (job_open (worker s) \<longrightarrow> completion l = None)
      \<and> (\<forall>j dims. worker s = Calling j dims \<longrightarrow> attempted l)
      \<and> (\<forall>t. worker s = LocalAdmitted t \<longrightarrow> \<not> may_have_spawned l)
      \<and> (retired l \<noteq> LeaseLive \<longrightarrow> managed s = None)
      \<and> (forgotten s \<longrightarrow> retired l \<noteq> LeaseLive \<and> worker s = Idle))"

section \<open>Doubt about the birth\<close>

text \<open>There is doubt when a shell of the identity may exist already.\<close>

definition doubtful :: "bool \<Rightarrow> remote_state \<Rightarrow> bool" where
  "doubtful newborn s \<longleftrightarrow> ever_sent s \<or> \<not> newborn \<or> 0 < local_starts s"

definition leads_to_birth :: "attempt \<Rightarrow> bool" where
  "leads_to_birth res =
     (case res of Inl (Typed t) \<Rightarrow> retry_intent t = NewBirth \<and> retryable t | _ \<Rightarrow> False)"

definition births_stage :: "stage \<Rightarrow> bool" where
  "births_stage st =
     (case st of
        Ready j \<Rightarrow> recovery_job j \<and> job_intent j = NewBirth
      | Calling j _ \<Rightarrow> job_intent j = NewBirth
      | LocalAdmitted _ \<Rightarrow> True
      | Settling res \<Rightarrow> leads_to_birth res
      | Publishing res _ \<Rightarrow> leads_to_birth res
      | _ \<Rightarrow> False)"

definition result_coming :: "remote_state \<Rightarrow> bool" where
  "result_coming s \<longleftrightarrow> completion (the_lease s) \<noteq> None
     \<or> (case worker s of LocalRunning \<Rightarrow> True | Settling _ \<Rightarrow> True | Publishing _ _ \<Rightarrow> True | _ \<Rightarrow> False)"

definition may_give_birth :: "remote_state \<Rightarrow> bool" where
  "may_give_birth s \<longleftrightarrow>
     births_stage (worker s)
     \<or> (case completion (the_lease s) of Some (res, _) \<Rightarrow> leads_to_birth res | None \<Rightarrow> False)
     \<or> (case managed s of
          Some m \<Rightarrow> retired (the_lease s) = LeaseLive \<and> \<not> result_coming s \<and> fresh m \<and> session_retryable m
        | None \<Rightarrow> False)"

definition doubt_ok :: "bool \<Rightarrow> remote_state \<Rightarrow> bool" where
  "doubt_ok newborn s \<longleftrightarrow>
     (doubtful newborn s \<and> may_give_birth s \<longrightarrow> may_have_spawned (the_lease s))
     \<and> (0 < local_starts s \<longrightarrow> newborn)
     \<and> local_starts s \<le> 1
     \<and> (\<not> attempted (the_lease s) \<longrightarrow> \<not> ever_sent s)"

lemmas birth_defs = doubt_ok_def doubtful_def may_give_birth_def births_stage_def leads_to_birth_def
  result_coming_def recovery_job_def

section \<open>The attempt\<close>

lemma run_attempt_facts:
  assumes "run_attempt a j dims i = (res, reached)" and "event_ok (WorkerAttempt a)"
  shows "(\<exists>t. res = Inl (Typed t) \<and> (safe_local_fallback t \<longrightarrow> job_intent j = NewBirth \<and> \<not> reached)
            \<and> (reached \<longrightarrow> retry_intent t = NewBirth \<and> \<not> safe_local_fallback t))
       \<or> (\<exists>r. res = Inr r \<and> sr_session r = i \<and> sr_remote r \<and> (reached \<longrightarrow> sr_owned_birth r))"
proof (cases a)
  case (Panic sent)
  then have "res = Inl (Typed (birth_pending i True))" using assms(1) by (simp add: run_attempt_def)
  moreover have "retry_intent (birth_pending i True) = NewBirth \<and> \<not> safe_local_fallback (birth_pending i True)"
    by (simp add: refusal_defs)
  ultimately show ?thesis by blast
next
  case (Attempt p client spec env)
  obtain out rqs where r: "recover_remote p client spec (fst dims) (snd dims) i (job_intent j) env = (out, rqs)"
    by fastforce
  have f: "fresh_connection env" using assms(2) Attempt by (simp add: event_ok_def)
  show ?thesis
  proof (cases out)
    case (Inl e)
    have "res = Inl (Typed e)" "reached = spawned_on i rqs"
      using assms(1) Attempt r Inl by (simp_all add: run_attempt_def)
    moreover have "safe_local_fallback e \<Longrightarrow> job_intent j = NewBirth \<and> rqs = []"
      "spawned_on i rqs \<Longrightarrow> retry_intent e = NewBirth \<and> \<not> safe_local_fallback e"
      using recover_remote_error [OF r [unfolded Inl] f] by blast+
    ultimately show ?thesis by (metis spawned_on_simps(1))
  next
    case (Inr x)
    have "res = Inr x" "reached = spawned_on i rqs"
      using assms(1) Attempt r Inr by (simp_all add: run_attempt_def)
    then show ?thesis using recover_remote_result [OF r [unfolded Inr] f] by blast
  qed
qed

text \<open>What the return of an attempt leaves behind.\<close>

lemma after_attempt_cases:
  assumes "after_attempt j res l = (l', st)"
    and "(\<exists>t. res = Inl (Typed t) \<and> (safe_local_fallback t \<longrightarrow> job_intent j = NewBirth \<and> \<not> reached)
            \<and> (reached \<longrightarrow> retry_intent t = NewBirth \<and> \<not> safe_local_fallback t))
       \<or> (\<exists>r. res = Inr r \<and> sr_session r = lease_id l \<and> sr_remote r \<and> (reached \<longrightarrow> sr_owned_birth r))"
  obtains
    (fallback) t where "st = LocalAdmitted t \<or> st = Settling (Inl (Typed t))"
      "job_intent j = NewBirth" "\<not> reached" "\<not> may_have_spawned l" "\<not> may_have_spawned l'"
      "l' = l\<lparr>local_birth_admission := local_birth_admission l', attempted := attempted l'\<rparr>"
  | (failed) t where "st = Settling (Inl (Typed t))"
      "leads_to_birth (Inl (Typed t)) \<longrightarrow> may_have_spawned l'"
      "l' = l\<lparr>may_have_spawned := may_have_spawned l'\<rparr>" "may_have_spawned l \<longrightarrow> may_have_spawned l'"
  | (worked) r where "st = Settling (Inr r)" "sr_session r = lease_id l" "sr_remote r"
      "l' = l\<lparr>may_have_spawned := may_have_spawned l'\<rparr>" "may_have_spawned l \<longrightarrow> may_have_spawned l'"
  using assms(2)
proof
  assume "\<exists>r. res = Inr r \<and> sr_session r = lease_id l \<and> sr_remote r \<and> (reached \<longrightarrow> sr_owned_birth r)"
  then obtain r where "res = Inr r" "sr_session r = lease_id l" "sr_remote r" by blast
  then show thesis using assms(1) worked [of r]
    by (auto simp: after_attempt_def normalize_birth_uncertainty_def split: if_splits)
next
  assume "\<exists>t. res = Inl (Typed t) \<and> (safe_local_fallback t \<longrightarrow> job_intent j = NewBirth \<and> \<not> reached)
            \<and> (reached \<longrightarrow> retry_intent t = NewBirth \<and> \<not> safe_local_fallback t)"
  then obtain t where t: "res = Inl (Typed t)" "safe_local_fallback t \<longrightarrow> job_intent j = NewBirth \<and> \<not> reached"
    "reached \<longrightarrow> retry_intent t = NewBirth \<and> \<not> safe_local_fallback t" by blast
  show thesis
  proof (cases "may_have_spawned l")
    case True
    let ?t = "t\<lparr>safe_local_fallback := False, retry_intent := NewBirth, may_close := may_close t \<or> lease_may_close l\<rparr>"
    have "st = Settling (Inl (Typed ?t))" "l' = l"
      using assms(1) t True by (auto simp: after_attempt_def normalize_birth_uncertainty_def Let_def)
    then show thesis using failed [of ?t] True by (cases l) auto
  next
    case False
    show thesis
    proof (cases "safe_local_fallback t")
      case True
      then have "(st = LocalAdmitted t \<or> st = Settling (Inl (Typed t)))
          \<and> l' = l\<lparr>local_birth_admission := local_birth_admission l', attempted := attempted l'\<rparr>"
        using assms(1) t False
        by (auto simp: after_attempt_def normalize_birth_uncertainty_def Let_def admit_local_birth_def split: if_splits)
      moreover from this have "may_have_spawned l' = may_have_spawned l" by (metis remote_lease.select_convs(8) remote_lease.surjective remote_lease.update_convs(7,9))
      ultimately show thesis using fallback [of t] False t True by auto
    next
      case plain: False
      have "st = Settling (Inl (Typed t))"
        and l': "l' = (if retry_intent t = NewBirth \<and> (retryable t \<or> may_close t) then l\<lparr>may_have_spawned := True\<rparr> else l)"
        using assms(1) t False plain by (auto simp: after_attempt_def normalize_birth_uncertainty_def Let_def)
      then show thesis using failed [of t] False by (cases l) (auto simp: leads_to_birth_def)
    qed
  qed
qed

section \<open>The window's operations by cases\<close>

lemma no_triple [simp]: "(\<forall>a b c. x \<noteq> Some (a, b, c)) \<longleftrightarrow> x = None"
  by (cases x) auto

lemma submit_accepts:
  "submit need q l = Inr l' \<Longrightarrow> l' = l\<lparr>pending := True\<rparr> \<and> \<not> pending l \<and> retired l = LeaseLive"
  by (auto simp: submit_def split: option.splits if_splits)

lemma collect_cases:
  assumes "collect_remote_completions need q m l = (m', l', j)" and "retired l = LeaseLive"
  obtains
    (empty) "completion l = None" "m' = m" "l' = l" "j = None"
  | (shown) r dims where "completion l = Some (Inr r, dims)" "sr_session r = lease_id l" "dims = dimensions l"
      "m' = m\<lparr>fresh := False, handle := Some r\<rparr>" "l' = l\<lparr>completion := None\<rparr>" "j = None"
  | (again) r dims where "completion l = Some (Inr r, dims)" "sr_session r = lease_id l" "\<not> pending l"
      "m' = m\<lparr>fresh := False\<rparr>" "l' = l\<lparr>completion := None, pending := True\<rparr>"
      "j = Some \<lparr>job_intent = AdoptExisting, prepared = Some r, attached_resize = None\<rparr>"
  | (refused) r dims e where "completion l = Some (Inr r, dims)" "sr_session r = lease_id l" "dimensions l \<noteq> dims"
      "submit need q (l\<lparr>completion := None\<rparr>) = Inl e"
      "m' = m\<lparr>fresh := False\<rparr>" "l' = l\<lparr>completion := None\<rparr>" "j = None"
  | (final) res dims where "completion l = Some (res, dims)"
      "\<forall>r. res = Inr r \<longrightarrow> sr_session r \<noteq> lease_id l" "m' = m\<lparr>session_retryable := False\<rparr>" "l' = l\<lparr>completion := None\<rparr>" "j = None"
  | (typed) t dims where "completion l = Some (Inl (Typed t), dims)"
      "m' = m\<lparr>fresh := (retry_intent t = NewBirth), session_retryable := retryable t\<rparr>"
      "l' = l\<lparr>completion := None\<rparr>" "j = None"
proof (cases "completion l")
  case None
  then have "m' = m" "l' = l" "j = None" using assms(1) by (auto simp: collect_remote_completions_def)
  then show thesis using None empty by blast
next
  case (Some cp)
  obtain res dims where c: "completion l = Some (res, dims)" using Some by (cases cp) auto
  show thesis
  proof (cases res)
    case (Inl f)
    show thesis
    proof (cases f)
      case (Typed t)
      then show thesis using assms c Inl typed [of t dims] by (simp add: collect_remote_completions_def Let_def)
    next
      case Untyped
      then show thesis using assms c Inl final [of res dims] by (simp add: collect_remote_completions_def Let_def)
    qed
  next
    case (Inr r)
    note eq = assms(1) [unfolded collect_remote_completions_def c Inr, simplified Let_def assms(2), simplified]
    show thesis
    proof (cases "sr_session r = lease_id l")
      case False
      then have "m' = m\<lparr>session_retryable := False\<rparr>" "l' = l\<lparr>completion := None\<rparr>" "j = None"
        using eq assms(2) by simp_all
      then show thesis using final [OF c] False Inr by simp
    next
      case own: True
      show thesis
      proof (cases "dimensions l = dims")
        case True
        then show thesis using eq assms(2) own shown [OF c [unfolded Inr] own] by simp
      next
        case stale: False
        show thesis
        proof (cases "submit need q (l\<lparr>completion := None\<rparr>)")
          case (Inl e)
          then show thesis using eq assms(2) own stale refused [OF c [unfolded Inr] own stale Inl] by simp
        next
          case (Inr l1)
          then show thesis
            using eq assms(2) own stale submit_accepts [OF Inr] again [OF c [unfolded \<open>res = Inr r\<close>] own] by simp
        qed
      qed
    qed
  qed
qed

lemma recover_cases:
  assumes "queue_remote_recovery need q due dims m l = (m', l', j)"
  obtains
    (waits) d where "m' = m \<or> m' = m\<lparr>session_retryable := False\<rparr>" "l' = l\<lparr>dimensions := d\<rparr>" "j = None"
  | (asks) d where "m' = m" "l' = l\<lparr>dimensions := d, pending := True\<rparr>" "\<not> pending l" "completion l = None"
      "retired l = LeaseLive" "session_retryable m"
      "j = Some \<lparr>job_intent = (if fresh m then NewBirth else AdoptExisting), prepared = None, attached_resize = None\<rparr>"
proof -
  define d where "d = (max 1 (fst dims), max 1 (snd dims))"
  let ?l = "l\<lparr>dimensions := d\<rparr>"
  have set: "set_desired_grid_size dims l = ?l" by (simp add: set_desired_grid_size_def d_def)
  show thesis
  proof (cases "submit need q ?l")
    case (Inl e)
    then show thesis using assms set waits [of d]
      by (auto simp: queue_remote_recovery_def Let_def split: if_splits)
  next
    case (Inr l1)
    then show thesis using assms set waits [of d] asks [of d] submit_accepts [OF Inr]
      by (auto simp: queue_remote_recovery_def Let_def split: if_splits)
  qed
qed

lemma resize_cases:
  assumes "queue_attached_resize need q m l = (l', j)"
  obtains (none) "l' = l" "j = None"
  | (queued) h where "handle m = Some h" "\<not> pending l" "l' = l\<lparr>pending := True\<rparr>"
      "j = Some \<lparr>job_intent = AdoptExisting, prepared = None, attached_resize = Some h\<rparr>"
  using assms submit_accepts
  by (fastforce simp: queue_attached_resize_def split: option.splits sum.splits if_splits)

section \<open>Every step keeps the invariants\<close>

lemma retire_facts [simp]:
  "retired (retire k l) \<noteq> LeaseLive" "completion (retire k l) = None" "pending (retire k l) = pending l"
  "attempted (retire k l) = attempted l" "may_have_spawned (retire k l) = may_have_spawned l"
  "lease_id (retire k l) = lease_id l"
  by (auto simp: retire_def retain_local_completion_def close_local_birth_admissions_def Let_def
      split: option.splits sum.splits)

lemma hand_over_local_facts [simp]:
  "retired (hand_over_local m l) = retired l" "completion (hand_over_local m l) = completion l"
  "pending (hand_over_local m l) = pending l" "attempted (hand_over_local m l) = attempted l"
  "may_have_spawned (hand_over_local m l) = may_have_spawned l" "lease_id (hand_over_local m l) = lease_id l"
  by (auto simp: hand_over_local_def)

lemma drop_queue_facts [simp]:
  "retired (drop_queue l) \<noteq> LeaseLive" "completion (drop_queue l) = completion l" "pending (drop_queue l) = pending l"
  "attempted (drop_queue l) = attempted l" "may_have_spawned (drop_queue l) = may_have_spawned l"
  "lease_id (drop_queue l) = lease_id l" "local_only (drop_queue l) = local_only l"
  by (auto simp: drop_queue_def close_local_birth_admissions_def Let_def)

lemma shape_ui:
  assumes "shape_ok s" and "managed s = Some m"
  shows "shape_ok (ui_step e m s)"
proof -
  have l: "retired (the_lease s) = LeaseLive" "\<not> forgotten s" "worker s = Idle \<or> pending (the_lease s)"
    using assms by (auto simp: shape_ok_def Let_def)
  show ?thesis
  proof (cases e)
    case (UiCollect need q)
    obtain m1 l1 j where c: "collect_remote_completions need q m (the_lease s) = (m1, l1, j)"
      by (metis prod_cases3)
    from c l(1) show ?thesis
      by (cases rule: collect_cases) (use UiCollect assms l c in
        \<open>auto simp: shape_ok_def ui_step_def place_job_def job_open_def Let_def\<close>)
  next
    case (UiAttachedResize need q)
    obtain l1 j where c: "queue_attached_resize need q m (the_lease s) = (l1, j)" by fastforce
    from c show ?thesis
      by (cases rule: resize_cases) (use UiAttachedResize assms l c in
        \<open>auto simp: shape_ok_def ui_step_def place_job_def job_open_def Let_def\<close>)
  next
    case (UiRecover need q due dims)
    obtain m1 l1 j where c: "queue_remote_recovery need q due dims m (the_lease s) = (m1, l1, j)"
      by (metis prod_cases3)
    from c show ?thesis
      by (cases rule: recover_cases) (use UiRecover assms l c in
        \<open>auto simp: shape_ok_def ui_step_def place_job_def job_open_def Let_def\<close>)
  qed (use assms l in \<open>auto simp: shape_ok_def ui_step_def set_desired_grid_size_def close_session_def
      close_and_kill_remote_def Let_def\<close>)
qed

text \<open>The window never adds a way to give birth.\<close>

lemma births_ui:
  assumes "shape_ok s" and "managed s = Some m" and "may_give_birth (ui_step e m s)"
  shows "may_give_birth s"
proof -
  have l: "retired (the_lease s) = LeaseLive" "worker s = Idle \<or> pending (the_lease s)"
    using assms by (auto simp: shape_ok_def Let_def)
  show ?thesis
  proof (cases e)
    case (UiCollect need q)
    obtain m1 l1 j where c: "collect_remote_completions need q m (the_lease s) = (m1, l1, j)"
      by (metis prod_cases3)
    from c l(1) show ?thesis
      by (cases rule: collect_cases) (use UiCollect assms l c in
        \<open>auto simp: may_give_birth_def births_stage_def recovery_job_def result_coming_def leads_to_birth_def
          ui_step_def place_job_def Let_def\<close>)
  next
    case (UiAttachedResize need q)
    obtain l1 j where c: "queue_attached_resize need q m (the_lease s) = (l1, j)" by fastforce
    from c show ?thesis
      by (cases rule: resize_cases) (use UiAttachedResize assms l c in
        \<open>auto simp: may_give_birth_def births_stage_def recovery_job_def result_coming_def
          ui_step_def place_job_def Let_def\<close>)
  next
    case (UiRecover need q due dims)
    obtain m1 l1 j where c: "queue_remote_recovery need q due dims m (the_lease s) = (m1, l1, j)"
      by (metis prod_cases3)
    from c show ?thesis
      by (cases rule: recover_cases) (use UiRecover assms l c in
        \<open>auto simp: may_give_birth_def births_stage_def recovery_job_def result_coming_def
          ui_step_def place_job_def Let_def split: if_splits\<close>)
  qed (use assms l in \<open>auto simp: may_give_birth_def result_coming_def ui_step_def set_desired_grid_size_def
      close_session_def close_and_kill_remote_def drop_disconnected_def Let_def split: if_splits option.splits\<close>)
qed

lemma ui_keeps:
  assumes "managed s = Some m" and "shape_ok s"
  shows "may_have_spawned (the_lease (ui_step e m s)) = may_have_spawned (the_lease s)"
    and "attempted (the_lease (ui_step e m s)) = attempted (the_lease s)"
    and "lease_id (the_lease (ui_step e m s)) = lease_id (the_lease s)"
    and "ever_sent (ui_step e m s) = ever_sent s" and "local_starts (ui_step e m s) = local_starts s"
    and "forgotten (ui_step e m s) = forgotten s" and "confirmed_closed (ui_step e m s) = confirmed_closed s"
proof -
  have l: "retired (the_lease s) = LeaseLive" using assms by (auto simp: shape_ok_def Let_def)
  have "may_have_spawned (the_lease (ui_step e m s)) = may_have_spawned (the_lease s)
    \<and> attempted (the_lease (ui_step e m s)) = attempted (the_lease s)
    \<and> lease_id (the_lease (ui_step e m s)) = lease_id (the_lease s)
    \<and> ever_sent (ui_step e m s) = ever_sent s \<and> local_starts (ui_step e m s) = local_starts s
    \<and> forgotten (ui_step e m s) = forgotten s \<and> confirmed_closed (ui_step e m s) = confirmed_closed s"
  proof (cases e)
    case (UiCollect need q)
    obtain m1 l1 j where c: "collect_remote_completions need q m (the_lease s) = (m1, l1, j)"
      by (metis prod_cases3)
    from c l(1) show ?thesis
      by (cases rule: collect_cases) (use UiCollect c in \<open>auto simp: ui_step_def Let_def\<close>)
  next
    case (UiAttachedResize need q)
    obtain l1 j where c: "queue_attached_resize need q m (the_lease s) = (l1, j)" by fastforce
    from c show ?thesis
      by (cases rule: resize_cases) (use UiAttachedResize c in \<open>auto simp: ui_step_def Let_def\<close>)
  next
    case (UiRecover need q due dims)
    obtain m1 l1 j where c: "queue_remote_recovery need q due dims m (the_lease s) = (m1, l1, j)"
      by (metis prod_cases3)
    from c show ?thesis
      by (cases rule: recover_cases) (use UiRecover c in \<open>auto simp: ui_step_def Let_def\<close>)
  qed (auto simp: ui_step_def set_desired_grid_size_def close_session_def close_and_kill_remote_def Let_def)
  then show "may_have_spawned (the_lease (ui_step e m s)) = may_have_spawned (the_lease s)"
    and "attempted (the_lease (ui_step e m s)) = attempted (the_lease s)"
    and "lease_id (the_lease (ui_step e m s)) = lease_id (the_lease s)"
    and "ever_sent (ui_step e m s) = ever_sent s" and "local_starts (ui_step e m s) = local_starts s"
    and "forgotten (ui_step e m s) = forgotten s" and "confirmed_closed (ui_step e m s) = confirmed_closed s"
    by blast+
qed

lemma doubt_ui:
  assumes "shape_ok s" and "doubt_ok newborn s" and "managed s = Some m"
  shows "doubt_ok newborn (ui_step e m s)"
  using assms births_ui [OF assms(1,3), of e] by (auto simp: doubt_ok_def doubtful_def ui_keeps)

text \<open>The worker's steps.\<close>

lemma begin_job_cases:
  assumes "begin_job j l = (l', st)"
  obtains (ended) d where "l' = l\<lparr>applied_dimensions := d, pending := False\<rparr>" "st = Idle"
  | (calls) "recovery_job j" "l' = l\<lparr>attempted := True\<rparr>" "st = Calling j (dimensions l)" "retired l = LeaseLive"
  | (carries) r b where "attached_resize j = None" "prepared j = Some r" "l' = l\<lparr>may_have_spawned := b\<rparr>"
      "may_have_spawned l \<longrightarrow> b" "st = Settling (Inr r)" "retired l = LeaseLive"
proof (cases "retired l = LeaseLive")
  case False
  then show thesis using assms ended [of "applied_dimensions l"] by (simp add: begin_job_def)
next
  case live: True
  show thesis
  proof (cases "attached_resize j")
    case (Some h)
    then show thesis using assms live ended [of "Some (dimensions l)"] by (simp add: begin_job_def)
  next
    case resize: None
    show thesis
    proof (cases "prepared j")
      case None
      then show thesis using assms live resize calls by (simp add: begin_job_def recovery_job_def)
    next
      case (Some r)
      then have "l' = l\<lparr>may_have_spawned := may_have_spawned l \<or> sr_owned_birth r\<rparr>" "st = Settling (Inr r)"
        using assms live resize by (auto simp: begin_job_def normalize_birth_uncertainty_def)
      then show thesis using carries [OF resize Some] live by blast
    qed
  qed
qed

lemma settle_cases:
  assumes "settle res l = (l', st)"
  obtains (good) r where "res = Inr r" "sr_session r = lease_id l" "st = Publishing res (dimensions l)"
      "l' = l\<lparr>lease_birth := sr_owned_birth r, local_only := \<not> sr_remote r, lease_may_close := True,
                 applied_dimensions := Some (dimensions l)\<rparr>"
  | (failed) f b c where "res = Inl f" "st = Publishing res (dimensions l)"
      "l' = l\<lparr>lease_may_close := b, lease_birth := c\<rparr>"
  | (foreign) r t b c where "res = Inr r" "sr_session r \<noteq> lease_id l" "st = Publishing (Inl (Typed t)) (dimensions l)"
      "l' = l\<lparr>lease_may_close := b, lease_birth := c, may_have_spawned := True\<rparr>"
proof (cases res)
  case (Inl f)
  show thesis
  proof (cases f)
    case (Typed t)
    have "l' = l\<lparr>lease_may_close := may_close t, lease_birth := lease_birth l \<or> retry_intent t = NewBirth\<rparr>"
      "st = Publishing res (dimensions l)"
      using assms Inl Typed by (auto simp: settle_def reject_identity_def)
    then show thesis using failed [OF Inl] by blast
  next
    case Untyped
    have "l' = l\<lparr>lease_may_close := lease_may_close l, lease_birth := lease_birth l\<rparr>"
      "st = Publishing res (dimensions l)"
      using assms Inl Untyped by (auto simp: settle_def reject_identity_def)
    then show thesis using failed [OF Inl] by blast
  qed
next
  case (Inr r)
  show thesis
  proof (cases "sr_session r = lease_id l")
    case True
    then have "st = Publishing res (dimensions l)"
      "l' = l\<lparr>lease_birth := sr_owned_birth r, local_only := \<not> sr_remote r, lease_may_close := True,
                 applied_dimensions := Some (dimensions l)\<rparr>"
      using assms Inr by (auto simp: settle_def reject_identity_def)
    then show thesis using good [OF Inr True] by blast
  next
    case False
    obtain t where n: "normalize_birth_uncertainty l (Inl (Typed (birth_pending (lease_id l) True)))
        = (Inl (Typed t), l\<lparr>may_have_spawned := True\<rparr>)"
      by (auto simp: normalize_birth_uncertainty_def Let_def refusal_defs)
    then have "st = Publishing (Inl (Typed t)) (dimensions l)"
      "l' = l\<lparr>lease_may_close := may_close t, lease_birth := lease_birth l \<or> retry_intent t = NewBirth, may_have_spawned := True\<rparr>"
      using assms Inr False by (auto simp: settle_def reject_identity_def)
    then show thesis using foreign [OF Inr False] by blast
  qed
qed

text \<open>The worker's step is that of its stage; nothing else moves.\<close>

lemma worker_step_cases:
  assumes "worker_step e s = s'"
  obtains (stays) "s' = s"
  | (takes) j l1 st where "worker s = Ready j" "begin_job j (the_lease s) = (l1, st)"
      "s' = s\<lparr>the_lease := l1, worker := st\<rparr>"
  | (attempts) a j dims res reached l1 st where "e = WorkerAttempt a" "worker s = Calling j dims"
      "run_attempt a j dims (lease_id (the_lease s)) = (res, reached)" "after_attempt j res (the_lease s) = (l1, st)"
      "s' = s\<lparr>the_lease := l1, worker := st, ever_sent := ever_sent s \<or> reached\<rparr>"
  | (starts) t where "worker s = LocalAdmitted t" "retired (the_lease s) = LeaseLive"
      "s' = s\<lparr>the_lease := (the_lease s)\<lparr>local_only := True\<rparr>, worker := LocalRunning, local_starts := local_starts s + 1\<rparr>"
  | (cancels) t where "worker s = LocalAdmitted t" "retired (the_lease s) \<noteq> LeaseLive"
      "s' = s\<lparr>the_lease := (finish_local_birth (the_lease s))\<lparr>attempted := False\<rparr>, worker := Settling (Inl (Typed t))\<rparr>"
  | (returns) ready l1 st where "worker s = LocalRunning" "local_returned ready (the_lease s) = (l1, st)"
      "s' = s\<lparr>the_lease := l1, worker := st\<rparr>"
  | (settles) res l1 st where "worker s = Settling res" "settle res (the_lease s) = (l1, st)"
      "s' = s\<lparr>the_lease := l1, worker := st\<rparr>"
  | (publishes) res dims where "worker s = Publishing res dims"
      "s' = s\<lparr>the_lease := publish res dims (the_lease s), worker := Clearing\<rparr>"
  | (clears) "worker s = Clearing" "s' = s\<lparr>the_lease := (the_lease s)\<lparr>pending := False\<rparr>, worker := Idle\<rparr>"
  | (forgets) l1 a c where "worker s = Idle" "worker_closes (the_lease s)" "\<not> forgotten s"
      "worker_close a c (the_lease s) = Inr l1"
      "s' = s\<lparr>the_lease := l1, forgotten := True, confirmed_closed := (\<not> closes_locally (the_lease s) \<and> c)\<rparr>"
proof -
  have stay: thesis if "worker_step e s = s" using stays [OF trans [OF assms [symmetric] that]] .
  show thesis
  proof (cases e)
    case WorkerTake
    show thesis
    proof (cases "worker s")
      case (Ready j)
      obtain l1 st where b: "begin_job j (the_lease s) = (l1, st)" by fastforce
      show thesis by (rule takes [OF Ready b]) (simp add: assms [symmetric] worker_step_def Let_def WorkerTake Ready b)
    qed (rule stay, simp add: worker_step_def WorkerTake)+
  next
    case (WorkerAttempt a)
    show thesis
    proof (cases "worker s")
      case (Calling j dims)
      obtain res reached where r: "run_attempt a j dims (lease_id (the_lease s)) = (res, reached)" by fastforce
      obtain l1 st where f: "after_attempt j res (the_lease s) = (l1, st)" by fastforce
      show thesis
        by (rule attempts [OF WorkerAttempt Calling r f])
          (simp add: assms [symmetric] worker_step_def Let_def WorkerAttempt Calling r f)
    qed (rule stay, simp add: worker_step_def WorkerAttempt)+
  next
    case WorkerStartLocal
    show thesis
    proof (cases "worker s")
      case (LocalAdmitted t)
      show thesis
      proof (cases "retired (the_lease s) = LeaseLive")
        case True
        show thesis by (rule starts [OF LocalAdmitted True])
          (simp add: assms [symmetric] worker_step_def start_local_def Let_def WorkerStartLocal LocalAdmitted True)
      next
        case False
        show thesis by (rule cancels [OF LocalAdmitted False])
          (simp add: assms [symmetric] worker_step_def start_local_def Let_def WorkerStartLocal LocalAdmitted False)
      qed
    qed (rule stay, simp add: worker_step_def WorkerStartLocal)+
  next
    case (WorkerLocalReturned ready)
    show thesis
    proof (cases "worker s")
      case LocalRunning
      obtain l1 st where b: "local_returned ready (the_lease s) = (l1, st)" by fastforce
      show thesis by (rule returns [OF LocalRunning b])
        (simp add: assms [symmetric] worker_step_def Let_def WorkerLocalReturned LocalRunning b)
    qed (rule stay, simp add: worker_step_def WorkerLocalReturned)+
  next
    case WorkerSettle
    show thesis
    proof (cases "worker s")
      case (Settling res)
      obtain l1 st where b: "settle res (the_lease s) = (l1, st)" by fastforce
      show thesis by (rule settles [OF Settling b])
        (simp add: assms [symmetric] worker_step_def Let_def WorkerSettle Settling b)
    qed (rule stay, simp add: worker_step_def WorkerSettle)+
  next
    case WorkerPublish
    show thesis
    proof (cases "worker s")
      case (Publishing res dims)
      show thesis by (rule publishes [OF Publishing])
        (simp add: assms [symmetric] worker_step_def Let_def WorkerPublish Publishing)
    qed (rule stay, simp add: worker_step_def WorkerPublish)+
  next
    case WorkerClear
    show thesis
    proof (cases "worker s")
      case Clearing
      show thesis by (rule clears [OF Clearing]) (simp add: assms [symmetric] worker_step_def Let_def WorkerClear Clearing)
    qed (rule stay, simp add: worker_step_def WorkerClear)+
  next
    case (WorkerClose accepted client owner ready conn)
    let ?c = "worker_close accepted (close_remote client owner ready (lease_id (the_lease s)) conn) (the_lease s)"
    show thesis
    proof (cases "worker s = Idle \<and> worker_closes (the_lease s) \<and> \<not> forgotten s \<and> (\<exists>l1. ?c = Inr l1)")
      case True
      then obtain l1 where "worker s = Idle" "worker_closes (the_lease s)" "\<not> forgotten s" "?c = Inr l1" by blast
      then show thesis by (rule forgets) (use True \<open>?c = Inr l1\<close> in \<open>simp add: assms [symmetric] worker_step_def WorkerClose Let_def\<close>)
    next
      case False
      have "worker_step e s = s"
      proof (cases "worker s = Idle")
        case idle: True
        show ?thesis
        proof (cases "worker_closes (the_lease s) \<and> \<not> forgotten s")
          case True
          then obtain u where "?c = Inl u" using False idle by (cases ?c) auto
          then show ?thesis by (simp add: worker_step_def WorkerClose idle True)
        next
          case closed: False
          show ?thesis unfolding worker_step_def WorkerClose idle Let_def by (simp only: prod.case event.case stage.case if_not_P [OF closed])
        qed
      next
        case busy: False
        then show ?thesis by (cases "worker s") (simp_all add: worker_step_def WorkerClose)
      qed
      then have "s' = s" by (rule trans [OF assms [symmetric]])
      then show thesis by (rule stays)
    qed
  qed (rule stay, simp add: worker_step_def)+
qed

lemma publish_facts [simp]:
  "retired (publish res dims l) = LeaseLive \<longleftrightarrow> retired l = LeaseLive"
  "completion (publish res dims l) = (if retired l = LeaseLive then Some (res, dims) else completion l)"
  "pending (publish res dims l) = pending l" "attempted (publish res dims l) = attempted l"
  "may_have_spawned (publish res dims l) = may_have_spawned l" "lease_id (publish res dims l) = lease_id l"
  by (auto simp: publish_def retain_local_completion_def split: sum.splits)

lemma finish_facts [simp]:
  "retired (finish_local_birth l) = retired l" "completion (finish_local_birth l) = completion l"
  "pending (finish_local_birth l) = pending l" "attempted (finish_local_birth l) = attempted l"
  "may_have_spawned (finish_local_birth l) = may_have_spawned l" "lease_id (finish_local_birth l) = lease_id l"
  "local_only (finish_local_birth l) = local_only l"
  by (simp_all add: finish_local_birth_def)

lemma worker_close_facts:
  "worker_close a c l = Inr l' \<Longrightarrow> retired l' = LeaseDetached \<and> completion l' = completion l \<and> pending l' = pending l
    \<and> attempted l' = attempted l \<and> may_have_spawned l' = may_have_spawned l \<and> lease_id l' = lease_id l
    \<and> local_only l' = local_only l"
  by (auto simp: worker_close_def handoff_local_retirement_def split: if_splits option.splits)


lemma shape_worker:
  assumes "shape_ok s" and "event_ok e"
  shows "shape_ok (worker_step e s)"
proof (rule worker_step_cases [OF refl, of e s])
  fix j l1 st
  assume st: "worker s = Ready j" "begin_job j (the_lease s) = (l1, st)"
    "worker_step e s = s\<lparr>the_lease := l1, worker := st\<rparr>"
  from st(2) show ?thesis
    by (cases rule: begin_job_cases) (use assms st in \<open>auto simp: shape_ok_def Let_def job_open_def recovery_job_def\<close>)
next
  fix a j dims res reached l1 st
  assume st: "e = WorkerAttempt a" "worker s = Calling j dims"
    "run_attempt a j dims (lease_id (the_lease s)) = (res, reached)" "after_attempt j res (the_lease s) = (l1, st)"
    "worker_step e s = s\<lparr>the_lease := l1, worker := st, ever_sent := ever_sent s \<or> reached\<rparr>"
  have l: "pending (the_lease s)" "completion (the_lease s) = None" "\<not> forgotten s"
    "retired (the_lease s) \<noteq> LeaseLive \<Longrightarrow> managed s = None"
    using assms(1) st(2) by (auto simp: shape_ok_def Let_def job_open_def)
  have "pending l1 \<and> completion l1 = None \<and> retired l1 = retired (the_lease s)
      \<and> (\<forall>t. st = LocalAdmitted t \<longrightarrow> \<not> may_have_spawned l1) \<and> (\<forall>j d. st \<noteq> Calling j d)"
    using st(4) run_attempt_facts [OF st(3) assms(2) [unfolded st(1)]]
  proof (rule after_attempt_cases)
    fix t
    assume "st = LocalAdmitted t \<or> st = Settling (Inl (Typed t))" "\<not> may_have_spawned l1"
      and e: "l1 = (the_lease s)\<lparr>local_birth_admission := local_birth_admission l1, attempted := attempted l1\<rparr>"
    moreover from arg_cong [OF e, of pending] arg_cong [OF e, of completion] arg_cong [OF e, of retired]
    have "pending l1" "completion l1 = None" "retired l1 = retired (the_lease s)" using l by simp_all
    ultimately show ?thesis by auto
  next
    fix t
    assume "st = Settling (Inl (Typed t))"
      and e: "l1 = (the_lease s)\<lparr>may_have_spawned := may_have_spawned l1\<rparr>"
    moreover from arg_cong [OF e, of pending] arg_cong [OF e, of completion] arg_cong [OF e, of retired]
    have "pending l1" "completion l1 = None" "retired l1 = retired (the_lease s)" using l by simp_all
    ultimately show ?thesis by auto
  next
    fix r
    assume "st = Settling (Inr r)"
      and e: "l1 = (the_lease s)\<lparr>may_have_spawned := may_have_spawned l1\<rparr>"
    moreover from arg_cong [OF e, of pending] arg_cong [OF e, of completion] arg_cong [OF e, of retired]
    have "pending l1" "completion l1 = None" "retired l1 = retired (the_lease s)" using l by simp_all
    ultimately show ?thesis by auto
  qed
  then show ?thesis using l st(5) by (simp add: shape_ok_def Let_def)
next
  fix res l1 st
  assume st: "worker s = Settling res" "settle res (the_lease s) = (l1, st)"
    "worker_step e s = s\<lparr>the_lease := l1, worker := st\<rparr>"
  from st(2) show ?thesis
    by (cases rule: settle_cases) (use assms st in \<open>auto simp: shape_ok_def Let_def job_open_def\<close>)
next
  fix l1 a c
  assume "worker s = Idle" "worker_close a c (the_lease s) = Inr l1"
    "worker_step e s = s\<lparr>the_lease := l1, forgotten := True, confirmed_closed := (\<not> closes_locally (the_lease s) \<and> c)\<rparr>"
    "worker_closes (the_lease s)" 
  then show ?thesis using assms(1) worker_close_facts [of a c "the_lease s" l1]
    by (auto simp: shape_ok_def Let_def job_open_def worker_closes_def)
qed (use assms in \<open>auto simp: shape_ok_def Let_def job_open_def local_returned_def\<close>)

text \<open>The worker only creates doubt about a birth when it remembers that one may have happened.\<close>

lemma doubt_attempt:
  assumes "shape_ok s" "doubt_ok newborn s" "event_ok (WorkerAttempt a)" "worker s = Calling j dims"
    and run: "run_attempt a j dims (lease_id (the_lease s)) = (res, reached)"
    and ended: "after_attempt j res (the_lease s) = (l1, st)"
  shows "doubt_ok newborn (s\<lparr>the_lease := l1, worker := st, ever_sent := ever_sent s \<or> reached\<rparr>)"
proof -
  let ?l = "the_lease s"
  have l: "completion ?l = None" "attempted ?l"
    using assms(1,4) by (auto simp: shape_ok_def Let_def job_open_def)
  have d: "0 < local_starts s \<longrightarrow> newborn" "local_starts s \<le> 1"
    "job_intent j = NewBirth \<Longrightarrow> \<not> may_have_spawned ?l \<Longrightarrow> \<not> doubtful newborn s"
    using assms(2,4) by (auto simp: doubt_ok_def may_give_birth_def births_stage_def)
  show ?thesis
    using ended run_attempt_facts [OF run assms(3)]
  proof (rule after_attempt_cases)
    fix t
    assume "st = LocalAdmitted t \<or> st = Settling (Inl (Typed t))" "job_intent j = NewBirth" "\<not> reached" "\<not> may_have_spawned ?l"
    then show ?thesis using d by (auto simp: doubt_ok_def doubtful_def)
  next
    fix t
    assume st: "st = Settling (Inl (Typed t))" "leads_to_birth (Inl (Typed t)) \<longrightarrow> may_have_spawned l1"
      and e: "l1 = ?l\<lparr>may_have_spawned := may_have_spawned l1\<rparr>"
    from arg_cong [OF e, of completion] arg_cong [OF e, of attempted]
    have "completion l1 = None" "attempted l1" using l by simp_all
    then show ?thesis using d(1,2) st
      by (auto simp: doubt_ok_def may_give_birth_def births_stage_def result_coming_def split: option.splits)
  next
    fix r
    assume st: "st = Settling (Inr r)"
      and e: "l1 = ?l\<lparr>may_have_spawned := may_have_spawned l1\<rparr>"
    from arg_cong [OF e, of completion] arg_cong [OF e, of attempted]
    have "completion l1 = None" "attempted l1" using l by simp_all
    then show ?thesis using d(1,2) st
      by (auto simp: doubt_ok_def may_give_birth_def births_stage_def result_coming_def leads_to_birth_def
          split: option.splits)
  qed
qed

lemma doubt_worker:
  assumes "shape_ok s" and "doubt_ok newborn s" and "event_ok e"
  shows "doubt_ok newborn (worker_step e s)"
proof (rule worker_step_cases [OF refl, of e s])
  fix j l1 st
  assume st: "worker s = Ready j" "begin_job j (the_lease s) = (l1, st)"
    "worker_step e s = s\<lparr>the_lease := l1, worker := st\<rparr>"
  from st(2) show ?thesis
    by (cases rule: begin_job_cases) (use assms st in \<open>auto simp: birth_defs shape_ok_def Let_def job_open_def
      split: option.splits if_splits\<close>)
next
  fix a j dims res reached l1 st
  assume st: "e = WorkerAttempt a" "worker s = Calling j dims"
    "run_attempt a j dims (lease_id (the_lease s)) = (res, reached)" "after_attempt j res (the_lease s) = (l1, st)"
    "worker_step e s = s\<lparr>the_lease := l1, worker := st, ever_sent := ever_sent s \<or> reached\<rparr>"
  show ?thesis unfolding st(5) by (rule doubt_attempt [OF assms(1,2) assms(3) [unfolded st(1)] st(2-4)])
next
  fix t
  assume "worker s = LocalAdmitted t" "retired (the_lease s) = LeaseLive"
    "worker_step e s = s\<lparr>the_lease := (the_lease s)\<lparr>local_only := True\<rparr>, worker := LocalRunning, local_starts := local_starts s + 1\<rparr>"
  then show ?thesis using assms(1,2)
    by (auto simp: birth_defs shape_ok_def Let_def job_open_def split: option.splits)
next
  fix res l1 st
  assume st: "worker s = Settling res" "settle res (the_lease s) = (l1, st)"
    "worker_step e s = s\<lparr>the_lease := l1, worker := st\<rparr>"
  from st(2) show ?thesis
    by (cases rule: settle_cases) (use assms st in \<open>auto simp: birth_defs shape_ok_def Let_def job_open_def
      split: option.splits\<close>)
next
  fix ready l1 st
  assume "worker s = LocalRunning" "local_returned ready (the_lease s) = (l1, st)"
    "worker_step e s = s\<lparr>the_lease := l1, worker := st\<rparr>"
  then show ?thesis using assms(1,2)
    by (auto simp: birth_defs shape_ok_def Let_def job_open_def local_returned_def split: option.splits)
next
  fix t
  assume "worker s = LocalAdmitted t" "retired (the_lease s) \<noteq> LeaseLive"
    "worker_step e s = s\<lparr>the_lease := (finish_local_birth (the_lease s))\<lparr>attempted := False\<rparr>, worker := Settling (Inl (Typed t))\<rparr>"
  then show ?thesis using assms(1,2)
    by (auto simp: birth_defs shape_ok_def Let_def job_open_def split: option.splits)
next
  fix res dims
  assume "worker s = Publishing res dims"
    "worker_step e s = s\<lparr>the_lease := publish res dims (the_lease s), worker := Clearing\<rparr>"
  then show ?thesis using assms(1,2)
    by (auto simp: birth_defs shape_ok_def Let_def job_open_def split: option.splits)
next
  assume "worker s = Clearing" "worker_step e s = s\<lparr>the_lease := (the_lease s)\<lparr>pending := False\<rparr>, worker := Idle\<rparr>"
  then show ?thesis using assms(1,2) by (auto simp: birth_defs split: option.splits)
next
  fix l1 a c
  assume "worker s = Idle" "worker_close a c (the_lease s) = Inr l1" "worker_closes (the_lease s)"
    "worker_step e s = s\<lparr>the_lease := l1, forgotten := True, confirmed_closed := (\<not> closes_locally (the_lease s) \<and> c)\<rparr>"
  then show ?thesis using assms(1,2) worker_close_facts [of a c "the_lease s" l1]
    by (auto simp: birth_defs shape_ok_def Let_def worker_closes_def split: option.splits)
qed (use assms in simp)

text \<open>Both together hold at every moment of a session.\<close>

lemma remote_start_ok: "shape_ok (remote_start i newborn)" "doubt_ok newborn (remote_start i newborn)"
  by (auto simp: remote_start_def create_session_def new_lease_def Let_def shape_ok_def job_open_def birth_defs)

lemma remote_step_ok:
  assumes "shape_ok s" and "doubt_ok newborn s" and "event_ok e"
  shows "shape_ok (remote_step s e)" and "doubt_ok newborn (remote_step s e)"
proof -
  have "shape_ok (remote_step s e) \<and> doubt_ok newborn (remote_step s e)"
    using assms shape_worker doubt_worker shape_ui doubt_ui
    by (cases "managed s") (simp_all add: remote_step_def)
  then show "shape_ok (remote_step s e)" and "doubt_ok newborn (remote_step s e)" by simp_all
qed

definition remote_next :: "remote_state \<Rightarrow> remote_state \<Rightarrow> bool" where
  "remote_next s t \<longleftrightarrow> (\<exists>e. event_ok e \<and> t = remote_step s e)"

lemma remote_run_steps: "list_all event_ok es \<Longrightarrow> remote_next\<^sup>*\<^sup>* s (remote_run s es)"
proof (induction es arbitrary: s)
  case (Cons e es)
  then have "remote_next s (remote_step s e)" by (auto simp: remote_next_def)
  moreover have "remote_next\<^sup>*\<^sup>* (remote_step s e) (remote_run (remote_step s e) es)" using Cons by simp
  ultimately show ?case unfolding remote_run_def foldl.simps by (rule converse_rtranclp_into_rtranclp)
qed (simp add: remote_run_def)

interpretation remote_birth: guarded_relation "\<lambda>s. \<exists>i. s = remote_start i newborn" remote_next
  "\<lambda>s. shape_ok s \<and> doubt_ok newborn s" for newborn
  by unfold_locales (auto simp: remote_next_def remote_start_ok remote_step_ok)

lemma remote_run_ok:
  "list_all event_ok es
    \<Longrightarrow> shape_ok (remote_run (remote_start i newborn) es) \<and> doubt_ok newborn (remote_run (remote_start i newborn) es)"
  using remote_birth.reachable_inv [OF _ remote_run_steps] by blast

section \<open>A local shell needs a birth that no daemon was asked for\<close>

lemma local_start_step:
  assumes "shape_ok s" and "doubt_ok newborn s" and "local_starts (remote_step s e) \<noteq> local_starts s"
  shows "newborn \<and> \<not> ever_sent (remote_step s e) \<and> local_starts s = 0 \<and> retired (the_lease s) = LeaseLive"
proof -
  define s1 where "s1 = (case managed s of Some m \<Rightarrow> ui_step e m s | None \<Rightarrow> s)"
  have step: "remote_step s e = worker_step e s1" by (simp add: remote_step_def s1_def split: option.split)
  have s1: "shape_ok s1" "doubt_ok newborn s1" "local_starts s1 = local_starts s"
    using assms(1,2) shape_ui doubt_ui ui_keeps
    by (auto simp: s1_def split: option.splits)
  have live: "retired (the_lease s1) = LeaseLive \<Longrightarrow> retired (the_lease s) = LeaseLive"
    using assms(1) by (auto simp: s1_def shape_ok_def Let_def split: option.splits)
  show ?thesis
    using assms(3) s1 live unfolding step
    by (rule_tac worker_step_cases [OF refl, of e s1])
      (auto simp: birth_defs shape_ok_def Let_def dest: gr0I)
qed

text \<open>
  C7: A local shell is started for a session only if the session is new, is still wanted, has had
  no local shell before, and no request to spawn its identity ever went to the daemon, whatever
  attempts failed, panicked or were retried, and however the window's operations fall between.
  So one identity never has a shell on both sides by a fallback.\<close>
theorem local_shell_needs_unborn:
  assumes "list_all event_ok es" and "s = remote_run (remote_start i newborn) es"
    and "local_starts (remote_step s e) \<noteq> local_starts s"
  shows "newborn \<and> \<not> ever_sent (remote_step s e) \<and> local_starts s = 0 \<and> retired (the_lease s) = LeaseLive"
  using local_start_step remote_run_ok [OF assms(1)] assms by metis

end
