(* ===== verification/RemoteClosing.thy ===== *)
theory RemoteClosing
  imports RemoteLeaseSafety
begin

text \<open>
  What becomes of a session that is closed for good: the recovery thread forgets its lease only
  after the daemon confirmed the closing, unless nothing ever went to the daemon, or the
  queue refused the handle of a local shell, whose identity then goes to the daemon untold.
\<close>

section \<open>Where the local shell is\<close>

text \<open>The result of the local factory: its handle, or a failure without a type.\<close>

definition local_result :: "uuid \<Rightarrow> attempt \<Rightarrow> bool" where
  "local_result i res \<longleftrightarrow>
     (case res of
        Inl Untyped \<Rightarrow> True
      | Inr r \<Rightarrow> \<not> sr_remote r \<and> sr_session r = i
      | _ \<Rightarrow> False)"

definition local_stage :: "uuid \<Rightarrow> stage \<Rightarrow> bool" where
  "local_stage i st \<longleftrightarrow>
     (case st of
        LocalRunning \<Rightarrow> True
      | Settling res \<Rightarrow> local_result i res
      | Publishing res _ \<Rightarrow> local_result i res
      | Ready j \<Rightarrow>
          (case prepared j of
             Some r \<Rightarrow> attached_resize j = None \<and> local_result i (Inr r)
           | None \<Rightarrow> attached_resize j \<noteq> None)
      | Idle \<Rightarrow> True
      | Clearing \<Rightarrow> True
      | _ \<Rightarrow> False)"

definition local_shown :: "managed_session \<Rightarrow> uuid \<Rightarrow> stage \<Rightarrow> (attempt \<times> (u16 \<times> u16)) option \<Rightarrow> bool" where
  "local_shown m i st c \<longleftrightarrow>
     job_open st
     \<or> (case c of Some (res, _) \<Rightarrow> local_result i res | None \<Rightarrow> local_handle m \<or> \<not> session_retryable m)"

text \<open>Handles and leases are local only after a local shell.\<close>

definition no_local :: "attempt \<Rightarrow> bool" where
  "no_local res \<longleftrightarrow> (case res of Inr r \<Rightarrow> sr_remote r | Inl _ \<Rightarrow> True)"

definition remote_stage :: "stage \<Rightarrow> bool" where
  "remote_stage st \<longleftrightarrow>
     (case st of
        Settling res \<Rightarrow> no_local res
      | Publishing res _ \<Rightarrow> no_local res
      | Ready j \<Rightarrow> (case prepared j of Some r \<Rightarrow> sr_remote r | None \<Rightarrow> True)
      | LocalRunning \<Rightarrow> False
      | _ \<Rightarrow> True)"

definition remote_completion :: "(attempt \<times> (u16 \<times> u16)) option \<Rightarrow> bool" where
  "remote_completion c \<longleftrightarrow> (case c of Some (res, _) \<Rightarrow> no_local res | None \<Rightarrow> True)"

definition nothing_local :: "remote_state \<Rightarrow> bool" where
  "nothing_local s \<longleftrightarrow>
     \<not> local_only (the_lease s) \<and> remote_stage (worker s) \<and> remote_completion (completion (the_lease s))
     \<and> (\<forall>m. managed s = Some m \<longrightarrow> \<not> local_handle m)"

definition attempting :: "stage \<Rightarrow> bool" where
  "attempting st \<longleftrightarrow> (case st of Ready j \<Rightarrow> recovery_job j | Calling _ _ \<Rightarrow> True | _ \<Rightarrow> False)"

definition local_ok :: "remote_state \<Rightarrow> bool" where
  "local_ok s \<longleftrightarrow>
     (local_starts s = 0 \<longrightarrow> nothing_local s)
     \<and> (0 < local_starts s \<and> \<not> handle_refused s \<longrightarrow>
          \<not> ever_sent s \<and> \<not> attempting (worker s)
          \<and> (\<forall>m. managed s = Some m \<longrightarrow> 
            local_stage (lease_id (the_lease s)) (worker s)
            \<and> local_shown m (lease_id (the_lease s)) (worker s) (completion (the_lease s))))"

definition closed_ok :: "bool \<Rightarrow> remote_state \<Rightarrow> bool" where
  "closed_ok newborn s \<longleftrightarrow>
     (forgotten s \<longrightarrow> confirmed_closed s \<or> handle_refused s
        \<or> \<not> ever_sent s \<and> (newborn \<or> \<not> attempted (the_lease s)))"

lemmas local_defs = local_ok_def local_stage_def local_shown_def nothing_local_def no_local_def attempting_def
  local_result_def local_handle_def remote_stage_def remote_completion_def

lemmas local_parts = local_ok_def nothing_local_def

section \<open>The window\<close>

lemma refused_handle_iff:
  assumes "completion l = Some (Inr r, dims)" "sr_session r = lease_id l" "dimensions l \<noteq> dims"
    "submit need q (l\<lparr>completion := None\<rparr>) = Inl e" "retired l = LeaseLive"
  shows "refused_handle need q l \<longleftrightarrow> \<not> sr_remote r"
  using assms by (simp add: refused_handle_def)

text \<open>Retirement takes a local completion over; without one nothing becomes local.\<close>

lemma retire_nothing:
  "\<not> local_handle m \<Longrightarrow> remote_completion (completion l)
    \<Longrightarrow> local_only (retire k (hand_over_local m l)) = local_only l"
  by (auto simp: retire_def hand_over_local_def retain_local_completion_def close_local_birth_admissions_def
      no_local_def remote_completion_def Let_def split: option.splits sum.splits)

lemma local_ui:
  assumes "shape_ok s" and "local_ok s" and "managed s = Some m"
  shows "local_ok (ui_step e m s)"
proof -
  have l: "retired (the_lease s) = LeaseLive" "worker s = Idle \<or> pending (the_lease s)"
    "job_open (worker s) \<Longrightarrow> completion (the_lease s) = None"
    using assms by (auto simp: shape_ok_def Let_def)
  show ?thesis
  proof (cases e)
    case (UiCollect need q)
    obtain m1 l1 j where c: "collect_remote_completions need q m (the_lease s) = (m1, l1, j)"
      by (metis prod_cases3)
    then have step: "ui_step e m s = s\<lparr>the_lease := l1, managed := Some m1, worker := place_job j (worker s),
        handle_refused := handle_refused s \<or> refused_handle need q (the_lease s)\<rparr>"
      by (simp add: ui_step_def UiCollect Let_def)
    from c l(1) show ?thesis
    proof (cases rule: collect_cases)
      case empty
      then show ?thesis unfolding step using assms l by (auto simp: local_defs place_job_def Let_def)
    next
      case (shown r dims)
      then show ?thesis unfolding step using assms l
        by (cases "worker s") (auto simp: local_defs place_job_def job_open_def Let_def split: option.splits)
    next
      case (again r dims)
      then show ?thesis unfolding step using assms l
        by (auto simp: local_defs place_job_def job_open_def recovery_job_def Let_def)
    next
      case (refused r dims e')
      then show ?thesis unfolding step using assms l refused_handle_iff [OF refused(1-4) l(1)]
        by (cases "worker s") (auto simp: local_defs place_job_def job_open_def Let_def)
    next
      case (final res dims)
      then show ?thesis unfolding step using assms l
        by (cases "worker s") (auto simp: local_defs place_job_def job_open_def Let_def split: option.splits)
    next
      case (typed t dims)
      then show ?thesis unfolding step using assms l
        by (cases "worker s") (auto simp: local_defs place_job_def job_open_def Let_def)
    qed
  next
    case (UiAttachedResize need q)
    obtain l1 j where c: "queue_attached_resize need q m (the_lease s) = (l1, j)" by fastforce
    from c show ?thesis
      by (cases rule: resize_cases) (use UiAttachedResize assms l c in
        \<open>auto simp: local_defs ui_step_def place_job_def job_open_def recovery_job_def Let_def split: option.splits\<close>)
  next
    case (UiRecover need q due dims)
    obtain m1 l1 j where c: "queue_remote_recovery need q due dims m (the_lease s) = (m1, l1, j)"
      by (metis prod_cases3)
    from c show ?thesis
    proof (cases rule: recover_cases)
      case (waits d)
      then have "handle m1 = handle m \<and> (session_retryable m1 \<longrightarrow> session_retryable m)" by auto
      then show ?thesis using UiRecover assms l c waits
        by (auto simp: local_parts ui_step_def place_job_def local_shown_def local_handle_def Let_def split: option.splits)
    next
      case (asks d)
      then show ?thesis using UiRecover assms l c
        by (auto simp: local_defs ui_step_def place_job_def job_open_def recovery_job_def Let_def)
    qed
  next
    case UiClose
    then show ?thesis using assms l
      by (auto simp: local_parts ui_step_def close_session_def Let_def retire_nothing remote_completion_def [of None])
  next
    case UiKill
    then show ?thesis using assms l
      by (auto simp: local_parts ui_step_def close_and_kill_remote_def Let_def retire_nothing remote_completion_def [of None])
  next
    case UiDisconnected
    then show ?thesis using assms l
      by (auto simp: local_parts ui_step_def drop_disconnected_def local_shown_def local_handle_def Let_def
          split: option.splits)
  qed (use assms l in \<open>auto simp: local_parts ui_step_def set_desired_grid_size_def Let_def\<close>)
qed

section \<open>The recovery thread\<close>

lemma publish_local:
  "no_local res \<Longrightarrow> local_only (publish res dims l) = local_only l"
  by (auto simp: publish_def retain_local_completion_def no_local_def split: sum.splits)

lemma local_attempt:
  assumes "shape_ok s" "doubt_ok newborn s" "local_ok s" "event_ok (WorkerAttempt a)" "worker s = Calling j dims"
    and run: "run_attempt a j dims (lease_id (the_lease s)) = (res, reached)"
    and ended: "after_attempt j res (the_lease s) = (l1, st)"
  shows "local_ok (s\<lparr>the_lease := l1, worker := st, ever_sent := ever_sent s \<or> reached\<rparr>)"
proof (cases "local_starts s = 0")
  case False
  then show ?thesis using assms(3,5) by (auto simp: local_ok_def attempting_def)
next
  case True
  then have n: "nothing_local s" using assms(3) by (simp add: local_ok_def)
  show ?thesis
    using ended run_attempt_facts [OF run assms(4)]
  proof (rule after_attempt_cases)
    fix t
    assume "st = LocalAdmitted t \<or> st = Settling (Inl (Typed t))"
      and e: "l1 = (the_lease s)\<lparr>local_birth_admission := local_birth_admission l1, attempted := attempted l1\<rparr>"
    moreover from arg_cong [OF e, of local_only] arg_cong [OF e, of completion]
    have "local_only l1 = local_only (the_lease s)" "completion l1 = completion (the_lease s)" by simp_all
    ultimately show ?thesis using True n by (auto simp: local_ok_def nothing_local_def no_local_def remote_stage_def)
  next
    fix t
    assume "st = Settling (Inl (Typed t))"
      and e: "l1 = (the_lease s)\<lparr>may_have_spawned := may_have_spawned l1\<rparr>"
    moreover from arg_cong [OF e, of local_only] arg_cong [OF e, of completion]
    have "local_only l1 = local_only (the_lease s)" "completion l1 = completion (the_lease s)" by simp_all
    ultimately show ?thesis using True n by (auto simp: local_ok_def nothing_local_def no_local_def remote_stage_def)
  next
    fix r
    assume "st = Settling (Inr r)" "sr_remote r"
      and e: "l1 = (the_lease s)\<lparr>may_have_spawned := may_have_spawned l1\<rparr>"
    moreover from arg_cong [OF e, of local_only] arg_cong [OF e, of completion]
    have "local_only l1 = local_only (the_lease s)" "completion l1 = completion (the_lease s)" by simp_all
    ultimately show ?thesis using True n by (auto simp: local_ok_def nothing_local_def no_local_def remote_stage_def)
  qed
qed

lemma local_worker:
  assumes "shape_ok s" and "doubt_ok newborn s" and "local_ok s" and "event_ok e"
  shows "local_ok (worker_step e s)"
proof (rule worker_step_cases [OF refl, of e s])
  fix j l1 st
  assume st: "worker s = Ready j" "begin_job j (the_lease s) = (l1, st)"
    "worker_step e s = s\<lparr>the_lease := l1, worker := st\<rparr>"
  from st(2) show ?thesis
  proof (cases rule: begin_job_cases)
    case (ended d)
    have "retired (the_lease s) = LeaseLive \<Longrightarrow> attached_resize j \<noteq> None"
      using st(2) ended by (auto simp: begin_job_def normalize_birth_uncertainty_def split: option.splits)
    then have "attached_resize j \<noteq> None \<or> managed s = None"
      using assms(1) by (auto simp: shape_ok_def Let_def)
    then show ?thesis using ended assms(3) st
      by (cases "managed s") (auto simp: local_defs job_open_def Let_def split: option.splits)
  next
    case calls
    then show ?thesis using assms st by (auto simp: local_defs recovery_job_def job_open_def Let_def)
  next
    case (carries r b)
    then show ?thesis using assms st by (auto simp: local_defs recovery_job_def job_open_def shape_ok_def Let_def)
  qed
next
  fix a j dims res reached l1 st
  assume st: "e = WorkerAttempt a" "worker s = Calling j dims"
    "run_attempt a j dims (lease_id (the_lease s)) = (res, reached)" "after_attempt j res (the_lease s) = (l1, st)"
    "worker_step e s = s\<lparr>the_lease := l1, worker := st, ever_sent := ever_sent s \<or> reached\<rparr>"
  show ?thesis unfolding st(5) by (rule local_attempt [OF assms(1-3) assms(4) [unfolded st(1)] st(2-4)])
next
  fix t
  assume "worker s = LocalAdmitted t" "retired (the_lease s) = LeaseLive"
    "worker_step e s = s\<lparr>the_lease := (the_lease s)\<lparr>local_only := True\<rparr>, worker := LocalRunning, local_starts := local_starts s + 1\<rparr>"
  then show ?thesis using assms(1,2)
    by (auto simp: local_defs birth_defs shape_ok_def Let_def job_open_def)
next
  fix res l1 st
  assume st: "worker s = Settling res" "settle res (the_lease s) = (l1, st)"
    "worker_step e s = s\<lparr>the_lease := l1, worker := st\<rparr>"
  from st(2) show ?thesis
    by (cases rule: settle_cases) (use assms st in \<open>auto simp: local_defs Let_def job_open_def split: failure.splits\<close>)
next
  fix ready l1 st
  assume "worker s = LocalRunning" "local_returned ready (the_lease s) = (l1, st)"
    "worker_step e s = s\<lparr>the_lease := l1, worker := st\<rparr>"
  then show ?thesis using assms(3)
    by (auto simp: local_defs Let_def job_open_def local_returned_def split: option.splits)
next
  fix t
  assume "worker s = LocalAdmitted t" "retired (the_lease s) \<noteq> LeaseLive"
    "worker_step e s = s\<lparr>the_lease := (finish_local_birth (the_lease s))\<lparr>attempted := False\<rparr>, worker := Settling (Inl (Typed t))\<rparr>"
  then show ?thesis using assms(1,3)
    by (auto simp: local_defs Let_def job_open_def shape_ok_def)
next
  fix res dims
  assume "worker s = Publishing res dims"
    "worker_step e s = s\<lparr>the_lease := publish res dims (the_lease s), worker := Clearing\<rparr>"
  then show ?thesis using assms(1,3)
    by (auto simp: local_parts local_stage_def local_shown_def remote_stage_def remote_completion_def attempting_def
        Let_def job_open_def shape_ok_def publish_local)
next
  assume "worker s = Clearing" "worker_step e s = s\<lparr>the_lease := (the_lease s)\<lparr>pending := False\<rparr>, worker := Idle\<rparr>"
  then show ?thesis using assms(3) by (auto simp: local_defs Let_def job_open_def split: option.splits)
next
  fix l1 a c
  assume "worker s = Idle" "worker_close a c (the_lease s) = Inr l1" "worker_closes (the_lease s)"
    "worker_step e s = s\<lparr>the_lease := l1, forgotten := True, confirmed_closed := (\<not> closes_locally (the_lease s) \<and> c)\<rparr>"
  then show ?thesis using assms(3) worker_close_facts [of a c "the_lease s" l1]
    by (auto simp: local_defs Let_def job_open_def)
qed (use assms in simp)

section \<open>Forgetting a lease\<close>

lemma closed_worker:
  assumes "shape_ok s" and "doubt_ok newborn s" and "local_ok s" and "closed_ok newborn s"
  shows "closed_ok newborn (worker_step e s)"
proof (cases "forgotten s")
  case True
  then have "worker s = Idle" using assms(1) by (simp add: shape_ok_def Let_def)
  then have "worker_step e s = s"
    by (rule_tac worker_step_cases [OF refl, of e s]) (use True in auto)
  then show ?thesis using assms(4) by simp
next
  case False
  show ?thesis
  proof (rule worker_step_cases [OF refl, of e s])
    fix l1 a c
    assume st: "worker_close a c (the_lease s) = Inr l1"
      "worker_step e s = s\<lparr>the_lease := l1, forgotten := True, confirmed_closed := (\<not> closes_locally (the_lease s) \<and> c)\<rparr>"
    have "closes_locally (the_lease s) \<Longrightarrow> \<not> handle_refused s \<Longrightarrow> \<not> ever_sent s \<and> (newborn \<or> \<not> attempted (the_lease s))"
    proof -
      assume c: "closes_locally (the_lease s)" "\<not> handle_refused s"
      show "\<not> ever_sent s \<and> (newborn \<or> \<not> attempted (the_lease s))"
      proof (cases "local_starts s = 0")
        case True
        then show ?thesis using c assms(2,3) by (auto simp: closes_locally_def local_ok_def nothing_local_def doubt_ok_def)
      next
        case False
        then show ?thesis using c assms(2,3) by (auto simp: local_ok_def doubt_ok_def)
      qed
    qed
    moreover have "\<not> closes_locally (the_lease s) \<Longrightarrow> c"
      using st(1) by (simp add: worker_close_def split: if_splits)
    ultimately show ?thesis using st worker_close_facts [OF st(1)] by (auto simp: closed_ok_def)
  qed (use False in \<open>simp_all add: closed_ok_def\<close>)
qed

definition remote_ok :: "bool \<Rightarrow> remote_state \<Rightarrow> bool" where
  "remote_ok newborn s \<longleftrightarrow> shape_ok s \<and> doubt_ok newborn s \<and> local_ok s \<and> closed_ok newborn s"

lemma remote_ok_ui:
  assumes "remote_ok newborn s" and "managed s = Some m"
  shows "remote_ok newborn (ui_step e m s)"
proof -
  have "shape_ok s" "\<not> forgotten s" using assms by (auto simp: remote_ok_def shape_ok_def Let_def)
  then show ?thesis
    using assms shape_ui doubt_ui local_ui ui_keeps by (simp add: remote_ok_def closed_ok_def)
qed

lemma remote_ok_step:
  assumes "remote_ok newborn s" and "event_ok e"
  shows "remote_ok newborn (remote_step s e)"
proof -
  have worker: "remote_ok newborn (worker_step e t)" if "remote_ok newborn t" for t
    using that assms(2) by (auto simp: remote_ok_def intro: shape_worker doubt_worker local_worker closed_worker)
  show ?thesis
    using assms(1) worker remote_ok_ui by (cases "managed s") (simp_all add: remote_step_def)
qed

lemma remote_ok_start: "remote_ok newborn (remote_start i newborn)"
  by (auto simp: remote_ok_def remote_start_ok closed_ok_def)
    (auto simp: remote_start_def create_session_def new_lease_def local_defs Let_def)

interpretation remote_life: guarded_relation "\<lambda>s. \<exists>i. s = remote_start i newborn" remote_next "remote_ok newborn"
  for newborn
  by unfold_locales (auto simp: remote_next_def remote_ok_start remote_ok_step)

lemma remote_ok_run: "list_all event_ok es \<Longrightarrow> remote_ok newborn (remote_run (remote_start i newborn) es)"
  using remote_life.reachable_inv [OF _ remote_run_steps] by blast

text \<open>
  C12: The recovery thread forgets a lease that was closed for good only when the daemon has
  confirmed that the session is gone and its identity fenced, or when no request to spawn the
  identity ever went to the daemon and, for a session of an earlier run, it was not attempted
  either. The one exception is a local shell whose handle the queue refused to take back.\<close>
theorem forgotten_lease_was_confirmed:
  assumes "list_all event_ok es" and "s = remote_run (remote_start i newborn) es" and "forgotten s"
  shows "confirmed_closed s \<or> handle_refused s \<or> \<not> ever_sent s \<and> (newborn \<or> \<not> attempted (the_lease s))"
  using remote_ok_run [OF assms(1), of newborn i] assms(2,3)
  by (simp add: remote_ok_def closed_ok_def)

end
