(* ===== verification/RemoteDemo.thy ===== *)
theory RemoteDemo
  imports RemoteClosing
begin

text \<open>
  Concrete sessions: a birth that falls back to a local shell, a birth that is killed with the
  daemon's confirmation, and the local shell that is lost when the queue refuses its handle.
\<close>

definition roomy :: queue_room where
  "roomy = \<lparr>ready_jobs = 0, ready_bytes = 0, stopping = False, cleanup_pending = False, started = True\<rparr>"

definition demo_attempt :: "(wire \<times> birth_capabilities) option \<Rightarrow> event" where
  "demo_attempt conn = WorkerAttempt (Attempt demo_parsers 9 demo_spec (demo_env conn))"

text \<open>The attempts of the demonstrations, evaluated once.\<close>

definition demo_try :: "(wire \<times> birth_capabilities) option \<Rightarrow> spawn_intent \<Rightarrow> u16 \<times> u16 \<Rightarrow> attempt \<times> bool" where
  "demo_try conn intent dims =
     run_attempt (Attempt demo_parsers 9 demo_spec (demo_env conn))
       \<lparr>job_intent = intent, prepared = None, attached_resize = None\<rparr> dims 7"

lemma try_none: "demo_try None NewBirth (80, 24) = (Inl (Typed (before_creation 7)), False)"
  by code_simp

lemma try_born:
  "demo_try (demo_connection [Line (Spawned 7), Line (Attached 7 [] 0 True True None None)] []) NewBirth (80, 24)
   = (Inr \<lparr>sr_session = 7, sr_remote = True, sr_ready = True, sr_owned_birth = True\<rparr>, True)"
  by code_simp

lemma try_lost:
  "demo_try (demo_connection [Line (Sessions []), Line (ErrorResponse []), Line (Sessions []), ReadError] [])
     AdoptExisting (100, 40) = (Inl (Typed (birth_pending 7 True)), True)"
  by code_simp

lemma close_demo: "close_remote 9 (Some 9) True 7 (demo_connection [Line (Killed 7)] [])"
  by code_simp

lemmas try_facts = try_none [unfolded demo_try_def] try_born [unfolded demo_try_def] try_lost [unfolded demo_try_def]
  close_demo

lemmas run_defs = remote_run_def remote_step_def worker_step_def ui_step_def place_job_def
  begin_job_def after_attempt_def normalize_birth_uncertainty_def admit_local_birth_def start_local_def
  local_returned_def settle_def reject_identity_def publish_def retain_local_completion_def
  set_desired_grid_size_def queue_attached_resize_def queue_remote_recovery_def collect_remote_completions_def
  submit_def REMOTE_QUEUE_CAPACITY_def REMOTE_QUEUE_BYTES_def finish_local_birth_def refused_handle_def
  retire_def local_handle_def hand_over_local_def close_and_kill_remote_def close_local_birth_admissions_def
  handoff_local_retirement_def closes_locally_def worker_closes_def worker_close_def cleanup_eligible_def
  roomy_def refusal_defs remote_start_def create_session_def new_lease_def demo_attempt_def try_facts

section \<open>The fallback\<close>

definition ask :: event where
  "ask = UiRecover (Some 10) roomy True (80, 24)"

definition fallback_run :: "event list" where
  "fallback_run = [ask, WorkerTake, demo_attempt None]"

theorem local_shell_needs_unborn_witness:
  "local_starts (remote_step (remote_run (remote_start 7 True) fallback_run) WorkerStartLocal) = 1
   \<and> \<not> ever_sent (remote_step (remote_run (remote_start 7 True) fallback_run) WorkerStartLocal)
   \<and> local_starts (remote_run (remote_start 7 True) fallback_run) = 0"
proof -
  have ok: "list_all event_ok fallback_run" by code_simp
  have one: "local_starts (remote_step (remote_run (remote_start 7 True) fallback_run) WorkerStartLocal) = 1"
    by (simp add: run_defs ask_def fallback_run_def)
  have zero: "local_starts (remote_run (remote_start 7 True) fallback_run) = 0"
    by (simp add: run_defs ask_def fallback_run_def)
  have "local_starts (remote_step (remote_run (remote_start 7 True) fallback_run) WorkerStartLocal)
      \<noteq> local_starts (remote_run (remote_start 7 True) fallback_run)"
    using one zero by simp
  from local_shell_needs_unborn [OF ok refl this] one zero show ?thesis by simp
qed

section \<open>The confirmed closing\<close>

definition killed_run :: "event list" where
  "killed_run =
     [ask, WorkerTake,
      demo_attempt (demo_connection [Line (Spawned 7), Line (Attached 7 [] 0 True True None None)] []),
      WorkerSettle, WorkerPublish, WorkerClear, UiCollect (Some 10) roomy, UiKill,
      WorkerClose True 9 (Some 9) True (demo_connection [Line (Killed 7)] [])]"

theorem forgotten_lease_was_confirmed_witness:
  "forgotten (remote_run (remote_start 7 True) killed_run)
   \<and> ever_sent (remote_run (remote_start 7 True) killed_run)
   \<and> confirmed_closed (remote_run (remote_start 7 True) killed_run)"
proof -
  have ok: "list_all event_ok killed_run" by code_simp
  have f: "forgotten (remote_run (remote_start 7 True) killed_run)" by (simp add: run_defs ask_def killed_run_def)
  have e: "ever_sent (remote_run (remote_start 7 True) killed_run)" by (simp add: run_defs ask_def killed_run_def)
  have r: "\<not> handle_refused (remote_run (remote_start 7 True) killed_run)" by (simp add: run_defs ask_def killed_run_def)
  from forgotten_lease_was_confirmed [OF ok refl f] e f r show ?thesis by simp
qed

section \<open>The lost local shell\<close>

text \<open>
  The window changes the size after the result was published and before the thread has taken
  back its mark: the queue refuses the handle, the next attempt asks the daemon for the same
  identity and loses the answer, and the closing stays local.
\<close>

definition lost_shell_run :: "event list" where
  "lost_shell_run =
     fallback_run @
     [WorkerStartLocal, WorkerLocalReturned (Some True), WorkerSettle, WorkerPublish,
      UiResize (100, 40), UiCollect (Some 10) roomy, WorkerClear,
      UiRecover (Some 10) roomy True (100, 40), WorkerTake,
      demo_attempt (demo_connection
        [Line (Sessions []), Line (ErrorResponse []), Line (Sessions []), ReadError] []),
      WorkerSettle, WorkerPublish, WorkerClear, UiCollect (Some 10) roomy, UiKill,
      WorkerClose True 9 (Some 9) True (demo_connection [Line (Killed 7)] [])]"

text \<open>
  A run in which a local shell whose handle the queue refuses to take back is lost, and the lease does
  not notice: after a resize between the publication of the result and the end of its job, the
  next attempt asks the daemon for a session of the same identity, and closing that session
  for good forgets the lease as a local one, although the daemon would confirm and a request to
  spawn had reached it.\<close>
lemma refused_handle_is_forgotten_untold:
  "list_all event_ok lost_shell_run
   \<and> local_starts (remote_run (remote_start 7 True) lost_shell_run) = 1
   \<and> ever_sent (remote_run (remote_start 7 True) lost_shell_run)
   \<and> handle_refused (remote_run (remote_start 7 True) lost_shell_run)
   \<and> forgotten (remote_run (remote_start 7 True) lost_shell_run)
   \<and> \<not> confirmed_closed (remote_run (remote_start 7 True) lost_shell_run)"
proof (intro conjI)
  show "list_all event_ok lost_shell_run" by code_simp
  show "local_starts (remote_run (remote_start 7 True) lost_shell_run) = 1" by (simp add: run_defs ask_def fallback_run_def lost_shell_run_def)
  show "ever_sent (remote_run (remote_start 7 True) lost_shell_run)" by (simp add: run_defs ask_def fallback_run_def lost_shell_run_def)
  show "handle_refused (remote_run (remote_start 7 True) lost_shell_run)" by (simp add: run_defs ask_def fallback_run_def lost_shell_run_def)
  show "forgotten (remote_run (remote_start 7 True) lost_shell_run)" by (simp add: run_defs ask_def fallback_run_def lost_shell_run_def)
  show "\<not> confirmed_closed (remote_run (remote_start 7 True) lost_shell_run)" by (simp add: run_defs ask_def fallback_run_def lost_shell_run_def)
qed

text \<open>A session of an earlier run that is closed before its first attempt is forgotten untold.\<close>

lemma restored_session_forgotten_untold:
  "forgotten (remote_run (remote_start 7 False) [UiKill, WorkerClose True 9 (Some 9) True None])
   \<and> \<not> confirmed_closed (remote_run (remote_start 7 False) [UiKill, WorkerClose True 9 (Some 9) True None])"
  by (simp add: run_defs)

end
