(* ===== verification/ClientConnection.thy ===== *)
theory ClientConnection
  imports DaemonClient
begin

text \<open>
  A long-lived connection of the window to the daemon, \<open>src/src/daemon/client.rs\<close>: requests wait for
  their response and keep the events pushed meanwhile within a budget; any failure retires
  the connection. Opening the connection and starting the daemon are left out.
\<close>

section \<open>The connection\<close>

definition MAX_PENDING_EVENTS :: nat where
  "MAX_PENDING_EVENTS = 128"

definition MAX_PENDING_EVENT_BYTES :: nat where
  "MAX_PENDING_EVENT_BYTES = 8 * 1024 * 1024"

record daemon_conn =
  link :: wire
  invalid :: bool
  pending_events :: "response list"
  pending_event_bytes :: nat

definition event_bytes :: "response \<Rightarrow> nat" where
  "event_bytes r = (case r of OutputEvent _ _ d \<Rightarrow> length d | InputError _ m \<Rightarrow> length m | _ \<Rightarrow> 0)"

text \<open>The loop of \<open>request_on_stream\<close> over what the reader yields.\<close>

fun next_response ::
  "response list \<Rightarrow> nat \<Rightarrow> incoming list \<Rightarrow> response option \<times> response list \<times> nat \<times> incoming list" where
  "next_response evs n [] = (None, evs, n, [])"
| "next_response evs n (BadLine # rest) = (None, evs, n, rest)"
| "next_response evs n (ReadError # rest) = (None, evs, n, rest)"
| "next_response evs n (Line r # rest) =
     (if is_pushed_event r
      then if length evs \<ge> MAX_PENDING_EVENTS \<or> n + event_bytes r > MAX_PENDING_EVENT_BYTES
           then (None, evs, n, rest)
           else next_response (evs @ [r]) (n + event_bytes r) rest
      else (Some r, evs, n, rest))"

definition request_on_stream :: "request \<Rightarrow> daemon_conn \<Rightarrow> response option \<times> daemon_conn" where
  "request_on_stream rq c =
     (let w = link c;
          written = (case writes_ok w of [] \<Rightarrow> True | ok # _ \<Rightarrow> ok);
          w1 = w\<lparr>sent := sent w @ [rq], writes_ok := drop 1 (writes_ok w)\<rparr> in
      if \<not> written then (None, c\<lparr>link := w1\<rparr>)
      else (case next_response (pending_events c) (pending_event_bytes c) (inbox w) of
              (r, evs, n, rest) \<Rightarrow>
                (r, c\<lparr>link := w1\<lparr>inbox := rest\<rparr>, pending_events := evs, pending_event_bytes := n\<rparr>)))"

definition request_checked :: "request \<Rightarrow> daemon_conn \<Rightarrow> response option \<times> daemon_conn" where
  "request_checked rq c =
     (if invalid c then (None, c)
      else (case request_on_stream rq c of
              (None, c1) \<Rightarrow> (None, c1\<lparr>invalid := True\<rparr>)
            | (Some r, c1) \<Rightarrow> (Some r, c1)))"

definition drain_events :: "daemon_conn \<Rightarrow> response list \<times> daemon_conn" where
  "drain_events c = (pending_events c, c\<lparr>pending_events := [], pending_event_bytes := 0\<rparr>)"

section \<open>The requests of the window\<close>

definition spawn_session :: "wire_spec \<Rightarrow> uuid \<Rightarrow> daemon_conn \<Rightarrow> uuid option \<times> daemon_conn" where
  "spawn_session spec proposed c =
     (case request_checked (Spawn spec (Some proposed)) c of
        (Some (Spawned i), c1) \<Rightarrow> (if i = proposed then Some i else None, c1)
      | (_, c1) \<Rightarrow> (None, c1))"

definition conn_attach :: "uuid \<Rightarrow> daemon_conn \<Rightarrow> (bytes \<times> u64) option \<times> daemon_conn" where
  "conn_attach i c =
     (case request_checked (Attach i) c of
        (Some (Attached actual snap seq _ _ _ _), c1) \<Rightarrow> (if actual = i then Some (snap, seq) else None, c1)
      | (_, c1) \<Rightarrow> (None, c1))"

definition list_checked :: "daemon_conn \<Rightarrow> uuid list option \<times> daemon_conn" where
  "list_checked c =
     (case request_checked ListSessions c of
        (Some (Sessions ids), c1) \<Rightarrow> (Some ids, c1)
      | (_, c1) \<Rightarrow> (None, c1))"

definition conn_list :: "daemon_conn \<Rightarrow> uuid list \<times> daemon_conn" where
  "conn_list c = (case list_checked c of (Some ids, c1) \<Rightarrow> (ids, c1) | (None, c1) \<Rightarrow> ([], c1))"

definition conn_kill :: "uuid \<Rightarrow> daemon_conn \<Rightarrow> bool \<times> daemon_conn" where
  "conn_kill i c =
     (case request_checked (Kill i) c of
        (Some (Killed actual), c1) \<Rightarrow> (actual = i, c1)
      | (_, c1) \<Rightarrow> (False, c1))"

definition set_priority_session :: "uuid option \<Rightarrow> daemon_conn \<Rightarrow> bool \<times> daemon_conn" where
  "set_priority_session i c =
     (case request_checked (SetPriority i) c of
        (Some (Sessions _), c1) \<Rightarrow> (True, c1)
      | (_, c1) \<Rightarrow> (False, c1))"

definition reconcile_live :: "uuid list \<Rightarrow> daemon_conn \<Rightarrow> uuid list \<times> daemon_conn" where
  "reconcile_live ids c =
     (case request_checked (ReconcileLive ids) c of
        (Some (Reconciled killed), c1) \<Rightarrow> (killed, c1)
      | (_, c1) \<Rightarrow> ([], c1))"

section \<open>Opening\<close>

text \<open>\<open>connect_raw_with_capabilities_as\<close> on an open stream: one line answers the greeting.\<close>

definition greet :: "bytes \<Rightarrow> uuid \<Rightarrow> wire \<Rightarrow> (wire \<times> birth_capabilities) option" where
  "greet token client w =
     (let written = (case writes_ok w of [] \<Rightarrow> True | ok # _ \<Rightarrow> ok);
          w1 = w\<lparr>sent := sent w @ [Hello PROTOCOL_VERSION token client], writes_ok := drop 1 (writes_ok w)\<rparr> in
      if \<not> written then None
      else (case inbox w of
              Line (Welcome version idem safe auth) # rest \<Rightarrow>
                if version = PROTOCOL_VERSION
                then Some (w1\<lparr>inbox := rest\<rparr>, \<lparr>birth_idempotent = idem, cancel_safe = safe,
                  has_hook_authority = auth\<rparr>)
                else None
            | _ \<Rightarrow> None))"

definition new_conn :: "wire \<Rightarrow> daemon_conn" where
  "new_conn w = \<lparr>link = w, invalid = False, pending_events = [], pending_event_bytes = 0\<rparr>"

definition try_connect_as :: "bytes \<Rightarrow> uuid \<Rightarrow> wire \<Rightarrow> daemon_conn option" where
  "try_connect_as token client w =
     (case request_checked (Hello PROTOCOL_VERSION token client) (new_conn w) of
        (Some (Welcome version _ _ _), c) \<Rightarrow> if version = PROTOCOL_VERSION then Some c else None
      | _ \<Rightarrow> None)"

section \<open>Answers and events over the life of a connection\<close>

text \<open>What the window does with it, the answers it got and the events it took.\<close>

datatype conn_op = Ask request | Take

record conn_trace =
  conn :: daemon_conn
  answers :: "response list"
  taken :: "response list"

definition conn_step :: "conn_trace \<Rightarrow> conn_op \<Rightarrow> conn_trace" where
  "conn_step t a =
     (case a of
        Ask rq \<Rightarrow>
          (case request_checked rq (conn t) of
             (None, c) \<Rightarrow> t\<lparr>conn := c\<rparr>
           | (Some r, c) \<Rightarrow> t\<lparr>conn := c, answers := answers t @ [r]\<rparr>)
      | Take \<Rightarrow>
          (case drain_events (conn t) of
             (evs, c) \<Rightarrow> t\<lparr>conn := c, taken := taken t @ evs\<rparr>))"

definition conn_start :: "incoming list \<Rightarrow> bool list \<Rightarrow> conn_trace" where
  "conn_start inp writes =
     \<lparr>conn = new_conn \<lparr>inbox = inp, writes_ok = writes, sent = []\<rparr>, answers = [], taken = []\<rparr>"

definition conn_run :: "incoming list \<Rightarrow> bool list \<Rightarrow> conn_op list \<Rightarrow> conn_trace" where
  "conn_run inp writes ops = foldl conn_step (conn_start inp writes) ops"

text \<open>The events within the budget, and counted exactly.\<close>

definition within_budget :: "daemon_conn \<Rightarrow> bool" where
  "within_budget c \<longleftrightarrow>
     length (pending_events c) \<le> MAX_PENDING_EVENTS
     \<and> pending_event_bytes c = sum_list (map event_bytes (pending_events c))
     \<and> pending_event_bytes c \<le> MAX_PENDING_EVENT_BYTES"

definition pairs_up :: "incoming list \<Rightarrow> conn_trace \<Rightarrow> bool" where
  "pairs_up inp t \<longleftrightarrow>
     (\<exists>lines rest.
        inp = map Line lines @ rest
        \<and> answers t = filter (\<lambda>r. \<not> is_pushed_event r) lines
        \<and> taken t @ pending_events (conn t) = filter is_pushed_event lines
        \<and> (if invalid (conn t)
           then length (sent (link (conn t))) = Suc (length (answers t))
           else length (sent (link (conn t))) = length (answers t) \<and> inbox (link (conn t)) = rest))"

lemma next_response_splits:
  assumes "next_response evs n inp = (r, evs', n', rest)"
  obtains lines where "inp = map Line lines @ (case r of Some a \<Rightarrow> Line a # rest | None \<Rightarrow> drop (length lines) inp)"
    "filter is_pushed_event lines = lines" "evs' = evs @ lines"
    "n' = n + sum_list (map event_bytes lines)"
    "case r of Some a \<Rightarrow> \<not> is_pushed_event a | None \<Rightarrow> True"
  using assms
proof (induction evs n inp arbitrary: thesis rule: next_response.induct)
  case (4 evs n a rest0)
  show ?case
  proof (cases "is_pushed_event a")
    case False
    then show thesis using 4(2) [of "[]"] 4(3) by auto
  next
    case pushed: True
    show thesis
    proof (cases "length evs \<ge> MAX_PENDING_EVENTS \<or> n + event_bytes a > MAX_PENDING_EVENT_BYTES")
      case True
      then show thesis using 4(2) [of "[]"] 4(3) pushed by auto
    next
      case False
      then have "next_response (evs @ [a]) (n + event_bytes a) rest0 = (r, evs', n', rest)"
        using 4(3) pushed by simp
      from 4(1) [OF pushed False _ this] obtain lines where
        e1: "rest0 = map Line lines @ (case r of Some a \<Rightarrow> Line a # rest | None \<Rightarrow> drop (length lines) rest0)"
        and e2: "filter is_pushed_event lines = lines" "evs' = (evs @ [a]) @ lines"
        "n' = n + event_bytes a + sum_list (map event_bytes lines)"
        "case r of Some a \<Rightarrow> \<not> is_pushed_event a | None \<Rightarrow> True"
        by blast
      have "Line a # rest0 = map Line (a # lines)
          @ (case r of Some b \<Rightarrow> Line b # rest | None \<Rightarrow> drop (length (a # lines)) (Line a # rest0))"
        by (subst e1) (cases r; simp)
      then show thesis by (rule 4(2)) (use e2 pushed in simp_all)
    qed
  qed
qed auto

lemma next_response_budget:
  "next_response evs n inp = (r, evs', n', rest) \<Longrightarrow> length evs \<le> MAX_PENDING_EVENTS \<Longrightarrow> n \<le> MAX_PENDING_EVENT_BYTES
    \<Longrightarrow> length evs' \<le> MAX_PENDING_EVENTS \<and> n' \<le> MAX_PENDING_EVENT_BYTES"
  by (induction evs n inp rule: next_response.induct) (auto split: if_splits)

lemma ask_keeps:
  assumes "pairs_up inp t" and "within_budget (conn t)"
  shows "pairs_up inp (conn_step t (Ask rq)) \<and> within_budget (conn (conn_step t (Ask rq)))"
proof (cases "invalid (conn t)")
  case True
  then show ?thesis using assms by (simp add: conn_step_def request_checked_def)
next
  case valid: False
  define c where "c = conn t"
  obtain lines rest where l: "inp = map Line lines @ rest" "answers t = filter (\<lambda>r. \<not> is_pushed_event r) lines"
    "taken t @ pending_events c = filter is_pushed_event lines" "length (sent (link c)) = length (answers t)"
    "inbox (link c) = rest"
    using assms(1) valid by (auto simp: pairs_up_def c_def)
  show ?thesis
  proof (cases "case writes_ok (link c) of [] \<Rightarrow> True | ok # _ \<Rightarrow> ok")
    case False
    then show ?thesis using assms l valid
      by (auto simp: conn_step_def request_checked_def request_on_stream_def Let_def c_def pairs_up_def within_budget_def)
  next
    case written: True
    obtain r evs n rest' where nr: "next_response (pending_events c) (pending_event_bytes c) rest = (r, evs, n, rest')"
      by (metis prod_cases4)
    from next_response_splits [OF nr] obtain read where m:
      "rest = map Line read @ (case r of Some a \<Rightarrow> Line a # rest' | None \<Rightarrow> drop (length read) rest)"
      "filter is_pushed_event read = read" "evs = pending_events c @ read"
      "n = pending_event_bytes c + sum_list (map event_bytes read)"
      "case r of Some a \<Rightarrow> \<not> is_pushed_event a | None \<Rightarrow> True" by blast
    have none: "filter (\<lambda>r. \<not> is_pushed_event r) read = []"
      using m(2) by (simp add: filter_id_conv)
    have b: "length evs \<le> MAX_PENDING_EVENTS \<and> n \<le> MAX_PENDING_EVENT_BYTES"
      using next_response_budget [OF nr] assms(2) by (simp add: within_budget_def c_def)
    define c' where "c' = c\<lparr>link := (link c)\<lparr>sent := sent (link c) @ [rq], writes_ok := drop 1 (writes_ok (link c)), inbox := rest'\<rparr>,
        pending_events := evs, pending_event_bytes := n\<rparr>"
    have os: "request_on_stream rq c = (r, c')"
      using written nr l(5) by (simp add: request_on_stream_def Let_def c'_def)
    have bud: "within_budget c'" "within_budget (c'\<lparr>invalid := True\<rparr>)"
      using b m(3,4) assms(2) by (auto simp: within_budget_def c'_def c_def)
    show ?thesis
    proof (cases r)
      case None
      have step: "conn_step t (Ask rq) = t\<lparr>conn := c'\<lparr>invalid := True\<rparr>\<rparr>"
        using os None valid by (simp add: conn_step_def request_checked_def c_def)
      have "rest = map Line read @ drop (length read) rest" using m(1) None by simp
      then have "inp = map Line (lines @ read) @ drop (length read) rest"
        using l(1) by (metis append.assoc map_append)
      then have "pairs_up inp (conn_step t (Ask rq))"
        unfolding step pairs_up_def
        by (intro exI [of _ "lines @ read"] exI [of _ "drop (length read) rest"])
          (use l(2-) m(2-4) none in \<open>simp add: c'_def flip: append_assoc\<close>)
      then show ?thesis using step bud by simp
    next
      case (Some a)
      have step: "conn_step t (Ask rq) = t\<lparr>conn := c', answers := answers t @ [a]\<rparr>"
        using os Some valid by (simp add: conn_step_def request_checked_def c_def)
      have "pairs_up inp (conn_step t (Ask rq))"
        unfolding step pairs_up_def
        by (rule exI [of _ "lines @ read @ [a]"], rule exI [of _ rest'])
          (use l m Some none valid in \<open>auto simp: c'_def c_def simp flip: append_assoc\<close>)
      then show ?thesis using step bud by simp
    qed
  qed
qed

lemma take_keeps:
  assumes "pairs_up inp t" and "within_budget (conn t)"
  shows "pairs_up inp (conn_step t Take) \<and> within_budget (conn (conn_step t Take))"
  using assms
  by (cases "invalid (conn t)") (simp_all add: conn_step_def drain_events_def pairs_up_def within_budget_def)

interpretation conn_life: guarded_machine "conn_start inp writes" conn_step
  "\<lambda>t. pairs_up inp t \<and> within_budget (conn t)" for inp writes
proof
  show "pairs_up inp (conn_start inp writes) \<and> within_budget (conn (conn_start inp writes))"
    by (auto simp: conn_start_def new_conn_def pairs_up_def within_budget_def)
next
  fix t a
  assume "pairs_up inp t \<and> within_budget (conn t)"
  then show "pairs_up inp (conn_step t a) \<and> within_budget (conn (conn_step t a))"
    using ask_keeps take_keeps by (cases a) metis+
qed

lemma conn_run_ok: "pairs_up inp (conn_run inp writes ops) \<and> within_budget (conn (conn_run inp writes ops))"
  unfolding conn_run_def by (rule conn_life.run_inv)

text \<open>
  C27: Answers never go to the wrong request. However requests and the draining of events follow
  one another, and whatever the daemon sends, the lines that were used up are exactly the
  answers, one for each request and in their order, and the pushed events, which were all
  handed over or are still kept, in order and within the budget. The first failure retires
  the connection: it is the only request without an answer, and nothing is sent after it.\<close>
theorem connection_pairs_answers:
  "\<exists>lines rest.
     inp = map Line lines @ rest
     \<and> answers (conn_run inp writes ops) = filter (\<lambda>r. \<not> is_pushed_event r) lines
     \<and> taken (conn_run inp writes ops) @ pending_events (conn (conn_run inp writes ops)) = filter is_pushed_event lines
     \<and> (if invalid (conn (conn_run inp writes ops))
        then length (sent (link (conn (conn_run inp writes ops)))) = Suc (length (answers (conn_run inp writes ops)))
        else length (sent (link (conn (conn_run inp writes ops)))) = length (answers (conn_run inp writes ops))
             \<and> inbox (link (conn (conn_run inp writes ops))) = rest)
     \<and> length (pending_events (conn (conn_run inp writes ops))) \<le> MAX_PENDING_EVENTS
     \<and> sum_list (map event_bytes (pending_events (conn (conn_run inp writes ops)))) \<le> MAX_PENDING_EVENT_BYTES"
  using conn_run_ok [of inp writes ops] by (auto simp: pairs_up_def within_budget_def)

end
