(* ===== verification/UnifiedDiff.thy ===== *)
theory UnifiedDiff
  imports TextWords
begin

text \<open>
  The parser of unified diffs behind the review of agents' work,
  \<open>src/src/orchestration/code_diff.rs\<close>, on the bytes of its text. The loading through git, the
  identity of a review and the listing of worktrees are left out. Line numbers are natural
  numbers: a diff of \<open>2 ^ 64\<close> lines does not fit in memory.
\<close>

section \<open>Searching\<close>

definition trim_end_byte :: "u8 \<Rightarrow> bytes \<Rightarrow> bytes" where
  "trim_end_byte b s = rev (dropWhile (\<lambda>x. x = b) (rev s))"

definition trim_start :: "bytes \<Rightarrow> bytes" where
  "trim_start s = concat (dropWhile is_whitespace (chars s))"

definition match_indices :: "bytes \<Rightarrow> bytes \<Rightarrow> nat list" where
  "match_indices p s = filter (\<lambda>i. starts_with p (drop i s)) [0..<length s]"

definition find_sub :: "bytes \<Rightarrow> bytes \<Rightarrow> nat option" where
  "find_sub p s = (case match_indices p s of [] \<Rightarrow> None | i # _ \<Rightarrow> Some i)"

definition parse_usize :: "bytes \<Rightarrow> nat option" where
  "parse_usize s =
     (let ds = (if s \<noteq> [] \<and> hd s = 43 then tl s else s) in
      if ds \<noteq> [] \<and> list_all is_digit ds \<and> decimal ds < 2 ^ 64 then Some (decimal ds) else None)"

section \<open>Paths\<close>

definition is_octal :: "u8 \<Rightarrow> bool" where
  "is_octal b \<longleftrightarrow> 48 \<le> b \<and> b \<le> 55"

definition octal :: "bytes \<Rightarrow> nat" where
  "octal ds = foldl (\<lambda>n d. 8 * n + (unat d - 48)) 0 ds"

definition escaped_value :: "u8 \<Rightarrow> u8" where
  "escaped_value e =
     (if e = 110 then 10 else if e = 114 then 13 else if e = 116 then 9 else if e = 97 then 7
      else if e = 98 then 8 else if e = 102 then 12 else if e = 118 then 11 else e)"

text \<open>The loop of \<open>decode_git_path\<close>: a backslash takes one byte, or up to three octal digits.\<close>

function unescape :: "bytes \<Rightarrow> bytes" where
  "unescape [] = []"
| "b \<noteq> 92 \<Longrightarrow> unescape (b # bs) = b # unescape bs"
| "unescape [92] = []"
| "unescape (92 # e # bs) =
     (if is_octal e
      then (let ds = takeWhile is_octal (take 2 bs) in of_nat (octal (e # ds)) # unescape (drop (length ds) bs))
      else escaped_value e # unescape bs)"
proof -
  fix P and x :: bytes
  assume h: "x = [] \<Longrightarrow> P" "\<And>b bs. b \<noteq> 92 \<Longrightarrow> x = b # bs \<Longrightarrow> P" "x = [92] \<Longrightarrow> P"
    "\<And>e bs. x = 92 # e # bs \<Longrightarrow> P"
  show P
  proof (cases x)
    case Nil
    then show ?thesis by (rule h(1))
  next
    case (Cons b bs)
    then show ?thesis using h(2-4) by (cases "b = 92"; cases bs) auto
  qed
qed auto
termination
  by (relation "measure length") auto

definition decode_git_path :: "bytes \<Rightarrow> bytes" where
  "decode_git_path path =
     (case Option.bind (strip_prefix [34] path) (strip_suffix [34]) of
        None \<Rightarrow> path
      | Some quoted \<Rightarrow> from_utf8_lossy (unescape quoted))"

definition strip_ab_prefix :: "bytes \<Rightarrow> bytes" where
  "strip_ab_prefix path =
     (let p = decode_git_path (trim_end_byte 9 path) in
      case or_else (strip_prefix (bytes_of ''a/'') p) (strip_prefix (bytes_of ''b/'') p) of
        Some stripped \<Rightarrow> stripped
      | None \<Rightarrow> p)"

text \<open>The first quotation mark that is not escaped.\<close>

fun closing_quote :: "bool \<Rightarrow> bytes \<Rightarrow> nat option" where
  "closing_quote _ [] = None"
| "closing_quote escaped (c # cs) =
     (if c = 34 \<and> \<not> escaped then Some 0 else map_option Suc (closing_quote (c = 92 \<and> \<not> escaped) cs))"

definition parse_diff_git_path :: "bytes \<Rightarrow> bytes" where
  "parse_diff_git_path rest =
     (case (if starts_with [34] rest then closing_quote False (tl rest) else None) of
        Some i \<Rightarrow> strip_ab_prefix (trim_start (drop (i + 2) rest))
      | None \<Rightarrow>
          (let at = match_indices (bytes_of '' b/'') rest in
           case or_else (find (\<lambda>i. strip_prefix (bytes_of ''a/'') (take i rest) = Some (drop (i + 3) rest)) at)
                  (case at of [] \<Rightarrow> None | i # _ \<Rightarrow> Some i) of
             Some i \<Rightarrow> drop (i + 3) rest
           | None \<Rightarrow>
               (case find_sub (32 # 34 # bytes_of ''b/'') rest of
                  Some i \<Rightarrow> strip_ab_prefix (drop (i + 1) rest)
                | None \<Rightarrow> strip_ab_prefix rest)))"

definition parse_hunk_header :: "bytes \<Rightarrow> (nat \<times> nat) option" where
  "parse_hunk_header rest =
     (case find_sub (bytes_of '' @@'') rest of
        None \<Rightarrow> None
      | Some i \<Rightarrow>
          (case split_whitespace (take i rest) of
             old # new # _ \<Rightarrow>
               (case (parse_usize (takeWhile (\<lambda>b. b \<noteq> 44) (dropWhile (\<lambda>b. b = 45) old)),
                      parse_usize (takeWhile (\<lambda>b. b \<noteq> 44) (dropWhile (\<lambda>b. b = 43) new))) of
                  (Some m, Some n) \<Rightarrow> Some (m, n)
                | _ \<Rightarrow> None)
           | _ \<Rightarrow> None))"

section \<open>The parser\<close>

datatype diff_line_kind = ContextLine | AddedLine | RemovedLine | HunkHeader

record diff_line =
  line_kind :: diff_line_kind
  old_ln :: "nat option"
  new_ln :: "nat option"
  line_text :: bytes

record file_diff =
  diff_path :: bytes
  old_path :: "bytes option"
  is_new :: bool
  is_deleted :: bool
  is_binary :: bool
  additions :: nat
  deletions :: nat
  diff_lines :: "diff_line list"

definition empty_diff :: "bytes \<Rightarrow> file_diff" where
  "empty_diff path = \<lparr>diff_path = path, old_path = None, is_new = False, is_deleted = False, is_binary = False,
     additions = 0, deletions = 0, diff_lines = []\<rparr>"

text \<open>The lines of a header: the changed file, or nothing when the line is none of them.\<close>

definition header_line :: "bytes \<Rightarrow> bool \<Rightarrow> file_diff \<Rightarrow> file_diff option" where
  "header_line raw in_hunk f =
     (if starts_with (bytes_of ''new file mode'') raw then Some (f\<lparr>is_new := True\<rparr>)
      else if starts_with (bytes_of ''deleted file mode'') raw then Some (f\<lparr>is_deleted := True\<rparr>)
      else if starts_with (bytes_of ''Binary files'') raw \<or> starts_with (bytes_of ''GIT binary patch'') raw
      then Some (f\<lparr>is_binary := True\<rparr>)
      else
        (case or_else (strip_prefix (bytes_of ''rename from '') raw) (strip_prefix (bytes_of ''copy from '') raw) of
           Some path \<Rightarrow> Some (f\<lparr>old_path := Some (decode_git_path path)\<rparr>)
         | None \<Rightarrow>
        (case or_else (strip_prefix (bytes_of ''rename to '') raw) (strip_prefix (bytes_of ''copy to '') raw) of
           Some path \<Rightarrow> Some (f\<lparr>diff_path := decode_git_path path\<rparr>)
         | None \<Rightarrow>
        (case (if in_hunk then None else strip_prefix (bytes_of ''--- '') raw) of
           Some rest \<Rightarrow>
             (let path = strip_ab_prefix rest in
              Some (if path \<noteq> bytes_of ''/dev/null'' then f\<lparr>old_path := Some path\<rparr> else f))
         | None \<Rightarrow>
        (case (if in_hunk then None else strip_prefix (bytes_of ''+++ '') raw) of
           Some rest \<Rightarrow>
             (let path = strip_ab_prefix rest in
              Some (if path \<noteq> bytes_of ''/dev/null'' then f\<lparr>diff_path := path\<rparr> else f))
         | None \<Rightarrow> None)))))"

record diff_cursor =
  current_file :: file_diff
  cursor_old :: nat
  cursor_new :: nat
  in_hunk :: bool

definition push_line :: "diff_line_kind \<Rightarrow> nat option \<Rightarrow> nat option \<Rightarrow> bytes \<Rightarrow> file_diff \<Rightarrow> file_diff" where
  "push_line k m n t f = f\<lparr>diff_lines := diff_lines f @ [\<lparr>line_kind = k, old_ln = m, new_ln = n, line_text = t\<rparr>]\<rparr>"

definition hunk_line :: "bytes \<Rightarrow> diff_cursor \<Rightarrow> diff_cursor" where
  "hunk_line raw c =
     (let f = current_file c in
      case strip_prefix (bytes_of ''@@ '') raw of
        Some rest \<Rightarrow>
          (let c1 = (case parse_hunk_header rest of
                       Some (m, n) \<Rightarrow> c\<lparr>cursor_old := m, cursor_new := n\<rparr> | None \<Rightarrow> c) in
           c1\<lparr>in_hunk := True, current_file := push_line HunkHeader None None raw f\<rparr>)
      | None \<Rightarrow>
          (case raw of
             [] \<Rightarrow> c
           | b # t \<Rightarrow>
               if b = 43 then
                 c\<lparr>current_file := push_line AddedLine None (Some (cursor_new c)) t (f\<lparr>additions := additions f + 1\<rparr>),
                   cursor_new := cursor_new c + 1\<rparr>
               else if b = 45 then
                 c\<lparr>current_file := push_line RemovedLine (Some (cursor_old c)) None t (f\<lparr>deletions := deletions f + 1\<rparr>),
                   cursor_old := cursor_old c + 1\<rparr>
               else if b = 32 then
                 c\<lparr>current_file := push_line ContextLine (Some (cursor_old c)) (Some (cursor_new c)) t f,
                   cursor_old := cursor_old c + 1, cursor_new := cursor_new c + 1\<rparr>
               else c))"

type_synonym diff_state = "file_diff list \<times> diff_cursor option"

definition finish_file :: "diff_state \<Rightarrow> file_diff list" where
  "finish_file st = (case st of (fs, None) \<Rightarrow> fs | (fs, Some c) \<Rightarrow> fs @ [current_file c])"

definition diff_step :: "diff_state \<Rightarrow> bytes \<Rightarrow> diff_state" where
  "diff_step st raw =
     (case strip_prefix (bytes_of ''diff --git '') raw of
        Some rest \<Rightarrow>
          (finish_file st, Some \<lparr>current_file = empty_diff (parse_diff_git_path rest), cursor_old = 0, cursor_new = 0,
             in_hunk = False\<rparr>)
      | None \<Rightarrow>
          (case st of
             (fs, None) \<Rightarrow> (fs, None)
           | (fs, Some c) \<Rightarrow>
               (fs, Some (case header_line raw (in_hunk c) (current_file c) of
                            Some f \<Rightarrow> c\<lparr>current_file := f\<rparr>
                          | None \<Rightarrow> hunk_line raw c))))"

definition parse_unified_diff :: "bytes \<Rightarrow> file_diff list" where
  "parse_unified_diff text = finish_file (foldl diff_step ([], None) (lines text))"

end
