(* ===== verification/DiffRoundtrip.thy ===== *)
theory DiffRoundtrip
  imports UnifiedDiff
begin

text \<open>
  The form in which git prints a diff, with its quoted paths, and the proof that the parser reads
  every such text back: the files with their paths, flags and counts, and every line with
  the numbers it has on either side.
\<close>

section \<open>Quoted paths\<close>

definition needs_quote :: "bytes \<Rightarrow> bool" where
  "needs_quote p \<longleftrightarrow> list_ex (\<lambda>b. b < 32 \<or> b = 34 \<or> b = 92 \<or> b \<ge> 127) p"

definition octal_digit :: "nat \<Rightarrow> u8" where
  "octal_digit n = of_nat (48 + n mod 8)"

text \<open>A letter escape, a backslash before itself and the quotation mark, three octal digits, or nothing.\<close>

definition escape_byte :: "u8 \<Rightarrow> bytes" where
  "escape_byte b =
     (if b = 7 then [92, 97] else if b = 8 then [92, 98] else if b = 9 then [92, 116] else if b = 10 then [92, 110]
      else if b = 11 then [92, 118] else if b = 12 then [92, 102] else if b = 13 then [92, 114]
      else if b = 34 \<or> b = 92 then [92, b]
      else if b < 32 \<or> b \<ge> 127
      then [92, octal_digit (unat b div 64), octal_digit (unat b div 8), octal_digit (unat b)]
      else [b])"

definition quote_path :: "bytes \<Rightarrow> bytes" where
  "quote_path p = 34 # concat (map escape_byte p) @ [34]"

definition git_path :: "bytes \<Rightarrow> bytes" where
  "git_path p = (if needs_quote p then quote_path p else p)"

lemma octal_digit_value:
  "unat (octal_digit n) = 48 + n mod 8" "is_octal (octal_digit n)"
proof -
  show v: "unat (octal_digit n) = 48 + n mod 8"
    unfolding octal_digit_def by (subst unat_of_nat) simp
  have "n mod 8 < 8" by simp
  then have "n mod 8 \<le> 7" by linarith
  then show "is_octal (octal_digit n)" by (simp add: is_octal_def word_le_nat_alt v)
qed

lemma unescape_octal:
  "unescape (92 # octal_digit (n div 64) # octal_digit (n div 8) # octal_digit n # r) = of_nat (n mod 512) # unescape r"
proof -
  have "octal [octal_digit (n div 64), octal_digit (n div 8), octal_digit n]
      = 64 * (n div 64 mod 8) + 8 * (n div 8 mod 8) + n mod 8"
    by (simp add: octal_def octal_digit_value)
  also have "\<dots> = n mod 512"
    using mod_mult2_eq [of n 8 64] mod_mult2_eq [of "n div 8" 8 8] div_mult2_eq [of n 8 8] by simp
  finally show ?thesis by (simp add: octal_digit_value)
qed

lemma unescape_escape: "unescape (escape_byte b @ r) = b # unescape r"
proof (cases "b < 32 \<and> b \<notin> {7, 8, 9, 10, 11, 12, 13} \<or> b \<ge> 127")
  case True
  then have e: "escape_byte b = [92, octal_digit (unat b div 64), octal_digit (unat b div 8), octal_digit (unat b)]"
    by (auto simp: escape_byte_def)
  have "unat b < 256" using unsigned_less [of b] by simp
  then show ?thesis using unescape_octal [of "unat b" r] by (simp add: e)
next
  case plain: False
  show ?thesis
  proof (cases "b \<in> {7, 8, 9, 10, 11, 12, 13, 34, 92}")
    case True
    then show ?thesis by (auto simp: escape_byte_def escaped_value_def is_octal_def)
  next
    case False
    then have "escape_byte b = [b]" "b \<noteq> 92" using plain by (simp_all add: escape_byte_def)
    then show ?thesis by simp
  qed
qed

lemma unescape_all: "unescape (concat (map escape_byte p)) = p"
  by (induction p) (simp_all add: unescape_escape)

lemma decode_quoted: "utf8_ok p \<Longrightarrow> decode_git_path (quote_path p) = p"
  by (simp add: decode_git_path_def quote_path_def strip_prefix_def unescape_all lossy_id)

lemma decode_plain: "34 \<notin> set p \<Longrightarrow> decode_git_path p = p"
  by (cases p) (auto simp: decode_git_path_def strip_prefix_def)

lemma plain_bytes: "\<not> needs_quote p \<Longrightarrow> b \<in> set p \<Longrightarrow> 32 \<le> b \<and> b \<noteq> 34 \<and> b \<noteq> 92 \<and> b < 127"
  by (auto simp: needs_quote_def list_ex_iff not_less not_le)

text \<open>
  The decoder of git's paths inverts its quoting: for every path that is text, whatever control
  characters, quotation marks, backslashes and letters of other alphabets it has, the quoted and
  the plain form decode to the path.\<close>
theorem git_paths_roundtrip:
  "utf8_ok p \<Longrightarrow> decode_git_path (git_path p) = p"
  using plain_bytes [of p 34] by (auto simp: git_path_def decode_quoted intro!: decode_plain)

section \<open>The printed diff\<close>

record hunk_spec =
  hs_old :: nat
  hs_old_len :: "nat option"
  hs_new :: nat
  hs_new_len :: "nat option"
  hs_tail :: bytes
  hs_body :: "(diff_line_kind \<times> bytes \<times> bool) list"

text \<open>The last part of a line says that git's mark of a missing line feed follows.\<close>

datatype file_change = Modified | Created | Deleted | Renamed bytes | Copied bytes

text \<open>That binary files differ, or the lines of a binary patch.\<close>

datatype binary_change = Differ bytes | Patch "bytes list"

record file_spec =
  fs_path :: bytes
  fs_change :: file_change
  fs_modes :: "(bytes \<times> bytes) option"
  fs_mode :: bytes
  fs_index :: "bytes option"
  fs_binary :: "binary_change option"
  fs_hunks :: "hunk_spec list"

definition print_range :: "nat \<Rightarrow> nat option \<Rightarrow> bytes" where
  "print_range n len = show_nat n @ (case len of None \<Rightarrow> [] | Some k \<Rightarrow> 44 # show_nat k)"

definition print_header :: "hunk_spec \<Rightarrow> bytes" where
  "print_header h = bytes_of ''@@ -'' @ print_range (hs_old h) (hs_old_len h) @ bytes_of '' +''
     @ print_range (hs_new h) (hs_new_len h) @ bytes_of '' @@'' @ hs_tail h"

definition no_newline :: bytes where
  "no_newline = 92 # bytes_of '' No newline at end of file''"

definition kind_byte :: "diff_line_kind \<Rightarrow> u8" where
  "kind_byte k = (case k of AddedLine \<Rightarrow> 43 | RemovedLine \<Rightarrow> 45 | _ \<Rightarrow> 32)"

definition print_line :: "diff_line_kind \<times> bytes \<times> bool \<Rightarrow> bytes list" where
  "print_line x = (case x of (k, t, marked) \<Rightarrow> (kind_byte k # t) # (if marked then [no_newline] else []))"

definition print_hunk :: "hunk_spec \<Rightarrow> bytes list" where
  "print_hunk h = print_header h # concat (map print_line (hs_body h))"

definition with_tab :: "bytes \<Rightarrow> bytes" where
  "with_tab p = p @ (if 32 \<in> set p then [9] else [])"

definition old_name :: "file_spec \<Rightarrow> bytes" where
  "old_name f = (case fs_change f of Renamed old \<Rightarrow> old | Copied old \<Rightarrow> old | _ \<Rightarrow> fs_path f)"

definition print_modes :: "file_spec \<Rightarrow> bytes list" where
  "print_modes f = (case fs_modes f of None \<Rightarrow> []
     | Some (m, n) \<Rightarrow> [bytes_of ''old mode '' @ m, bytes_of ''new mode '' @ n])"

definition print_change :: "file_spec \<Rightarrow> bytes list" where
  "print_change f =
     (case fs_change f of
        Modified \<Rightarrow> []
      | Created \<Rightarrow> [bytes_of ''new file mode '' @ fs_mode f]
      | Deleted \<Rightarrow> [bytes_of ''deleted file mode '' @ fs_mode f]
      | Renamed old \<Rightarrow> [bytes_of ''similarity index '' @ fs_mode f, bytes_of ''rename from '' @ git_path old,
          bytes_of ''rename to '' @ git_path (fs_path f)]
      | Copied old \<Rightarrow> [bytes_of ''similarity index '' @ fs_mode f, bytes_of ''copy from '' @ git_path old,
          bytes_of ''copy to '' @ git_path (fs_path f)])"

definition print_names :: "file_spec \<Rightarrow> bytes list" where
  "print_names f =
     [bytes_of ''--- '' @ (if fs_change f = Created then bytes_of ''/dev/null''
        else with_tab (git_path (bytes_of ''a/'' @ old_name f))),
      bytes_of ''+++ '' @ (if fs_change f = Deleted then bytes_of ''/dev/null''
        else with_tab (git_path (bytes_of ''b/'' @ fs_path f)))]"

definition print_binary :: "binary_change \<Rightarrow> bytes list" where
  "print_binary b =
     (case b of Differ x \<Rightarrow> [bytes_of ''Binary files '' @ x] | Patch ls \<Rightarrow> bytes_of ''GIT binary patch'' # ls)"

definition print_file :: "file_spec \<Rightarrow> bytes list" where
  "print_file f =
     [bytes_of ''diff --git '' @ git_path (bytes_of ''a/'' @ old_name f) @ [32] @ git_path (bytes_of ''b/'' @ fs_path f)]
     @ print_modes f @ print_change f
     @ (case fs_index f of None \<Rightarrow> [] | Some x \<Rightarrow> [bytes_of ''index '' @ x])
     @ (case fs_binary f of
          Some b \<Rightarrow> print_binary b
        | None \<Rightarrow> if fs_hunks f = [] then [] else print_names f @ concat (map print_hunk (fs_hunks f)))"

definition print_diff :: "file_spec list \<Rightarrow> bytes" where
  "print_diff fs = concat (map (\<lambda>l. l @ [NL]) (concat (map print_file fs)))"

section \<open>What is to be read\<close>

fun number_body :: "nat \<Rightarrow> nat \<Rightarrow> (diff_line_kind \<times> bytes \<times> bool) list \<Rightarrow> diff_line list" where
  "number_body m n [] = []"
| "number_body m n ((k, t, _) # ls) =
     (case k of
        AddedLine \<Rightarrow> \<lparr>line_kind = k, old_ln = None, new_ln = Some n, line_text = t\<rparr> # number_body m (n + 1) ls
      | RemovedLine \<Rightarrow> \<lparr>line_kind = k, old_ln = Some m, new_ln = None, line_text = t\<rparr> # number_body (m + 1) n ls
      | _ \<Rightarrow> \<lparr>line_kind = k, old_ln = Some m, new_ln = Some n, line_text = t\<rparr> # number_body (m + 1) (n + 1) ls)"

definition number_hunk :: "hunk_spec \<Rightarrow> diff_line list" where
  "number_hunk h =
     \<lparr>line_kind = HunkHeader, old_ln = None, new_ln = None, line_text = print_header h\<rparr>
       # number_body (hs_old h) (hs_new h) (hs_body h)"

definition count_kind :: "diff_line_kind \<Rightarrow> hunk_spec list \<Rightarrow> nat" where
  "count_kind k hs = length (filter (\<lambda>x. fst x = k) (concat (map hs_body hs)))"

definition textual :: "file_spec \<Rightarrow> hunk_spec list" where
  "textual f = (if fs_binary f = None then fs_hunks f else [])"

definition read_back :: "file_spec \<Rightarrow> file_diff" where
  "read_back f =
     \<lparr>diff_path = fs_path f,
      old_path = (case fs_change f of
          Renamed old \<Rightarrow> Some old
        | Copied old \<Rightarrow> Some old
        | Created \<Rightarrow> None
        | _ \<Rightarrow> if textual f = [] then None else Some (fs_path f)),
      is_new = (fs_change f = Created), is_deleted = (fs_change f = Deleted), is_binary = (fs_binary f \<noteq> None),
      additions = count_kind AddedLine (textual f), deletions = count_kind RemovedLine (textual f),
      diff_lines = concat (map number_hunk (textual f))\<rparr>"

text \<open>
  \<open>str::lines\<close> takes a carriage return at the end of a line for a part of its end, so a file with such
  ends is seen without it.
\<close>

definition chomp :: "bytes \<Rightarrow> bytes" where
  "chomp l = (case strip_suffix [CR] l of None \<Rightarrow> l | Some t \<Rightarrow> t)"

definition seen_binary :: "binary_change \<Rightarrow> binary_change" where
  "seen_binary b = (case b of Differ x \<Rightarrow> Differ (chomp x) | Patch ls \<Rightarrow> Patch ls)"

definition seen_hunk :: "hunk_spec \<Rightarrow> hunk_spec" where
  "seen_hunk h = h\<lparr>hs_tail := chomp (hs_tail h), hs_body := map (\<lambda>(k, t, marked). (k, chomp t, marked)) (hs_body h)\<rparr>"

definition as_seen :: "file_spec \<Rightarrow> file_spec" where
  "as_seen f = f\<lparr>fs_modes := map_option (map_prod chomp chomp) (fs_modes f), fs_mode := chomp (fs_mode f),
     fs_index := map_option chomp (fs_index f), fs_binary := map_option seen_binary (fs_binary f),
     fs_hunks := map seen_hunk (fs_hunks f)\<rparr>"

section \<open>Texts that git prints\<close>

definition line_ok :: "bytes \<Rightarrow> bool" where
  "line_ok l \<longleftrightarrow> NL \<notin> set l"

definition keeps_line :: "bytes \<Rightarrow> bool" where
  "keeps_line p \<longleftrightarrow> list_all (\<lambda>b. b \<noteq> NL \<and> b \<noteq> CR) p"

text \<open>A line of a binary patch: empty, the length of a part, or data, which starts with a letter and has no space.\<close>

definition patch_line :: "bytes \<Rightarrow> bool" where
  "patch_line l \<longleftrightarrow> keeps_line l
     \<and> (l = [] \<or> starts_with (bytes_of ''literal '') l \<or> starts_with (bytes_of ''delta '') l
        \<or> (32 \<notin> set l \<and> (65 \<le> hd l \<and> hd l \<le> 90 \<or> 97 \<le> hd l \<and> hd l \<le> 122)))"

definition binary_ok :: "binary_change \<Rightarrow> bool" where
  "binary_ok b = (case b of Differ x \<Rightarrow> line_ok x | Patch ls \<Rightarrow> list_all patch_line ls)"

definition hunk_ok :: "hunk_spec \<Rightarrow> bool" where
  "hunk_ok h \<longleftrightarrow> hs_old h < 2 ^ 64 \<and> hs_new h < 2 ^ 64 \<and> line_ok (hs_tail h)
     \<and> list_all (\<lambda>(k, t, _). k \<noteq> HunkHeader \<and> line_ok t) (hs_body h)"

definition path_ok :: "bytes \<Rightarrow> bool" where
  "path_ok p \<longleftrightarrow> utf8_ok p \<and> p \<noteq> bytes_of ''/dev/null''"

definition file_ok :: "file_spec \<Rightarrow> bool" where
  "file_ok f \<longleftrightarrow> path_ok (fs_path f) \<and> path_ok (old_name f) \<and> line_ok (fs_mode f)
     \<and> (case fs_index f of Some x \<Rightarrow> line_ok x | None \<Rightarrow> True)
     \<and> (case fs_modes f of Some (m, n) \<Rightarrow> line_ok m \<and> line_ok n | None \<Rightarrow> True)
     \<and> (case fs_binary f of Some b \<Rightarrow> binary_ok b | None \<Rightarrow> True)
     \<and> list_all hunk_ok (fs_hunks f)"

section \<open>Lines\<close>

lemma split_inclusive_line: "NL \<notin> set l \<Longrightarrow> split_inclusive (l @ NL # s) = (l @ [NL]) # split_inclusive s"
  by (induction l) auto

lemma lines_of_lines: "list_all line_ok ls \<Longrightarrow> lines (concat (map (\<lambda>l. l @ [NL]) ls)) = map chomp ls"
  by (induction ls) (simp_all add: lines_def line_ok_def split_inclusive_line chomp_def)

lemma chomp_plain: "keeps_line p \<Longrightarrow> chomp p = p"
  by (auto simp: chomp_def keeps_line_def strip_suffix_Some split: option.splits)

lemma chomp_append: "keeps_line p \<Longrightarrow> chomp (p @ s) = p @ chomp s"
proof (cases "strip_suffix [CR] s")
  case None
  assume p: "keeps_line p"
  have "strip_suffix [CR] (p @ s) = None"
  proof (rule ccontr)
    assume "strip_suffix [CR] (p @ s) \<noteq> None"
    then obtain t where t: "p @ s = t @ [CR]" by (auto simp: strip_suffix_Some)
    show False
    proof (cases s rule: rev_cases)
      case Nil
      then show False using t p by (auto simp: keeps_line_def)
    next
      case (snoc u x)
      then show False using t None by (auto simp: strip_suffix_Some)
    qed
  qed
  then show ?thesis using None by (simp add: chomp_def)
next
  case (Some t)
  then have "s = t @ [CR]" by (simp add: strip_suffix_Some)
  then show ?thesis using strip_suffix_append [of "[CR]" "p @ t"] strip_suffix_append [of "[CR]" t]
    by (simp add: chomp_def del: strip_suffix_append)
qed

lemma line_ok_append: "line_ok s \<Longrightarrow> keeps_line p \<Longrightarrow> line_ok (p @ s)"
  by (auto simp: line_ok_def keeps_line_def list_all_iff)

lemma line_ok_plain: "keeps_line p \<Longrightarrow> line_ok p"
  by (auto simp: line_ok_def keeps_line_def list_all_iff)

lemma line_ok_chomp: "line_ok l \<Longrightarrow> line_ok (chomp l)"
  by (auto simp: line_ok_def chomp_def strip_suffix_Some split: option.splits)

section \<open>Bytes of quoted paths\<close>

lemma escape_ascii: "x \<in> set (escape_byte b) \<Longrightarrow> 32 \<le> x \<and> x < 127"
proof -
  have d: "32 \<le> octal_digit n \<and> octal_digit n < 127" for n
    using octal_digit_value(1) [of n] by (simp add: word_le_nat_alt word_less_nat_alt)
  assume "x \<in> set (escape_byte b)"
  then show ?thesis using d
    by (auto simp: escape_byte_def not_le not_less split: if_splits)
qed

lemma git_path_ascii: "x \<in> set (git_path p) \<Longrightarrow> 32 \<le> x \<and> x < 127"
  using escape_ascii plain_bytes [of p x]
  by (auto simp: git_path_def quote_path_def split: if_splits)

lemma git_path_bytes: "9 \<notin> set (git_path p)" "NL \<notin> set (git_path p)" "CR \<notin> set (git_path p)"
  using git_path_ascii [of 9 p] git_path_ascii [of NL p] git_path_ascii [of CR p] by (auto simp: NL_def CR_def)

lemma closing_escape:
  "closing_quote False (escape_byte b @ r) = map_option ((+) (length (escape_byte b))) (closing_quote False r)"
proof -
  have o: "octal_digit n \<noteq> 34" "octal_digit n \<noteq> 92" for n
    using octal_digit_value(1) [of n] by (auto dest: arg_cong [of _ _ unat])
  show ?thesis
    using o by (cases "closing_quote False r") (auto simp: escape_byte_def)
qed

lemma closing_quoted: "closing_quote False (concat (map escape_byte p) @ 34 # r) = Some (length (concat (map escape_byte p)))"
  by (induction p) (simp_all add: closing_escape)

section \<open>Reading the paths\<close>

lemma trim_tab: "s = [] \<or> last s \<noteq> 9 \<Longrightarrow> trim_end_byte 9 (s @ (if c then [9] else [])) = s"
  by (cases s rule: rev_cases) (auto simp: trim_end_byte_def)

lemma trim_git_path: "trim_end_byte 9 (with_tab (git_path p)) = git_path p" "trim_end_byte 9 (git_path p) = git_path p"
proof -
  have "git_path p = [] \<or> last (git_path p) \<noteq> 9"
    using git_path_bytes(1) [of p] last_in_set by metis
  then show "trim_end_byte 9 (with_tab (git_path p)) = git_path p" "trim_end_byte 9 (git_path p) = git_path p"
    using trim_tab [of "git_path p" "32 \<in> set (git_path p)"] trim_tab [of "git_path p" False]
    by (auto simp: with_tab_def)
qed

lemma prefixes [simp]: "bytes_of ''a/'' = [97, 47]" "bytes_of ''b/'' = [98, 47]"
  by (simp_all add: bytes_of_def byte_of_char_def)

lemma utf8_prefix: "utf8_ok p \<Longrightarrow> utf8_ok (97 # 47 # p)" "utf8_ok p \<Longrightarrow> utf8_ok (98 # 47 # p)"
  by (simp_all add: utf8_ascii)

lemma decode_git: "utf8_ok p \<Longrightarrow> decode_git_path (git_path p) = p"
  using plain_bytes [of p 34] by (auto simp: git_path_def decode_quoted intro!: decode_plain)

lemma strip_git_path:
  assumes "utf8_ok p"
  shows "strip_ab_prefix (with_tab (git_path (97 # 47 # p))) = p" "strip_ab_prefix (with_tab (git_path (98 # 47 # p))) = p"
    "strip_ab_prefix (git_path (98 # 47 # p)) = p"
  using assms by (simp_all add: strip_ab_prefix_def trim_git_path decode_git utf8_prefix strip_prefix_def or_else_def Let_def)

lemma strip_null: "strip_ab_prefix (bytes_of ''/dev/null'') = bytes_of ''/dev/null''"
  by (simp add: strip_ab_prefix_def trim_end_byte_def decode_git_path_def strip_prefix_def bytes_of_def byte_of_char_def
      or_else_def Let_def)

lemma ascii_chars: "list_all (\<lambda>b. b < 0x80) s \<Longrightarrow> chars s = singles s"
  using utf8_chars_all_ascii [of s "[]"] by (simp add: chars_def)

lemma trim_start_space: "list_all (\<lambda>b. b < 0x80) s \<Longrightarrow> trim_start (32 # 34 # s) = 34 # s"
  by (simp add: trim_start_def ascii_chars is_whitespace_def)

lemma git_path_prefix_quote: "needs_quote (97 # 47 # p) = needs_quote p" "needs_quote (98 # 47 # p) = needs_quote p"
  by (simp_all add: needs_quote_def)

lemma find_unique:
  assumes "P i" "i \<in> set xs" "\<And>j. P j \<Longrightarrow> j = i"
  shows "find P xs = Some i"
  using assms(2)
proof (induction xs)
  case (Cons x xs)
  then show ?case using assms(1) assms(3) [of x] by (cases "P x") auto
qed simp

lemma match_at: "q \<noteq> [] \<Longrightarrow> length a \<in> set (match_indices q (a @ q @ b))"
  by (auto simp: match_indices_def starts_with_def)

lemma header_path:
  assumes "utf8_ok p"
  shows "parse_diff_git_path (git_path (97 # 47 # p) @ 32 # git_path (98 # 47 # p)) = p"
proof (cases "needs_quote p")
  case True
  define q where "q = concat (map escape_byte (98 # 47 # p)) @ [34]"
  have ascii: "list_all (\<lambda>b. b < 0x80) q"
  proof -
    have "\<forall>x \<in> set q. x < 127" using escape_ascii by (auto simp: q_def)
    then show ?thesis by (auto simp: list_all_iff word_less_nat_alt)
  qed
  have two: "git_path (98 # 47 # p) = 34 # q"
    using True by (simp add: git_path_def git_path_prefix_quote quote_path_def q_def)
  have one: "git_path (97 # 47 # p) = 34 # concat (map escape_byte (97 # 47 # p)) @ [34]"
    using True by (simp add: git_path_def git_path_prefix_quote quote_path_def)
  have "closing_quote False (concat (map escape_byte (97 # 47 # p)) @ 34 # 32 # 34 # q)
      = Some (length (concat (map escape_byte (97 # 47 # p))))"
    by (rule closing_quoted)
  then have "parse_diff_git_path (git_path (97 # 47 # p) @ 32 # git_path (98 # 47 # p))
      = strip_ab_prefix (trim_start (32 # 34 # q))"
    unfolding one two by (simp add: parse_diff_git_path_def starts_with_def)
  then show ?thesis using trim_start_space [OF ascii] strip_git_path(3) [OF assms] by (simp add: two)
next
  case False
  let ?s = "97 # 47 # p @ 32 # 98 # 47 # p"
  let ?P = "\<lambda>i. strip_prefix [97, 47] (take i ?s) = Some (drop (i + 3) ?s)"
  let ?i = "length p + 2"
  have paths: "git_path (97 # 47 # p) = 97 # 47 # p" "git_path (98 # 47 # p) = 98 # 47 # p"
    using False by (simp_all add: git_path_def git_path_prefix_quote)
  define xs where "xs = 97 # 47 # p @ [32, 98, 47]"
  have s: "?s = xs @ p" and len: "?i + 3 = length xs" by (simp_all add: xs_def)
  have tail: "drop (?i + 3) ?s = p" unfolding s len by simp
  have "?P ?i" unfolding tail by (simp add: strip_prefix_def)
  moreover have "?i \<in> set (match_indices [32, 98, 47] ?s)"
    using match_at [of "[32, 98, 47]" "97 # 47 # p" p] by simp
  moreover have "j = ?i" if "?P j" for j
  proof -
    from that have "take j ?s = 97 # 47 # drop (j + 3) ?s" by (simp add: strip_prefix_Some)
    then have "min j (2 * length p + 5) = 2 + (2 * length p + 5 - (j + 3))"
      by (drule_tac arg_cong [of _ _ length]) simp
    then show ?thesis by linarith
  qed
  ultimately have "find ?P (match_indices [32, 98, 47] ?s) = Some ?i" by (rule find_unique)
  then have "parse_diff_git_path ?s = drop (?i + 3) ?s"
    unfolding parse_diff_git_path_def by (simp add: starts_with_def bytes_of_def byte_of_char_def Let_def)
  then show ?thesis unfolding tail by (simp add: paths)
qed

section \<open>Reading a hunk's header\<close>

lemma digit_words: "is_digit b \<Longrightarrow> word_byte b \<and> b \<noteq> 44 \<and> b \<noteq> 43 \<and> b \<noteq> 45 \<and> b \<noteq> 64"
  by (auto simp: is_digit_def word_byte_def word_le_nat_alt word_less_nat_alt)

lemma show_nat_digits: "b \<in> set (show_nat n) \<Longrightarrow> is_digit b"
  using decimal_show_nat [of n] by (simp add: list_all_iff)

lemma range_bytes:
  assumes "b \<in> set (print_range n len)"
  shows "word_byte b" and "b \<noteq> 43" and "b \<noteq> 45" and "b \<noteq> 64"
proof -
  have "word_byte b \<and> b \<noteq> 43 \<and> b \<noteq> 45 \<and> b \<noteq> 64"
    using assms digit_words [OF show_nat_digits, of b]
    by (auto simp: print_range_def word_byte_def split: option.splits)
  then show "word_byte b" and "b \<noteq> 43" and "b \<noteq> 45" and "b \<noteq> 64" by simp_all
qed

lemma before_comma: "takeWhile (\<lambda>b. b \<noteq> 44) (print_range n len) = show_nat n"
proof -
  have all: "\<forall>b \<in> set (show_nat n). b \<noteq> 44" using digit_words [OF show_nat_digits] by blast
  show ?thesis
    using all by (cases len) (simp_all add: print_range_def takeWhile_append2)
qed

lemma parse_show: "n < 2 ^ 64 \<Longrightarrow> parse_usize (show_nat n) = Some n"
proof -
  have "show_nat n \<noteq> []" using show_nat_words(2) .
  moreover have "hd (show_nat n) \<noteq> 43"
    using digit_words [OF show_nat_digits, of "hd (show_nat n)" n] show_nat_words(2) [of n] by simp
  ultimately show "n < 2 ^ 64 \<Longrightarrow> ?thesis" using decimal_show_nat [of n] by (simp add: parse_usize_def)
qed

lemma drop_sign: "dropWhile (\<lambda>b. b = 45) (45 # print_range n len) = print_range n len"
  "dropWhile (\<lambda>b. b = 43) (43 # print_range n len) = print_range n len"
proof -
  obtain b bs where r: "print_range n len = b # bs"
    using show_nat_words(2) [of n] by (cases "print_range n len") (auto simp: print_range_def)
  then have "b \<noteq> 45" "b \<noteq> 43" using range_bytes [of b n len] by auto
  then show "dropWhile (\<lambda>b. b = 45) (45 # print_range n len) = print_range n len"
    "dropWhile (\<lambda>b. b = 43) (43 # print_range n len) = print_range n len"
    by (simp_all add: r)
qed

text \<open>The first \<open> @@\<close> is behind the numbers.\<close>

lemma find_header_end:
  assumes "64 \<notin> set p"
  shows "find_sub (bytes_of '' @@'') (p @ bytes_of '' @@'' @ t) = Some (length p)"
proof -
  let ?q = "[32, 64, 64] :: bytes"
  let ?s = "p @ ?q @ t"
  let ?ms = "filter (\<lambda>i. starts_with ?q (drop i ?s))"
  have q: "bytes_of '' @@'' = ?q" by (simp add: bytes_of_def byte_of_char_def)
  have none: "\<not> starts_with ?q (drop i ?s)" if i: "i < length p" for i
  proof
    assume "starts_with ?q (drop i ?s)"
    then obtain u where u: "drop i ?s = ?q @ u" by (auto simp: starts_with_iff)
    have "?s ! (i + 1) = drop i ?s ! 1" using i by (subst nth_drop) simp_all
    then have "?s ! (i + 1) = 64" unfolding u by simp
    then show False
    proof (cases "i + 1 < length p")
      case True
      then have "p ! (i + 1) = 64" using \<open>?s ! (i + 1) = 64\<close> by (simp add: nth_append)
      then show False using assms True nth_mem by metis
    next
      case False
      then have "i + 1 = length p" using i by simp
      then show False using \<open>?s ! (i + 1) = 64\<close> by (simp add: nth_append)
    qed
  qed
  have len: "length ?s = length p + (length t + 3)" by simp
  have "[0..<length ?s] = [0..<length p] @ [length p..<length ?s]"
    unfolding len by (rule upt_add_eq_append) simp
  moreover have "?ms [0..<length p] = []" using none by (simp add: filter_empty_conv)
  moreover have "[length p..<length ?s] = length p # [Suc (length p)..<length ?s]"
    unfolding len by (rule upt_conv_Cons) simp
  moreover have "starts_with ?q (drop (length p) ?s)" by (simp add: starts_with_def)
  ultimately have "?ms [0..<length ?s] = length p # ?ms [Suc (length p)..<length ?s]"
    by (simp only: filter_append filter.simps append_Nil if_True)
  then show ?thesis unfolding q find_sub_def match_indices_def by simp
qed

lemma header_numbers:
  assumes "hunk_ok h"
  shows "parse_hunk_header (45 # print_range (hs_old h) (hs_old_len h) @ bytes_of '' +''
     @ print_range (hs_new h) (hs_new_len h) @ bytes_of '' @@'' @ hs_tail h) = Some (hs_old h, hs_new h)"
proof -
  let ?o = "print_range (hs_old h) (hs_old_len h)" and ?n = "print_range (hs_new h) (hs_new_len h)"
  let ?p = "(45 # ?o) @ SPACE @ (43 # ?n)"
  have plus: "bytes_of '' +'' = SPACE @ [43]" by (simp add: bytes_of_def byte_of_char_def SPACE_def)
  have words: "list_all word_byte (45 # ?o)" "list_all word_byte (43 # ?n)"
    using range_bytes(1) by (auto simp: list_all_iff word_byte_def)
  have "64 \<notin> set ?p" using range_bytes(4) by (auto simp: SPACE_def)
  from find_header_end [OF this, of "hs_tail h"]
  have f: "find_sub (bytes_of '' @@'') (45 # ?o @ bytes_of '' +'' @ ?n @ bytes_of '' @@'' @ hs_tail h) = Some (length ?p)"
    by (simp add: plus)
  have t: "take (length ?p) (45 # ?o @ bytes_of '' +'' @ ?n @ bytes_of '' @@'' @ hs_tail h) = ?p"
    by (simp add: plus SPACE_def)
  have ok: "utf8_ok (43 # ?n)"
    using utf8_chars_all_ascii [OF word_ascii [OF words(2)], of "[]"] by (simp add: utf8_ok_def)
  have "split_whitespace ?p = [45 # ?o, 43 # ?n]"
    using split_whitespace_word(2) [OF words(1) _ ok] split_whitespace_word(1) [OF words(2)] by simp
  moreover have "parse_usize (show_nat (hs_old h)) = Some (hs_old h)" "parse_usize (show_nat (hs_new h)) = Some (hs_new h)"
    using assms parse_show by (simp_all add: hunk_ok_def)
  ultimately show ?thesis
    by (simp only: parse_hunk_header_def f t option.case list.case drop_sign before_comma prod.case)
qed

section \<open>The parser on a printed file\<close>

text \<open>A line of a hunk is never taken for a header.\<close>

lemma hunk_text_lines:
  assumes "k \<noteq> HunkHeader"
  shows "strip_prefix (bytes_of ''diff --git '') (kind_byte k # t) = None"
    and "header_line (kind_byte k # t) True f = None"
    and "strip_prefix (bytes_of ''@@ '') (kind_byte k # t) = None"
  using assms
  by (cases k; simp add: header_line_def kind_byte_def strip_prefix_def starts_with_def bytes_of_def byte_of_char_def)+

lemma no_newline_line:
  "strip_prefix (bytes_of ''diff --git '') no_newline = None" "header_line no_newline True f = None"
  "hunk_line no_newline c = c"
  by (simp_all add: header_line_def hunk_line_def no_newline_def strip_prefix_def starts_with_def bytes_of_def byte_of_char_def)

text \<open>A file with further lines and counts.\<close>

definition extend_file :: "diff_line list \<Rightarrow> nat \<Rightarrow> nat \<Rightarrow> file_diff \<Rightarrow> file_diff" where
  "extend_file ls a d f = f\<lparr>diff_lines := diff_lines f @ ls, additions := additions f + a, deletions := deletions f + d\<rparr>"

lemma extend_extend: "extend_file ls2 a2 d2 (extend_file ls1 a1 d1 f) = extend_file (ls1 @ ls2) (a1 + a2) (d1 + d2) f"
  by (simp add: extend_file_def)

definition kind_count :: "diff_line_kind \<Rightarrow> (diff_line_kind \<times> bytes \<times> bool) list \<Rightarrow> nat" where
  "kind_count k xs = length (filter (\<lambda>x. fst x = k) xs)"

lemma kind_count_simps [simp]:
  "kind_count k [] = 0" "kind_count k (x # xs) = (if fst x = k then 1 else 0) + kind_count k xs"
  by (simp_all add: kind_count_def)

lemma read_line:
  assumes "k \<noteq> HunkHeader" and "in_hunk c"
  obtains c' where "foldl diff_step (fs, Some c) (print_line (k, t, marked)) = (fs, Some c')" "in_hunk c'"
    "current_file c' = extend_file (number_body (cursor_old c) (cursor_new c) [(k, t, marked)])
       (if k = AddedLine then 1 else 0) (if k = RemovedLine then 1 else 0) (current_file c)"
    "cursor_old c' = cursor_old c + (if k = AddedLine then 0 else 1)"
    "cursor_new c' = cursor_new c + (if k = RemovedLine then 0 else 1)"
proof -
  let ?c = "hunk_line (kind_byte k # t) c"
  have one: "diff_step (fs, Some c) (kind_byte k # t) = (fs, Some ?c)"
    using hunk_text_lines [OF assms(1)] assms(2) by (simp add: diff_step_def)
  have hunk: "in_hunk ?c"
    and grown: "current_file ?c = extend_file (number_body (cursor_old c) (cursor_new c) [(k, t, marked)])
       (if k = AddedLine then 1 else 0) (if k = RemovedLine then 1 else 0) (current_file c)"
    and "cursor_old ?c = cursor_old c + (if k = AddedLine then 0 else 1)"
    and "cursor_new ?c = cursor_new c + (if k = RemovedLine then 0 else 1)"
    using hunk_text_lines(3) [OF assms(1), of t] assms
    by (cases k; simp add: hunk_line_def kind_byte_def push_line_def extend_file_def Let_def)+
  moreover have "foldl diff_step (fs, Some c) (print_line (k, t, marked)) = (fs, Some ?c)"
    using one hunk no_newline_line by (simp add: print_line_def diff_step_def [of _ no_newline])
  ultimately show thesis using that by blast
qed

lemma read_body:
  assumes "list_all (\<lambda>(k, t, _). k \<noteq> HunkHeader \<and> line_ok t) body" and "in_hunk c"
  obtains c' where "foldl diff_step (fs, Some c) (concat (map print_line body)) = (fs, Some c')" "in_hunk c'"
    "current_file c' = extend_file (number_body (cursor_old c) (cursor_new c) body)
       (kind_count AddedLine body) (kind_count RemovedLine body) (current_file c)"
  using assms
proof (induction body arbitrary: c thesis)
  case Nil
  then show ?case by (simp add: extend_file_def)
next
  case (Cons x body)
  obtain k t marked where x: "x = (k, t, marked)" by (cases x) auto
  have k: "k \<noteq> HunkHeader" using Cons(3) x by simp
  obtain c1 where c1: "foldl diff_step (fs, Some c) (print_line (k, t, marked)) = (fs, Some c1)" "in_hunk c1"
    "current_file c1 = extend_file (number_body (cursor_old c) (cursor_new c) [(k, t, marked)])
       (if k = AddedLine then 1 else 0) (if k = RemovedLine then 1 else 0) (current_file c)"
    "cursor_old c1 = cursor_old c + (if k = AddedLine then 0 else 1)"
    "cursor_new c1 = cursor_new c + (if k = RemovedLine then 0 else 1)"
    by (rule read_line [OF k Cons(4)])
  obtain c2 where c2: "foldl diff_step (fs, Some c1) (concat (map print_line body)) = (fs, Some c2)" "in_hunk c2"
    "current_file c2 = extend_file (number_body (cursor_old c1) (cursor_new c1) body)
       (kind_count AddedLine body) (kind_count RemovedLine body) (current_file c1)"
    using Cons(1) [OF _ _ c1(2)] Cons(3) by auto
  have "number_body (cursor_old c) (cursor_new c) (x # body)
      = number_body (cursor_old c) (cursor_new c) [(k, t, marked)] @ number_body (cursor_old c1) (cursor_new c1) body"
    using k by (cases k) (simp_all add: x c1(4,5))
  then have "current_file c2 = extend_file (number_body (cursor_old c) (cursor_new c) (x # body))
       (kind_count AddedLine (x # body)) (kind_count RemovedLine (x # body)) (current_file c)"
    by (simp add: c2(3) c1(3) extend_extend x)
  then show ?case using Cons(2) c1(1) c2(1,2) x by simp
qed

lemma read_hunk:
  assumes "hunk_ok h"
  obtains c' where "foldl diff_step (fs, Some c) (print_hunk h) = (fs, Some c')" "in_hunk c'"
    "current_file c' = extend_file (number_hunk h) (kind_count AddedLine (hs_body h)) (kind_count RemovedLine (hs_body h))
       (current_file c)"
proof -
  let ?rest = "45 # print_range (hs_old h) (hs_old_len h) @ bytes_of '' +''
     @ print_range (hs_new h) (hs_new_len h) @ bytes_of '' @@'' @ hs_tail h"
  have raw: "print_header h = bytes_of ''@@ '' @ ?rest"
    by (simp add: print_header_def bytes_of_def byte_of_char_def)
  define c1 where "c1 = c\<lparr>cursor_old := hs_old h, cursor_new := hs_new h, in_hunk := True,
    current_file := push_line HunkHeader None None (print_header h) (current_file c)\<rparr>"
  have "strip_prefix (bytes_of ''diff --git '') (print_header h) = None"
    "header_line (print_header h) (in_hunk c) (current_file c) = None"
    unfolding raw
    by (simp_all add: header_line_def strip_prefix_def starts_with_def bytes_of_def byte_of_char_def)
  moreover have "hunk_line (print_header h) c = c1"
    using header_numbers [OF assms] by (simp add: hunk_line_def raw c1_def Let_def del: append.simps)
  ultimately have step: "diff_step (fs, Some c) (print_header h) = (fs, Some c1)" by (simp add: diff_step_def)
  have body: "list_all (\<lambda>(k, t, _). k \<noteq> HunkHeader \<and> line_ok t) (hs_body h)" "in_hunk c1"
    using assms by (simp_all add: hunk_ok_def c1_def)
  obtain c2 where c2: "foldl diff_step (fs, Some c1) (concat (map print_line (hs_body h))) = (fs, Some c2)" "in_hunk c2"
    "current_file c2 = extend_file (number_body (cursor_old c1) (cursor_new c1) (hs_body h))
       (kind_count AddedLine (hs_body h)) (kind_count RemovedLine (hs_body h)) (current_file c1)"
    by (rule read_body [OF body])
  have "current_file c1 = extend_file [\<lparr>line_kind = HunkHeader, old_ln = None, new_ln = None, line_text = print_header h\<rparr>]
      0 0 (current_file c)"
    by (simp add: c1_def push_line_def extend_file_def)
  then have "current_file c2 = extend_file (number_hunk h) (kind_count AddedLine (hs_body h)) (kind_count RemovedLine (hs_body h))
       (current_file c)"
    unfolding c2(3) by (simp add: extend_extend number_hunk_def) (simp add: c1_def)
  then show thesis using that step c2(1,2) by (simp add: print_hunk_def)
qed

lemma kind_count_append [simp]: "kind_count k (xs @ ys) = kind_count k xs + kind_count k ys"
  by (simp add: kind_count_def)

lemma count_kind_simps [simp]: "count_kind k [] = 0" "count_kind k (h # hs) = kind_count k (hs_body h) + count_kind k hs"
  by (simp_all add: count_kind_def kind_count_def)

lemma read_hunks:
  assumes "list_all hunk_ok hs"
  obtains c' where "foldl diff_step (fs, Some c) (concat (map print_hunk hs)) = (fs, Some c')"
    "current_file c' = extend_file (concat (map number_hunk hs)) (count_kind AddedLine hs) (count_kind RemovedLine hs)
       (current_file c)"
  using assms
proof (induction hs arbitrary: c thesis)
  case Nil
  then show ?case by (simp add: extend_file_def)
next
  case (Cons h hs)
  obtain c1 where c1: "foldl diff_step (fs, Some c) (print_hunk h) = (fs, Some c1)"
    "current_file c1 = extend_file (number_hunk h) (kind_count AddedLine (hs_body h)) (kind_count RemovedLine (hs_body h))
       (current_file c)"
    by (rule read_hunk [of h fs c]) (use Cons(3) in auto)
  obtain c2 where c2: "foldl diff_step (fs, Some c1) (concat (map print_hunk hs)) = (fs, Some c2)"
    "current_file c2 = extend_file (concat (map number_hunk hs)) (count_kind AddedLine hs) (count_kind RemovedLine hs)
       (current_file c1)"
    using Cons(1) [of c1] Cons(3) by auto
  show ?case by (rule Cons(2) [of c2]) (simp_all add: c1 c2 extend_extend)
qed

text \<open>The lines before the hunks.\<close>

lemma step_header:
  "strip_prefix (bytes_of ''diff --git '') raw = None \<Longrightarrow> header_line raw (in_hunk c) (current_file c) = Some g
    \<Longrightarrow> diff_step (fs, Some c) raw = (fs, Some (c\<lparr>current_file := g\<rparr>))"
  by (simp add: diff_step_def)

lemma header_lines:
  "header_line (bytes_of ''new file mode '' @ x) b f = Some (f\<lparr>is_new := True\<rparr>)"
  "header_line (bytes_of ''deleted file mode '' @ x) b f = Some (f\<lparr>is_deleted := True\<rparr>)"
  "header_line (bytes_of ''Binary files '' @ x) b f = Some (f\<lparr>is_binary := True\<rparr>)"
  "header_line (bytes_of ''GIT binary patch'') b f = Some (f\<lparr>is_binary := True\<rparr>)"
  "header_line (bytes_of ''copy from '' @ x) b f = Some (f\<lparr>old_path := Some (decode_git_path x)\<rparr>)"
  "header_line (bytes_of ''copy to '' @ x) b f = Some (f\<lparr>diff_path := decode_git_path x\<rparr>)"
  "header_line (bytes_of ''rename from '' @ x) b f = Some (f\<lparr>old_path := Some (decode_git_path x)\<rparr>)"
  "header_line (bytes_of ''rename to '' @ x) b f = Some (f\<lparr>diff_path := decode_git_path x\<rparr>)"
  "header_line (bytes_of ''--- '' @ x) False f
     = Some (if strip_ab_prefix x \<noteq> bytes_of ''/dev/null'' then f\<lparr>old_path := Some (strip_ab_prefix x)\<rparr> else f)"
  "header_line (bytes_of ''+++ '' @ x) False f
     = Some (if strip_ab_prefix x \<noteq> bytes_of ''/dev/null'' then f\<lparr>diff_path := strip_ab_prefix x\<rparr> else f)"
  by (simp_all add: header_line_def starts_with_def strip_prefix_def bytes_of_def byte_of_char_def or_else_def Let_def)

lemma no_new_file:
  "strip_prefix (bytes_of ''diff --git '') (bytes_of ''new file mode '' @ x) = None"
  "strip_prefix (bytes_of ''diff --git '') (bytes_of ''deleted file mode '' @ x) = None"
  "strip_prefix (bytes_of ''diff --git '') (bytes_of ''Binary files '' @ x) = None"
  "strip_prefix (bytes_of ''diff --git '') (bytes_of ''GIT binary patch'') = None"
  "strip_prefix (bytes_of ''diff --git '') (bytes_of ''copy from '' @ x) = None"
  "strip_prefix (bytes_of ''diff --git '') (bytes_of ''copy to '' @ x) = None"
  "strip_prefix (bytes_of ''diff --git '') (bytes_of ''rename from '' @ x) = None"
  "strip_prefix (bytes_of ''diff --git '') (bytes_of ''rename to '' @ x) = None"
  "strip_prefix (bytes_of ''diff --git '') (bytes_of ''--- '' @ x) = None"
  "strip_prefix (bytes_of ''diff --git '') (bytes_of ''+++ '' @ x) = None"
  by (simp_all add: strip_prefix_def bytes_of_def byte_of_char_def)

lemma step_ignored:
  "diff_step (fs, Some c) (bytes_of ''index '' @ x) = (fs, Some c)"
  "diff_step (fs, Some c) (bytes_of ''similarity index '' @ x) = (fs, Some c)"
  "diff_step (fs, Some c) (bytes_of ''old mode '' @ x) = (fs, Some c)"
  "diff_step (fs, Some c) (bytes_of ''new mode '' @ x) = (fs, Some c)"
  "diff_step (fs, Some c) (bytes_of ''literal '' @ x) = (fs, Some c)"
  "diff_step (fs, Some c) (bytes_of ''delta '' @ x) = (fs, Some c)"
  "diff_step (fs, Some c) [] = (fs, Some c)"
  by (simp_all add: diff_step_def hunk_line_def header_line_def starts_with_def strip_prefix_def bytes_of_def
      byte_of_char_def or_else_def)

lemma spaced_prefix: "32 \<notin> set l \<Longrightarrow> 32 \<in> set q \<Longrightarrow> strip_prefix q l = None \<and> \<not> starts_with q l"
proof -
  assume n: "32 \<notin> set l" "32 \<in> set q"
  have "l \<noteq> q @ t" for t using n by auto
  then have "\<not> starts_with q l" by (simp add: starts_with_iff)
  then show ?thesis by (simp add: strip_prefix_def starts_with_def)
qed

lemma patch_line_ignored:
  assumes "patch_line l"
  shows "diff_step (fs, Some c) l = (fs, Some c)"
proof (cases "l = [] \<or> starts_with (bytes_of ''literal '') l \<or> starts_with (bytes_of ''delta '') l")
  case True
  then show ?thesis using step_ignored by (auto simp: starts_with_iff)
next
  case False
  obtain b t where l: "l = b # t" using False by (cases l) auto
  have n: "32 \<notin> set l" and b: "b \<noteq> 43 \<and> b \<noteq> 45 \<and> b \<noteq> 32"
    using assms False by (auto simp: patch_line_def l)
  have "strip_prefix q l = None \<and> \<not> starts_with q l" if "32 \<in> set q" for q by (rule spaced_prefix [OF n that])
  then have none: "strip_prefix (bytes_of ''diff --git '') l = None" "header_line l h f = None"
      "strip_prefix (bytes_of ''@@ '') l = None" for h f
    by (simp_all add: header_line_def bytes_of_def byte_of_char_def)
  show ?thesis using none b by (simp add: diff_step_def hunk_line_def l Let_def)
qed

lemma read_patch: "list_all patch_line ls \<Longrightarrow> foldl diff_step (fs, Some c) ls = (fs, Some c)"
  by (induction ls) (simp_all add: patch_line_ignored)

lemma read_binary:
  "binary_ok b \<Longrightarrow> foldl diff_step (fs, Some c) (print_binary b) = (fs, Some (c\<lparr>current_file := (current_file c)\<lparr>is_binary := True\<rparr>\<rparr>))"
  by (cases b) (simp_all add: print_binary_def binary_ok_def step_header header_lines no_new_file read_patch)

lemma read_modes: "foldl diff_step (fs, Some c) (print_modes f) = (fs, Some c)"
  by (simp add: print_modes_def step_ignored split: option.split prod.split)

lemma step_diff:
  "diff_step st (bytes_of ''diff --git '' @ x)
    = (finish_file st, Some \<lparr>current_file = empty_diff (parse_diff_git_path x), cursor_old = 0, cursor_new = 0, in_hunk = False\<rparr>)"
  by (simp add: diff_step_def)

definition changed :: "file_spec \<Rightarrow> file_diff \<Rightarrow> file_diff" where
  "changed f g =
     (case fs_change f of
        Modified \<Rightarrow> g
      | Created \<Rightarrow> g\<lparr>is_new := True\<rparr>
      | Deleted \<Rightarrow> g\<lparr>is_deleted := True\<rparr>
      | Renamed old \<Rightarrow> g\<lparr>old_path := Some old, diff_path := fs_path f\<rparr>
      | Copied old \<Rightarrow> g\<lparr>old_path := Some old, diff_path := fs_path f\<rparr>)"

lemma read_change:
  assumes "file_ok f"
  shows "foldl diff_step (fs, Some c) (print_change f) = (fs, Some (c\<lparr>current_file := changed f (current_file c)\<rparr>))"
  using assms
  by (cases "fs_change f")
    (simp_all add: print_change_def changed_def step_header header_lines no_new_file step_ignored decode_git
      file_ok_def path_ok_def old_name_def)

lemma read_names:
  assumes "file_ok f" and "\<not> in_hunk c"
  shows "foldl diff_step (fs, Some c) (print_names f)
    = (fs, Some (c\<lparr>current_file := (current_file c)\<lparr>
         old_path := (if fs_change f = Created then old_path (current_file c) else Some (old_name f)),
         diff_path := (if fs_change f = Deleted then diff_path (current_file c) else fs_path f)\<rparr>\<rparr>))"
proof -
  have ok: "utf8_ok (fs_path f)" "utf8_ok (old_name f)" "fs_path f \<noteq> bytes_of ''/dev/null''" "old_name f \<noteq> bytes_of ''/dev/null''"
    using assms(1) by (simp_all add: file_ok_def path_ok_def)
  show ?thesis
    using ok assms(2)
    by (auto simp: print_names_def step_header header_lines no_new_file strip_git_path strip_null)
qed

lemma read_file:
  assumes "file_ok f"
  obtains c' where "foldl diff_step st (print_file f) = (finish_file st, Some c')" "current_file c' = read_back f"
proof -
  let ?names = "git_path (97 # 47 # old_name f) @ 32 # git_path (98 # 47 # fs_path f)"
  define c0 where "c0 = \<lparr>current_file = empty_diff (parse_diff_git_path ?names), cursor_old = 0, cursor_new = 0, in_hunk = False\<rparr>"
  define c1 where "c1 = c0\<lparr>current_file := changed f (current_file c0)\<rparr>"
  have names: "fs_change f = Renamed old \<or> fs_change f = Copied old \<or> diff_path (current_file c1) = fs_path f" for old
    using assms header_path [of "fs_path f"]
    by (cases "fs_change f") (auto simp: c1_def c0_def changed_def empty_diff_def old_name_def file_ok_def path_ok_def)
  then have path: "diff_path (current_file c1) = fs_path f"
    by (cases "fs_change f") (auto simp: c1_def changed_def)
  have index: "foldl diff_step (fs, Some c1) (case fs_index f of None \<Rightarrow> [] | Some x \<Rightarrow> [bytes_of ''index '' @ x]) = (fs, Some c1)" for fs
    by (cases "fs_index f") (simp_all add: step_ignored)
  have start: "foldl diff_step st ([bytes_of ''diff --git '' @ git_path (bytes_of ''a/'' @ old_name f) @ [32]
      @ git_path (bytes_of ''b/'' @ fs_path f)] @ print_modes f @ print_change f @ (case fs_index f of None \<Rightarrow> [] | Some x \<Rightarrow> [bytes_of ''index '' @ x]))
      = (finish_file st, Some c1)"
    using read_change [OF assms, of "finish_file st" c0] index read_modes by (simp add: step_diff c0_def c1_def)
  have flags: "\<not> in_hunk c1" "is_binary (current_file c1) = False" "additions (current_file c1) = 0"
    "deletions (current_file c1) = 0" "diff_lines (current_file c1) = []"
    "is_new (current_file c1) = (fs_change f = Created)" "is_deleted (current_file c1) = (fs_change f = Deleted)"
    "old_path (current_file c1) = (case fs_change f of Renamed old \<Rightarrow> Some old | Copied old \<Rightarrow> Some old | _ \<Rightarrow> None)"
    by (cases "fs_change f"; simp add: c1_def c0_def changed_def empty_diff_def)+
  show thesis
  proof (cases "textual f = []")
    case True
    define c2 where "c2 = (if fs_binary f = None then c1 else c1\<lparr>current_file := (current_file c1)\<lparr>is_binary := True\<rparr>\<rparr>)"
    have "foldl diff_step (finish_file st, Some c1) (case fs_binary f of Some b \<Rightarrow> print_binary b
        | None \<Rightarrow> if fs_hunks f = [] then [] else print_names f @ concat (map print_hunk (fs_hunks f))) = (finish_file st, Some c2)"
      using True assms by (cases "fs_binary f") (simp_all add: textual_def c2_def read_binary file_ok_def)
    moreover have "current_file c2 = read_back f"
      by (rule file_diff.equality)
        (use True flags path in \<open>auto simp: c2_def read_back_def split: file_change.splits\<close>)
    ultimately show thesis using that start by (simp add: print_file_def)
  next
    case False
    then have t: "fs_binary f = None" "fs_hunks f \<noteq> []" "textual f = fs_hunks f" by (auto simp: textual_def split: if_splits)
    define c2 where "c2 = c1\<lparr>current_file := (current_file c1)\<lparr>
         old_path := (if fs_change f = Created then old_path (current_file c1) else Some (old_name f)),
         diff_path := (if fs_change f = Deleted then diff_path (current_file c1) else fs_path f)\<rparr>\<rparr>"
    obtain c3 where c3: "foldl diff_step (finish_file st, Some c2) (concat (map print_hunk (fs_hunks f))) = (finish_file st, Some c3)"
      "current_file c3 = extend_file (concat (map number_hunk (fs_hunks f))) (count_kind AddedLine (fs_hunks f))
        (count_kind RemovedLine (fs_hunks f)) (current_file c2)"
      using read_hunks [of "fs_hunks f"] assms by (auto simp: file_ok_def)
    have "current_file c3 = read_back f"
      by (rule file_diff.equality)
        (use t flags path c3(2) in \<open>auto simp: c2_def read_back_def extend_file_def old_name_def split: file_change.splits\<close>)
    moreover have "foldl diff_step (finish_file st, Some c1) (print_names f) = (finish_file st, Some c2)"
      using read_names [OF assms flags(1)] by (simp add: c2_def)
    ultimately show thesis using that start t c3(1) by (simp add: print_file_def)
  qed
qed

lemma read_files:
  "list_all file_ok fs \<Longrightarrow> finish_file (foldl diff_step st (concat (map print_file fs))) = finish_file st @ map read_back fs"
proof (induction fs arbitrary: st)
  case (Cons f fs)
  then obtain c where "foldl diff_step st (print_file f) = (finish_file st, Some c)" "current_file c = read_back f"
    by (auto intro: read_file [of f st])
  then show ?case using Cons by (simp add: finish_file_def)
qed simp

section \<open>The round trip\<close>

lemma keeps_append [simp]: "keeps_line (p @ q) \<longleftrightarrow> keeps_line p \<and> keeps_line q"
  by (simp add: keeps_line_def)

lemma keeps_paths [simp]: "keeps_line (git_path p)" "keeps_line (with_tab (git_path p))" "keeps_line [32]" "keeps_line []"
  using git_path_bytes [of p] by (auto simp: keeps_line_def list_all_iff with_tab_def NL_def CR_def)

lemma keeps_range [simp]: "keeps_line (print_range n len)"
  using range_bytes(1) [of NL n len] range_bytes(1) [of CR n len]
  by (auto simp: keeps_line_def list_all_iff word_byte_def NL_def CR_def)

lemma keeps_literals [simp]:
  "keeps_line (bytes_of ''diff --git '')" "keeps_line (bytes_of ''new file mode '')" "keeps_line (bytes_of ''deleted file mode '')"
  "keeps_line (bytes_of ''similarity index '')" "keeps_line (bytes_of ''rename from '')" "keeps_line (bytes_of ''rename to '')"
  "keeps_line (bytes_of ''copy from '')" "keeps_line (bytes_of ''copy to '')"
  "keeps_line (bytes_of ''old mode '')" "keeps_line (bytes_of ''new mode '')"
  "keeps_line (bytes_of ''--- '')" "keeps_line (bytes_of ''+++ '')" "keeps_line (bytes_of ''index '')"
  "keeps_line (bytes_of ''Binary files '')" "keeps_line (bytes_of ''GIT binary patch'')" "keeps_line (bytes_of ''/dev/null'')"
  "keeps_line (bytes_of ''@@ -'')" "keeps_line (bytes_of '' +'')" "keeps_line (bytes_of '' @@'')" "keeps_line no_newline"
  "keeps_line [kind_byte k]"
  by (simp_all add: keeps_line_def bytes_of_def byte_of_char_def NL_def CR_def no_newline_def kind_byte_def
      split: diff_line_kind.split)

lemmas line_rules = line_ok_append line_ok_plain chomp_append chomp_plain

text \<open>Every printed line is one line, and what \<open>str::lines\<close> makes of it is the line of the text as seen.\<close>

definition seen_as :: "bytes list \<Rightarrow> bytes list \<Rightarrow> bool" where
  "seen_as ls ks \<longleftrightarrow> list_all line_ok ls \<and> map chomp ls = ks"

lemma seen_as_simps [simp]: "seen_as [] []" "seen_as ls ks \<Longrightarrow> seen_as ls' ks' \<Longrightarrow> seen_as (ls @ ls') (ks @ ks')"
  by (simp_all add: seen_as_def)

lemma seen_concat: "(\<And>x. x \<in> set xs \<Longrightarrow> seen_as (f x) (g x)) \<Longrightarrow> seen_as (concat (map f xs)) (concat (map g xs))"
  by (induction xs) simp_all

lemma seen_line: "keeps_line p \<Longrightarrow> line_ok s \<Longrightarrow> seen_as [p @ s] [p @ chomp s]" "keeps_line p \<Longrightarrow> seen_as [p] [p]"
  by (simp_all add: seen_as_def line_rules)

lemma seen_body_line:
  assumes "line_ok t"
  shows "seen_as (print_line (k, t, marked)) (print_line (k, chomp t, marked))"
proof -
  have "seen_as [[kind_byte k] @ t] [[kind_byte k] @ chomp t]" by (rule seen_line) (use assms in simp_all)
  moreover have "seen_as [no_newline] [no_newline]" by (rule seen_line) simp
  ultimately show ?thesis by (auto simp: print_line_def seen_as_def)
qed

lemma seen_hunk_lines:
  assumes "hunk_ok h"
  shows "seen_as (print_hunk h) (print_hunk (seen_hunk h))"
proof -
  let ?p = "bytes_of ''@@ -'' @ print_range (hs_old h) (hs_old_len h) @ bytes_of '' +''
      @ print_range (hs_new h) (hs_new_len h) @ bytes_of '' @@''"
  have "seen_as [?p @ hs_tail h] [?p @ chomp (hs_tail h)]"
    by (rule seen_line) (use assms in \<open>simp_all add: hunk_ok_def\<close>)
  moreover have "seen_as (concat (map print_line (hs_body h)))
      (concat (map (\<lambda>x. print_line (case x of (k, t, marked) \<Rightarrow> (k, chomp t, marked))) (hs_body h)))"
    by (rule seen_concat) (use assms seen_body_line in \<open>auto simp: hunk_ok_def list_all_iff\<close>)
  ultimately have "seen_as ([?p @ hs_tail h] @ concat (map print_line (hs_body h)))
     ([?p @ chomp (hs_tail h)]
       @ concat (map (\<lambda>x. print_line (case x of (k, t, marked) \<Rightarrow> (k, chomp t, marked))) (hs_body h)))"
    by (rule seen_as_simps(2))
  then show ?thesis by (simp add: print_hunk_def print_header_def seen_hunk_def comp_def)
qed

lemma seen_simps [simp]: "fs_path (as_seen f) = fs_path f" "fs_change (as_seen f) = fs_change f"
  "old_name (as_seen f) = old_name f" "fs_hunks (as_seen f) = map seen_hunk (fs_hunks f)" "fs_mode (as_seen f) = chomp (fs_mode f)"
  by (simp_all add: as_seen_def old_name_def split: file_change.split)

lemma seen_change:
  assumes "line_ok (fs_mode f)"
  shows "seen_as (print_change f) (print_change (as_seen f))"
proof -
  have m: "seen_as [p @ fs_mode f] [p @ chomp (fs_mode f)]" if "keeps_line p" for p
    by (rule seen_line) (use that assms in simp_all)
  have g: "seen_as [p @ git_path q] [p @ git_path q]" if "keeps_line p" for p q
    by (rule seen_line) (use that in simp)
  show ?thesis using m g
    by (cases "fs_change f") (simp_all add: print_change_def seen_as_def del: prefixes)
qed

lemma seen_names: "seen_as (print_names f) (print_names (as_seen f))"
  by (simp add: print_names_def seen_as_def line_rules del: prefixes)

lemma seen_print_binary: "binary_ok b \<Longrightarrow> seen_as (print_binary b) (print_binary (seen_binary b))"
proof (cases b)
  case (Differ x)
  assume "binary_ok b"
  then have "seen_as [bytes_of ''Binary files '' @ x] [bytes_of ''Binary files '' @ chomp x]"
    by (intro seen_line) (simp_all add: binary_ok_def Differ)
  then show ?thesis by (simp add: print_binary_def seen_binary_def Differ)
next
  case (Patch ls)
  assume b: "binary_ok b"
  have "seen_as ls ls"
    using b by (auto simp: binary_ok_def Patch patch_line_def seen_as_def list_all_iff line_rules intro!: map_idI)
  moreover have "seen_as [bytes_of ''GIT binary patch''] [bytes_of ''GIT binary patch'']" by (rule seen_line) simp
  ultimately show ?thesis by (simp add: print_binary_def seen_binary_def Patch seen_as_def)
qed

lemma seen_file:
  assumes "file_ok f"
  shows "seen_as (print_file f) (print_file (as_seen f))"
proof -
  have free: "line_ok (fs_mode f)" "\<And>x. fs_index f = Some x \<Longrightarrow> line_ok x" "\<And>b. fs_binary f = Some b \<Longrightarrow> binary_ok b"
      "\<And>m n. fs_modes f = Some (m, n) \<Longrightarrow> line_ok m \<and> line_ok n"
    using assms by (simp_all add: file_ok_def)
  let ?first = "bytes_of ''diff --git '' @ git_path (bytes_of ''a/'' @ old_name f) @ [32] @ git_path (bytes_of ''b/'' @ fs_path f)"
  have first: "seen_as [?first] [?first]"
    by (rule seen_line) (simp only: keeps_append keeps_literals keeps_paths)
  have modes: "seen_as (print_modes f) (print_modes (as_seen f))"
    using free(4) by (simp add: print_modes_def as_seen_def seen_as_def line_rules split: option.split prod.split)
  have index: "seen_as (case fs_index f of None \<Rightarrow> [] | Some x \<Rightarrow> [bytes_of ''index '' @ x])
      (case fs_index (as_seen f) of None \<Rightarrow> [] | Some x \<Rightarrow> [bytes_of ''index '' @ x])"
    using free(2) by (simp add: as_seen_def seen_as_def line_rules split: option.split)
  have hunks: "seen_as (concat (map print_hunk (fs_hunks f))) (concat (map (print_hunk \<circ> seen_hunk) (fs_hunks f)))"
    by (rule seen_concat) (use assms seen_hunk_lines in \<open>auto simp: file_ok_def list_all_iff\<close>)
  have body: "seen_as (case fs_binary f of Some b \<Rightarrow> print_binary b
      | None \<Rightarrow> if fs_hunks f = [] then [] else print_names f @ concat (map print_hunk (fs_hunks f)))
    (case fs_binary (as_seen f) of Some b \<Rightarrow> print_binary b
      | None \<Rightarrow> if fs_hunks (as_seen f) = [] then [] else print_names (as_seen f) @ concat (map print_hunk (fs_hunks (as_seen f))))"
    using free(3) seen_print_binary seen_names [of f] hunks
    by (cases "fs_binary f") (simp_all add: as_seen_def [of f])
  show ?thesis
    unfolding print_file_def
    using first modes seen_change [OF free(1)] index body by (intro seen_as_simps(2)) simp_all
qed

lemma seen_hunk_ok: "hunk_ok h \<Longrightarrow> hunk_ok (seen_hunk h)"
  by (auto simp: hunk_ok_def seen_hunk_def list_all_iff line_ok_chomp)

lemma seen_file_ok: "file_ok f \<Longrightarrow> file_ok (as_seen f)"
proof -
  assume f: "file_ok f"
  have "list_all hunk_ok (map seen_hunk (fs_hunks f))" using f seen_hunk_ok by (auto simp: file_ok_def list_all_iff)
  moreover have "case fs_binary (as_seen f) of Some b \<Rightarrow> binary_ok b | None \<Rightarrow> True"
    using f by (auto simp: file_ok_def as_seen_def binary_ok_def seen_binary_def line_ok_chomp
        split: option.splits binary_change.splits)
  ultimately show ?thesis
    using f seen_simps [of f] unfolding file_ok_def
    by (simp add: line_ok_chomp del: seen_simps) (auto simp: as_seen_def line_ok_chomp split: option.splits)
qed

text \<open>
  C24: The parser reads back the diffs that git prints. Take any list of files, each modified,
  created, deleted, renamed or copied, with or without a change of its mode, textual, binary or with a
  binary patch, with paths of any UTF-8 text except \<open>/dev/null\<close>, hunks whose first lines fit a
  \<open>usize\<close> and contents of any lines without line feeds. Parsing the text that \<open>print_diff\<close> writes for
  them yields exactly these files with their paths and flags, the counts of added and removed lines,
  and every line with its number on either side, where \<open>as_seen\<close> takes away the carriage return that a
  line may end with. A line of the contents is never taken for a header. (Combined diffs of merges
  have another form.)\<close>
theorem printed_diff_reads_back:
  assumes "list_all file_ok fs"
  shows "parse_unified_diff (print_diff fs) = map (read_back \<circ> as_seen) fs"
proof -
  have "seen_as (concat (map print_file fs)) (concat (map (print_file \<circ> as_seen) fs))"
    by (rule seen_concat) (use assms seen_file in \<open>auto simp: list_all_iff\<close>)
  then have "lines (print_diff fs) = concat (map print_file (map as_seen fs))"
    using lines_of_lines by (simp add: seen_as_def print_diff_def)
  moreover have "list_all file_ok (map as_seen fs)" using assms seen_file_ok by (auto simp: list_all_iff)
  ultimately show ?thesis
    using read_files [of "map as_seen fs" "([], None)"] by (simp add: parse_unified_diff_def finish_file_def)
qed

text \<open>A renamed file with a line that ends in a carriage return, and a copy with a binary patch.\<close>

definition demo_files :: "file_spec list" where
  "demo_files =
     [\<lparr>fs_path = [120, 34, 32, 121], fs_change = Renamed [111], fs_modes = Some ([49], [50]), fs_mode = [57],
       fs_index = Some [49], fs_binary = None,
       fs_hunks = [\<lparr>hs_old = 9, hs_old_len = Some 2, hs_new = 10, hs_new_len = None, hs_tail = [],
         hs_body = [(ContextLine, [97, CR], False), (RemovedLine, [45, 45, 32, 98], False), (AddedLine, [43, 43, 32, 99], True)]\<rparr>]\<rparr>,
      \<lparr>fs_path = [122], fs_change = Copied [111], fs_modes = None, fs_mode = [], fs_index = None,
       fs_binary = Some (Patch [bytes_of ''literal 1'', [65, 43], []]), fs_hunks = []\<rparr>]"

theorem printed_diff_reads_back_witness:
  "parse_unified_diff (print_diff demo_files) = map (read_back \<circ> as_seen) demo_files
   \<and> map (map (\<lambda>l. (old_ln l, new_ln l)) \<circ> diff_lines) (map (read_back \<circ> as_seen) demo_files)
      = [[(None, None), (Some 9, Some 10), (Some 10, None), (None, Some 11)], []]"
proof -
  have "list_all file_ok demo_files"
    by (simp add: demo_files_def file_ok_def path_ok_def hunk_ok_def line_ok_def old_name_def utf8_ascii bytes_of_def
        byte_of_char_def NL_def CR_def binary_ok_def patch_line_def keeps_line_def starts_with_def)
  from printed_diff_reads_back [OF this] show ?thesis
    by (simp add: demo_files_def read_back_def textual_def number_hunk_def as_seen_def seen_hunk_def)
qed

end
