(* ===== verification/Redaction.thy ===== *)
theory Redaction
  imports Prelude "HOL-Library.Product_Lexorder"
begin

text \<open>
  The redaction of secrets in what the memory keeps, \<open>src/src/memory/redaction.rs\<close>. A text is its list
  of code points, so that positions count characters where the code counts bytes; only the
  length of a token is measured in bytes.
\<close>

section \<open>Texts\<close>

type_synonym code_points = "nat list"

definition code_of :: "string \<Rightarrow> code_points" where
  "code_of s = map of_char s"

definition white_space :: "nat \<Rightarrow> bool" where
  "white_space c \<longleftrightarrow> 9 \<le> c \<and> c \<le> 13 \<or> c = 32 \<or> c = 0x85 \<or> c = 0xA0 \<or> c = 0x1680 \<or> 0x2000 \<le> c \<and> c \<le> 0x200A
     \<or> c = 0x2028 \<or> c = 0x2029 \<or> c = 0x202F \<or> c = 0x205F \<or> c = 0x3000"

definition control_char :: "nat \<Rightarrow> bool" where
  "control_char c \<longleftrightarrow> c < 32 \<or> 127 \<le> c \<and> c < 160"

definition utf8_size :: "nat \<Rightarrow> nat" where
  "utf8_size c = (if c < 0x80 then 1 else if c < 0x800 then 2 else if c < 0x10000 then 3 else 4)"

definition char_at :: "code_points \<Rightarrow> nat \<Rightarrow> nat option" where
  "char_at t i = (if i < length t then Some (t ! i) else None)"

definition begins :: "code_points \<Rightarrow> code_points \<Rightarrow> bool" where
  "begins p t \<longleftrightarrow> take (length p) t = p"

text \<open>The first place at which a text is found, from a position on.\<close>

definition find_from :: "code_points \<Rightarrow> code_points \<Rightarrow> nat \<Rightarrow> nat option" where
  "find_from p t i = find (\<lambda>k. begins p (drop k t)) [i..<Suc (length t)]"

definition ascii_lower :: "code_points \<Rightarrow> code_points" where
  "ascii_lower = map (\<lambda>c. if 65 \<le> c \<and> c \<le> 90 then c + 32 else c)"

definition ascii_upper :: "code_points \<Rightarrow> code_points" where
  "ascii_upper = map (\<lambda>c. if 97 \<le> c \<and> c \<le> 122 then c - 32 else c)"

definition ends :: "code_points \<Rightarrow> code_points \<Rightarrow> bool" where
  "ends p t \<longleftrightarrow> length p \<le> length t \<and> drop (length t - length p) t = p"

section \<open>Invisible characters\<close>

definition INVISIBLE :: "nat list" where
  "INVISIBLE = [0x200B, 0x200C, 0x200D, 0x2060, 0xFEFF, 0x00AD, 0x202A, 0x202B, 0x202C, 0x202D, 0x202E, 0x2066,
     0x2067, 0x2068, 0x2069]"

definition strip_invisible :: "code_points \<Rightarrow> code_points" where
  "strip_invisible t =
     filter (\<lambda>c. (c \<notin> set INVISIBLE \<and> \<not> control_char c) \<or> c = 10 \<or> c = 13 \<or> c = 9) t"

section \<open>Labels and values\<close>

definition skip_whitespace :: "code_points \<Rightarrow> nat \<Rightarrow> nat" where
  "skip_whitespace t i = i + length (takeWhile white_space (drop i t))"

definition label_char :: "nat \<Rightarrow> bool" where
  "label_char c \<longleftrightarrow> 48 \<le> c \<and> c \<le> 57 \<or> 65 \<le> c \<and> c \<le> 90 \<or> 97 \<le> c \<and> c \<le> 122 \<or> c = 95"

definition quote_char :: "nat \<Rightarrow> bool" where
  "quote_char c \<longleftrightarrow> c = 34 \<or> c = 39 \<or> c = 96"

definition label_at :: "code_points \<Rightarrow> nat \<Rightarrow> (code_points \<times> nat) option" where
  "label_at t i =
     (let quoted = (case char_at t i of Some c \<Rightarrow> quote_char c | None \<Rightarrow> False);
          beg = (if quoted then i + 1 else i);
          label = takeWhile label_char (drop beg t);
          to = beg + length label in
      if label = [] then None
      else if quoted then (if char_at t to \<noteq> char_at t i then None else Some (label, to + 1))
      else Some (label, to))"

text \<open>The closing quotation mark of a value.\<close>

fun value_close :: "nat \<Rightarrow> bool \<Rightarrow> code_points \<Rightarrow> nat option" where
  "value_close q escaped [] = None"
| "value_close q escaped (c # cs) =
     (if escaped then map_option Suc (value_close q False cs)
      else if c = 92 then map_option Suc (value_close q True cs)
      else if c = q then Some 0
      else map_option Suc (value_close q False cs))"

definition value_end :: "nat \<Rightarrow> bool" where
  "value_end c \<longleftrightarrow> white_space c \<or> c \<in> {44, 59, 125, 93, 41}"

definition secret_value_span :: "code_points \<Rightarrow> nat \<Rightarrow> (nat \<times> nat) option" where
  "secret_value_span t i =
     (case char_at t i of
        None \<Rightarrow> None
      | Some q \<Rightarrow>
          if begins (code_of ''[redacted]'') (drop i t) then Some (i, i + 10)
          else if quote_char q
          then (case value_close q False (drop (i + 1) t) of
                  Some n \<Rightarrow> Some (i + 1, i + 1 + n)
                | None \<Rightarrow> Some (i + 1, length t))
          else (let n = length (takeWhile (\<lambda>c. \<not> value_end c) (drop i t)) in
                if n > 0 then Some (i, i + n) else None))"

definition secret_names :: "code_points list" where
  "secret_names = map code_of [''api_key'', ''apikey'', ''access_key'', ''secret'', ''secret_key'', ''token'',
     ''auth_token'', ''authorization'', ''password'', ''passwd'', ''pwd'', ''private_key'']"

definition is_secret_label :: "code_points \<Rightarrow> bool" where
  "is_secret_label label =
     (let n = ascii_lower label in list_ex (\<lambda>name. n = name \<or> ends (95 # name) n) secret_names)"

section \<open>Tokens\<close>

fun token_len :: "bool \<Rightarrow> code_points \<Rightarrow> nat" where
  "token_len url [] = 0"
| "token_len url (c # cs) =
     (let url1 = (url \<or> begins (code_of ''://'') (c # cs)) in
      if white_space c \<or> c \<in> {34, 39, 96, 44, 59, 123, 125, 91, 93, 40, 41, 61} \<or> c = 58 \<and> \<not> url1 then 0
      else Suc (token_len url1 cs))"

definition token_end :: "code_points \<Rightarrow> nat \<Rightarrow> nat" where
  "token_end t i = i + token_len False (drop i t)"

text \<open>What stands before the first place of a text, and what after it.\<close>

definition split_once :: "code_points \<Rightarrow> code_points \<Rightarrow> (code_points \<times> code_points) option" where
  "split_once p t = map_option (\<lambda>i. (take i t, drop (i + length p) t)) (find_from p t 0)"

definition contains_url_credentials :: "code_points \<Rightarrow> bool" where
  "contains_url_credentials v =
     (case split_once (code_of ''://'') v of
        None \<Rightarrow> False
      | Some (_, rest) \<Rightarrow>
          (case split_once [64] (takeWhile (\<lambda>c. c \<notin> {47, 63, 35}) rest) of
             None \<Rightarrow> False
           | Some (credentials, _) \<Rightarrow> 58 \<in> set credentials))"

definition secret_prefixes :: "code_points list" where
  "secret_prefixes = map code_of [''sk-'', ''sk_live_'', ''sk_test_'', ''ghp_'', ''github_pat_'', ''gho_'', ''ghu_'',
     ''ghs_'', ''xoxb-'', ''xoxp-'', ''xoxa-'', ''akia'', ''aiza'', ''eyj'']"

definition looks_like_secret :: "code_points \<Rightarrow> bool" where
  "looks_like_secret token =
     (if sum_list (map utf8_size token) < 12 then False
      else let l = ascii_lower token in list_ex (\<lambda>p. begins p l) secret_prefixes \<or> contains_url_credentials l)"

section \<open>Spans\<close>

record redaction =
  span_start :: nat
  span_end :: nat
  replacement :: code_points

definition redacted :: "nat \<Rightarrow> nat \<Rightarrow> redaction" where
  "redacted a b = \<lparr>span_start = a, span_end = b, replacement = code_of ''[redacted]''\<rparr>"

definition line_end_from :: "code_points \<Rightarrow> nat \<Rightarrow> nat" where
  "line_end_from t i = (case find_from [10] t i of Some n \<Rightarrow> n | None \<Rightarrow> length t)"

text \<open>The end of a private key: behind the mark on the line of its end, or that of the text.\<close>

definition key_end :: "code_points \<Rightarrow> nat \<Rightarrow> nat" where
  "key_end upper i =
     (case find_from (code_of ''-----END'') upper i of
        None \<Rightarrow> length upper
      | Some m \<Rightarrow>
          (case find_from (code_of ''PRIVATE KEY-----'') (take (line_end_from upper m) upper) m of
             None \<Rightarrow> length upper
           | Some n \<Rightarrow> n + 16))"

lemma find_from_bounds:
  assumes "find_from p t i = Some n"
  shows "i \<le> n" and "n \<le> length t" and "begins p (drop n t)"
proof -
  obtain k where k: "k < length [i..<Suc (length t)]" "n = [i..<Suc (length t)] ! k" "begins p (drop n t)"
    using assms by (auto simp: find_from_def find_Some_iff simp del: upt_Suc)
  then have "n \<in> set [i..<Suc (length t)]" using nth_mem by blast
  then show "i \<le> n" and "n \<le> length t" and "begins p (drop n t)" using k(3) by (simp_all del: upt_Suc)
qed

lemma begins_length: "begins p t \<Longrightarrow> length p \<le> length t"
  by (auto simp: begins_def dest: arg_cong [of _ _ length])

lemma find_from_within: "find_from p t i = Some n \<Longrightarrow> i + length p \<le> n + length p \<and> n + length p \<le> length t"
  using find_from_bounds [of p t i n] begins_length [of p "drop n t"] by (cases "n \<le> length t") auto

lemma line_end_ge: "i \<le> length t \<Longrightarrow> i \<le> line_end_from t i \<and> line_end_from t i \<le> length t"
  using find_from_bounds [of "[10]" t i] by (auto simp: line_end_from_def split: option.splits)

text \<open>A mark has no line feed, so the end of its line is behind its start.\<close>

lemma line_end_gt:
  assumes "find_from p t i = Some n" and "p \<noteq> []" and "hd p \<noteq> 10"
  shows "n < line_end_from t n"
proof -
  have w: "n + length p \<le> length t" "begins p (drop n t)"
    using find_from_within [OF assms(1)] find_from_bounds [OF assms(1)] by auto
  then have n: "n < length t" using assms(2) by (cases p) auto
  have "t ! n = hd p"
    using w(2) n assms(2) by (cases p) (auto simp: begins_def take_Suc hd_drop_conv_nth split: list.splits)
  then have "\<not> begins [10] (drop n t)"
    using n assms(3) by (auto simp: begins_def take_Suc hd_drop_conv_nth)
  then have "line_end_from t n \<noteq> n"
    using n find_from_bounds(3) [of "[10]" t n n] by (auto simp: line_end_from_def split: option.splits)
  then show ?thesis using line_end_ge [of n t] n by simp
qed

lemma key_end_ge: "i \<le> length u \<Longrightarrow> i \<le> key_end u i \<and> key_end u i \<le> length u"
proof -
  assume i: "i \<le> length u"
  show ?thesis
  proof (cases "find_from (code_of ''-----END'') u i")
    case None
    then show ?thesis using i by (simp add: key_end_def)
  next
    case (Some m)
    then have m: "i \<le> m" "m \<le> length u" using find_from_bounds by auto
    show ?thesis
    proof (cases "find_from (code_of ''PRIVATE KEY-----'') (take (line_end_from u m) u) m")
      case None
      then show ?thesis using Some i by (simp add: key_end_def)
    next
      case (Some n)
      from find_from_within [OF Some] have "m \<le> n" "n + 16 \<le> length u" by (simp_all add: code_of_def)
      then show ?thesis using m Some \<open>find_from (code_of ''-----END'') u i = _\<close> by (simp add: key_end_def)
    qed
  qed
qed

text \<open>\<open>private_key_spans\<close>, from a position on.\<close>

function private_spans :: "code_points \<Rightarrow> nat \<Rightarrow> redaction list" where
  "private_spans upper i =
     (case find_from (code_of ''-----BEGIN'') upper i of
        None \<Rightarrow> []
      | Some a \<Rightarrow>
          (let e = line_end_from upper a in
           if find_from (code_of ''PRIVATE KEY-----'') (take e upper) a = None then private_spans upper e
           else (let b = key_end upper e in
                 \<lparr>span_start = a, span_end = b, replacement = code_of ''[redacted private key]''\<rparr> # private_spans upper b)))"
  by pat_completeness auto
termination
proof (relation "measure (\<lambda>(u, i). Suc (length u) - i)"; (clarsimp)?)
  fix u i a
  assume a: "find_from (code_of ''-----BEGIN'') u i = Some a"
  have "a < line_end_from u a" using line_end_gt [OF a] by (simp add: code_of_def)
  moreover have "i \<le> a" "a \<le> length u" using find_from_bounds [OF a] by auto
  ultimately show "Suc (length u) - line_end_from u a < Suc (length u) - i" by simp
next
  fix u i a y
  assume a: "find_from (code_of ''-----BEGIN'') u i = Some a"
  have "a < line_end_from u a" using line_end_gt [OF a] by (simp add: code_of_def)
  moreover have "i \<le> a" "a \<le> length u" using find_from_bounds [OF a] by auto
  moreover have "line_end_from u a \<le> key_end u (line_end_from u a)"
    using key_end_ge line_end_ge [of a u] \<open>a \<le> length u\<close> by blast
  ultimately show "Suc (length u) - key_end u (line_end_from u a) < Suc (length u) - i" by simp
qed

declare private_spans.simps [simp del]

definition private_key_spans :: "code_points \<Rightarrow> redaction list" where
  "private_key_spans t = private_spans (ascii_upper t) 0"

text \<open>Where the value of a label starts: behind the separator, and behind the scheme of an authorization.\<close>

definition value_start :: "code_points \<Rightarrow> code_points \<Rightarrow> bool \<Rightarrow> nat \<Rightarrow> nat" where
  "value_start t label assignment separator =
     (let v = skip_whitespace t (if assignment then separator + 1 else separator) in
      if assignment \<and> ends (code_of ''authorization'') (ascii_lower label)
      then (case label_at t v of
              Some (scheme, e) \<Rightarrow>
                if ascii_lower scheme \<in> {code_of ''bearer'', code_of ''basic'', code_of ''token''} \<and> skip_whitespace t e > e
                then skip_whitespace t e else v
            | None \<Rightarrow> v)
      else v)"

definition labelled_value :: "code_points \<Rightarrow> code_points \<Rightarrow> nat \<Rightarrow> (nat \<times> nat) option" where
  "labelled_value t label label_end =
     (let separator = skip_whitespace t label_end;
          bare_bearer = (ascii_lower label = code_of ''bearer'' \<and> separator > label_end);
          assignment = (is_secret_label label
            \<and> (case char_at t separator of Some c \<Rightarrow> c = 61 \<or> c = 58 | None \<Rightarrow> False)) in
      if assignment \<or> bare_bearer then secret_value_span t (value_start t label assignment separator) else None)"

lemma label_at_gt: "label_at t i = Some (label, e) \<Longrightarrow> i < e"
  by (auto simp: label_at_def Let_def split: option.splits if_splits)

lemma skip_ge: "i \<le> skip_whitespace t i"
  by (simp add: skip_whitespace_def)

lemma value_start_ge: "separator \<le> value_start t label assignment separator"
proof -
  have v: "separator \<le> skip_whitespace t (if assignment then separator + 1 else separator)"
    using skip_ge [of separator t] skip_ge [of "separator + 1" t] by auto
  then show ?thesis
    using label_at_gt [of t "skip_whitespace t (if assignment then separator + 1 else separator)"] skip_ge
    by (auto simp: value_start_def Let_def split: option.splits)
qed

lemma secret_value_ge: "secret_value_span t i = Some (a, b) \<Longrightarrow> i \<le> a \<and> a \<le> b"
  by (auto simp: secret_value_span_def char_at_def Let_def split: option.splits if_splits)

lemma labelled_value_ge: "labelled_value t label e = Some (a, b) \<Longrightarrow> e \<le> a \<and> a \<le> b"
  using secret_value_ge value_start_ge skip_ge
  by (auto simp: labelled_value_def Let_def split: if_splits) (meson le_trans)+

text \<open>The two scans of \<open>redact_secrets\<close>.\<close>

function label_spans :: "code_points \<Rightarrow> nat \<Rightarrow> redaction list" where
  "label_spans t i =
     (if i \<ge> length t then []
      else (case label_at t i of
              None \<Rightarrow> label_spans t (i + 1)
            | Some (label, e) \<Rightarrow>
                (case labelled_value t label e of
                   Some (a, b) \<Rightarrow> redacted a b # label_spans t b
                 | None \<Rightarrow> label_spans t e)))"
  by pat_completeness auto
termination
  by (relation "measure (\<lambda>(t, i). length t - i)")
    (auto dest!: label_at_gt labelled_value_ge)

declare label_spans.simps [simp del]

function token_spans :: "code_points \<Rightarrow> nat \<Rightarrow> redaction list" where
  "token_spans t i =
     (if i \<ge> length t then []
      else if token_end t i > i
      then (if looks_like_secret (take (token_end t i - i) (drop i t)) then [redacted i (token_end t i)] else [])
        @ token_spans t (token_end t i)
      else token_spans t (i + 1))"
  by pat_completeness auto
termination
  by (relation "measure (\<lambda>(t, i). length t - i)") auto

declare token_spans.simps [simp del]

definition found_spans :: "code_points \<Rightarrow> redaction list" where
  "found_spans t = private_key_spans t @ label_spans t 0 @ token_spans t 0"

definition order_spans :: "redaction list \<Rightarrow> redaction list" where
  "order_spans = sort_key (\<lambda>s. (span_start s, - int (span_end s)))"

fun merge_into :: "redaction \<Rightarrow> redaction list \<Rightarrow> redaction list" where
  "merge_into cur [] = [cur]"
| "merge_into cur (s # ss) =
     (if span_start s < span_end cur then merge_into (cur\<lparr>span_end := max (span_end cur) (span_end s)\<rparr>) ss
      else cur # merge_into s ss)"

definition merge_spans :: "redaction list \<Rightarrow> redaction list" where
  "merge_spans ss = (case ss of [] \<Rightarrow> [] | s # rest \<Rightarrow> merge_into s rest)"

fun copy_around :: "code_points \<Rightarrow> nat \<Rightarrow> redaction list \<Rightarrow> code_points" where
  "copy_around t copied [] = drop copied t"
| "copy_around t copied (s # ss) =
     take (span_start s - copied) (drop copied t) @ replacement s @ copy_around t (span_end s) ss"

definition redact_secrets :: "code_points \<Rightarrow> code_points" where
  "redact_secrets t = copy_around t 0 (merge_spans (order_spans (found_spans t)))"

definition prepare_content :: "code_points \<Rightarrow> code_points" where
  "prepare_content t = redact_secrets (strip_invisible t)"

end
