(* ===== verification/RedactionSafety.thy ===== *)
theory RedactionSafety
  imports Redaction
begin

text \<open>
  What redaction does to a text: its spans lie within it, merging keeps what they cover and makes
  them disjoint, and the result is the text outside of them with one mark for each.
\<close>

section \<open>Spans within the text\<close>

definition span_ok :: "nat \<Rightarrow> redaction \<Rightarrow> bool" where
  "span_ok n s \<longleftrightarrow> span_start s \<le> span_end s \<and> span_end s \<le> n"

lemma private_spans_ok: "list_all (span_ok (length u)) (private_spans u i)"
proof (induction u i rule: private_spans.induct)
  case (1 u i)
  show ?case
  proof (cases "find_from (code_of ''-----BEGIN'') u i")
    case None
    then show ?thesis by (simp add: private_spans.simps)
  next
    case (Some a)
    let ?e = "line_end_from u a"
    have "a \<le> length u" using find_from_bounds [OF Some] by simp
    then have "a \<le> ?e" "?e \<le> key_end u ?e" "key_end u ?e \<le> length u"
      using line_end_ge [of a u] key_end_ge [of ?e u] by auto
    then have "span_ok (length u) \<lparr>span_start = a, span_end = key_end u ?e, replacement = m\<rparr>" for m
      by (simp add: span_ok_def)
    then show ?thesis using 1 [OF Some refl] Some
      by (subst private_spans.simps) (auto simp: Let_def)
  qed
qed

lemma secret_value_within: "secret_value_span t i = Some (a, b) \<Longrightarrow> b \<le> length t"
proof -
  assume v: "secret_value_span t i = Some (a, b)"
  have close: "value_close q esc cs = Some n \<Longrightarrow> n \<le> length cs" for q esc cs n
    by (induction q esc cs arbitrary: n rule: value_close.induct) (auto split: if_splits)
  have "length (takeWhile (\<lambda>c. \<not> value_end c) (drop i t)) \<le> length (drop i t)" by (rule length_takeWhile_le)
  then show ?thesis
    using v begins_length [of "code_of ''[redacted]''" "drop i t"] close [of _ False "drop (i + 1) t"]
    by (fastforce simp: secret_value_span_def char_at_def Let_def code_of_def split: option.splits if_splits)
qed

lemma label_spans_ok: "list_all (span_ok (length t)) (label_spans t i)"
proof (induction t i rule: label_spans.induct)
  case (1 t i)
  show ?case
  proof (cases "i \<ge> length t")
    case True
    then show ?thesis by (simp add: label_spans.simps)
  next
    case in_text: False
    show ?thesis
    proof (cases "label_at t i")
      case None
      then show ?thesis using 1(1) [OF in_text] in_text by (subst label_spans.simps) simp
    next
      case (Some le)
      obtain label e where l: "label_at t i = Some (label, e)" using Some by (cases le) auto
      show ?thesis
      proof (cases "labelled_value t label e")
        case None
        then show ?thesis using 1(2) [OF in_text l refl None] in_text l by (subst label_spans.simps) simp
      next
        case (Some ab)
        obtain a b where v: "labelled_value t label e = Some (a, b)" using Some by (cases ab) auto
        have "a \<le> b" "b \<le> length t"
          using labelled_value_ge [OF v] secret_value_within v
          by (auto simp: labelled_value_def Let_def split: if_splits)
        then have "span_ok (length t) (redacted a b)" by (simp add: span_ok_def redacted_def)
        then show ?thesis using 1(3) [OF in_text l refl v refl] in_text l v
          by (subst label_spans.simps) simp
      qed
    qed
  qed
qed

lemma token_len_le: "token_len url cs \<le> length cs"
  by (induction url cs rule: token_len.induct) (auto simp: Let_def)

lemma token_spans_ok: "list_all (span_ok (length t)) (token_spans t i)"
proof (induction t i rule: token_spans.induct)
  case (1 t i)
  show ?case
  proof (cases "i \<ge> length t")
    case True
    then show ?thesis by (simp add: token_spans.simps)
  next
    case False
    have "token_end t i \<le> length t"
      using token_len_le [of False "drop i t"] False by (simp add: token_end_def)
    then have "token_end t i > i \<Longrightarrow> span_ok (length t) (redacted i (token_end t i))"
      by (simp add: span_ok_def redacted_def)
    then show ?thesis using 1 False by (subst token_spans.simps) (auto simp: Let_def)
  qed
qed

lemma found_spans_ok: "list_all (span_ok (length t)) (found_spans t)"
  using private_spans_ok [of "ascii_upper t" 0] label_spans_ok token_spans_ok
  by (simp add: found_spans_def private_key_spans_def ascii_upper_def)

section \<open>Merging\<close>

definition covered :: "redaction list \<Rightarrow> nat set" where
  "covered ss = (\<Union>s \<in> set ss. {span_start s..<span_end s})"

lemma covered_simps [simp]: "covered [] = {}" "covered (s # ss) = {span_start s..<span_end s} \<union> covered ss"
  "covered (ss @ ts) = covered ss \<union> covered ts"
  by (auto simp: covered_def)

text \<open>Disjoint, in order and within the text.\<close>

fun chained :: "nat \<Rightarrow> nat \<Rightarrow> redaction list \<Rightarrow> bool" where
  "chained n c [] \<longleftrightarrow> c \<le> n"
| "chained n c (s # ss) \<longleftrightarrow> c \<le> span_start s \<and> span_start s \<le> span_end s \<and> chained n (span_end s) ss"

lemma chained_bound: "chained n c ss \<Longrightarrow> c \<le> n"
  by (induction ss arbitrary: c) fastforce+

lemma chained_weaken: "chained n c ss \<Longrightarrow> d \<le> c \<Longrightarrow> chained n d ss"
  by (cases ss) auto

definition tag :: "redaction \<Rightarrow> nat \<times> code_points" where
  "tag s = (span_start s, replacement s)"

lemma merge_into_ok:
  assumes "span_ok n cur" and "list_all (span_ok n) ss" and "sorted (map span_start (cur # ss))"
  shows "chained n (span_start cur) (merge_into cur ss) \<and> covered (merge_into cur ss) = covered (cur # ss)
    \<and> tag ` set (merge_into cur ss) \<subseteq> tag ` set (cur # ss)"
  using assms
proof (induction cur ss rule: merge_into.induct)
  case (1 cur)
  then show ?case by (simp add: span_ok_def)
next
  case (2 cur s ss)
  show ?case
  proof (cases "span_start s < span_end cur")
    case True
    let ?c = "cur\<lparr>span_end := max (span_end cur) (span_end s)\<rparr>"
    have "{span_start cur..<max (span_end cur) (span_end s)} = {span_start cur..<span_end cur} \<union> {span_start s..<span_end s}"
      using True 2(4,5) by auto
    moreover have "tag ?c = tag cur" by (simp add: tag_def)
    moreover have "span_ok n ?c" using 2(3,4) by (auto simp: span_ok_def)
    ultimately show ?thesis using 2(1) [OF True] 2(4,5) True by (auto simp: Un_assoc)
  next
    case False
    then show ?thesis using 2(2) [OF False] 2(3,4,5) by (auto simp: span_ok_def intro: chained_weaken)
  qed
qed

lemma merge_spans_ok:
  assumes "list_all (span_ok n) ss" and "sorted (map span_start ss)"
  shows "chained n 0 (merge_spans ss) \<and> covered (merge_spans ss) = covered ss \<and> tag ` set (merge_spans ss) \<subseteq> tag ` set ss"
proof (cases ss)
  case Nil
  then show ?thesis by (simp add: merge_spans_def)
next
  case (Cons s rest)
  then show ?thesis using merge_into_ok [of n s rest] assms chained_weaken
    by (auto simp: merge_spans_def)
qed

lemma order_spans_facts:
  "set (order_spans ss) = set ss" "sorted (map span_start (order_spans ss))" "covered (order_spans ss) = covered ss"
proof -
  show s: "set (order_spans ss) = set ss" by (simp add: order_spans_def)
  have "sorted (map (\<lambda>s. (span_start s, - int (span_end s))) (order_spans ss))"
    by (simp add: order_spans_def)
  then show "sorted (map span_start (order_spans ss))"
    by (fastforce simp: sorted_iff_nth_mono less_eq_prod_def)
  show "covered (order_spans ss) = covered ss" by (simp add: covered_def s)
qed

section \<open>The text around the spans\<close>

text \<open>What becomes of a position: the marks of the spans that start there, then its character if no span covers it.\<close>

definition at_position :: "code_points \<Rightarrow> redaction list \<Rightarrow> nat \<Rightarrow> code_points" where
  "at_position t ss i =
     concat (map replacement (filter (\<lambda>s. span_start s = i) ss)) @ (if i \<in> covered ss then [] else take 1 (drop i t))"

lemma copy_plain: "concat (map (\<lambda>i. take 1 (drop i t)) [c..<c + k]) = take k (drop c t)"
proof (induction k)
  case (Suc k)
  have "take (Suc k) (drop c t) = take k (drop c t) @ take 1 (drop (c + k) t)"
    by (metis Suc_eq_plus1 add.commute drop_drop take_add)
  then show ?case using Suc by simp
qed simp

lemma chained_starts: "chained n c ss \<Longrightarrow> s \<in> set ss \<Longrightarrow> c \<le> span_start s"
  by (induction ss arbitrary: c) fastforce+

lemma chained_covered: "chained n c ss \<Longrightarrow> i < c \<Longrightarrow> i \<notin> covered ss"
  using chained_starts [of n c ss] by (fastforce simp: covered_def)

lemma copy_around_spec:
  "chained (length t) c ss \<Longrightarrow> copy_around t c ss = concat (map (at_position t ss) [c..<Suc (length t)])"
proof (induction ss arbitrary: c)
  case Nil
  have "at_position t [] = (\<lambda>i. take 1 (drop i t))" by (auto simp: at_position_def)
  then show ?case using Nil copy_plain [of t c "Suc (length t) - c"] by (simp del: upt_Suc)
next
  case (Cons s ss)
  let ?a = "span_start s" and ?b = "span_end s" and ?n = "length t"
  have c: "c \<le> ?a" "?a \<le> ?b" "chained ?n ?b ss" "?b \<le> ?n"
    using Cons(2) chained_bound by auto
  have parts: "[c..<Suc ?n] = [c..<?a] @ [?a..<?b] @ [?b..<Suc ?n]"
    using c upt_add_eq_append [of c ?a "Suc ?n - ?a"] upt_add_eq_append [of ?a ?b "Suc ?n - ?b"] by simp
  have ahead: "at_position t (s # ss) i = take 1 (drop i t)" if "i < ?a" for i
    using that c chained_starts [OF c(3)] chained_covered [OF c(3), of i]
    by (fastforce simp: at_position_def filter_empty_conv)
  have within: "at_position t (s # ss) i = (if i = ?a then replacement s else [])" if "?a \<le> i" "i < ?b" for i
    using that chained_starts [OF c(3)] by (fastforce simp: at_position_def filter_empty_conv)
  have behind: "at_position t (s # ss) i = (if i = ?a then replacement s else []) @ at_position t ss i" if "?b \<le> i" for i
    using that by (auto simp: at_position_def)
  have one: "concat (map (at_position t (s # ss)) [c..<?a]) = take (?a - c) (drop c t)"
  proof -
    have "map (at_position t (s # ss)) [c..<?a] = map (\<lambda>i. take 1 (drop i t)) [c..<?a]"
      using ahead by (intro map_cong refl) simp
    then show ?thesis using copy_plain [of t c "?a - c"] c(1)
      by (simp only: le_add_diff_inverse)
  qed
  have two: "concat (map (at_position t (s # ss)) ([?a..<?b] @ [?b..<Suc ?n]))
      = replacement s @ concat (map (at_position t ss) [?b..<Suc ?n])"
  proof (cases "?a = ?b")
    case True
    have l: "[?b..<Suc ?n] = ?b # [Suc ?b..<Suc ?n]" using c(4) by (intro upt_conv_Cons) simp
    have "concat (map (at_position t (s # ss)) [Suc ?b..<Suc ?n]) = concat (map (at_position t ss) [Suc ?b..<Suc ?n])"
      by (intro arg_cong [of _ _ concat] map_cong refl) (auto simp: behind True)
    then show ?thesis using behind [of ?b] True by (simp add: l del: upt_Suc)
  next
    case False
    have l: "[?a..<?b] = ?a # [Suc ?a..<?b]" using False c(2) by (intro upt_conv_Cons) simp
    have "concat (map (at_position t (s # ss)) [Suc ?a..<?b]) = []"
      using within by (auto simp: concat_eq_Nil_conv)
    moreover have "concat (map (at_position t (s # ss)) [?b..<Suc ?n]) = concat (map (at_position t ss) [?b..<Suc ?n])"
      by (intro arg_cong [of _ _ concat] map_cong refl) (use behind False c(2) in auto)
    ultimately show ?thesis using within [of ?a] False c(2) by (simp add: l del: upt_Suc)
  qed
  show ?case using one two Cons(1) [OF c(3)] by (simp add: parts del: upt_Suc)
qed

text \<open>
  C33: Redaction changes only the spans it found. For every text there are disjoint spans in order,
  which cover exactly the characters of the found spans and start with their marks, so that
  the result is, position by position, the marks of the spans that start there and then the
  character, unless a found span covers it. So no character of a found secret survives, no
  other character is lost, moved or changed, and overlapping finds give one mark.\<close>
theorem redaction_changes_only_spans:
  "\<exists>ss. chained (length t) 0 ss \<and> covered ss = covered (found_spans t)
     \<and> tag ` set ss \<subseteq> tag ` set (found_spans t)
     \<and> redact_secrets t = concat (map (at_position t ss) [0..<Suc (length t)])"
proof -
  let ?ss = "merge_spans (order_spans (found_spans t))"
  have "list_all (span_ok (length t)) (order_spans (found_spans t))"
    using found_spans_ok [of t] order_spans_facts(1) [of "found_spans t"] by (simp add: list_all_iff)
  from merge_spans_ok [OF this order_spans_facts(2)]
  have m: "chained (length t) 0 ?ss" "covered ?ss = covered (found_spans t)"
    "tag ` set ?ss \<subseteq> tag ` set (found_spans t)"
    by (simp_all add: order_spans_facts)
  then show ?thesis using copy_around_spec [OF m(1)] by (auto simp: redact_secrets_def simp del: upt_Suc)
qed

section \<open>An example and a gap\<close>

lemmas redaction_defs = label_at_def char_at_def quote_char_def label_char_def labelled_value_def skip_whitespace_def
  white_space_def is_secret_label_def ascii_lower_def secret_names_def code_of_def ends_def value_start_def
  secret_value_span_def begins_def value_end_def

text \<open>An example: the value goes, what follows it stays.\<close>

lemma labelled_password_is_redacted:
  "redact_secrets (code_of ''pwd=ab,c'') = code_of ''pwd=[redacted],c''"
proof -
  let ?t = "[112, 119, 100, 61, 97, 98, 44, 99] :: nat list"
  have "code_of ''pwd=ab,c'' = ?t" by code_simp
  moreover have "private_key_spans ?t = []" by code_simp
  moreover have "label_spans ?t 0 = [redacted 4 6]"
    by (simp add: label_spans.simps redaction_defs Let_def) (simp add: numeral_eq_Suc)
  moreover have "token_spans ?t 0 = []"
    by (simp add: token_spans.simps token_end_def redaction_defs looks_like_secret_def utf8_size_def)
  moreover have "copy_around ?t 0 (merge_spans (order_spans [redacted 4 6])) = code_of ''pwd=[redacted],c''"
    by code_simp
  ultimately show ?thesis by (simp add: redact_secrets_def found_spans_def)
qed

text \<open>
  A value that itself begins with the mark keeps what follows it: only the mark is its span.
\<close>

lemma marked_value_is_kept:
  assumes "begins (code_of ''[redacted]'') (drop i t)"
  shows "secret_value_span t i = Some (i, i + 10)"
proof -
  have "i < length t" using begins_length [OF assms] by (cases "i < length t") (auto simp: code_of_def)
  then show ?thesis using assms by (simp add: secret_value_span_def char_at_def)
qed

end
