(* ===== verification/Spec2Isabelle.thy ===== *)
theory Spec2Isabelle
  imports ScrollbackLog HookAuthority DaemonProtocol Retirement DaemonConnection BrokerDemo InputDelivery AgentStream
    HistoryProgress PersistenceQueue RunLeaseSafety DurableDemo SplitTree FlowControl
    RemoteDemo ClientConnection DiffRoundtrip RedactionSafety
begin

text \<open>
  Verification library of the terminal canvas (\<open>src/\<close>, a Rust application).

  The program is a canvas of terminals whose shells outlive the window. A daemon owns the
  pseudo terminals; the window is one of its clients over a local socket. Output is logged
  incrementally to disk, agents in the shells report through hooks, and a workspace can be shared with
  guests through a broker. The library models the parts that keep data and authority:

  \<^bold>\<open>Shared ground.\<close> \<open>Prelude\<close> has the words, the results (\<open>and_then\<close>, \<open>reject_if\<close>), association lists under
  the locale \<open>keyed_store\<close> and the locales \<open>guarded_machine\<close> and \<open>guarded_relation\<close>, in which a state machine
  keeps its invariant; every machine below interprets one of them. \<open>Utf8\<close> and \<open>TextOps\<close> are Rust's \<open>str\<close>.

  \<^bold>\<open>Durable output.\<close> \<open>ScrollbackLog\<close> is \<open>src/src/state/scrollback_log.rs\<close>: the frame format, the tolerant
  reader, appends with roll back and the generation in a header. Its lemmas show round trips, what a torn
  file reads as and that a failed append loses nothing. \<open>PtyLog\<close> holds the log of a pseudo terminal before
  it is durable (\<open>src/src/terminal/pty.rs\<close>), \<open>ReaderRetirement\<close> the handshake between its reader and the
  thread that retires it (\<open>reader_retirement.rs\<close>), \<open>DaemonSession\<close> a session of the daemon with pump,
  attachment, checkpoint and retirement (\<open>src/src/daemon/server.rs\<close>). \<open>Retirement\<close> composes them: over every
  interleaving no frame is lost, duplicated or reordered, and a killed session is removed only when all
  of its output is durable, whatever the reader does between the steps of a retirement.

  \<^bold>\<open>Durable histories.\<close> \<open>HistoryStore\<close> is the history of a leaf on disk: a checkpoint, a generation and a log
  (\<open>src/src/state/scrollback_store.rs\<close> and its readers in \<open>app.rs\<close>). \<open>HistoryWorker\<close> is the thread that writes
  it (\<open>src/src/app/persistence_worker.rs\<close>): batches, checkpoints, rescues, pruning and startup captures, with the
  outcome of every call to the file system chosen by the environment; a crash is a failed write with a failed
  rollback followed by a restart. \<open>HistoryRefinement\<close> shows that each round is one step of an abstract
  history (a text and a list of frame contents), \<open>HistoryRuns\<close> that whole runs restore what they
  acknowledged, \<open>HistorySafety\<close> what is never touched, \<open>HistoryProgress\<close> that healthy writes are accepted.
  \<open>PersistenceQueue\<close> is the window's side of the thread, with its channel, its flags and the wait at close.
  The uuid crate enters as \<open>simple\<close> and \<open>parse\<close> under the law \<open>uuid_text\<close>, which its printed form satisfies
  (\<open>hex_uuid_text\<close>).

  \<^bold>\<open>The lease of a run.\<close> \<open>RunLease\<close> is \<open>src/src/state/run_marker.rs\<close>: the marker that tells a clean end from a
  sudden death, whose token is a lease that the newest instance takes over, and the lock under which it
  changes. \<open>RunLeaseSafety\<close> lets any number of instances begin, write, end and die in any order, with
  torn writes of the marker.

  \<^bold>\<open>Durable writes.\<close> \<open>DurableWrite\<close> is \<open>src/src/state/durable_write.rs\<close>: the writers of state files, which
  give the operations they perform on a directory in order. \<open>DurableWriteSafety\<close> lets a crash fall between any
  two of them and lose what was not synced, \<open>DurablePrivacy\<close> follows the permissions, \<open>DurableDemo\<close> writes a
  small file. The operations on the directory are taken to become durable in their order.

  \<^bold>\<open>The daemon.\<close> \<open>DaemonProtocol\<close> is the line protocol with its limits and budgets (\<open>src/src/daemon/protocol.rs\<close>).
  \<open>DaemonServer\<close> defines the registry and the handler of every request, \<open>DaemonRegistry\<close> proves what it
  promises about identities (one shell per identity, tombstones, foreign sessions), \<open>DaemonDelivery\<close> what it
  promises about events, queues, clients and shutdown, \<open>DaemonConnection\<close> serves one connection from its
  handshake to its cleanup. A client's machine starts from a fresh registry and takes any sequence of
  requests, connections, pumps and checkpoints.

  \<^bold>\<open>Hooks.\<close> \<open>HookAuthority\<close> is \<open>src/src/hook_authority.rs\<close>: which agent may act for which terminal, with gates,
  tickets, permits and fences, over every interleaving of its lock sections.

  \<^bold>\<open>Collaboration.\<close> \<open>Broker\<close> is \<open>src/src/collab/broker.rs\<close> and \<open>auth.rs\<close>. \<open>BrokerSafety\<close> makes it a machine and
  bounds it, \<open>BrokerAuthority\<close> proves who can approve a guest and that a denial is final, \<open>BrokerRelay\<close> where
  relayed data may go, \<open>BrokerDemo\<close> lives through a session.

  \<^bold>\<open>The window's side of the daemon.\<close> \<open>DaemonClient\<close> is \<open>src/src/daemon/sessions.rs\<close>: requests, the recovery of a
  session with its refusals, the strict attachment and the fenced closing; \<open>ClientConnection\<close> the
  long-lived connection of \<open>client.rs\<close>, whose answers pair up with the requests. \<open>RemoteLease\<close> is the
  recovery of one session in \<open>src/src/runtime/pty_manager.rs\<close>: the lease that window and recovery thread
  share, the submission, the job with its attempt at the daemon and its local fallback, and closing. The
  attempts are those of \<open>DaemonClient\<close>, so what a refusal proves there is what admits a local shell
  here. \<open>RemoteLeaseSafety\<close> shows that no identity gets a local shell after a request to spawn it,
  \<open>RemoteClosing\<close> that a killed lease is forgotten only after the daemon's confirmation, and \<open>RemoteDemo\<close> runs
  the sessions, one of them the exception: a local handle that the queue refuses to take back.

  \<^bold>\<open>Panels.\<close> \<open>SplitTree\<close> is \<open>src/src/terminal/split_tree.rs\<close>, with coordinates and ratios as parameters;
  \<open>FlowControl\<close> is \<open>src/src/terminal/flow_control.rs\<close> and the round of the reader's loop that asks it.

  \<^bold>\<open>Terminal streams.\<close> \<open>InputWriter\<close> is the bounded input queue and its worker (\<open>input_writer.rs\<close>),
  \<open>InputDelivery\<close> its refinement of a pipe in which inputs wait, are passed on and are cancelled, its budget
  and its progress. \<open>AgentStatus\<close> is the stream that
  intercepts agent metadata (\<open>agent_status.rs\<close>), \<open>AgentStream\<close> its independence of chunks, its bounds and its
  round trip.

  \<^bold>\<open>Reviews.\<close> \<open>UnifiedDiff\<close> is the parser of diffs in \<open>src/src/orchestration/code_diff.rs\<close>; \<open>DiffRoundtrip\<close> has the
  form in which git prints a diff (changes of mode, renames, copies, binary notices and patches included,
  combined diffs not) and shows that every such text reads back, but for the carriage return that ends a
  line, which \<open>str::lines\<close> drops. \<open>TextWords\<close> holds words and
  decimal numbers for it and for the lease.

  \<^bold>\<open>Redaction.\<close> \<open>Redaction\<close> is \<open>src/src/memory/redaction.rs\<close>, which takes secrets out of what the memory
  keeps, over code points; \<open>RedactionSafety\<close> shows that the result is the text outside the found spans
  with a mark for each merged span.

  \<^bold>\<open>Correspondence.\<close> A Rust struct is a record with its fields, an enum a datatype, \<open>Result\<close> a sum with the
  error on the left, a hash map an association list with distinct keys whose order stands for the
  iteration order. Strings are their UTF-8 bytes. Counters keep their width where they can wrap
  (\<open>u64\<close> sequence numbers and epochs are words); lengths are natural numbers, because no machine holds
  as many bytes as would overflow \<open>usize\<close>. Clocks, random identifiers, the file system, the operating
  system's reads and writes, the JSON, PHC and MessagePack codecs and Argon2 are parameters; a property
  that needs one of their laws states it for the values at hand.

  \<^bold>\<open>Interleavings.\<close> One event of a machine is one section under the lock of the code, with two
  coarsenings in the broker, where nothing else touches what the section reads in between: the
  registration of a socket includes the greeting that follows it, and a message includes the mark of
  activity before it. The threads of the reader and of the input queue are phases of their own, one per
  lock section or system call. A retirement (\<open>capture_retirement\<close>) holds the session but not its reader:
  in \<open>Retirement\<close> it is a call of four steps between which the reader acts, in the registry one call whose
  surroundings say what the reader does before each step. Two more coarsenings: the local factory of a
  session starts in the step that looks for a retirement (its return is a step of its own), and the
  replies to a connection's own requests are not events of its bounded channel in \<open>DaemonDelivery\<close>. Loops of the daemon that serve until a connection ends have fuel in
  \<open>serve_connection\<close>: one unit per input line, so a run over \<open>n\<close> lines needs \<open>n + 1\<close>; the theorems hold for
  every fuel.

  \<^bold>\<open>Not modelled.\<close> The user interface (\<open>app\<close>, \<open>canvas\<close>, \<open>sidebar\<close>, \<open>panel\<close>, \<open>theme\<close>, the renderer), the Ghostty
  and Alacritty back ends, which are bindings of terminal emulators, the SQL of the memory and
  conversation stores, HTTP clients, the updater's downloads and the launching of processes: their
  behaviour is that of libraries and of the operating system. Of the window's list of sessions the
  pending input, the update scheduler and the synchronous creator are left out, and of the client the
  opening of sockets. The file formats of the workspace, the orchestration of agents over git (but for its diffs) and
  the manager of a shared workspace have logic of their own and are not covered either.\<close>

end
